(* ===== verification/Prelude.thy ===== *)
theory Prelude
  imports Main "HOL-Library.Word" "HOL-Library.List_Lexorder" "HOL-Library.Char_ord"
    "HOL-Library.Sublist"
begin

text \<open>
  The parts of the C++ standard library that several components of the framework use, and the
  generic facts about them: character classes of the C locale, \<open>std::string\<close> searching,
  \<open>std::getline\<close> and \<open>operator>>\<close> on string streams, \<open>std::stoul\<close> and
  \<open>std::to_string\<close>, and \<open>std::map\<close> as an association list kept in key order behind the
  interface \<open>ordered_map\<close>. A \<open>std::string\<close> is a \<^typ>\<open>string\<close> (a list of 8-bit characters,
  ordered as \<open>char_traits<char>\<close> orders them), a \<open>std::vector<std::uint8_t>\<close> or a span of
  \<open>std::byte\<close> a list of 8-bit words, a \<open>std::size_t\<close> that counts elements a \<^typ>\<open>nat\<close>; where an
  addition of \<open>size_t\<close> values can wrap, the wrap-around is written out.
\<close>

unbundle bit_operations_syntax

named_theorems cstring \<open>facts about the modelled string functions\<close>
named_theorems inv_step \<open>one operation keeps the invariant of its component\<close>

type_synonym byte = "8 word"
type_synonym u32 = "32 word"
type_synonym u64 = "64 word"


section \<open>Lists\<close>

lemma takeWhile_append_stop:
  "\<forall>x \<in> set xs. P x \<Longrightarrow> \<not> P y \<Longrightarrow> takeWhile P (xs @ y # ys) = xs"
  by (induction xs) auto

lemma dropWhile_append_stop:
  "\<forall>x \<in> set xs. P x \<Longrightarrow> \<not> P y \<Longrightarrow> dropWhile P (xs @ y # ys) = y # ys"
  by (induction xs) auto

lemma dropWhile_id: "xs = [] \<or> \<not> P (hd xs) \<Longrightarrow> dropWhile P xs = xs"
  by (cases xs) auto

text \<open>\<open>std::remove\<close> with \<open>erase\<close>: every occurrence goes, the order of the rest stays.\<close>

abbreviation erase_all :: "'a \<Rightarrow> 'a list \<Rightarrow> 'a list" where
  "erase_all \<equiv> removeAll"

lemma distinct_erase_all: "distinct xs \<Longrightarrow> distinct (erase_all x xs)"
  by (simp add: distinct_removeAll)


section \<open>Characters of the C locale\<close>

abbreviation cr :: char where "cr \<equiv> CHR 0x0D"
abbreviation lf :: char where "lf \<equiv> CHR 0x0A"
abbreviation tab :: char where "tab \<equiv> CHR 0x09"
abbreviation crlf :: string where "crlf \<equiv> [cr, lf]"

text \<open>\<open>std::isspace\<close>: space, \<open>\t\<close>, \<open>\n\<close>, \<open>\v\<close>, \<open>\f\<close>, \<open>\r\<close>.\<close>

definition is_space :: "char \<Rightarrow> bool" where
  "is_space c \<longleftrightarrow> c \<in> {CHR '' '', tab, lf, CHR 0x0B, CHR 0x0C, cr}"

definition char_code :: "char \<Rightarrow> nat" where
  "char_code c = of_char c"

definition to_lower :: "char \<Rightarrow> char" where
  "to_lower c = (if 65 \<le> char_code c \<and> char_code c \<le> 90 then char_of (char_code c + 32) else c)"

definition to_upper :: "char \<Rightarrow> char" where
  "to_upper c = (if 97 \<le> char_code c \<and> char_code c \<le> 122 then char_of (char_code c - 32) else c)"

definition is_digit :: "char \<Rightarrow> bool" where
  "is_digit c \<longleftrightarrow> 48 \<le> char_code c \<and> char_code c \<le> 57"

definition is_alpha :: "char \<Rightarrow> bool" where
  "is_alpha c \<longleftrightarrow> (65 \<le> char_code c \<and> char_code c \<le> 90) \<or> (97 \<le> char_code c \<and> char_code c \<le> 122)"

lemma char_code_inject [simp]: "char_code a = char_code b \<longleftrightarrow> a = b"
  by (simp add: char_code_def)

lemma char_code_less_256 [simp]: "char_code c < 256"
  by (simp add: char_code_def)

lemma char_code_of [simp]: "n < 256 \<Longrightarrow> char_code (char_of n) = n"
  by (simp add: char_code_def)

lemma char_of_code [simp]: "char_of (char_code c) = c"
  by (simp add: char_code_def)

lemma to_lower_idem [simp]: "to_lower (to_lower c) = to_lower c"
  by (simp add: to_lower_def)

lemma to_upper_idem [simp]: "to_upper (to_upper c) = to_upper c"
proof (cases "97 \<le> char_code c \<and> char_code c \<le> 122")
  case True
  then have "char_code (char_of (char_code c - 32)) = char_code c - 32"
    by (intro char_code_of) linarith
  moreover have "\<not> 97 \<le> char_code c - 32" using True by linarith
  ultimately show ?thesis using True by (simp add: to_upper_def)
qed (auto simp: to_upper_def)


section \<open>Searching strings\<close>

text \<open>\<open>std::string::find\<close> of a character and of a string; \<open>None\<close> is \<open>npos\<close>.\<close>

fun find_char :: "char \<Rightarrow> string \<Rightarrow> nat option" where
  "find_char d [] = None"
| "find_char d (c # cs) = (if c = d then Some 0 else map_option Suc (find_char d cs))"

fun find_sub :: "string \<Rightarrow> string \<Rightarrow> nat option" where
  "find_sub p [] = (if p = [] then Some 0 else None)"
| "find_sub p (c # cs) = (if prefix p (c # cs) then Some 0 else map_option Suc (find_sub p cs))"

lemma find_char_None [cstring]: "find_char d s = None \<longleftrightarrow> d \<notin> set s"
  by (induction s) auto

lemma find_char_Some [cstring]:
  "find_char d s = Some n \<Longrightarrow> n < length s \<and> s ! n = d \<and> d \<notin> set (take n s)"
  by (induction s arbitrary: n) (auto split: if_splits)

lemma find_char_append [cstring]: "d \<notin> set s \<Longrightarrow> find_char d (s @ d # t) = Some (length s)"
  by (induction s) auto

lemma find_sub_Some [cstring]:
  "find_sub p s = Some n \<Longrightarrow> n + length p \<le> length s \<and> take (length p) (drop n s) = p"
proof (induction s arbitrary: n)
  case Nil
  then show ?case by (auto split: if_splits)
next
  case (Cons c cs)
  show ?case
  proof (cases "prefix p (c # cs)")
    case True
    with prefix_length_le [OF True] Cons.prems show ?thesis
      by (auto simp: prefix_def)
  next
    case False
    with Cons show ?thesis by auto
  qed
qed

text \<open>A match stays where it is when more input arrives behind it.\<close>

lemma find_sub_append [cstring]: "find_sub p s = Some n \<Longrightarrow> find_sub p (s @ t) = Some n"
proof (induction s arbitrary: n)
  case Nil
  then show ?case by (cases t) (auto split: if_splits)
next
  case (Cons c cs)
  show ?case
  proof (cases "prefix p (c # cs)")
    case True
    then have "prefix p ((c # cs) @ t)" by (rule prefix_prefix) 
    then show ?thesis using Cons.prems True by simp
  next
    case False
    then obtain m where m: "find_sub p cs = Some m" "n = Suc m"
      using Cons.prems by auto
    have "p \<noteq> []" using False by auto
    have len: "length p \<le> length cs" using m(1) by (auto dest: find_sub_Some)
    have "\<not> prefix p (c # cs @ t)"
    proof
      assume "prefix p (c # cs @ t)"
      moreover have "prefix (c # cs) (c # cs @ t)" by simp
      ultimately have "prefix p (c # cs)"
        using len by (metis length_Cons le_SucI prefix_length_prefix)
      with False show False ..
    qed
    with Cons.IH [OF m(1)] m(2) show ?thesis by simp
  qed
qed



section \<open>Streams: getline and word extraction\<close>

text \<open>
  \<open>while (std::getline(stream, piece, d))\<close>: the pieces of the stream up to each \<open>d\<close>. Nothing is
  produced for an empty rest, so a trailing delimiter does not give an empty last piece.
\<close>

function getlines :: "char \<Rightarrow> string \<Rightarrow> string list" where
  "getlines d s =
     (if s = [] then []
      else takeWhile (\<lambda>c. c \<noteq> d) s # getlines d (drop 1 (dropWhile (\<lambda>c. c \<noteq> d) s)))"
  by pat_completeness auto
termination
proof (relation "measure (\<lambda>(d, s). length s)", simp, clarsimp)
  fix d :: char and s :: string
  assume "s \<noteq> []"
  moreover have "length (dropWhile (\<lambda>c. c \<noteq> d) s) \<le> length s" by (rule length_dropWhile_le)
  ultimately show "length (dropWhile (\<lambda>c. c \<noteq> d) s) - Suc 0 < length s"
    by (cases s) auto
qed

declare getlines.simps [simp del]

lemma getlines_Nil [simp]: "getlines d [] = []"
  by (simp add: getlines.simps)

lemma getlines_piece [cstring]:
  "d \<notin> set p \<Longrightarrow> getlines d (p @ d # s) = p # getlines d s"
proof -
  assume "d \<notin> set p"
  then have "takeWhile (\<lambda>c. c \<noteq> d) (p @ d # s) = p" "dropWhile (\<lambda>c. c \<noteq> d) (p @ d # s) = d # s"
    by (auto intro!: takeWhile_append_stop dropWhile_append_stop)
  then show ?thesis by (subst getlines.simps) simp
qed

lemma getlines_last [cstring]: "d \<notin> set p \<Longrightarrow> p \<noteq> [] \<Longrightarrow> getlines d p = [p]"
proof -
  assume p: "d \<notin> set p" "p \<noteq> []"
  then have "takeWhile (\<lambda>c. c \<noteq> d) p = p" and drop: "dropWhile (\<lambda>c. c \<noteq> d) p = []"
    by (auto simp: takeWhile_eq_all_conv dropWhile_eq_Nil_conv)
  with p show ?thesis by (subst getlines.simps) (simp add: drop)
qed

lemma getlines_concat [cstring]:
  "\<forall>p \<in> set ps. d \<notin> set p \<Longrightarrow> getlines d (concat (map (\<lambda>p. p @ [d]) ps) @ s) = ps @ getlines d s"
  by (induction ps) (auto simp: getlines_piece)

lemma getlines_pieces: "p \<in> set (getlines d s) \<Longrightarrow> d \<notin> set p"
proof (induction d s rule: getlines.induct)
  case (1 d s)
  show ?case
  proof (cases "s = []")
    case False
    with "1.prems" have "p = takeWhile (\<lambda>c. c \<noteq> d) s \<or> p \<in> set (getlines d (drop 1 (dropWhile (\<lambda>c. c \<noteq> d) s)))"
      by (simp add: getlines.simps [of d s])
    with "1.IH" [OF False] show ?thesis by (auto dest: set_takeWhileD)
  qed (use "1.prems" in simp)
qed

text \<open>\<open>stream >> word\<close>: skip white space, then read up to the next white space; it fails on
  nothing but white space.\<close>

definition get_word :: "string \<Rightarrow> (string \<times> string) option" where
  "get_word s =
     (let t = dropWhile is_space s
      in if t = [] then None
         else Some (takeWhile (\<lambda>c. \<not> is_space c) t, dropWhile (\<lambda>c. \<not> is_space c) t))"

definition word_like :: "string \<Rightarrow> bool" where
  "word_like w \<longleftrightarrow> w \<noteq> [] \<and> (\<forall>c \<in> set w. \<not> is_space c)"

lemma get_word_stop [cstring]:
  "word_like w \<Longrightarrow> is_space c \<Longrightarrow> get_word (w @ c # s) = Some (w, c # s)"
  by (cases w) (auto simp: get_word_def word_like_def takeWhile_append_stop dropWhile_append_stop)

lemma get_word_end [cstring]: "word_like w \<Longrightarrow> get_word w = Some (w, [])"
  by (cases w) (auto simp: get_word_def word_like_def takeWhile_eq_all_conv dropWhile_eq_Nil_conv)

lemma get_word_skip [cstring]: "is_space c \<Longrightarrow> get_word (c # s) = get_word s"
  by (simp add: get_word_def)

text \<open>Trimming the characters of a class at both ends.\<close>

definition strip :: "(char \<Rightarrow> bool) \<Rightarrow> string \<Rightarrow> string" where
  "strip P s = rev (dropWhile P (rev (dropWhile P s)))"

definition stripped :: "(char \<Rightarrow> bool) \<Rightarrow> string \<Rightarrow> bool" where
  "stripped P s \<longleftrightarrow> s = [] \<or> (\<not> P (hd s) \<and> \<not> P (last s))"

lemma strip_id [cstring]: "stripped P s \<Longrightarrow> strip P s = s"
  by (auto simp: strip_def stripped_def dropWhile_id hd_rev)

lemma stripped_strip: "stripped P (strip P s)"
proof (cases "strip P s = []")
  case False
  define t where "t = dropWhile P s"
  define u where "u = dropWhile P (rev t)"
  have u: "u \<noteq> []" using False by (simp add: strip_def u_def t_def)
  then have "\<not> P (hd u)" unfolding u_def by (rule hd_dropWhile)
  moreover have "\<not> P (last u)"
  proof -
    have "last u = last (rev t)" using u unfolding u_def by (metis last_appendR takeWhile_dropWhile_id)
    moreover have "t \<noteq> []" using u by (auto simp: u_def)
    moreover from this have "\<not> P (hd t)" unfolding t_def by (rule hd_dropWhile)
    ultimately show ?thesis by (simp add: last_rev)
  qed
  ultimately show ?thesis using u
    by (simp add: stripped_def strip_def t_def [symmetric] u_def [symmetric] hd_rev last_rev)
qed (simp add: stripped_def)

lemma strip_left [cstring]: "P c \<Longrightarrow> strip P (c # s) = strip P s"
  by (simp add: strip_def)

lemma strip_right [cstring]:
  assumes "P c"
  shows "strip P (s @ [c]) = strip P s"
proof (cases "\<forall>x \<in> set s. P x")
  case True
  then have "dropWhile P s = []" by (simp add: dropWhile_eq_Nil_conv)
  moreover from this have "dropWhile P (s @ [c]) = []" using True assms by (simp add: dropWhile_append)
  ultimately show ?thesis by (simp only: strip_def)
next
  case False
  then have "dropWhile P (s @ [c]) = dropWhile P s @ [c]" by (metis dropWhile_append1)
  then show ?thesis using assms by (simp add: strip_def)
qed

lemma set_strip: "set (strip P s) \<subseteq> set s"
  by (auto simp: strip_def dest!: set_dropWhileD)



section \<open>Numbers in text\<close>

text \<open>\<open>std::to_string\<close> of an unsigned value.\<close>

definition digit_char :: "nat \<Rightarrow> char" where
  "digit_char n = char_of (n + 48)"

fun show_nat :: "nat \<Rightarrow> string" where
  "show_nat n = (if n < 10 then [digit_char n] else show_nat (n div 10) @ [digit_char (n mod 10)])"

declare show_nat.simps [simp del]

text \<open>\<open>std::to_string\<close> of a signed value.\<close>

definition show_int :: "int \<Rightarrow> string" where
  "show_int i = (if i < 0 then CHR ''-'' # show_nat (nat (- i)) else show_nat (nat i))"

text \<open>
  \<open>std::stoul(s, nullptr, base)\<close>, that is \<open>strtoul\<close>: white space is skipped, a sign may follow, for
  base 16 a \<open>0x\<close> that has a digit behind it is skipped, then the longest run of digits is read and
  what follows it is ignored. No digit raises \<open>std::invalid_argument\<close>, a value above
  \<open>ULONG_MAX\<close> raises \<open>std::out_of_range\<close>, and a minus sign negates modulo \<open>2^64\<close>.
\<close>

datatype num_error = InvalidArgument | OutOfRange

definition digit_value :: "nat \<Rightarrow> char \<Rightarrow> nat option" where
  "digit_value base c =
     (let v = (if is_digit c then Some (char_code c - 48)
               else if 97 \<le> char_code c \<and> char_code c \<le> 122 then Some (char_code c - 87)
               else if 65 \<le> char_code c \<and> char_code c \<le> 90 then Some (char_code c - 55)
               else None)
      in case v of None \<Rightarrow> None | Some d \<Rightarrow> if d < base then Some d else None)"

fun read_digits :: "nat \<Rightarrow> nat \<Rightarrow> string \<Rightarrow> nat" where
  "read_digits base acc [] = acc"
| "read_digits base acc (c # cs) =
     (case digit_value base c of
        None \<Rightarrow> acc
      | Some d \<Rightarrow> read_digits base (acc * base + d) cs)"

definition has_digit :: "nat \<Rightarrow> string \<Rightarrow> bool" where
  "has_digit base s \<longleftrightarrow> s \<noteq> [] \<and> digit_value base (hd s) \<noteq> None"

definition skip_sign :: "string \<Rightarrow> bool \<times> string" where
  "skip_sign s =
     (case s of
        c # cs \<Rightarrow> if c = CHR ''-'' then (True, cs) else if c = CHR ''+'' then (False, cs) else (False, s)
      | [] \<Rightarrow> (False, s))"

definition skip_0x :: "nat \<Rightarrow> string \<Rightarrow> string" where
  "skip_0x base s =
     (if base = 16 \<and> take 1 s = ''0'' \<and> take 1 (drop 1 s) \<in> {''x'', ''X''} \<and> has_digit base (drop 2 s)
      then drop 2 s else s)"

definition stoul :: "nat \<Rightarrow> string \<Rightarrow> num_error + nat" where
  "stoul base s =
     (let (neg, t) = skip_sign (dropWhile is_space s); u = skip_0x base t
      in if \<not> has_digit base u then Inl InvalidArgument
         else let v = read_digits base 0 u
              in if 2 ^ 64 \<le> v then Inl OutOfRange
                 else Inr (if neg then (2 ^ 64 - v) mod 2 ^ 64 else v))"

lemma stoul_bound: "stoul base s = Inr v \<Longrightarrow> v < 2 ^ 64"
  by (auto simp: stoul_def Let_def split: prod.splits if_splits)

lemma char_code_digit [simp]: "n < 10 \<Longrightarrow> char_code (digit_char n) = n + 48"
  by (simp add: digit_char_def)

lemma is_digit_digit_char [simp]: "n < 10 \<Longrightarrow> is_digit (digit_char n)"
  by (simp add: is_digit_def)

lemma digit_value_digit_char [simp]: "n < 10 \<Longrightarrow> digit_value 10 (digit_char n) = Some n"
  by (simp add: digit_value_def)

lemma is_digit_not_space: "is_digit c \<Longrightarrow> \<not> is_space c"
  by (auto simp: is_digit_def is_space_def char_code_def)

lemma show_nat_digits: "c \<in> set (show_nat n) \<Longrightarrow> is_digit c"
proof (induction n rule: show_nat.induct)
  case (1 n)
  then show ?case by (cases "n < 10") (auto simp: show_nat.simps [of n])
qed

lemma show_nat_nonempty [simp]: "show_nat n \<noteq> []"
  by (subst show_nat.simps) simp

lemma read_digits_append:
  "\<forall>c \<in> set s. digit_value base c \<noteq> None \<Longrightarrow>
     read_digits base acc (s @ t) = read_digits base (read_digits base acc s) t"
  by (induction s arbitrary: acc) auto

lemma digit_value_10: "is_digit c \<Longrightarrow> digit_value 10 c \<noteq> None"
  by (auto simp: digit_value_def is_digit_def)

lemma read_show_nat: "read_digits 10 0 (show_nat n) = n"
proof (induction n rule: show_nat.induct)
  case (1 n)
  show ?case
  proof (cases "n < 10")
    case True
    then show ?thesis by (simp add: show_nat.simps [of n])
  next
    case False
    have "\<forall>c \<in> set (show_nat (n div 10)). digit_value 10 c \<noteq> None"
      using show_nat_digits digit_value_10 by blast
    then have "read_digits 10 0 (show_nat n) = read_digits 10 (n div 10) [digit_char (n mod 10)]"
      using False "1.IH" by (simp add: show_nat.simps [of n] read_digits_append)
    also have "\<dots> = n" by simp
    finally show ?thesis .
  qed
qed

lemma skip_sign_digit: "s \<noteq> [] \<Longrightarrow> is_digit (hd s) \<Longrightarrow> skip_sign s = (False, s)"
  by (cases s) (auto simp: skip_sign_def is_digit_def char_code_def)

theorem stoul_show_nat [cstring]: "n < 2 ^ 64 \<Longrightarrow> stoul 10 (show_nat n) = Inr n"
proof -
  assume n: "n < 2 ^ 64"
  have d: "is_digit (hd (show_nat n))" using show_nat_digits [of "hd (show_nat n)" n] by simp
  then have "dropWhile is_space (show_nat n) = show_nat n"
    by (intro dropWhile_id) (simp add: is_digit_not_space)
  with n d show ?thesis
    by (simp add: stoul_def skip_sign_digit skip_0x_def has_digit_def digit_value_10 read_show_nat)
qed

lemma word_like_show_nat [simp]: "word_like (show_nat n)"
  using show_nat_digits is_digit_not_space by (auto simp: word_like_def)

end
