(* ===== verification/StdMap.thy ===== *)
theory StdMap
  imports Prelude
begin

text \<open>
  \<open>std::map\<close> and \<open>std::multimap\<close> as association lists in key order, behind the interface
  \<open>ordered_map\<close>: what a lookup returns after an insertion or an erasure, and that the key order is
  kept. The order is what a range-for over the map visits (\<open>HttpRequest::getHeader\<close>,
  \<open>HttpResponse::serialize\<close>), so the entries are part of the interface. The clients' facts, such as
  the outcome of a sequence of assignments, are proved once inside the locale.
\<close>

section \<open>The interface\<close>

locale ordered_map =
  fixes get :: "'m \<Rightarrow> 'k::linorder \<Rightarrow> 'v option"
    and put :: "'k \<Rightarrow> 'v \<Rightarrow> 'm \<Rightarrow> 'm"
    and del :: "'k \<Rightarrow> 'm \<Rightarrow> 'm"
    and entries :: "'m \<Rightarrow> ('k \<times> 'v) list"
    and ok :: "'m \<Rightarrow> bool"
  assumes ok_put: "ok m \<Longrightarrow> ok (put k v m)"
    and ok_del: "ok m \<Longrightarrow> ok (del k m)"
    and get_put: "ok m \<Longrightarrow> get (put k v m) = (get m)(k := Some v)"
    and get_del: "ok m \<Longrightarrow> get (del k m) = (get m)(k := None)"
    and entries_sorted: "ok m \<Longrightarrow> sorted_wrt (<) (map fst (entries m))"
    and entries_get: "ok m \<Longrightarrow> (k, v) \<in> set (entries m) \<longleftrightarrow> get m k = Some v"
begin

lemma ok_puts: "ok m \<Longrightarrow> ok (fold (\<lambda>(k, v). put k v) kvs m)"
  by (induction kvs arbitrary: m) (auto simp: ok_put)

lemma get_puts:
  "ok m \<Longrightarrow> get (fold (\<lambda>(k, v). put k v) kvs m) = get m ++ map_of (rev kvs)"
proof (induction kvs arbitrary: m)
  case (Cons kv kvs)
  obtain k v where kv: "kv = (k, v)" by (cases kv)
  have "get (fold (\<lambda>(k, v). put k v) kvs (put k v m)) = get (put k v m) ++ map_of (rev kvs)"
    by (rule Cons.IH) (simp add: Cons.prems ok_put)
  then show ?case using Cons.prems by (simp add: kv get_put)
qed simp

lemma put_same_get: "ok m \<Longrightarrow> get m k = Some v \<Longrightarrow> get (put k v m) = get m"
  by (auto simp: get_put)

lemma del_put_get: "ok m \<Longrightarrow> get (del k (put k v m)) = (get m)(k := None)"
  by (auto simp: get_del get_put ok_put)

lemma entries_distinct: "ok m \<Longrightarrow> distinct (map fst (entries m))"
  using entries_sorted by (simp add: strict_sorted_iff)

lemma map_of_entries: "ok m \<Longrightarrow> map_of (entries m) = get m"
proof
  fix k
  assume m: "ok m"
  show "map_of (entries m) k = get m k"
  proof (cases "get m k")
    case None
    then have "k \<notin> fst ` set (entries m)" using entries_get [OF m] by force
    then show ?thesis using None by (simp add: map_of_eq_None_iff)
  next
    case (Some v)
    then show ?thesis using entries_get [OF m] entries_distinct [OF m] by simp
  qed
qed

lemma entries_inject:
  assumes "ok m" "ok n" "get m = get n"
  shows "entries m = entries n"
proof -
  have "set (entries m) = set (entries n)"
    using assms entries_get by fastforce
  moreover have "sorted (map fst (entries m))" "sorted (map fst (entries n))"
    "distinct (map fst (entries m))" "distinct (map fst (entries n))"
    using assms entries_sorted by (auto simp: strict_sorted_iff)
  ultimately show ?thesis by (metis map_sorted_distinct_set_unique distinct_map inj_on_Un sup.idem)
qed

end


section \<open>The provider: a sorted association list\<close>

type_synonym ('k, 'v) smap = "('k \<times> 'v) list"

definition smap_ok :: "('k::linorder, 'v) smap \<Rightarrow> bool" where
  "smap_ok m \<longleftrightarrow> sorted_wrt (<) (map fst m)"

fun smap_get :: "('k, 'v) smap \<Rightarrow> 'k \<Rightarrow> 'v option" where
  "smap_get [] k = None"
| "smap_get ((a, b) # m) k = (if k = a then Some b else smap_get m k)"

fun smap_put :: "'k::linorder \<Rightarrow> 'v \<Rightarrow> ('k, 'v) smap \<Rightarrow> ('k, 'v) smap" where
  "smap_put k v [] = [(k, v)]"
| "smap_put k v ((a, b) # m) =
     (if k < a then (k, v) # (a, b) # m else if k = a then (k, v) # m else (a, b) # smap_put k v m)"

fun smap_del :: "'k \<Rightarrow> ('k, 'v) smap \<Rightarrow> ('k, 'v) smap" where
  "smap_del k [] = []"
| "smap_del k ((a, b) # m) = (if k = a then m else (a, b) # smap_del k m)"

lemma dom_smap_Nil [simp]: "dom (smap_get []) = {}"
  by (simp add: dom_def)

lemma smap_ok_Nil [simp]: "smap_ok []"
  by (simp add: smap_ok_def)

lemma smap_ok_Cons: "smap_ok ((a, b) # m) \<longleftrightarrow> (\<forall>k \<in> fst ` set m. a < k) \<and> smap_ok m"
  by (auto simp: smap_ok_def)

lemma smap_get_map_of: "smap_get m = map_of m"
  by (rule ext, induction m) auto

lemma keys_smap_put: "set (map fst (smap_put k v m)) = insert k (set (map fst m))"
  by (induction k v m rule: smap_put.induct) auto

lemma set_smap_del: "set (smap_del k m) \<subseteq> set m"
  by (induction k m rule: smap_del.induct) auto

lemma smap_ok_put: "smap_ok m \<Longrightarrow> smap_ok (smap_put k v m)"
proof (induction k v m rule: smap_put.induct)
  case (2 k v a b m)
  have "\<forall>x \<in> set (map fst (smap_put k v m)). a < x" if "a < k"
    using that 2 unfolding keys_smap_put by (simp add: smap_ok_Cons)
  then show ?case using 2 by (auto simp: smap_ok_Cons dest: less_trans)
qed (simp add: smap_ok_Cons)

lemma smap_ok_del: "smap_ok m \<Longrightarrow> smap_ok (smap_del k m)"
proof (induction k m rule: smap_del.induct)
  case (2 k a b m)
  then show ?case using set_smap_del [of k m] by (auto simp: smap_ok_Cons)
qed simp

lemma smap_get_fresh: "\<forall>a \<in> fst ` set m. (k::'k::linorder) < a \<Longrightarrow> smap_get m k = None"
  by (induction m k rule: smap_get.induct) auto

lemma smap_get_put: "smap_get (smap_put k v m) = (smap_get m)(k := Some v)"
  by (induction m) auto

lemma smap_get_del: "smap_ok m \<Longrightarrow> smap_get (smap_del k m) = (smap_get m)(k := None)"
proof (induction m)
  case (Cons x m)
  obtain a b where "x = (a, b)" by (cases x)
  with Cons show ?case by (auto simp: smap_ok_Cons fun_eq_iff smap_get_fresh)
qed auto

interpretation sm: ordered_map smap_get smap_put smap_del "\<lambda>m. m" smap_ok
proof unfold_locales
  fix m :: "('a::linorder, 'b) smap" and k v
  assume ok: "smap_ok m"
  then have "distinct (map fst m)" by (simp add: smap_ok_def strict_sorted_iff)
  then show "(k, v) \<in> set m \<longleftrightarrow> smap_get m k = Some v"
    by (simp add: smap_get_map_of)
qed (simp_all add: smap_ok_put smap_ok_del smap_get_put smap_get_del, simp add: smap_ok_def)

lemmas smap_simps [simp] = smap_ok_put smap_ok_del smap_get_put smap_get_del


section \<open>Multimap insertion\<close>

text \<open>\<open>std::multimap::emplace\<close>: behind the entries with an equal key, in front of the greater ones.\<close>

fun mmap_emplace :: "'k::linorder \<Rightarrow> 'v \<Rightarrow> ('k \<times> 'v) list \<Rightarrow> ('k \<times> 'v) list" where
  "mmap_emplace k v [] = [(k, v)]"
| "mmap_emplace k v ((a, b) # m) = (if k < a then (k, v) # (a, b) # m else (a, b) # mmap_emplace k v m)"

lemma set_mmap_emplace [simp]: "set (mmap_emplace k v m) = insert (k, v) (set m)"
  by (induction k v m rule: mmap_emplace.induct) (auto split: if_splits)

lemma length_mmap_emplace [simp]: "length (mmap_emplace k v m) = Suc (length m)"
  by (induction m) auto

lemma sorted_mmap_emplace: "sorted (map fst m) \<Longrightarrow> sorted (map fst (mmap_emplace k v m))"
proof (induction m)
  case (Cons x m)
  obtain a b where "x = (a, b)" by (cases x)
  with Cons show ?case by (fastforce simp: not_less)
qed simp

lemma filter_mmap_emplace:
  "filter P (mmap_emplace k v m) = (if P (k, v) then mmap_emplace k v (filter P m) else filter P m)"
  if "sorted (map fst m)"
  using that
proof (induction m)
  case (Cons x m)
  obtain a b where x: "x = (a, b)" by (cases x)
  have less: "mmap_emplace k v (filter P m) = (k, v) # filter P m" if "k < a"
  proof (cases "filter P m")
    case (Cons y ys)
    then have "y \<in> set (filter P m)" by simp
    then have "y \<in> set m" by simp
    then have "a \<le> fst y" using Cons.prems x by auto
    with that have "k < fst y" by simp
    with Cons show ?thesis by (cases y) simp
  qed simp
  show ?case using Cons less by (auto simp: x)
qed simp

end
