(* ===== verification/Executors.thy ===== *)
theory Executors
  imports StdMap
begin

text \<open>
  The interface \<open>snf::Executor\<close> (\<open>Core/src/SNFCore/Executor.h\<close>), as far as timers go: an owner of
  nodes keeps a set of armed timers. \<open>EventLoop\<close> and, through \<open>TimerService\<close>, \<open>Strand\<close> are
  its two providers; \<open>Timer\<close> is the client. Addresses of nodes, timers and strands are natural
  numbers, time points of the steady clock are integers (nanoseconds).
\<close>

type_synonym addr = nat
type_synonym time = int
type_synonym gen = u64

abbreviation nullptr :: addr where "nullptr \<equiv> 0"

text \<open>
  The contract: \<open>armed h\<close> is the deadline and generation each timer is armed with. Scheduling
  replaces, cancelling removes, and collecting the timers due at \<open>now\<close> hands out every timer with
  a deadline up to \<open>now\<close> exactly once and leaves the others armed.
\<close>

locale timer_host =
  fixes scheduleTimer :: "addr \<Rightarrow> time \<Rightarrow> gen \<Rightarrow> 'h \<Rightarrow> 'h"
    and cancelTimer :: "addr \<Rightarrow> 'h \<Rightarrow> 'h"
    and takeDue :: "time \<Rightarrow> 'h \<Rightarrow> (addr \<times> gen) list \<times> 'h"
    and armed :: "'h \<Rightarrow> addr \<Rightarrow> (time \<times> gen) option"
    and host_ok :: "'h \<Rightarrow> bool"
  assumes ok_schedule: "host_ok h \<Longrightarrow> host_ok (scheduleTimer t d g h)"
    and ok_cancel: "host_ok h \<Longrightarrow> host_ok (cancelTimer t h)"
    and ok_take: "host_ok h \<Longrightarrow> host_ok (snd (takeDue now h))"
    and armed_schedule: "host_ok h \<Longrightarrow> armed (scheduleTimer t d g h) = (armed h)(t \<mapsto> (d, g))"
    and armed_cancel: "host_ok h \<Longrightarrow> armed (cancelTimer t h) = (armed h)(t := None)"
    and take_due: "host_ok h \<Longrightarrow>
      (t, g) \<in> set (fst (takeDue now h)) \<longleftrightarrow> (\<exists>d \<le> now. armed h t = Some (d, g))"
    and take_distinct: "host_ok h \<Longrightarrow> distinct (map fst (fst (takeDue now h)))"
    and armed_take: "host_ok h \<Longrightarrow> armed (snd (takeDue now h)) t =
      (case armed h t of None \<Rightarrow> None | Some (d, g) \<Rightarrow> if d \<le> now then None else Some (d, g))"
begin

lemma take_twice: "host_ok h \<Longrightarrow> fst (takeDue now (snd (takeDue now h))) = []"
proof (rule ccontr)
  assume h: "host_ok h" and "fst (takeDue now (snd (takeDue now h))) \<noteq> []"
  then obtain t g where "(t, g) \<in> set (fst (takeDue now (snd (takeDue now h))))"
    by (metis list.set_sel(1) surj_pair)
  then show False using h by (auto simp: take_due ok_take armed_take split: option.splits if_splits)
qed

lemma due_not_armed_after: "host_ok h \<Longrightarrow> (t, g) \<in> set (fst (takeDue now h)) \<Longrightarrow>
    armed (snd (takeDue now h)) t = None"
  by (auto simp: take_due armed_take)

end

end
