(* ===== verification/EventLoop.thy ===== *)
theory EventLoop
  imports Executors "HOL-Library.Multiset"
begin

text \<open>
  \<open>snf::EventLoop\<close> (\<open>Core/src/SNFCore/EventLoop.h\<close>, \<open>EventLoop.cpp\<close>). The record holds the members
  the loop guards with \<open>m_mutex\<close> and its atomic flags; each definition is one locked region or one
  member function. The condition variable, the I/O thread object, the profiler hooks and the epoll
  poller are not part of the state. Code the loop calls back (tasks, node destructors,
  \<open>Timer::dispatchTimeout\<close>, I/O callbacks, \<open>Node::run\<close>) is the record \<open>loop_env\<close>, a
  parameter of the operations that call it: it acts on the loop and on a world \<open>'w\<close> of its own. An
  empty \<open>std::function\<close> is \<^const>\<open>None\<close>.
\<close>

section \<open>State\<close>

record TimerEntry =
  te_timer :: addr
  te_deadline :: time
  te_generation :: gen

record 'c IOWatchEntry =
  iw_events :: u32
  iw_callback :: "'c option"
  iw_queued :: bool

record 'c ReadyIOEntry =
  ri_fd :: int
  ri_events :: u32
  ri_callback :: "'c option"

record ('t, 'c) EventLoop =
  el_tasks :: "'t list"
  el_nodesToDelete :: "addr list"
  el_nodes :: "addr list"
  el_rootNodes :: "addr list"
  el_timers :: "TimerEntry list"
  el_ioWatches :: "(int, 'c IOWatchEntry) smap"
  el_readyIO :: "'c ReadyIOEntry list"
  el_stop :: bool
  el_running :: bool
  el_retired :: bool

definition EventLoop_init :: "('t, 'c) EventLoop" where
  "EventLoop_init = \<lparr>el_tasks = [], el_nodesToDelete = [], el_nodes = [], el_rootNodes = [],
     el_timers = [], el_ioWatches = [], el_readyIO = [], el_stop = False, el_running = False,
     el_retired = False\<rparr>"


section \<open>Queues of the loop\<close>

definition EventLoop_retire :: "('t, 'c) EventLoop \<Rightarrow> ('t, 'c) EventLoop" where
  "EventLoop_retire l = l\<lparr>el_retired := True\<rparr>"

definition EventLoop_enqueueDelete :: "addr \<Rightarrow> ('t, 'c) EventLoop \<Rightarrow> ('t, 'c) EventLoop" where
  "EventLoop_enqueueDelete n l =
     (if n \<in> set (el_nodesToDelete l) then l
      else l\<lparr>el_nodesToDelete := el_nodesToDelete l @ [n]\<rparr>)"

definition EventLoop_addNode :: "addr \<Rightarrow> ('t, 'c) EventLoop \<Rightarrow> ('t, 'c) EventLoop" where
  "EventLoop_addNode n l = l\<lparr>el_nodes := el_nodes l @ [n]\<rparr>"

definition EventLoop_removeNode :: "addr \<Rightarrow> ('t, 'c) EventLoop \<Rightarrow> ('t, 'c) EventLoop" where
  "EventLoop_removeNode n l = l\<lparr>el_nodes := erase_all n (el_nodes l)\<rparr>"

definition EventLoop_addRootNode :: "addr \<Rightarrow> ('t, 'c) EventLoop \<Rightarrow> ('t, 'c) EventLoop" where
  "EventLoop_addRootNode n l = l\<lparr>el_rootNodes := el_rootNodes l @ [n]\<rparr>"

definition EventLoop_removeRootNode :: "addr \<Rightarrow> ('t, 'c) EventLoop \<Rightarrow> ('t, 'c) EventLoop" where
  "EventLoop_removeRootNode n l = l\<lparr>el_rootNodes := erase_all n (el_rootNodes l)\<rparr>"

definition EventLoop_getRootNode :: "nat \<Rightarrow> ('t, 'c) EventLoop \<Rightarrow> addr option" where
  "EventLoop_getRootNode i l = (if length (el_rootNodes l) \<le> i then None else Some (el_rootNodes l ! i))"

definition EventLoop_post :: "'t \<Rightarrow> ('t, 'c) EventLoop \<Rightarrow> ('t, 'c) EventLoop" where
  "EventLoop_post t l = l\<lparr>el_tasks := el_tasks l @ [t]\<rparr>"

definition EventLoop_popNextTask :: "('t, 'c) EventLoop \<Rightarrow> ('t \<times> ('t, 'c) EventLoop) option" where
  "EventLoop_popNextTask l =
     (case el_tasks l of [] \<Rightarrow> None | t # ts \<Rightarrow> Some (t, l\<lparr>el_tasks := ts\<rparr>))"

definition EventLoop_takePendingDeletes :: "('t, 'c) EventLoop \<Rightarrow> addr list \<times> ('t, 'c) EventLoop" where
  "EventLoop_takePendingDeletes l = (el_nodesToDelete l, l\<lparr>el_nodesToDelete := []\<rparr>)"

definition EventLoop_pendingDeleteCount :: "('t, 'c) EventLoop \<Rightarrow> nat" where
  "EventLoop_pendingDeleteCount l = length (el_nodesToDelete l)"

definition EventLoop_registeredNodesCount :: "('t, 'c) EventLoop \<Rightarrow> nat" where
  "EventLoop_registeredNodesCount l = length (el_nodes l)"

definition EventLoop_activeTimerCount :: "('t, 'c) EventLoop \<Rightarrow> nat" where
  "EventLoop_activeTimerCount l = length (el_timers l)"

definition EventLoop_stop :: "('t, 'c) EventLoop \<Rightarrow> ('t, 'c) EventLoop" where
  "EventLoop_stop l = l\<lparr>el_stop := True\<rparr>"


section \<open>Timers\<close>

definition EventLoop_cancelTimer :: "addr \<Rightarrow> ('t, 'c) EventLoop \<Rightarrow> ('t, 'c) EventLoop" where
  "EventLoop_cancelTimer t l = l\<lparr>el_timers := filter (\<lambda>e. te_timer e \<noteq> t) (el_timers l)\<rparr>"

definition EventLoop_scheduleTimer ::
  "addr \<Rightarrow> time \<Rightarrow> gen \<Rightarrow> ('t, 'c) EventLoop \<Rightarrow> ('t, 'c) EventLoop" where
  "EventLoop_scheduleTimer t d g l =
     l\<lparr>el_timers := filter (\<lambda>e. te_timer e \<noteq> t) (el_timers l)
                      @ [\<lparr>te_timer = t, te_deadline = d, te_generation = g\<rparr>]\<rparr>"

text \<open>\<open>std::min_element\<close> keeps the first of the smallest entries.\<close>

fun min_deadline :: "time \<Rightarrow> TimerEntry list \<Rightarrow> time" where
  "min_deadline d [] = d"
| "min_deadline d (e # es) = min_deadline (if te_deadline e < d then te_deadline e else d) es"

definition EventLoop_nextTimerDeadline :: "('t, 'c) EventLoop \<Rightarrow> time option" where
  "EventLoop_nextTimerDeadline l =
     (case el_timers l of [] \<Rightarrow> None | e # es \<Rightarrow> Some (min_deadline (te_deadline e) es))"

fun take_due_timers :: "time \<Rightarrow> TimerEntry list \<Rightarrow> TimerEntry list \<times> TimerEntry list" where
  "take_due_timers now [] = ([], [])"
| "take_due_timers now (e # es) =
     (let (due, rest) = take_due_timers now es
      in if te_deadline e \<le> now then (e # due, rest) else (due, e # rest))"

definition EventLoop_takeDueTimers ::
  "time \<Rightarrow> ('t, 'c) EventLoop \<Rightarrow> TimerEntry list \<times> ('t, 'c) EventLoop" where
  "EventLoop_takeDueTimers now l =
     (let (due, rest) = take_due_timers now (el_timers l) in (due, l\<lparr>el_timers := rest\<rparr>))"


section \<open>I/O readiness\<close>

definition EventLoop_registerIO ::
  "int \<Rightarrow> u32 \<Rightarrow> 'c option \<Rightarrow> ('t, 'c) EventLoop \<Rightarrow> ('t, 'c) EventLoop" where
  "EventLoop_registerIO fd ev cb l =
     (if fd < 0 then l
      else l\<lparr>el_ioWatches :=
                smap_put fd \<lparr>iw_events = ev, iw_callback = cb, iw_queued = False\<rparr> (el_ioWatches l)\<rparr>)"

definition EventLoop_modifyIO :: "int \<Rightarrow> u32 \<Rightarrow> ('t, 'c) EventLoop \<Rightarrow> ('t, 'c) EventLoop" where
  "EventLoop_modifyIO fd ev l =
     (if fd < 0 then l
      else case smap_get (el_ioWatches l) fd of
             None \<Rightarrow> l
           | Some w \<Rightarrow> l\<lparr>el_ioWatches := smap_put fd (w\<lparr>iw_events := ev\<rparr>) (el_ioWatches l)\<rparr>)"

definition EventLoop_unregisterIO :: "int \<Rightarrow> ('t, 'c) EventLoop \<Rightarrow> ('t, 'c) EventLoop" where
  "EventLoop_unregisterIO fd l =
     (if fd < 0 then l
      else case smap_get (el_ioWatches l) fd of
             None \<Rightarrow> l
           | Some _ \<Rightarrow> l\<lparr>el_ioWatches := smap_del fd (el_ioWatches l),
                          el_readyIO := filter (\<lambda>r. ri_fd r \<noteq> fd) (el_readyIO l)\<rparr>)"

definition EventLoop_hasIOWatch :: "int \<Rightarrow> ('t, 'c) EventLoop \<Rightarrow> bool" where
  "EventLoop_hasIOWatch fd l \<longleftrightarrow> smap_get (el_ioWatches l) fd \<noteq> None"

definition EventLoop_takeReadyIO :: "('t, 'c) EventLoop \<Rightarrow> 'c ReadyIOEntry list \<times> ('t, 'c) EventLoop" where
  "EventLoop_takeReadyIO l = (el_readyIO l, l\<lparr>el_readyIO := []\<rparr>)"

definition EventLoop_markReadyIOHandled :: "int \<Rightarrow> ('t, 'c) EventLoop \<Rightarrow> ('t, 'c) EventLoop" where
  "EventLoop_markReadyIOHandled fd l =
     (if fd < 0 then l
      else case smap_get (el_ioWatches l) fd of
             None \<Rightarrow> l
           | Some w \<Rightarrow> l\<lparr>el_ioWatches := smap_put fd (w\<lparr>iw_queued := False\<rparr>) (el_ioWatches l)\<rparr>)"

text \<open>The locked region of \<open>ioThreadMain\<close> for one batch of events \<open>(fd, events)\<close> from the poller.\<close>

definition queue_ready_event :: "int \<times> u32 \<Rightarrow> ('t, 'c) EventLoop \<Rightarrow> ('t, 'c) EventLoop" where
  "queue_ready_event e l =
     (case smap_get (el_ioWatches l) (fst e) of
        None \<Rightarrow> l
      | Some w \<Rightarrow>
          if iw_queued w then l
          else l\<lparr>el_ioWatches := smap_put (fst e) (w\<lparr>iw_queued := True\<rparr>) (el_ioWatches l),
                 el_readyIO := el_readyIO l
                   @ [\<lparr>ri_fd = fst e, ri_events = snd e, ri_callback = iw_callback w\<rparr>]\<rparr>)"

definition EventLoop_ioThreadMain :: "(int \<times> u32) list \<Rightarrow> ('t, 'c) EventLoop \<Rightarrow> ('t, 'c) EventLoop" where
  "EventLoop_ioThreadMain evs l = fold queue_ready_event evs l"

definition EventLoop_hasPendingWork :: "('t, 'c) EventLoop \<Rightarrow> bool" where
  "EventLoop_hasPendingWork l \<longleftrightarrow> el_tasks l \<noteq> [] \<or> el_nodesToDelete l \<noteq> [] \<or> el_timers l \<noteq> []
     \<or> el_ioWatches l \<noteq> [] \<or> el_readyIO l \<noteq> []"



section \<open>The loop\<close>

record ('t, 'c, 'w) loop_env =
  env_task :: "'t \<Rightarrow> ('t, 'c) EventLoop \<times> 'w \<Rightarrow> ('t, 'c) EventLoop \<times> 'w"
  env_alive :: "addr \<Rightarrow> 'w \<Rightarrow> bool"
  env_delete :: "addr \<Rightarrow> ('t, 'c) EventLoop \<times> 'w \<Rightarrow> ('t, 'c) EventLoop \<times> 'w"
  env_dispatchTimeout :: "addr \<Rightarrow> gen \<Rightarrow> ('t, 'c) EventLoop \<times> 'w \<Rightarrow> ('t, 'c) EventLoop \<times> 'w"
  env_io :: "'c \<Rightarrow> u32 \<Rightarrow> ('t, 'c) EventLoop \<times> 'w \<Rightarrow> ('t, 'c) EventLoop \<times> 'w"
  env_node_run :: "addr \<Rightarrow> ('t, 'c) EventLoop \<times> 'w \<Rightarrow> ('t, 'c) EventLoop \<times> 'w"

text \<open>\<open>while (popNextTask(task)) task();\<close>: a task may post further tasks, which this loop runs too.
  \<open>None\<close> is a queue that never runs empty.\<close>

partial_function (option) drain_tasks ::
  "('t, 'c, 'w) loop_env \<Rightarrow> ('t, 'c) EventLoop \<times> 'w \<Rightarrow> (('t, 'c) EventLoop \<times> 'w) option" where
  "drain_tasks E s =
     (case EventLoop_popNextTask (fst s) of
        None \<Rightarrow> Some s
      | Some (t, l) \<Rightarrow> drain_tasks E (env_task E t (l, snd s)))"

definition run_deletes ::
  "('t, 'c, 'w) loop_env \<Rightarrow> ('t, 'c) EventLoop \<times> 'w \<Rightarrow> ('t, 'c) EventLoop \<times> 'w" where
  "run_deletes E s =
     (let (ns, l) = EventLoop_takePendingDeletes (fst s)
      in fold (\<lambda>n s. if env_alive E n (snd s) then env_delete E n s else s) ns (l, snd s))"

definition run_timers ::
  "('t, 'c, 'w) loop_env \<Rightarrow> time \<Rightarrow> ('t, 'c) EventLoop \<times> 'w \<Rightarrow> ('t, 'c) EventLoop \<times> 'w" where
  "run_timers E now s =
     (let (es, l) = EventLoop_takeDueTimers now (fst s)
      in fold (\<lambda>e s. if te_timer e = nullptr then s
                      else env_dispatchTimeout E (te_timer e) (te_generation e) s) es (l, snd s))"

definition run_io ::
  "('t, 'c, 'w) loop_env \<Rightarrow> ('t, 'c) EventLoop \<times> 'w \<Rightarrow> ('t, 'c) EventLoop \<times> 'w" where
  "run_io E s =
     (let (rs, l) = EventLoop_takeReadyIO (fst s)
      in fold (\<lambda>r s. let s' = (case ri_callback r of
                                    None \<Rightarrow> s
                                  | Some cb \<Rightarrow> env_io E cb (ri_events r) s)
                      in (EventLoop_markReadyIOHandled (ri_fd r) (fst s'), snd s')) rs (l, snd s))"

definition run_roots ::
  "('t, 'c, 'w) loop_env \<Rightarrow> ('t, 'c) EventLoop \<times> 'w \<Rightarrow> ('t, 'c) EventLoop \<times> 'w" where
  "run_roots E s = fold (env_node_run E) (el_rootNodes (fst s)) s"

definition EventLoop_runPendingWork ::
  "('t, 'c, 'w) loop_env \<Rightarrow> time \<Rightarrow> ('t, 'c) EventLoop \<times> 'w \<Rightarrow> (('t, 'c) EventLoop \<times> 'w) option" where
  "EventLoop_runPendingWork E now s =
     map_option (\<lambda>s. run_roots E (run_io E (run_timers E now (run_deletes E s)))) (drain_tasks E s)"

text \<open>
  What the wait at the end of an iteration does: it returns at once when \<open>m_stop\<close> is set, otherwise
  it blocks until the predicate holds or, with an armed timer, until the deadline.
\<close>

definition wait_predicate :: "('t, 'c) EventLoop \<Rightarrow> bool" where
  "wait_predicate l \<longleftrightarrow> el_stop l \<or> el_tasks l \<noteq> [] \<or> el_nodesToDelete l \<noteq> [] \<or> el_readyIO l \<noteq> []"

definition wait_returns :: "time \<Rightarrow> time option \<Rightarrow> ('t, 'c) EventLoop \<Rightarrow> bool" where
  "wait_returns now deadline l \<longleftrightarrow>
     (case deadline of
        Some d \<Rightarrow> wait_predicate l \<or> d \<le> now
      | None \<Rightarrow> wait_predicate l \<or> el_timers l \<noteq> [])"

text \<open>
  \<open>EventLoop::run\<close> against a script of what happens around it: for every iteration the time it
  reads, then the effect of the other threads up to the moment the wait returns and that moment. A
  script the loop cannot follow (a wait that would not return, a task queue that never empties, no
  further wake-up) gives \<open>None\<close>.
\<close>

record ('t, 'c) wakeup =
  wk_now :: time
  wk_others :: "('t, 'c) EventLoop \<Rightarrow> ('t, 'c) EventLoop"
  wk_at :: time

fun run_iterations ::
  "('t, 'c, 'w) loop_env \<Rightarrow> ('t, 'c) wakeup list \<Rightarrow> ('t, 'c) EventLoop \<times> 'w \<Rightarrow>
     (('t, 'c) EventLoop \<times> 'w) option" where
  "run_iterations E [] s = None"
| "run_iterations E (k # ks) s =
     (case EventLoop_runPendingWork E (wk_now k) s of
        None \<Rightarrow> None
      | Some (l, w) \<Rightarrow>
          if el_stop l then Some (l\<lparr>el_stop := False\<rparr>, w)
          else let l' = wk_others k l
               in if \<not> wait_returns (wk_at k) (EventLoop_nextTimerDeadline l) l' then None
                  else if el_stop l' then Some (l'\<lparr>el_stop := False\<rparr>, w)
                  else run_iterations E ks (l', w))"

definition EventLoop_run ::
  "('t, 'c, 'w) loop_env \<Rightarrow> ('t, 'c) wakeup list \<Rightarrow> ('t, 'c) EventLoop \<times> 'w \<Rightarrow>
     (('t, 'c) EventLoop \<times> 'w) option" where
  "EventLoop_run E ks s =
     map_option (\<lambda>(l, w). (l\<lparr>el_running := False\<rparr>, w))
       (run_iterations E ks ((fst s)\<lparr>el_running := True\<rparr>, snd s))"



section \<open>Facts about the queues and the timers\<close>

lemmas EventLoop_defs = EventLoop_retire_def EventLoop_enqueueDelete_def EventLoop_addNode_def
  EventLoop_removeNode_def EventLoop_addRootNode_def EventLoop_removeRootNode_def EventLoop_post_def
  EventLoop_takePendingDeletes_def EventLoop_stop_def EventLoop_cancelTimer_def
  EventLoop_scheduleTimer_def EventLoop_takeDueTimers_def EventLoop_registerIO_def
  EventLoop_modifyIO_def EventLoop_unregisterIO_def EventLoop_takeReadyIO_def
  EventLoop_markReadyIOHandled_def

definition EventLoop_ok :: "('t, 'c) EventLoop \<Rightarrow> bool" where
  "EventLoop_ok l \<longleftrightarrow> distinct (el_nodesToDelete l) \<and> distinct (map te_timer (el_timers l))
     \<and> smap_ok (el_ioWatches l)"

lemma take_due_timers_filter:
  "take_due_timers now es =
     (filter (\<lambda>e. te_deadline e \<le> now) es, filter (\<lambda>e. \<not> te_deadline e \<le> now) es)"
  by (induction es) auto

lemma distinct_map_filter: "distinct (map f xs) \<Longrightarrow> distinct (map f (filter P xs))"
  by (induction xs) auto

lemma EventLoop_ok_init: "EventLoop_ok EventLoop_init"
  by (simp add: EventLoop_ok_def EventLoop_init_def)

lemma EventLoop_ok_ops [inv_step]:
  assumes "EventLoop_ok l"
  shows "EventLoop_ok (EventLoop_enqueueDelete n l)"
    and "EventLoop_ok (EventLoop_post t l)"
    and "EventLoop_ok (EventLoop_stop l)"
    and "EventLoop_ok (EventLoop_addNode n l)"
    and "EventLoop_ok (EventLoop_removeNode n l)"
    and "EventLoop_ok (EventLoop_addRootNode n l)"
    and "EventLoop_ok (EventLoop_removeRootNode n l)"
    and "EventLoop_ok (EventLoop_retire l)"
    and "EventLoop_ok (snd (EventLoop_takePendingDeletes l))"
    and "EventLoop_ok (EventLoop_scheduleTimer x d g l)"
    and "EventLoop_ok (EventLoop_cancelTimer x l)"
    and "EventLoop_ok (snd (EventLoop_takeDueTimers now l))"
    and "EventLoop_ok (EventLoop_registerIO fd ev cb l)"
    and "EventLoop_ok (EventLoop_modifyIO fd ev l)"
    and "EventLoop_ok (EventLoop_unregisterIO fd l)"
    and "EventLoop_ok (snd (EventLoop_takeReadyIO l))"
    and "EventLoop_ok (EventLoop_markReadyIOHandled fd l)"
  using assms
  by (auto simp: EventLoop_ok_def EventLoop_defs distinct_map_filter take_due_timers_filter
      split: option.splits)

lemma EventLoop_ok_pop [inv_step]:
  "EventLoop_ok l \<Longrightarrow> EventLoop_popNextTask l = Some (t, l') \<Longrightarrow> EventLoop_ok l'"
  by (auto simp: EventLoop_ok_def EventLoop_popNextTask_def split: list.splits)

lemma EventLoop_ok_io [inv_step]: "EventLoop_ok l \<Longrightarrow> EventLoop_ok (EventLoop_ioThreadMain evs l)"
  unfolding EventLoop_ioThreadMain_def
  by (induction evs arbitrary: l)
     (auto simp: queue_ready_event_def EventLoop_ok_def split: option.splits)


subsection \<open>The loop as a timer host\<close>

definition EventLoop_armed :: "('t, 'c) EventLoop \<Rightarrow> addr \<Rightarrow> (time \<times> gen) option" where
  "EventLoop_armed l = map_of (map (\<lambda>e. (te_timer e, te_deadline e, te_generation e)) (el_timers l))"

definition EventLoop_takeDue :: "time \<Rightarrow> ('t, 'c) EventLoop \<Rightarrow> (addr \<times> gen) list \<times> ('t, 'c) EventLoop" where
  "EventLoop_takeDue now l =
     (let (due, l') = EventLoop_takeDueTimers now l
      in (map (\<lambda>e. (te_timer e, te_generation e)) due, l'))"

lemma map_of_entries_filter:
  "distinct (map te_timer es) \<Longrightarrow>
   map_of (map (\<lambda>e. (te_timer e, te_deadline e, te_generation e)) (filter P es)) t =
     (case map_of (map (\<lambda>e. (te_timer e, e)) es) t of
        None \<Rightarrow> None | Some e \<Rightarrow> if P e then Some (te_deadline e, te_generation e) else None)"
proof (induction es)
  case (Cons e es)
  have "te_timer e \<notin> set (map te_timer es)" using Cons.prems by simp
  then have "map_of (map (\<lambda>e. (te_timer e, e)) es) (te_timer e) = None"
    by (force simp: map_of_eq_None_iff)
  then show ?case using Cons by (auto split: option.splits)
qed simp

lemma EventLoop_armed_iff:
  "EventLoop_ok l \<Longrightarrow>
   EventLoop_armed l t = Some (d, g) \<longleftrightarrow>
     (\<exists>e \<in> set (el_timers l). te_timer e = t \<and> te_deadline e = d \<and> te_generation e = g)"
proof -
  assume "EventLoop_ok l"
  then have "distinct (map fst (map (\<lambda>e. (te_timer e, te_deadline e, te_generation e)) (el_timers l)))"
    by (simp add: EventLoop_ok_def comp_def)
  then show ?thesis by (auto simp: EventLoop_armed_def)
qed

interpretation el: timer_host EventLoop_scheduleTimer EventLoop_cancelTimer EventLoop_takeDue
  EventLoop_armed EventLoop_ok
proof unfold_locales
  fix l :: "('t, 'c) EventLoop" and t d g now
  assume ok: "EventLoop_ok l"
  then have dis: "distinct (map te_timer (el_timers l))" by (simp add: EventLoop_ok_def)
  show "EventLoop_ok (EventLoop_scheduleTimer t d g l)" "EventLoop_ok (EventLoop_cancelTimer t l)"
    using ok by (auto intro: EventLoop_ok_ops)
  show "EventLoop_ok (snd (EventLoop_takeDue now l))"
    using EventLoop_ok_ops(12) [OF ok, of now] by (auto simp: EventLoop_takeDue_def split: prod.splits)
  show "EventLoop_armed (EventLoop_cancelTimer t l) = (EventLoop_armed l)(t := None)"
    by (rule ext) (use map_of_entries_filter [OF dis, of "\<lambda>e. True"] in
      \<open>auto simp: EventLoop_armed_def EventLoop_cancelTimer_def map_of_entries_filter [OF dis]
         split: option.splits dest!: map_of_SomeD\<close>)
  show "EventLoop_armed (EventLoop_scheduleTimer t d g l) = (EventLoop_armed l)(t \<mapsto> (d, g))"
    by (rule ext) (use map_of_entries_filter [OF dis, of "\<lambda>e. True"] in
      \<open>auto simp: EventLoop_armed_def EventLoop_scheduleTimer_def map_of_entries_filter [OF dis]
         map_add_def split: option.splits dest!: map_of_SomeD\<close>)
  show "(t, g) \<in> set (fst (EventLoop_takeDue now l)) \<longleftrightarrow> (\<exists>d \<le> now. EventLoop_armed l t = Some (d, g))"
    by (auto simp: EventLoop_takeDue_def EventLoop_takeDueTimers_def take_due_timers_filter
        EventLoop_armed_iff [OF ok])
  show "distinct (map fst (fst (EventLoop_takeDue now l)))"
    using dis by (simp add: EventLoop_takeDue_def EventLoop_takeDueTimers_def take_due_timers_filter
        comp_def distinct_map_filter)
  show "EventLoop_armed (snd (EventLoop_takeDue now l)) t =
      (case EventLoop_armed l t of None \<Rightarrow> None | Some (d, g) \<Rightarrow> if d \<le> now then None else Some (d, g))"
    using map_of_entries_filter [OF dis, of "\<lambda>e. True" t]
      map_of_entries_filter [OF dis, of "\<lambda>e. \<not> te_deadline e \<le> now" t]
    by (auto simp: EventLoop_takeDue_def EventLoop_takeDueTimers_def take_due_timers_filter
        EventLoop_armed_def split: option.splits)
qed



subsection \<open>Deadlines\<close>

lemma min_deadline_le: "min_deadline d es \<le> d \<and> (\<forall>e \<in> set es. min_deadline d es \<le> te_deadline e)"
proof (induction d es rule: min_deadline.induct)
  case (2 d e es)
  then show ?case by (auto split: if_splits)
qed simp

lemma min_deadline_attained: "min_deadline d es = d \<or> (\<exists>e \<in> set es. min_deadline d es = te_deadline e)"
proof (induction d es rule: min_deadline.induct)
  case (2 d e es)
  then show ?case by (auto split: if_splits)
qed simp

lemma nextTimerDeadline_Min:
  "EventLoop_nextTimerDeadline l =
     (if el_timers l = [] then None else Some (Min (te_deadline ` set (el_timers l))))"
proof (cases "el_timers l")
  case (Cons e es)
  have "Min (te_deadline ` set (e # es)) = min_deadline (te_deadline e) es"
    using min_deadline_le [of "te_deadline e" es] min_deadline_attained [of "te_deadline e" es]
    by (intro Min_eqI) auto
  then show ?thesis by (simp add: Cons EventLoop_nextTimerDeadline_def)
qed (simp add: EventLoop_nextTimerDeadline_def)


section \<open>Facts about the loop\<close>

subsection \<open>Draining the task queue\<close>

text \<open>The tasks a task posts are ranked below it: then no task keeps the queue filled for ever.\<close>

definition posts_ranked :: "('t, 'c, 'w) loop_env \<Rightarrow> ('t \<Rightarrow> nat) \<Rightarrow> bool" where
  "posts_ranked E rank \<longleftrightarrow>
     (\<forall>t l w. \<exists>ps. el_tasks (fst (env_task E t (l, w))) = el_tasks l @ ps \<and> (\<forall>p \<in> set ps. rank p < rank t))"

lemma drain_tasks_Cons:
  "el_tasks (fst s) = t # ts \<Longrightarrow>
   drain_tasks E s = drain_tasks E (env_task E t ((fst s)\<lparr>el_tasks := ts\<rparr>, snd s))"
  by (subst drain_tasks.simps) (simp add: EventLoop_popNextTask_def)

lemma drain_tasks_Nil: "el_tasks (fst s) = [] \<Longrightarrow> drain_tasks E s = Some s"
  by (subst drain_tasks.simps) (simp add: EventLoop_popNextTask_def)

lemma drain_step_smaller:
  assumes "posts_ranked E rank" and Cons: "el_tasks (fst s) = t # ts"
  shows "(mset (map rank (el_tasks (fst (env_task E t ((fst s)\<lparr>el_tasks := ts\<rparr>, snd s))))),
          mset (map rank (el_tasks (fst s)))) \<in> mult less_than"
proof -
  obtain ps where ps: "el_tasks (fst (env_task E t ((fst s)\<lparr>el_tasks := ts\<rparr>, snd s))) = ts @ ps"
    "\<forall>p \<in> set ps. rank p < rank t"
    using assms(1) [unfolded posts_ranked_def, rule_format, of t "(fst s)\<lparr>el_tasks := ts\<rparr>" "snd s"]
    by auto
  have "(mset (map rank ts) + mset (map rank ps), mset (map rank ts) + {#rank t#}) \<in> mult less_than"
    using ps(2) by (intro one_step_implies_mult) auto
  then show ?thesis by (simp add: ps(1) Cons)
qed

lemma drain_tasks_returns:
  assumes ranked: "posts_ranked E rank"
  shows "\<exists>s'. drain_tasks E s = Some s' \<and> el_tasks (fst s') = []"
proof (induction "mset (map rank (el_tasks (fst s)))" arbitrary: s rule: wf_induct_rule
    [OF wf_mult [OF wf_less_than]])
  case (1 s)
  show ?case
  proof (cases "el_tasks (fst s)")
    case Nil
    then show ?thesis by (simp add: drain_tasks_Nil)
  next
    case (Cons t ts)
    define s' where "s' = env_task E t ((fst s)\<lparr>el_tasks := ts\<rparr>, snd s)"
    have "(mset (map rank (el_tasks (fst s'))), mset (map rank (el_tasks (fst s)))) \<in> mult less_than"
      using drain_step_smaller [OF ranked Cons] by (simp add: s'_def)
    then obtain r where "drain_tasks E s' = Some r" "el_tasks (fst r) = []"
      using 1 by blast
    then show ?thesis using drain_tasks_Cons [OF Cons] by (simp add: s'_def)
  qed
qed

text \<open>Posted work is run in the order of posting: an environment that records what it runs.\<close>

definition log_env :: "('t \<Rightarrow> 't list) \<Rightarrow> ('t, 'c, 't list) loop_env" where
  "log_env posts =
     \<lparr>env_task = (\<lambda>t (l, w). (fold EventLoop_post (posts t) l, w @ [t])), env_alive = (\<lambda>_ _. False),
      env_delete = (\<lambda>_ s. s), env_dispatchTimeout = (\<lambda>_ _ s. s), env_io = (\<lambda>_ _ s. s),
      env_node_run = (\<lambda>_ s. s)\<rparr>"

lemma el_tasks_posts: "el_tasks (fold EventLoop_post ts l) = el_tasks l @ ts"
  by (induction ts arbitrary: l) (simp_all add: EventLoop_post_def)

text \<open>
  The loop runs a breadth-first walk: the log of one drain is the queue it started with followed by
  what the tasks of the log posted, in the same order.
\<close>

lemma drain_tasks_fifo:
  fixes s :: "('t, 'c) EventLoop \<times> 't list"
  assumes "drain_tasks (log_env posts) s = Some s'"
  shows "\<exists>ran. snd s' = snd s @ ran \<and> ran = el_tasks (fst s) @ concat (map posts ran)"
proof -
  have "(log_env posts :: ('t, 'c, 't list) loop_env) = log_env posts \<longrightarrow>
      (\<exists>ran. snd s' = snd s @ ran \<and> ran = el_tasks (fst s) @ concat (map posts ran))"
  proof (rule drain_tasks.raw_induct [where P = "\<lambda>(E :: ('t, 'c, 't list) loop_env) s s'. E = log_env posts \<longrightarrow>
      (\<exists>ran. snd s' = snd s @ ran \<and> ran = el_tasks (fst s) @ concat (map posts ran))", OF _ assms])
    fix f and E :: "('t, 'c, 't list) loop_env" and s s'
    assume IH: "\<And>E s s'. f E s = Some s' \<Longrightarrow> E = log_env posts \<longrightarrow>
        (\<exists>ran. snd s' = snd s @ ran \<and> ran = el_tasks (fst s) @ concat (map posts ran))"
      and eq: "(case EventLoop_popNextTask (fst s) of None \<Rightarrow> Some s
        | Some (t, l) \<Rightarrow> f E (env_task E t (l, snd s))) = Some s'"
    show "E = log_env posts \<longrightarrow>
        (\<exists>ran. snd s' = snd s @ ran \<and> ran = el_tasks (fst s) @ concat (map posts ran))"
    proof (cases "el_tasks (fst s)")
      case Nil
      with eq show ?thesis by (simp add: EventLoop_popNextTask_def)
    next
      case (Cons t ts)
      show ?thesis
      proof
        assume E: "E = log_env posts"
        define s2 where "s2 = env_task E t ((fst s)\<lparr>el_tasks := ts\<rparr>, snd s)"
        have "f E s2 = Some s'" using eq Cons by (simp add: EventLoop_popNextTask_def s2_def)
        then obtain ran where ran: "snd s' = snd s2 @ ran"
          "ran = el_tasks (fst s2) @ concat (map posts ran)"
          using IH E by blast
        have "snd s2 = snd s @ [t]" "el_tasks (fst s2) = ts @ posts t"
          by (simp_all add: E s2_def log_env_def el_tasks_posts)
        with ran Cons show "\<exists>ran. snd s' = snd s @ ran \<and> ran = el_tasks (fst s) @ concat (map posts ran)"
          by (intro exI [of _ "t # ran"]) simp
      qed
    qed
  qed
  then show ?thesis by simp
qed



subsection \<open>Stopping and waiting\<close>

text \<open>Only \<open>run\<close> itself clears \<open>m_stop\<close>; what it calls may set it, never clear it.\<close>

definition keeps_stop :: "('t, 'c, 'w) loop_env \<Rightarrow> bool" where
  "keeps_stop E \<longleftrightarrow>
     (\<forall>s. el_stop (fst s) \<longrightarrow>
        (\<forall>t. el_stop (fst (env_task E t s))) \<and> (\<forall>n. el_stop (fst (env_delete E n s)))
        \<and> (\<forall>t g. el_stop (fst (env_dispatchTimeout E t g s))) \<and> (\<forall>c e. el_stop (fst (env_io E c e s)))
        \<and> (\<forall>n. el_stop (fst (env_node_run E n s))))"

lemma fold_keeps: "(\<And>x s. P s \<Longrightarrow> P (f x s)) \<Longrightarrow> P s \<Longrightarrow> P (fold f xs s)"
  by (induction xs arbitrary: s) auto

lemma el_stop_markReadyIOHandled [simp]: "el_stop (EventLoop_markReadyIOHandled fd l) = el_stop l"
  by (simp add: EventLoop_markReadyIOHandled_def split: option.splits)

lemma keeps_stop_phases:
  assumes "keeps_stop E" "el_stop (fst s)"
  shows "el_stop (fst (run_deletes E s))" "el_stop (fst (run_timers E now s))"
    "el_stop (fst (run_io E s))" "el_stop (fst (run_roots E s))"
  using assms
  by (auto simp: keeps_stop_def run_deletes_def run_timers_def run_io_def run_roots_def Let_def
      EventLoop_takePendingDeletes_def EventLoop_takeDueTimers_def EventLoop_takeReadyIO_def
      intro!: fold_keeps [where P = "\<lambda>s. el_stop (fst s)"] split: prod.splits option.splits)

lemma drain_tasks_keeps_stop:
  assumes E: "keeps_stop E" and ranked: "posts_ranked E rank"
  shows "el_stop (fst s) \<Longrightarrow> \<exists>s'. drain_tasks E s = Some s' \<and> el_stop (fst s')"
proof (induction "mset (map rank (el_tasks (fst s)))" arbitrary: s rule: wf_induct_rule
    [OF wf_mult [OF wf_less_than]])
  case (1 s)
  show ?case
  proof (cases "el_tasks (fst s)")
    case Nil
    then show ?thesis using "1.prems" by (simp add: drain_tasks_Nil)
  next
    case (Cons t ts)
    define s' where "s' = env_task E t ((fst s)\<lparr>el_tasks := ts\<rparr>, snd s)"
    have less: "(mset (map rank (el_tasks (fst s'))), mset (map rank (el_tasks (fst s)))) \<in> mult less_than"
      using drain_step_smaller [OF ranked Cons] by (simp add: s'_def)
    have "el_stop (fst s')" using E "1.prems" by (simp add: keeps_stop_def s'_def)
    then show ?thesis using 1(1) [OF less] drain_tasks_Cons [OF Cons] by (simp add: s'_def)
  qed
qed

lemma run_stops_after_one_pass:
  assumes E: "keeps_stop E" and ranked: "posts_ranked E rank" and stop: "el_stop l"
  shows "\<exists>l' w'. EventLoop_run E (k # ks) (l, w) = Some (l', w') \<and> \<not> el_stop l' \<and> \<not> el_running l'"
proof -
  have "el_stop (fst (l\<lparr>el_running := True\<rparr>, w))" using stop by simp
  then obtain s where s: "drain_tasks E (l\<lparr>el_running := True\<rparr>, w) = Some s" "el_stop (fst s)"
    using drain_tasks_keeps_stop [OF E ranked] by metis
  then have "el_stop (fst (run_roots E (run_io E (run_timers E (wk_now k) (run_deletes E s)))))"
    by (intro keeps_stop_phases E)
  with s show ?thesis
    by (auto simp: EventLoop_run_def EventLoop_runPendingWork_def split: prod.splits)
qed

text \<open>The wait never outlasts the earliest armed timer and never starts with work queued.\<close>

lemma wait_returns_with_work:
  "el_tasks l \<noteq> [] \<or> el_nodesToDelete l \<noteq> [] \<or> el_readyIO l \<noteq> [] \<or> el_stop l \<Longrightarrow> wait_returns now d l"
  by (auto simp: wait_returns_def wait_predicate_def split: option.splits)

lemma wait_returns_for_timer:
  "e \<in> set (el_timers l) \<Longrightarrow> te_deadline e \<le> now \<Longrightarrow>
   wait_returns now (EventLoop_nextTimerDeadline l) l"
proof -
  assume e: "e \<in> set (el_timers l)" "te_deadline e \<le> now"
  define m where "m = Min (te_deadline ` set (el_timers l))"
  have "m \<le> te_deadline e" unfolding m_def using e by (intro Min_le) auto
  moreover have "EventLoop_nextTimerDeadline l = Some m"
    using e by (auto simp: nextTimerDeadline_Min m_def)
  ultimately show ?thesis using e by (simp add: wait_returns_def)
qed

section \<open>Guarantees of the loop\<close>

lemma posts_ranked_log_env:
  "(\<And>t p. p \<in> set (posts t) \<Longrightarrow> rank p < rank t) \<Longrightarrow> posts_ranked (log_env posts) rank"
  by (auto simp: posts_ranked_def log_env_def el_tasks_posts)

text \<open>
  C3. Draining the task queue ends whenever tasks post only tasks of a lower rank, leaves the queue
  empty, and runs the tasks in the order of posting: first those that were queued, then, in order,
  those each task posted while it ran.
\<close>
theorem EventLoop_drain_in_order:
  fixes posts :: "'t \<Rightarrow> 't list" and l :: "('t, 'c) EventLoop"
  assumes "\<And>t p. p \<in> set (posts t) \<Longrightarrow> (rank p :: nat) < rank t"
  shows "\<exists>l' ran. drain_tasks (log_env posts) (l, []) = Some (l', ran) \<and> el_tasks l' = []
    \<and> ran = el_tasks l @ concat (map posts ran)"
proof -
  obtain s' where s': "drain_tasks (log_env posts) (l, []) = Some s'" "el_tasks (fst s') = []"
    using drain_tasks_returns [OF posts_ranked_log_env [of posts rank]] assms by blast
  then obtain ran where "snd s' = ran" "ran = el_tasks l @ concat (map posts ran)"
    using drain_tasks_fifo [OF s'(1)] by auto
  with s' show ?thesis by (metis prod.collapse)
qed

theorem EventLoop_drain_in_order_witness:
  "\<exists>l' ran. drain_tasks (log_env (\<lambda>t. if t = (2::nat) then [1, 0] else if t = 1 then [0] else []))
      (EventLoop_post 1 (EventLoop_post 2 (EventLoop_init :: (nat, unit) EventLoop)), []) = Some (l', ran)
    \<and> ran = [2, 1, 1, 0, 0, 0]"
proof -
  let ?posts = "\<lambda>t. if t = (2::nat) then [1, 0] else if t = 1 then [0] else []"
  let ?l = "EventLoop_post 1 (EventLoop_post 2 (EventLoop_init :: (nat, unit) EventLoop))"
  have "el_tasks ?l = [2, 1]" by (simp add: EventLoop_post_def EventLoop_init_def)
  moreover obtain l' ran where "drain_tasks (log_env ?posts) (?l, []) = Some (l', ran)"
    and "ran = el_tasks ?l @ concat (map ?posts ran)"
    using EventLoop_drain_in_order [of ?posts "\<lambda>t. t" ?l] by (force split: if_splits)
  moreover have "ran = [2, 1, 1, 0, 0, 0]" if "ran = [2, 1] @ concat (map ?posts ran)" for ran
    by (subst that, subst that, subst that, subst that) simp
  ultimately show ?thesis by auto
qed

text \<open>
  A stop request ends the loop: with \<open>m_stop\<close> set on entry, \<open>run\<close> performs one pass over
  the pending work and returns without waiting, whatever that work does (short of clearing the flag
  itself), and leaves \<open>m_stop\<close> and \<open>m_running\<close> false.
\<close>
theorem EventLoop_run_obeys_stop:
  assumes "keeps_stop E" "posts_ranked E rank"
  shows "\<exists>l' w'. EventLoop_run E (k # ks) (EventLoop_stop l, w) = Some (l', w') \<and> \<not> el_stop l' \<and> \<not> el_running l'"
  by (rule run_stops_after_one_pass [OF assms]) (simp add: EventLoop_stop_def)

theorem EventLoop_run_obeys_stop_witness:
  "\<exists>l' w'. EventLoop_run (log_env (\<lambda>t::nat. []))
      [\<lparr>wk_now = 0, wk_others = id, wk_at = 0\<rparr>]
      (EventLoop_stop (EventLoop_post 4 (EventLoop_init :: (nat, unit) EventLoop)), []) = Some (l', w')
    \<and> \<not> el_stop l' \<and> \<not> el_running l'"
  by (rule EventLoop_run_obeys_stop [where rank = id])
     (auto simp: keeps_stop_def posts_ranked_def log_env_def)

text \<open>
  The wait at the end of an iteration cannot sleep through work: with a task, a deletion, a
  ready descriptor or a stop request pending, or at the deadline of any armed timer, it returns.
\<close>
theorem EventLoop_wait_never_misses_work:
  assumes "el_tasks l \<noteq> [] \<or> el_nodesToDelete l \<noteq> [] \<or> el_readyIO l \<noteq> [] \<or> el_stop l
    \<or> (\<exists>e \<in> set (el_timers l). te_deadline e \<le> now)"
  shows "wait_returns now (EventLoop_nextTimerDeadline l) l"
  using assms wait_returns_with_work wait_returns_for_timer by blast

theorem EventLoop_wait_never_misses_work_witness:
  "wait_returns 9 (EventLoop_nextTimerDeadline
     (EventLoop_scheduleTimer 2 20 0 (EventLoop_scheduleTimer 1 8 0 (EventLoop_init :: (unit, unit) EventLoop))))
     (EventLoop_scheduleTimer 2 20 0 (EventLoop_scheduleTimer 1 8 0 (EventLoop_init :: (unit, unit) EventLoop)))"
  by (rule EventLoop_wait_never_misses_work) (simp add: EventLoop_scheduleTimer_def EventLoop_init_def)

end
