(* ===== verification/TimerService.thy ===== *)
theory TimerService
  imports Executors
begin

text \<open>
  \<open>snf::detail::TimerService\<close> (\<open>Core/src/SNFCore/TimerService.h\<close>, \<open>TimerService.cpp\<close>): the deadline
  queue of the timers that strands own. Every definition is one region under \<open>m_mutex\<close>. The
  queue is the multimap in deadline order; an iterator of it is a number that is never used twice,
  which is what \<open>m_index\<close> stores per timer. The \<open>NodePtr\<close> of an entry is the identity of the
  timer's control block.
\<close>

record Entry =
  en_strand :: addr
  en_timer :: addr
  en_generation :: gen

record TimerService =
  ts_queue :: "(time \<times> nat \<times> Entry) list"
  ts_index :: "(addr, nat) smap"
  ts_nextIterator :: nat
  ts_thread :: bool
  ts_stopped :: bool

definition TimerService_init :: TimerService where
  "TimerService_init =
     \<lparr>ts_queue = [], ts_index = [], ts_nextIterator = 0, ts_thread = False, ts_stopped = False\<rparr>"

type_synonym slot = "time \<times> nat \<times> Entry"

definition slot_timer :: "slot \<Rightarrow> addr" where
  "slot_timer x = en_timer (snd (snd x))"

definition slot_iterator :: "slot \<Rightarrow> nat" where
  "slot_iterator x = fst (snd x)"

definition slot_generation :: "slot \<Rightarrow> gen" where
  "slot_generation x = en_generation (snd (snd x))"

definition slot_deadline :: "slot \<Rightarrow> time" where
  "slot_deadline x = fst x"

lemmas slot_simps = slot_timer_def slot_iterator_def slot_generation_def slot_deadline_def


section \<open>Operations\<close>

definition TimerService_cancel :: "addr \<Rightarrow> TimerService \<Rightarrow> TimerService" where
  "TimerService_cancel t s =
     (case smap_get (ts_index s) t of
        None \<Rightarrow> s
      | Some it \<Rightarrow> s\<lparr>ts_queue := filter (\<lambda>x. slot_iterator x \<noteq> it) (ts_queue s),
                     ts_index := smap_del t (ts_index s)\<rparr>)"

definition TimerService_schedule ::
  "addr \<Rightarrow> addr \<Rightarrow> time \<Rightarrow> gen \<Rightarrow> TimerService \<Rightarrow> TimerService" where
  "TimerService_schedule strand t d g s =
     (if ts_stopped s then s
      else let s1 = (case smap_get (ts_index s) t of
                       None \<Rightarrow> s
                     | Some it \<Rightarrow> s\<lparr>ts_queue := filter (\<lambda>x. slot_iterator x \<noteq> it) (ts_queue s),
                                    ts_index := smap_del t (ts_index s)\<rparr>);
               it = ts_nextIterator s1
           in s1\<lparr>ts_queue := mmap_emplace d
                   (it, \<lparr>en_strand = strand, en_timer = t, en_generation = g\<rparr>) (ts_queue s1),
                 ts_index := smap_put t it (ts_index s1), ts_nextIterator := Suc it, ts_thread := True\<rparr>)"

definition TimerService_stop :: "TimerService \<Rightarrow> TimerService" where
  "TimerService_stop s = s\<lparr>ts_stopped := True, ts_queue := [], ts_index := [], ts_thread := False\<rparr>"

definition TimerService_armedCount :: "TimerService \<Rightarrow> nat" where
  "TimerService_armedCount s = length (ts_queue s)"

text \<open>The inner loop of \<open>run\<close>: take every due timer out of the queue and the index.\<close>

fun take_due_entries ::
  "time \<Rightarrow> slot list \<Rightarrow> (addr, nat) smap \<Rightarrow>
     Entry list \<times> slot list \<times> (addr, nat) smap" where
  "take_due_entries now [] index = ([], [], index)"
| "take_due_entries now ((d, it, e) # q) index =
     (if d \<le> now
      then let (due, rest) = take_due_entries now q (smap_del (en_timer e) index) in (e # due, rest)
      else ([], (d, it, e) # q, index))"

text \<open>One round of \<open>run\<close>: nothing while stopped, with an empty queue, or before the first deadline.\<close>

definition TimerService_run :: "time \<Rightarrow> TimerService \<Rightarrow> Entry list \<times> TimerService" where
  "TimerService_run now s =
     (if ts_stopped s then ([], s)
      else case ts_queue s of
             [] \<Rightarrow> ([], s)
           | (d, _) # _ \<Rightarrow>
               if now < d then ([], s)
               else let (due, q, index) = take_due_entries now (ts_queue s) (ts_index s)
                    in (due, s\<lparr>ts_queue := q, ts_index := index\<rparr>))"

text \<open>The task \<open>run\<close> posts to the entry's strand: it fires only while the timer is alive and still
  owned by that strand.\<close>

definition TimerService_timeout ::
  "(addr \<Rightarrow> bool) \<Rightarrow> (addr \<Rightarrow> addr) \<Rightarrow> (addr \<Rightarrow> gen \<Rightarrow> 'w \<Rightarrow> 'w) \<Rightarrow> Entry \<Rightarrow> 'w \<Rightarrow> 'w" where
  "TimerService_timeout alive owner dispatch e w =
     (if alive (en_timer e) \<and> owner (en_timer e) = en_strand e
      then dispatch (en_timer e) (en_generation e) w else w)"


section \<open>Invariant\<close>

text \<open>Queue and index describe the same armed timers, each of them once.\<close>

definition index_of :: "(addr, nat) smap \<Rightarrow> slot list \<Rightarrow> bool" where
  "index_of index q \<longleftrightarrow> smap_ok index
     \<and> (\<forall>t it. smap_get index t = Some it \<longleftrightarrow> (\<exists>x \<in> set q. slot_timer x = t \<and> slot_iterator x = it))"

definition TimerService_ok :: "TimerService \<Rightarrow> bool" where
  "TimerService_ok s \<longleftrightarrow> \<not> ts_stopped s \<and> sorted (map slot_deadline (ts_queue s))
     \<and> distinct (map slot_timer (ts_queue s)) \<and> distinct (map slot_iterator (ts_queue s))
     \<and> (\<forall>x \<in> set (ts_queue s). slot_iterator x < ts_nextIterator s) \<and> index_of (ts_index s) (ts_queue s)"

lemma TimerService_ok_init: "TimerService_ok TimerService_init"
  by (simp add: TimerService_ok_def TimerService_init_def index_of_def)

lemma distinct_map_filter_slots: "distinct (map f q) \<Longrightarrow> distinct (map f (filter P q))"
  by (induction q) auto

lemma sorted_map_filter: "sorted (map f q) \<Longrightarrow> sorted (map f (filter P q))"
  by (induction q) auto

lemma index_of_none: "index_of index q \<Longrightarrow> smap_get index t = None \<longleftrightarrow> t \<notin> slot_timer ` set q"
  unfolding index_of_def by (metis (mono_tags, lifting) image_iff not_None_eq)

text \<open>Erasing through the index is erasing by timer.\<close>

lemma cancel_queue:
  assumes "TimerService_ok s"
  shows "ts_queue (TimerService_cancel t s) = filter (\<lambda>x. slot_timer x \<noteq> t) (ts_queue s)"
proof (cases "smap_get (ts_index s) t")
  case None
  have "index_of (ts_index s) (ts_queue s)" using assms by (simp add: TimerService_ok_def)
  from index_of_none [OF this] None have "t \<notin> slot_timer ` set (ts_queue s)" by blast
  then have "\<forall>x \<in> set (ts_queue s). slot_timer x \<noteq> t" by blast
  with None show ?thesis by (simp add: TimerService_cancel_def)
next
  case (Some it)
  with assms obtain x where x: "x \<in> set (ts_queue s)" "slot_timer x = t" "slot_iterator x = it"
    by (auto simp: TimerService_ok_def index_of_def)
  have "slot_iterator y = it \<longleftrightarrow> slot_timer y = t" if "y \<in> set (ts_queue s)" for y
    using assms that x by (metis (no_types, lifting) TimerService_ok_def distinct_map inj_onD)
  with Some show ?thesis by (auto simp: TimerService_cancel_def intro!: filter_cong)
qed

lemma cancel_frame:
  "ts_stopped (TimerService_cancel t s) = ts_stopped s"
  "ts_nextIterator (TimerService_cancel t s) = ts_nextIterator s"
  by (auto simp: TimerService_cancel_def split: option.splits)

lemma index_of_del:
  "index_of index q \<Longrightarrow> index_of (smap_del t index) (filter (\<lambda>x. slot_timer x \<noteq> t) q)"
  by (auto simp: index_of_def)

lemma TimerService_ok_cancel [inv_step]:
  assumes ok: "TimerService_ok s"
  shows "TimerService_ok (TimerService_cancel t s)"
proof -
  have "index_of (ts_index (TimerService_cancel t s)) (ts_queue (TimerService_cancel t s))"
  proof (cases "smap_get (ts_index s) t")
    case None
    then show ?thesis using ok by (simp add: TimerService_cancel_def TimerService_ok_def)
  next
    case (Some it)
    then have "ts_index (TimerService_cancel t s) = smap_del t (ts_index s)"
      by (simp add: TimerService_cancel_def)
    then show ?thesis using ok by (simp add: cancel_queue index_of_del TimerService_ok_def)
  qed
  with ok show ?thesis
    by (auto simp: TimerService_ok_def cancel_queue cancel_frame distinct_map_filter_slots sorted_map_filter)
qed

lemma schedule_cancel:
  "\<not> ts_stopped s \<Longrightarrow>
   TimerService_schedule strand t d g s =
     (let s1 = TimerService_cancel t s; it = ts_nextIterator s1
      in s1\<lparr>ts_queue := mmap_emplace d
              (it, \<lparr>en_strand = strand, en_timer = t, en_generation = g\<rparr>) (ts_queue s1),
            ts_index := smap_put t it (ts_index s1), ts_nextIterator := Suc it, ts_thread := True\<rparr>)"
  by (simp add: TimerService_schedule_def TimerService_cancel_def Let_def)

lemma distinct_map_emplace:
  "distinct (map f (mmap_emplace d v q)) \<longleftrightarrow> f (d, v) \<notin> f ` set q \<and> distinct (map f q)"
  by (induction d v q rule: mmap_emplace.induct) auto

lemma slot_new:
  "slot_timer (d, it, e) = en_timer e" "slot_iterator (d, it, e) = it"
  "slot_generation (d, it, e) = en_generation e" "slot_deadline (d, it, e) = d"
  by (simp_all add: slot_simps)

lemma sorted_slots_emplace:
  "sorted (map slot_deadline q) \<Longrightarrow> sorted (map slot_deadline (mmap_emplace d v q))"
  using sorted_mmap_emplace [of q d v] by (simp add: slot_deadline_def [abs_def] cong: map_cong)

lemma TimerService_ok_schedule [inv_step]:
  assumes ok: "TimerService_ok s"
  shows "TimerService_ok (TimerService_schedule strand t d g s)"
proof -
  define s1 where "s1 = TimerService_cancel t s"
  have ok1: "TimerService_ok s1" and fresh': "\<forall>x \<in> set (ts_queue s1). slot_timer x \<noteq> t"
    using ok TimerService_ok_cancel cancel_queue by (auto simp: s1_def)
  then have fresh: "t \<notin> slot_timer ` set (ts_queue s1)" by blast
  have "\<forall>x \<in> set (ts_queue s1). slot_iterator x < ts_nextIterator s1"
    using ok1 by (simp add: TimerService_ok_def)
  then have "ts_nextIterator s1 \<notin> slot_iterator ` set (ts_queue s1)" by fastforce
  moreover have "index_of (smap_put t it (ts_index s1)) (mmap_emplace d (it, e) (ts_queue s1))"
    if "en_timer e = t" for it e
    using ok1 fresh' that slot_new [of d it e] by (auto simp: TimerService_ok_def index_of_def)
  moreover have "\<not> ts_stopped s" using ok by (simp add: TimerService_ok_def)
  ultimately show ?thesis
    using ok1 fresh by (simp add: TimerService_ok_def schedule_cancel s1_def [symmetric] Let_def
        sorted_slots_emplace distinct_map_emplace less_Suc_eq slot_new)
qed



section \<open>The queue as a timer host\<close>

lemma take_due_entries_queue:
  "sorted (map slot_deadline q) \<Longrightarrow>
   take_due_entries now q index =
     (map (snd \<circ> snd) (filter (\<lambda>x. slot_deadline x \<le> now) q), filter (\<lambda>x. \<not> slot_deadline x \<le> now) q,
      fold (\<lambda>x. smap_del (slot_timer x)) (filter (\<lambda>x. slot_deadline x \<le> now) q) index)"
proof (induction now q index rule: take_due_entries.induct)
  case (2 now d it e q index)
  show ?case
  proof (cases "d \<le> now")
    case False
    have "\<forall>x \<in> set q. d \<le> slot_deadline x" using "2.prems" by (simp add: slot_new)
    with False have "\<forall>x \<in> set q. \<not> slot_deadline x \<le> now" by fastforce
    then have "filter (\<lambda>x. slot_deadline x \<le> now) q = []" "filter (\<lambda>x. \<not> slot_deadline x \<le> now) q = q"
      by (auto simp: filter_empty_conv filter_id_conv)
    with False show ?thesis by (simp add: slot_new)
  qed (use 2 in \<open>simp add: slot_new\<close>)
qed simp

lemma index_of_fold_del:
  "index_of index q \<Longrightarrow> index_of (fold (\<lambda>x. smap_del (slot_timer x)) xs index)
     (filter (\<lambda>y. slot_timer y \<notin> slot_timer ` set xs) q)"
proof (induction xs arbitrary: index q)
  case (Cons x xs)
  have "filter (\<lambda>y. slot_timer y \<notin> slot_timer ` set xs) (filter (\<lambda>y. slot_timer y \<noteq> slot_timer x) q)
      = filter (\<lambda>y. slot_timer y \<notin> slot_timer ` set (x # xs)) q"
    by (auto intro!: filter_cong)
  then show ?case using Cons.IH [OF index_of_del [OF Cons.prems, of "slot_timer x"]] by simp
qed simp

text \<open>One round in closed form: what is due leaves, the rest stays, whether or not the guard on the
  first deadline is taken.\<close>

lemma TimerService_run_eq:
  assumes ok: "TimerService_ok s"
  shows "TimerService_run now s =
    (map (snd \<circ> snd) (filter (\<lambda>x. slot_deadline x \<le> now) (ts_queue s)),
     s\<lparr>ts_queue := filter (\<lambda>x. \<not> slot_deadline x \<le> now) (ts_queue s),
       ts_index := fold (\<lambda>x. smap_del (slot_timer x)) (filter (\<lambda>x. slot_deadline x \<le> now) (ts_queue s)) (ts_index s)\<rparr>)"
proof (cases "ts_queue s = [] \<or> now < slot_deadline (hd (ts_queue s))")
  case True
  have "sorted (map slot_deadline (ts_queue s))" using ok by (simp add: TimerService_ok_def)
  with True have "\<forall>x \<in> set (ts_queue s). \<not> slot_deadline x \<le> now" by (cases "ts_queue s") auto
  then have "filter (\<lambda>x. slot_deadline x \<le> now) (ts_queue s) = []" "filter (\<lambda>x. \<not> slot_deadline x \<le> now) (ts_queue s) = ts_queue s"
    by (auto simp: filter_empty_conv filter_id_conv)
  with True ok show ?thesis
    by (cases s, cases "ts_queue s") (auto simp: TimerService_run_def TimerService_ok_def slot_deadline_def)
next
  case False
  then obtain d v q where "ts_queue s = (d, v) # q" "\<not> now < d"
    by (cases "ts_queue s") (auto simp: slot_deadline_def)
  moreover have "sorted (map slot_deadline (ts_queue s))" "\<not> ts_stopped s" using ok by (auto simp: TimerService_ok_def)
  ultimately show ?thesis
    by (simp add: TimerService_run_def take_due_entries_queue del: take_due_entries.simps filter.simps)
qed

lemma TimerService_ok_run [inv_step]:
  assumes ok: "TimerService_ok s"
  shows "TimerService_ok (snd (TimerService_run now s))"
proof -
  let ?q = "ts_queue s" and ?due = "filter (\<lambda>x. slot_deadline x \<le> now) (ts_queue s)"
  have idx: "index_of (ts_index s) ?q" and inj: "inj_on slot_timer (set ?q)"
    using ok by (auto simp: TimerService_ok_def distinct_map)
  have "slot_timer y \<notin> slot_timer ` set ?due \<longleftrightarrow> \<not> slot_deadline y \<le> now" if "y \<in> set ?q" for y
    using inj_on_image_mem_iff [OF inj that, of "set ?due"] that by auto
  then have "filter (\<lambda>y. slot_timer y \<notin> slot_timer ` set ?due) ?q = filter (\<lambda>x. \<not> slot_deadline x \<le> now) ?q"
    by (intro filter_cong refl) blast
  with index_of_fold_del [OF idx, of ?due]
  have "index_of (fold (\<lambda>x. smap_del (slot_timer x)) ?due (ts_index s)) (filter (\<lambda>x. \<not> slot_deadline x \<le> now) ?q)"
    by simp
  with ok show ?thesis
    by (simp add: TimerService_ok_def TimerService_run_eq [OF ok] distinct_map_filter_slots sorted_map_filter)
qed

definition TimerService_armed :: "TimerService \<Rightarrow> addr \<Rightarrow> (time \<times> gen) option" where
  "TimerService_armed s = map_of (map (\<lambda>x. (slot_timer x, slot_deadline x, slot_generation x)) (ts_queue s))"

definition TimerService_takeDue :: "time \<Rightarrow> TimerService \<Rightarrow> (addr \<times> gen) list \<times> TimerService" where
  "TimerService_takeDue now s =
     (let (due, s') = TimerService_run now s in (map (\<lambda>e. (en_timer e, en_generation e)) due, s'))"

lemma TimerService_armed_iff:
  assumes "TimerService_ok s"
  shows "TimerService_armed s t = Some (d, g) \<longleftrightarrow>
    (\<exists>x \<in> set (ts_queue s). slot_timer x = t \<and> slot_deadline x = d \<and> slot_generation x = g)"
proof -
  have "distinct (map fst (map (\<lambda>x. (slot_timer x, slot_deadline x, slot_generation x)) (ts_queue s)))"
    using assms by (simp add: TimerService_ok_def comp_def)
  then show ?thesis by (auto simp: TimerService_armed_def)
qed

lemma TimerService_armed_eqI:
  assumes "TimerService_ok s"
    and "\<And>t d g. f t = Some (d, g) \<longleftrightarrow>
      (\<exists>x \<in> set (ts_queue s). slot_timer x = t \<and> slot_deadline x = d \<and> slot_generation x = g)"
  shows "TimerService_armed s = f"
proof
  fix t
  show "TimerService_armed s t = f t"
    using assms by (metis TimerService_armed_iff not_None_eq surj_pair)
qed

lemma takeDue_slots:
  "TimerService_ok s \<Longrightarrow> fst (TimerService_takeDue now s) =
     map (\<lambda>x. (slot_timer x, slot_generation x)) (filter (\<lambda>x. slot_deadline x \<le> now) (ts_queue s))"
  by (simp add: TimerService_takeDue_def TimerService_run_eq slot_timer_def slot_generation_def)

interpretation ts: timer_host "TimerService_schedule strand" TimerService_cancel TimerService_takeDue
  TimerService_armed TimerService_ok for strand
proof unfold_locales
  fix s :: TimerService and t d g now
  assume ok: "TimerService_ok s"
  then have ns: "\<not> ts_stopped s" by (simp add: TimerService_ok_def)
  show "TimerService_ok (TimerService_schedule strand t d g s)" "TimerService_ok (TimerService_cancel t s)"
    using ok by (auto intro: TimerService_ok_schedule TimerService_ok_cancel)
  show okr: "TimerService_ok (snd (TimerService_takeDue now s))"
    using TimerService_ok_run [OF ok, of now] by (auto simp: TimerService_takeDue_def split: prod.splits)
  show "TimerService_armed (TimerService_cancel t s) = (TimerService_armed s)(t := None)"
    by (rule TimerService_armed_eqI)
       (auto simp: ok TimerService_ok_cancel cancel_queue TimerService_armed_iff)
  show "TimerService_armed (TimerService_schedule strand t d g s) = (TimerService_armed s)(t \<mapsto> (d, g))"
    by (rule TimerService_armed_eqI, rule TimerService_ok_schedule [OF ok])
       (auto simp: ok ns schedule_cancel Let_def cancel_queue TimerService_armed_iff
          slot_new(1) [where e = "\<lparr>en_strand = strand, en_timer = t, en_generation = g\<rparr>"]
          slot_new(3) [where e = "\<lparr>en_strand = strand, en_timer = t, en_generation = g\<rparr>"]
          slot_new(4) [where e = "\<lparr>en_strand = strand, en_timer = t, en_generation = g\<rparr>"])
  show "(t, g) \<in> set (fst (TimerService_takeDue now s)) \<longleftrightarrow> (\<exists>d \<le> now. TimerService_armed s t = Some (d, g))"
    by (auto simp: TimerService_armed_iff [OF ok] takeDue_slots [OF ok])
  show "distinct (map fst (fst (TimerService_takeDue now s)))"
    using ok by (simp add: takeDue_slots TimerService_ok_def comp_def distinct_map_filter_slots)
  have "TimerService_armed (snd (TimerService_takeDue now s)) =
      (\<lambda>t. case TimerService_armed s t of None \<Rightarrow> None | Some (d, g) \<Rightarrow> if d \<le> now then None else Some (d, g))"
  proof (rule TimerService_armed_eqI [OF okr])
    fix t d g
    have "(case TimerService_armed s t of None \<Rightarrow> None | Some (d, g) \<Rightarrow> if d \<le> now then None else Some (d, g))
        = Some (d, g) \<longleftrightarrow> TimerService_armed s t = Some (d, g) \<and> \<not> d \<le> now"
      by (auto split: option.splits if_splits)
    also have "\<dots> \<longleftrightarrow> (\<exists>x \<in> set (ts_queue (snd (TimerService_takeDue now s))).
        slot_timer x = t \<and> slot_deadline x = d \<and> slot_generation x = g)"
      by (auto simp: TimerService_takeDue_def TimerService_run_eq [OF ok] TimerService_armed_iff [OF ok])
    finally show "(case TimerService_armed s t of None \<Rightarrow> None | Some (d, g) \<Rightarrow> if d \<le> now then None else Some (d, g))
        = Some (d, g) \<longleftrightarrow> (\<exists>x \<in> set (ts_queue (snd (TimerService_takeDue now s))).
        slot_timer x = t \<and> slot_deadline x = d \<and> slot_generation x = g)" .
  qed
  then show "TimerService_armed (snd (TimerService_takeDue now s)) t =
      (case TimerService_armed s t of None \<Rightarrow> None | Some (d, g) \<Rightarrow> if d \<le> now then None else Some (d, g))"
    by simp
qed

text \<open>After \<open>stop\<close> nothing is armed, nothing becomes due and nothing can be armed again.\<close>

lemma TimerService_stopped:
  assumes "ts_stopped s" "ts_queue s = []"
  shows "TimerService_schedule strand t d g s = s" and "fst (TimerService_run now s) = []"
    and "ts_queue (TimerService_cancel t s) = []" and "ts_stopped (TimerService_cancel t s)"
  using assms
  by (auto simp: TimerService_schedule_def TimerService_run_def TimerService_cancel_def split: option.splits)

end
