(* ===== verification/Timers.thy ===== *)
theory Timers
  imports EventLoop TimerService
begin

text \<open>
  \<open>snf::Timer\<close> (\<open>Core/src/SNFCore/Timer.h\<close>, \<open>Timer.cpp\<close>). The record holds the members under
  \<open>m_mutex\<close>; the owner executor is reached through the operations it is given
  (\<open>scheduleTimer\<close>, \<open>cancelTimer\<close>, \<open>post\<close>), so that one model serves timers owned by an
  \<open>EventLoop\<close> and by a \<open>Strand\<close>. \<open>timer_step\<close> interleaves the calls of many timers with the
  collection of due timers and the delivery of collected timeouts, which the code does at different
  moments; its invariants are proved once from the contract \<open>timer_host\<close>. Intervals are
  milliseconds; the generation is a 64-bit counter that wraps around.
\<close>

section \<open>Operations\<close>

record Timer =
  tm_interval :: int
  tm_singleShot :: bool
  tm_active :: bool
  tm_generation :: gen
  tm_deadline :: time

definition Timer_init :: Timer where
  "Timer_init = \<lparr>tm_interval = 0, tm_singleShot = False, tm_active = False, tm_generation = 0, tm_deadline = 0\<rparr>"

definition sanitizeInterval :: "int \<Rightarrow> int" where
  "sanitizeInterval i = (if i < 0 then 0 else i)"

abbreviation ms :: "int \<Rightarrow> time" where "ms i \<equiv> i * 1000000"

type_synonym 'h scheduler = "addr \<Rightarrow> time \<Rightarrow> gen \<Rightarrow> 'h \<Rightarrow> 'h"
type_synonym 'h canceller = "addr \<Rightarrow> 'h \<Rightarrow> 'h"

text \<open>The bodies of \<open>start()\<close>, \<open>start(interval)\<close>, \<open>stop()\<close>, \<open>setInterval\<close> and \<open>setSingleShot\<close>
  once inside the owner.\<close>

definition Timer_start :: "'h scheduler \<Rightarrow> time \<Rightarrow> addr \<Rightarrow> Timer \<times> 'h \<Rightarrow> Timer \<times> 'h" where
  "Timer_start sched now t = (\<lambda>(tm, h).
     let i = sanitizeInterval (tm_interval tm); g = tm_generation tm + 1; d = now + ms i
     in (tm\<lparr>tm_interval := i, tm_active := True, tm_generation := g, tm_deadline := d\<rparr>, sched t d g h))"

definition Timer_start_interval :: "'h scheduler \<Rightarrow> time \<Rightarrow> addr \<Rightarrow> int \<Rightarrow> Timer \<times> 'h \<Rightarrow> Timer \<times> 'h" where
  "Timer_start_interval sched now t interval = (\<lambda>(tm, h).
     let i = sanitizeInterval interval; g = tm_generation tm + 1; d = now + ms i
     in (tm\<lparr>tm_interval := i, tm_active := True, tm_generation := g, tm_deadline := d\<rparr>, sched t d g h))"

definition Timer_stop :: "'h canceller \<Rightarrow> addr \<Rightarrow> Timer \<times> 'h \<Rightarrow> Timer \<times> 'h" where
  "Timer_stop cancel t = (\<lambda>(tm, h).
     (tm\<lparr>tm_active := False, tm_generation := tm_generation tm + 1\<rparr>, cancel t h))"

definition Timer_setInterval :: "'h scheduler \<Rightarrow> time \<Rightarrow> addr \<Rightarrow> int \<Rightarrow> Timer \<times> 'h \<Rightarrow> Timer \<times> 'h" where
  "Timer_setInterval sched now t interval = (\<lambda>(tm, h).
     let i = sanitizeInterval interval
     in if tm_active tm
        then let g = tm_generation tm + 1; d = now + ms i
             in (tm\<lparr>tm_interval := i, tm_generation := g, tm_deadline := d\<rparr>, sched t d g h)
        else (tm\<lparr>tm_interval := i\<rparr>, h))"

definition Timer_setSingleShot :: "bool \<Rightarrow> Timer \<times> 'h \<Rightarrow> Timer \<times> 'h" where
  "Timer_setSingleShot b = (\<lambda>(tm, h). (tm\<lparr>tm_singleShot := b\<rparr>, h))"

datatype timer_call =
    CallStart
  | CallStartInterval int
  | CallStop
  | CallSetInterval int
  | CallSetSingleShot bool

fun Timer_apply ::
  "'h scheduler \<Rightarrow> 'h canceller \<Rightarrow> time \<Rightarrow> addr \<Rightarrow> timer_call \<Rightarrow> Timer \<times> 'h \<Rightarrow> Timer \<times> 'h" where
  "Timer_apply sched cancel now t CallStart s = Timer_start sched now t s"
| "Timer_apply sched cancel now t (CallStartInterval i) s = Timer_start_interval sched now t i s"
| "Timer_apply sched cancel now t CallStop s = Timer_stop cancel t s"
| "Timer_apply sched cancel now t (CallSetInterval i) s = Timer_setInterval sched now t i s"
| "Timer_apply sched cancel now t (CallSetSingleShot b) s = Timer_setSingleShot b s"

text \<open>The guard all five share: outside the owner the call is posted to it and made there, if the
  timer still lives.\<close>

definition Timer_invoke ::
  "bool \<Rightarrow> (addr \<times> timer_call \<Rightarrow> 'h \<Rightarrow> 'h) \<Rightarrow> 'h scheduler \<Rightarrow> 'h canceller \<Rightarrow> time \<Rightarrow> addr \<Rightarrow> timer_call \<Rightarrow>
     Timer \<times> 'h \<Rightarrow> Timer \<times> 'h" where
  "Timer_invoke isCurrent post sched cancel now t call s =
     (if \<not> isCurrent then (fst s, post (t, call) (snd s)) else Timer_apply sched cancel now t call s)"

definition Timer_posted_call ::
  "(addr \<Rightarrow> bool) \<Rightarrow> 'h scheduler \<Rightarrow> 'h canceller \<Rightarrow> time \<Rightarrow> addr \<times> timer_call \<Rightarrow> Timer \<times> 'h \<Rightarrow> Timer \<times> 'h" where
  "Timer_posted_call alive sched cancel now c s =
     (if alive (fst c) then Timer_apply sched cancel now (fst c) (snd c) s else s)"

definition Timer_destroy :: "'h canceller \<Rightarrow> addr \<Rightarrow> Timer \<times> 'h \<Rightarrow> Timer \<times> 'h" where
  "Timer_destroy cancel t = (\<lambda>(tm, h).
     (tm\<lparr>tm_active := False, tm_generation := tm_generation tm + 1\<rparr>, cancel t h))"

text \<open>Migration: the old owner forgets the timer, the new one arms it with what was left.\<close>

definition Timer_onAboutToMoveToThread :: "'h canceller \<Rightarrow> addr \<Rightarrow> 'h \<Rightarrow> 'h" where
  "Timer_onAboutToMoveToThread cancel t h = cancel t h"

definition Timer_onMovedToThread :: "'h scheduler \<Rightarrow> addr \<Rightarrow> Timer \<Rightarrow> 'h \<Rightarrow> 'h" where
  "Timer_onMovedToThread sched t tm h =
     (if tm_active tm then sched t (tm_deadline tm) (tm_generation tm) h else h)"

text \<open>\<open>dispatchTimeout(generation)\<close>: the flag says whether \<open>timeout\<close> is emitted.\<close>

definition Timer_dispatchTimeout ::
  "'h scheduler \<Rightarrow> time \<Rightarrow> addr \<Rightarrow> gen \<Rightarrow> Timer \<times> 'h \<Rightarrow> bool \<times> Timer \<times> 'h" where
  "Timer_dispatchTimeout sched now t g = (\<lambda>(tm, h).
     if \<not> tm_active tm \<or> g \<noteq> tm_generation tm then (False, tm, h)
     else if tm_singleShot tm
     then (True, tm\<lparr>tm_active := False, tm_generation := tm_generation tm + 1\<rparr>, h)
     else let i = sanitizeInterval (tm_interval tm); g' = tm_generation tm + 1; d = now + ms i
          in (True, tm\<lparr>tm_generation := g', tm_deadline := d\<rparr>, sched t d g' h))"

lemmas Timer_defs = Timer_start_def Timer_start_interval_def Timer_stop_def Timer_setInterval_def
  Timer_setSingleShot_def Let_def


section \<open>Many timers on one owner\<close>

text \<open>
  \<open>ty_due\<close> holds the timeouts collected from the owner and not delivered yet: the local vector of
  \<open>EventLoop::run\<close>, or the tasks \<open>TimerService::run\<close> posted to the strands. \<open>ty_fired\<close> records the
  emissions of \<open>timeout\<close> with their generations. The steady clock \<open>ty_clock\<close> never goes back.
\<close>

record 'h timer_system =
  ty_timer :: "addr \<Rightarrow> Timer"
  ty_host :: 'h
  ty_due :: "(addr \<times> gen) list"
  ty_fired :: "(addr \<times> gen) list"
  ty_clock :: time

inductive timer_step ::
  "'h scheduler \<Rightarrow> 'h canceller \<Rightarrow> (time \<Rightarrow> 'h \<Rightarrow> (addr \<times> gen) list \<times> 'h) \<Rightarrow>
     'h timer_system \<Rightarrow> 'h timer_system \<Rightarrow> bool"
  for sched cancel takeDue where
  call: "ty_clock s \<le> now \<Longrightarrow>
     Timer_apply sched cancel now t c (ty_timer s t, ty_host s) = (tm, h) \<Longrightarrow>
     timer_step sched cancel takeDue s (s\<lparr>ty_timer := (ty_timer s)(t := tm), ty_host := h, ty_clock := now\<rparr>)"
| collect: "ty_clock s \<le> now \<Longrightarrow> takeDue now (ty_host s) = (due, h) \<Longrightarrow>
     timer_step sched cancel takeDue s (s\<lparr>ty_host := h, ty_due := ty_due s @ due, ty_clock := now\<rparr>)"
| deliver: "ty_clock s \<le> now \<Longrightarrow> ty_due s = xs @ (t, g) # ys \<Longrightarrow>
     Timer_dispatchTimeout sched now t g (ty_timer s t, ty_host s) = (emitted, tm, h) \<Longrightarrow>
     timer_step sched cancel takeDue s
       (s\<lparr>ty_timer := (ty_timer s)(t := tm), ty_host := h, ty_due := xs @ ys,
          ty_fired := ty_fired s @ (if emitted then [(t, g)] else []), ty_clock := now\<rparr>)"

text \<open>\<open>timer_reach n s\<close>: \<open>s\<close> is reached in \<open>n\<close> steps from inactive timers on an owner with none armed.\<close>

inductive timer_reach ::
  "'h scheduler \<Rightarrow> 'h canceller \<Rightarrow> (time \<Rightarrow> 'h \<Rightarrow> (addr \<times> gen) list \<times> 'h) \<Rightarrow> 'h \<Rightarrow>
     nat \<Rightarrow> 'h timer_system \<Rightarrow> bool"
  for sched cancel takeDue h0 where
  start: "timer_reach sched cancel takeDue h0 0
     \<lparr>ty_timer = (\<lambda>_. Timer_init), ty_host = h0, ty_due = [], ty_fired = [], ty_clock = now\<rparr>"
| step: "timer_reach sched cancel takeDue h0 n s \<Longrightarrow> timer_step sched cancel takeDue s s' \<Longrightarrow>
     timer_reach sched cancel takeDue h0 (Suc n) s'"

inductive_cases timer_stepE: "timer_step sched cancel takeDue s s'"

text \<open>
  The invariant of one timer against what its owner holds for it: an armed entry is the timer's
  current arming; an active timer is armed or has its current timeout under way, never both, and
  what is under way was due; nothing under way or fired is from the future.
\<close>

definition timer_ok ::
  "(time \<times> gen) option \<Rightarrow> addr \<Rightarrow> Timer \<Rightarrow> (addr \<times> gen) list \<Rightarrow> (addr \<times> gen) list \<Rightarrow> time \<Rightarrow> nat \<Rightarrow> bool" where
  "timer_ok a t tm due fired now n \<longleftrightarrow>
     (\<forall>d g. a = Some (d, g) \<longrightarrow>
        tm_active tm \<and> d = tm_deadline tm \<and> g = tm_generation tm \<and> (t, tm_generation tm) \<notin> set due)
     \<and> (a = None \<and> tm_active tm \<longrightarrow> (t, tm_generation tm) \<in> set due \<and> tm_deadline tm \<le> now)
     \<and> (\<forall>g. (t, g) \<in> set due \<longrightarrow> unat g \<le> unat (tm_generation tm))
     \<and> (\<forall>g. (t, g) \<in> set fired \<longrightarrow> unat g < unat (tm_generation tm))
     \<and> unat (tm_generation tm) \<le> n"

definition timer_system_ok ::
  "('h \<Rightarrow> addr \<Rightarrow> (time \<times> gen) option) \<Rightarrow> nat \<Rightarrow> 'h timer_system \<Rightarrow> bool" where
  "timer_system_ok armed n s \<longleftrightarrow> distinct (ty_fired s)
     \<and> (\<forall>t. timer_ok (armed (ty_host s) t) t (ty_timer s t) (ty_due s) (ty_fired s) (ty_clock s) n)"

text \<open>What a call does to the timer and its owner, in the three ways the invariant sees.\<close>

definition rearmed :: "Timer \<Rightarrow> Timer \<Rightarrow> bool" where
  "rearmed tm tm' \<longleftrightarrow> tm_active tm' \<and> tm_generation tm' = tm_generation tm + 1"

definition disarmed :: "Timer \<Rightarrow> Timer \<Rightarrow> bool" where
  "disarmed tm tm' \<longleftrightarrow> \<not> tm_active tm' \<and> tm_generation tm' = tm_generation tm + 1"

definition same_arming :: "Timer \<Rightarrow> Timer \<Rightarrow> bool" where
  "same_arming tm tm' \<longleftrightarrow> tm_active tm' = tm_active tm \<and> tm_generation tm' = tm_generation tm
     \<and> tm_deadline tm' = tm_deadline tm"

lemma unat_next: "unat (g::gen) \<le> n \<Longrightarrow> Suc n < 2 ^ 64 \<Longrightarrow> unat (g + 1) = Suc (unat g)"
  by (subst unat_word_ariths(1)) simp

lemma timer_ok_rearmed:
  assumes "timer_ok a t tm due fired now n" "rearmed tm tm'" "Suc n < 2 ^ 64"
    "set due' \<subseteq> set due" "set fired' \<subseteq> insert (t, tm_generation tm) (set fired)"
  shows "timer_ok (Some (tm_deadline tm', tm_generation tm')) t tm' due' fired' now' (Suc n)"
proof -
  have "unat (tm_generation tm) \<le> n" using assms by (simp add: timer_ok_def)
  with assms have u: "unat (tm_generation tm') = Suc (unat (tm_generation tm))"
    by (simp add: rearmed_def unat_next)
  then have "(t, tm_generation tm') \<notin> set due" using assms by (auto simp: timer_ok_def)
  with u assms show ?thesis unfolding timer_ok_def rearmed_def by fastforce
qed

lemma timer_ok_disarmed:
  assumes "timer_ok a t tm due fired now n" "disarmed tm tm'" "Suc n < 2 ^ 64"
    "set due' \<subseteq> set due" "set fired' \<subseteq> insert (t, tm_generation tm) (set fired)"
  shows "timer_ok None t tm' due' fired' now' (Suc n)"
proof -
  have "unat (tm_generation tm) \<le> n" using assms by (simp add: timer_ok_def)
  with assms have u: "unat (tm_generation tm') = Suc (unat (tm_generation tm))"
    by (simp add: disarmed_def unat_next)
  with assms show ?thesis unfolding timer_ok_def disarmed_def by fastforce
qed

lemma timer_ok_later:
  "timer_ok a t tm due fired now n \<Longrightarrow> same_arming tm tm' \<Longrightarrow> now \<le> now' \<Longrightarrow>
   (\<And>g. (t, g) \<in> set due' \<Longrightarrow> (t, g) \<in> set due) \<Longrightarrow>
   (tm_active tm \<Longrightarrow> (t, tm_generation tm) \<in> set due \<Longrightarrow> (t, tm_generation tm) \<in> set due') \<Longrightarrow>
   (\<And>g. (t, g) \<in> set fired' \<longleftrightarrow> (t, g) \<in> set fired) \<Longrightarrow>
   timer_ok a t tm' due' fired' now' (Suc n)"
  unfolding timer_ok_def same_arming_def by fastforce

context timer_host
begin

lemma Timer_apply_cases:
  assumes "host_ok h" "Timer_apply scheduleTimer cancelTimer now t c (tm, h) = (tm', h')"
  shows "host_ok h' \<and> (rearmed tm tm' \<and> armed h' = (armed h)(t \<mapsto> (tm_deadline tm', tm_generation tm'))
    \<or> disarmed tm tm' \<and> armed h' = (armed h)(t := None) \<or> same_arming tm tm' \<and> h' = h)"
  using assms
  by (cases c) (auto simp: Timer_defs rearmed_def disarmed_def same_arming_def ok_schedule ok_cancel
      armed_schedule armed_cancel split: if_splits)

lemma dispatch_cases:
  assumes "host_ok h" "Timer_dispatchTimeout scheduleTimer now t g (tm, h) = (e, tm', h')"
  shows "host_ok h' \<and> (e \<and> tm_active tm \<and> g = tm_generation tm \<and>
      (rearmed tm tm' \<and> armed h' = (armed h)(t \<mapsto> (tm_deadline tm', tm_generation tm'))
        \<or> disarmed tm tm' \<and> h' = h)
    \<or> \<not> e \<and> (\<not> tm_active tm \<or> g \<noteq> tm_generation tm) \<and> tm' = tm \<and> h' = h)"
  using assms
  by (auto simp: Timer_dispatchTimeout_def Let_def rearmed_def disarmed_def ok_schedule armed_schedule
      split: if_splits)

lemma timer_ok_collect:
  assumes h: "host_ok h" and take: "takeDue now h = (due', h')" and "now0 \<le> now"
    and ok: "timer_ok (armed h t) t tm due fired now0 n"
  shows "timer_ok (armed h' t) t tm (due @ due') fired now (Suc n)"
proof -
  have due': "(t, g) \<in> set due' \<longleftrightarrow> (\<exists>d \<le> now. armed h t = Some (d, g))" for g
    using take_due [OF h, of t g now] take by simp
  have h': "armed h' t = (case armed h t of None \<Rightarrow> None | Some (d, g) \<Rightarrow> if d \<le> now then None else Some (d, g))"
    using armed_take [OF h, of now t] take by simp
  show ?thesis
  proof (cases "armed h t")
    case None
    then show ?thesis using ok due' h' \<open>now0 \<le> now\<close> by (auto simp: timer_ok_def)
  next
    case (Some a)
    obtain d g where a: "armed h t = Some (d, g)" using Some by (cases a) simp
    then show ?thesis using ok due' h' \<open>now0 \<le> now\<close>
      by (cases "d \<le> now") (auto simp: timer_ok_def)
  qed
qed

lemma step_call:
  assumes ok: "timer_system_ok armed n s" and h: "host_ok (ty_host s)" and n: "Suc n < 2 ^ 64"
    and now: "ty_clock s \<le> now"
    and ap: "Timer_apply scheduleTimer cancelTimer now t c (ty_timer s t, ty_host s) = (tm, h')"
  shows "timer_system_ok armed (Suc n) (s\<lparr>ty_timer := (ty_timer s)(t := tm), ty_host := h', ty_clock := now\<rparr>)
    \<and> host_ok h'"
proof -
  have okt: "timer_ok (armed (ty_host s) u) u (ty_timer s u) (ty_due s) (ty_fired s) (ty_clock s) n" for u
    using ok by (simp add: timer_system_ok_def)
  have other: "timer_ok (armed (ty_host s) u) u (ty_timer s u) (ty_due s) (ty_fired s) now (Suc n)" for u
    using okt [of u] now by (rule_tac timer_ok_later) (auto simp: same_arming_def)
  from Timer_apply_cases [OF h ap] consider
      "rearmed (ty_timer s t) tm" "armed h' = (armed (ty_host s))(t \<mapsto> (tm_deadline tm, tm_generation tm))"
    | "disarmed (ty_timer s t) tm" "armed h' = (armed (ty_host s))(t := None)"
    | "same_arming (ty_timer s t) tm" "h' = ty_host s" by blast
  then have "timer_ok (armed h' u) u (((ty_timer s)(t := tm)) u) (ty_due s) (ty_fired s) now (Suc n)" for u
  proof cases
    case 1
    then show ?thesis using other timer_ok_rearmed [OF okt 1(1) n subset_refl] by auto
  next
    case 2
    then show ?thesis using other timer_ok_disarmed [OF okt 2(1) n subset_refl] by auto
  next
    case 3
    then show ?thesis using other timer_ok_later [OF okt 3(1) now] by auto
  qed
  then show ?thesis using ok Timer_apply_cases [OF h ap] by (simp add: timer_system_ok_def)
qed

lemma step_collect:
  assumes ok: "timer_system_ok armed n s" and h: "host_ok (ty_host s)"
    and now: "ty_clock s \<le> now" and take: "takeDue now (ty_host s) = (due, h')"
  shows "timer_system_ok armed (Suc n) (s\<lparr>ty_host := h', ty_due := ty_due s @ due, ty_clock := now\<rparr>)
    \<and> host_ok h'"
  using ok timer_ok_collect [OF h take now] ok_take [OF h, of now] take
  by (simp add: timer_system_ok_def)

lemma step_deliver:
  assumes ok: "timer_system_ok armed n s" and h: "host_ok (ty_host s)" and n: "Suc n < 2 ^ 64"
    and now: "ty_clock s \<le> now" and due: "ty_due s = xs @ (t, g) # ys"
    and dt: "Timer_dispatchTimeout scheduleTimer now t g (ty_timer s t, ty_host s) = (e, tm, h')"
  shows "timer_system_ok armed (Suc n) (s\<lparr>ty_timer := (ty_timer s)(t := tm), ty_host := h', ty_due := xs @ ys,
          ty_fired := ty_fired s @ (if e then [(t, g)] else []), ty_clock := now\<rparr>) \<and> host_ok h'"
proof -
  let ?fired = "ty_fired s @ (if e then [(t, g)] else [])"
  have okt: "timer_ok (armed (ty_host s) u) u (ty_timer s u) (ty_due s) (ty_fired s) (ty_clock s) n" for u
    using ok by (simp add: timer_system_ok_def)
  have other: "timer_ok (armed (ty_host s) u) u (ty_timer s u) (xs @ ys) ?fired now (Suc n)" if "u \<noteq> t" for u
    using okt [of u] now that by (rule_tac timer_ok_later) (auto simp: same_arming_def due)
  have sub: "set (xs @ ys) \<subseteq> set (ty_due s)" by (auto simp: due)
  note cases = dispatch_cases [OF h dt]
  from cases consider
      "e" "tm_active (ty_timer s t)" "g = tm_generation (ty_timer s t)" "rearmed (ty_timer s t) tm"
        "armed h' = (armed (ty_host s))(t \<mapsto> (tm_deadline tm, tm_generation tm))"
    | "e" "tm_active (ty_timer s t)" "g = tm_generation (ty_timer s t)" "disarmed (ty_timer s t) tm" "h' = ty_host s"
    | "\<not> e" "\<not> tm_active (ty_timer s t) \<or> g \<noteq> tm_generation (ty_timer s t)" "tm = ty_timer s t" "h' = ty_host s"
    by blast
  then have "timer_ok (armed h' u) u (((ty_timer s)(t := tm)) u) (xs @ ys) ?fired now (Suc n)" for u
  proof cases
    case 1
    then show ?thesis using other timer_ok_rearmed [OF okt 1(4) n sub, of ?fired] by auto
  next
    case 2
    have "armed (ty_host s) t = None"
      using okt [of t] 2 by (cases "armed (ty_host s) t") (auto simp: timer_ok_def due)
    then show ?thesis using 2 other timer_ok_disarmed [OF okt 2(4) n sub, of ?fired] by auto
  next
    case 3
    have "timer_ok (armed (ty_host s) t) t (ty_timer s t) (xs @ ys) ?fired now (Suc n)"
      using okt [of t] now 3 by (rule_tac timer_ok_later) (auto simp: same_arming_def due)
    then show ?thesis using 3 other [of u] by (cases "u = t") auto
  qed
  moreover have "distinct ?fired"
    using ok cases okt [of t] by (auto simp: timer_system_ok_def timer_ok_def)
  ultimately show ?thesis using cases by (simp add: timer_system_ok_def)
qed

lemma timer_reach_ok:
  assumes "timer_reach scheduleTimer cancelTimer takeDue h0 n s" "host_ok h0" "armed h0 = Map.empty"
  shows "n < 2 ^ 64 \<Longrightarrow> timer_system_ok armed n s \<and> host_ok (ty_host s)"
  using assms
proof (induction rule: timer_reach.induct)
  case (start now)
  then show ?case by (simp add: timer_system_ok_def timer_ok_def Timer_init_def)
next
  case (step n s s')
  then have ok: "timer_system_ok armed n s" "host_ok (ty_host s)" by simp_all
  from step.hyps(2) show ?case
  proof cases
    case call
    then show ?thesis using step_call [OF ok step.prems(1) call(2,3)] by simp
  next
    case collect
    then show ?thesis using step_collect [OF ok collect(2,3)] by simp
  next
    case deliver
    then show ?thesis using step_deliver [OF ok step.prems(1) deliver(2-4)] by simp
  qed
qed

text \<open>The three guarantees a timer gives its user.\<close>

lemma fires_at_most_once:
  "timer_reach scheduleTimer cancelTimer takeDue h0 n s \<Longrightarrow> host_ok h0 \<Longrightarrow> armed h0 = Map.empty \<Longrightarrow>
   n < 2 ^ 64 \<Longrightarrow> distinct (ty_fired s)"
  using timer_reach_ok by (auto simp: timer_system_ok_def)

lemma active_armed_or_under_way:
  "timer_reach scheduleTimer cancelTimer takeDue h0 n s \<Longrightarrow> host_ok h0 \<Longrightarrow> armed h0 = Map.empty \<Longrightarrow>
   n < 2 ^ 64 \<Longrightarrow> tm_active (ty_timer s t) \<Longrightarrow>
   (armed (ty_host s) t = Some (tm_deadline (ty_timer s t), tm_generation (ty_timer s t)))
     \<noteq> ((t, tm_generation (ty_timer s t)) \<in> set (ty_due s))"
proof -
  assume "timer_reach scheduleTimer cancelTimer takeDue h0 n s" "host_ok h0" "armed h0 = Map.empty"
    "n < 2 ^ 64" and act: "tm_active (ty_timer s t)"
  then have "timer_ok (armed (ty_host s) t) t (ty_timer s t) (ty_due s) (ty_fired s) (ty_clock s) n"
    using timer_reach_ok by (auto simp: timer_system_ok_def)
  with act show ?thesis by (cases "armed (ty_host s) t") (auto simp: timer_ok_def)
qed

lemma fires_only_when_due:
  assumes "timer_reach scheduleTimer cancelTimer takeDue h0 n s" "host_ok h0" "armed h0 = Map.empty"
    "n < 2 ^ 64" and step: "timer_step scheduleTimer cancelTimer takeDue s s'"
    and new: "ty_fired s' = ty_fired s @ [(t, g)]"
  shows "tm_active (ty_timer s t) \<and> g = tm_generation (ty_timer s t) \<and> tm_deadline (ty_timer s t) \<le> ty_clock s'"
proof -
  have okt: "timer_ok (armed (ty_host s) t) t (ty_timer s t) (ty_due s) (ty_fired s) (ty_clock s) n"
    and h: "host_ok (ty_host s)"
    using timer_reach_ok [OF assms(1-4)] by (auto simp: timer_system_ok_def)
  from step show ?thesis
  proof cases
    case (deliver now xs u g' ys e tm h')
    have e: "e" "u = t" "g' = g" using new deliver by (auto split: if_splits)
    then have act: "tm_active (ty_timer s t)" "g = tm_generation (ty_timer s t)"
      using dispatch_cases [OF h deliver(4)] by auto
    then have "tm_deadline (ty_timer s t) \<le> ty_clock s"
      using okt e deliver(3) by (cases "armed (ty_host s) t") (auto simp: timer_ok_def)
    with act deliver show ?thesis by simp
  qed (use new in auto)
qed

end

section \<open>Timers on an event loop and on strands\<close>

text \<open>Migration hands the arming over unchanged, from any owner to any other.\<close>

lemma migration_keeps_arming:
  assumes "EventLoop_ok l1" "EventLoop_ok l2" "EventLoop_armed l2 t = None"
    and "tm_active tm \<Longrightarrow> EventLoop_armed l1 t = Some (tm_deadline tm, tm_generation tm)"
    and "\<not> tm_active tm \<Longrightarrow> EventLoop_armed l1 t = None"
  shows "EventLoop_armed (Timer_onAboutToMoveToThread EventLoop_cancelTimer t l1) t = None"
    and "EventLoop_armed (Timer_onMovedToThread EventLoop_scheduleTimer t tm l2) t = EventLoop_armed l1 t"
  using assms
  by (auto simp: Timer_onAboutToMoveToThread_def Timer_onMovedToThread_def el.armed_cancel el.armed_schedule)

lemma timer_step_callI:
  "ty_clock s \<le> now \<Longrightarrow> r = Timer_apply sched cancel now t c (ty_timer s t, ty_host s) \<Longrightarrow>
   timer_step sched cancel takeDue s
     (s\<lparr>ty_timer := (ty_timer s)(t := fst r), ty_host := snd r, ty_clock := now\<rparr>)"
  by (rule timer_step.call) (simp_all add: prod_eq_iff)

lemma timer_step_collectI:
  "ty_clock s \<le> now \<Longrightarrow> r = takeDue now (ty_host s) \<Longrightarrow>
   timer_step sched cancel takeDue s (s\<lparr>ty_host := snd r, ty_due := ty_due s @ fst r, ty_clock := now\<rparr>)"
  by (rule timer_step.collect) (simp_all add: prod_eq_iff)

text \<open>Empty owners, as the two constructors leave them.\<close>

lemma empty_owners:
  "EventLoop_ok EventLoop_init" "EventLoop_armed EventLoop_init = Map.empty"
  "TimerService_ok TimerService_init" "TimerService_armed TimerService_init = Map.empty"
  by (simp_all only: EventLoop_ok_init TimerService_ok_init)
     (simp_all add: EventLoop_armed_def EventLoop_init_def TimerService_armed_def TimerService_init_def)

text \<open>Two concrete runs: a timer of 5 ms is started at 0 and collected at its deadline, then delivered.\<close>

definition demo_run :: "'h scheduler \<Rightarrow> 'h canceller \<Rightarrow> (time \<Rightarrow> 'h \<Rightarrow> (addr \<times> gen) list \<times> 'h) \<Rightarrow> 'h \<Rightarrow> 'h timer_system" where
  "demo_run sched cancel takeDue h0 =
     (let s0 = \<lparr>ty_timer = (\<lambda>_. Timer_init), ty_host = h0, ty_due = [], ty_fired = [], ty_clock = 0\<rparr>;
          r1 = Timer_apply sched cancel 0 7 (CallStartInterval 5) (ty_timer s0 7, ty_host s0);
          s1 = s0\<lparr>ty_timer := (ty_timer s0)(7 := fst r1), ty_host := snd r1, ty_clock := 0\<rparr>;
          r2 = takeDue 5000000 (ty_host s1)
      in s1\<lparr>ty_host := snd r2, ty_due := ty_due s1 @ fst r2, ty_clock := 5000000\<rparr>)"

lemma demo_run_reach: "timer_reach sched cancel takeDue h0 (Suc (Suc 0)) (demo_run sched cancel takeDue h0)"
proof -
  define s0 where "s0 = \<lparr>ty_timer = (\<lambda>_. Timer_init), ty_host = h0, ty_due = [], ty_fired = [], ty_clock = 0\<rparr>"
  define r1 where "r1 = Timer_apply sched cancel 0 7 (CallStartInterval 5) (ty_timer s0 7, ty_host s0)"
  define s1 where "s1 = s0\<lparr>ty_timer := (ty_timer s0)(7 := fst r1), ty_host := snd r1, ty_clock := 0\<rparr>"
  define r2 where "r2 = takeDue 5000000 (ty_host s1)"
  have "timer_step sched cancel takeDue s0 s1"
    unfolding s1_def by (rule timer_step_callI [where c = "CallStartInterval 5"]) (simp_all add: s0_def r1_def)
  then have "timer_reach sched cancel takeDue h0 (Suc 0) s1"
    unfolding s0_def by (rule timer_reach.step [OF timer_reach.start])
  moreover have "timer_step sched cancel takeDue s1
      (s1\<lparr>ty_host := snd r2, ty_due := ty_due s1 @ fst r2, ty_clock := 5000000\<rparr>)"
    by (rule timer_step_collectI) (simp_all add: s1_def r2_def)
  moreover have "demo_run sched cancel takeDue h0 =
      s1\<lparr>ty_host := snd r2, ty_due := ty_due s1 @ fst r2, ty_clock := 5000000\<rparr>"
    by (simp only: demo_run_def Let_def s0_def r1_def s1_def r2_def)
  ultimately show ?thesis by (simp only: timer_reach.step)
qed

lemmas demo_run_eval = demo_run_def Timer_start_interval_def sanitizeInterval_def Timer_init_def
  EventLoop_init_def EventLoop_scheduleTimer_def EventLoop_takeDue_def EventLoop_takeDueTimers_def
  EventLoop_armed_def TimerService_init_def TimerService_schedule_def TimerService_takeDue_def
  TimerService_run_def TimerService_armed_def slot_simps Let_def

text \<open>
  C1. A timer owned by an event loop, over any interleaving of calls, collections and deliveries in
  fewer than \<open>2^64\<close> steps: no arming emits \<open>timeout\<close> twice, and no timeout is lost. An
  active timer is either armed in the loop with its own deadline and generation or its current
  timeout is collected and waiting to be delivered, never both and never neither.
\<close>
theorem EventLoop_timeout_exactly_once:
  assumes "timer_reach EventLoop_scheduleTimer EventLoop_cancelTimer EventLoop_takeDue EventLoop_init n s"
    and "n < 2 ^ 64"
  shows "distinct (ty_fired s) \<and> (\<forall>t. tm_active (ty_timer s t) \<longrightarrow>
    (EventLoop_armed (ty_host s) t = Some (tm_deadline (ty_timer s t), tm_generation (ty_timer s t)))
      \<noteq> ((t, tm_generation (ty_timer s t)) \<in> set (ty_due s)))"
  using el.fires_at_most_once [OF assms(1) empty_owners(1,2) assms(2)]
    el.active_armed_or_under_way [OF assms(1) empty_owners(1,2) assms(2)] by blast

theorem EventLoop_timeout_exactly_once_witness:
  "\<exists>s :: (unit, unit) EventLoop timer_system.
     timer_reach EventLoop_scheduleTimer EventLoop_cancelTimer EventLoop_takeDue EventLoop_init 2 s
     \<and> tm_active (ty_timer s 7) \<and> ty_due s = [(7, 1)] \<and> distinct (ty_fired s)
     \<and> EventLoop_armed (ty_host s) 7 \<noteq> Some (5000000, 1)"
proof -
  let ?s = "demo_run EventLoop_scheduleTimer EventLoop_cancelTimer EventLoop_takeDue EventLoop_init
    :: (unit, unit) EventLoop timer_system"
  have "timer_reach EventLoop_scheduleTimer EventLoop_cancelTimer EventLoop_takeDue EventLoop_init 2 ?s"
    using demo_run_reach [of EventLoop_scheduleTimer EventLoop_cancelTimer EventLoop_takeDue EventLoop_init]
    by (simp add: numeral_2_eq_2)
  note sound = this EventLoop_timeout_exactly_once [OF this]
  have "tm_active (ty_timer ?s 7)" "tm_generation (ty_timer ?s 7) = 1"
    "tm_deadline (ty_timer ?s 7) = 5000000" "ty_due ?s = [(7, 1)]"
    by (simp_all add: demo_run_eval)
  with sound show ?thesis by (intro exI [of _ ?s]) fastforce
qed

text \<open>
  C2. The same for timers owned by strands, whose deadlines the process-wide timer service keeps:
  no arming fires twice, and an active timer is armed or its timeout is on its way to the strand.
\<close>
theorem TimerService_timeout_exactly_once:
  assumes "timer_reach (TimerService_schedule strand) TimerService_cancel TimerService_takeDue TimerService_init n s"
    and "n < 2 ^ 64"
  shows "distinct (ty_fired s) \<and> (\<forall>t. tm_active (ty_timer s t) \<longrightarrow>
    (TimerService_armed (ty_host s) t = Some (tm_deadline (ty_timer s t), tm_generation (ty_timer s t)))
      \<noteq> ((t, tm_generation (ty_timer s t)) \<in> set (ty_due s)))"
  using ts.fires_at_most_once [OF assms(1) empty_owners(3,4) assms(2)]
    ts.active_armed_or_under_way [OF assms(1) empty_owners(3,4) assms(2)] by blast

theorem TimerService_timeout_exactly_once_witness:
  "\<exists>s. timer_reach (TimerService_schedule 3) TimerService_cancel TimerService_takeDue TimerService_init 2 s
     \<and> tm_active (ty_timer s 7) \<and> ty_due s = [(7, 1)] \<and> distinct (ty_fired s)
     \<and> TimerService_armed (ty_host s) 7 \<noteq> Some (5000000, 1)"
proof -
  let ?s = "demo_run (TimerService_schedule 3) TimerService_cancel TimerService_takeDue TimerService_init"
  have "timer_reach (TimerService_schedule 3) TimerService_cancel TimerService_takeDue TimerService_init 2 ?s"
    using demo_run_reach [of "TimerService_schedule 3" TimerService_cancel TimerService_takeDue TimerService_init]
    by (simp add: numeral_2_eq_2)
  note sound = this TimerService_timeout_exactly_once [OF this]
  have "tm_active (ty_timer ?s 7)" "tm_generation (ty_timer ?s 7) = 1"
    "tm_deadline (ty_timer ?s 7) = 5000000" "ty_due ?s = [(7, 1)]"
    by (simp_all add: demo_run_eval)
  with sound show ?thesis by (intro exI [of _ ?s]) fastforce
qed

text \<open>
  A timer never fires early, stopped or stale: whenever a step emits \<open>timeout\<close> for a timer of an
  event loop, the timer was active, the emission belongs to its current generation, so that no
  \<open>stop\<close>, restart or change of interval came in between, and its deadline has passed.
\<close>
theorem EventLoop_timeout_only_when_due:
  assumes "timer_reach EventLoop_scheduleTimer EventLoop_cancelTimer EventLoop_takeDue EventLoop_init n s"
    and "n < 2 ^ 64" and "timer_step EventLoop_scheduleTimer EventLoop_cancelTimer EventLoop_takeDue s s'"
    and "ty_fired s' = ty_fired s @ [(t, g)]"
  shows "tm_active (ty_timer s t) \<and> g = tm_generation (ty_timer s t) \<and> tm_deadline (ty_timer s t) \<le> ty_clock s'"
  by (rule el.fires_only_when_due [OF assms(1) empty_owners(1,2) assms(2-4)])

theorem EventLoop_timeout_only_when_due_witness:
  "\<exists>s s' :: (unit, unit) EventLoop timer_system.
     timer_step EventLoop_scheduleTimer EventLoop_cancelTimer EventLoop_takeDue s s'
     \<and> ty_fired s' = ty_fired s @ [(7, 1)] \<and> tm_deadline (ty_timer s 7) \<le> ty_clock s'"
proof -
  let ?s = "demo_run EventLoop_scheduleTimer EventLoop_cancelTimer EventLoop_takeDue EventLoop_init
    :: (unit, unit) EventLoop timer_system"
  have reach: "timer_reach EventLoop_scheduleTimer EventLoop_cancelTimer EventLoop_takeDue EventLoop_init 2 ?s"
    using demo_run_reach [of EventLoop_scheduleTimer EventLoop_cancelTimer EventLoop_takeDue EventLoop_init]
    by (simp add: numeral_2_eq_2)
  obtain tm h where dt: "Timer_dispatchTimeout EventLoop_scheduleTimer 6000000 7 1 (ty_timer ?s 7, ty_host ?s) = (True, tm, h)"
    by (simp add: demo_run_eval Timer_dispatchTimeout_def)
  have "ty_clock ?s \<le> 6000000" "ty_due ?s = [] @ (7, 1) # []" by (simp_all add: demo_run_eval)
  note step = timer_step.deliver [OF this dt, of EventLoop_cancelTimer EventLoop_takeDue]
  show ?thesis
    using EventLoop_timeout_only_when_due [OF reach _ step] step
    by (intro exI [of _ ?s] exI conjI) (assumption, simp_all)
qed

end
