(* ===== verification/Strands.thy ===== *)
theory Strands
  imports Executors
begin

text \<open>
  \<open>snf::TaskPool\<close> and \<open>snf::detail::Strand\<close> (\<open>Core/src/SNFCore/TaskPool.cpp\<close>, \<open>Strand.cpp\<close> and their
  headers): a pool of worker threads and the strands they run, each of which runs its tasks one at
  a time and in order. Strands are owned by the pool and never freed while it lives, so a strand is
  its position in \<open>m_strands\<close>. Every definition of the first two sections is one locked region or
  one whole function; \<open>thread_step\<close> interleaves those regions between threads: a thread is where it
  is in \<open>workerLoop\<close> and \<open>drain\<close>, with the call of \<open>post\<close>, \<open>schedule\<close> or \<open>acquireStrand\<close> it is in
  the middle of. Tasks are data of a type \<open>'t\<close>; what a task does is any sequence of the steps
  open to user code. \<open>ps_posted\<close> and \<open>ps_ran\<close> record what each strand accepted and started.
\<close>

section \<open>Strands\<close>

record 't Strand =
  st_queue :: "'t list"
  st_rootNodes :: "addr list"
  st_pendingDeletes :: "addr list"
  st_scheduled :: bool
  st_active :: bool
  st_retired :: bool
  st_nodeCount :: u64
  st_reserved :: bool
  st_free :: bool

definition Strand_init :: "'t Strand" where
  "Strand_init = \<lparr>st_queue = [], st_rootNodes = [], st_pendingDeletes = [], st_scheduled = False,
     st_active = False, st_retired = False, st_nodeCount = 0, st_reserved = False, st_free = False\<rparr>"

definition kBatchSize :: nat where
  "kBatchSize = 64"

text \<open>The locked region of \<open>post\<close>; the flag is \<open>needsSchedule\<close>.\<close>

definition Strand_push :: "'t \<Rightarrow> 't Strand \<Rightarrow> bool \<times> 't Strand" where
  "Strand_push t s =
     (let s1 = s\<lparr>st_queue := st_queue s @ [t]\<rparr>
      in if \<not> st_scheduled s1 then (True, s1\<lparr>st_scheduled := True, st_active := True\<rparr>) else (False, s1))"

definition Strand_unschedule :: "'t Strand \<Rightarrow> 't Strand" where
  "Strand_unschedule s = s\<lparr>st_scheduled := False, st_active := False\<rparr>"

definition Strand_enqueueDelete :: "addr \<Rightarrow> 't Strand \<Rightarrow> 't Strand" where
  "Strand_enqueueDelete n s = s\<lparr>st_pendingDeletes := st_pendingDeletes s @ [n]\<rparr>"

definition Strand_addNode :: "'t Strand \<Rightarrow> 't Strand" where
  "Strand_addNode s = s\<lparr>st_nodeCount := st_nodeCount s + 1\<rparr>"

definition Strand_removeNode :: "'t Strand \<Rightarrow> 't Strand" where
  "Strand_removeNode s = s\<lparr>st_nodeCount := st_nodeCount s - 1\<rparr>"

definition Strand_addRootNode :: "addr \<Rightarrow> 't Strand \<Rightarrow> 't Strand" where
  "Strand_addRootNode n s = s\<lparr>st_rootNodes := st_rootNodes s @ [n]\<rparr>"

definition Strand_removeRootNode :: "addr \<Rightarrow> 't Strand \<Rightarrow> 't Strand" where
  "Strand_removeRootNode n s = s\<lparr>st_rootNodes := erase_all n (st_rootNodes s)\<rparr>"

text \<open>The two locked regions of \<open>drain\<close>: taking the next task, and looking for more work at the end.\<close>

definition Strand_pop :: "'t Strand \<Rightarrow> ('t \<times> 't Strand) option" where
  "Strand_pop s = (case st_queue s of [] \<Rightarrow> None | t # q \<Rightarrow> Some (t, s\<lparr>st_queue := q\<rparr>))"

definition Strand_finish :: "'t Strand \<Rightarrow> bool \<times> 't Strand" where
  "Strand_finish s = (if st_queue s \<noteq> [] then (True, s) else (False, Strand_unschedule s))"

definition Strand_isRecyclable :: "'t Strand \<Rightarrow> bool" where
  "Strand_isRecyclable s \<longleftrightarrow>
     (if st_free s \<or> st_reserved s \<or> st_nodeCount s \<noteq> 0 then False
      else \<not> st_scheduled s \<and> st_queue s = [])"

text \<open>The two effects at the end of \<open>destroyRemainingNodes\<close>.\<close>

definition Strand_retire :: "'t Strand \<Rightarrow> 't Strand" where
  "Strand_retire s = s\<lparr>st_retired := True\<rparr>"

definition Strand_clear :: "'t Strand \<Rightarrow> 't Strand" where
  "Strand_clear s = s\<lparr>st_queue := []\<rparr>"


section \<open>The pool\<close>

datatype 't pool_task = DrainOf nat | Plain 't

record 't TaskPool =
  tp_queue :: "'t pool_task list"
  tp_workers :: nat
  tp_activeTasks :: nat
  tp_stopping :: bool
  tp_joined :: bool
  tp_strands :: "'t Strand list"
  tp_freeStrands :: "nat list"

definition TaskPool_init :: "nat \<Rightarrow> 't TaskPool" where
  "TaskPool_init maxThreadCount = \<lparr>tp_queue = [], tp_workers = max 1 maxThreadCount, tp_activeTasks = 0,
     tp_stopping = False, tp_joined = False, tp_strands = [], tp_freeStrands = []\<rparr>"

definition at_strand :: "nat \<Rightarrow> ('t Strand \<Rightarrow> 't Strand) \<Rightarrow> 't TaskPool \<Rightarrow> 't TaskPool" where
  "at_strand s f p = p\<lparr>tp_strands := (tp_strands p)[s := f (tp_strands p ! s)]\<rparr>"

text \<open>\<open>start(task)\<close>; the empty \<open>std::function\<close> is \<open>None\<close>.\<close>

definition TaskPool_start :: "'t option \<Rightarrow> 't TaskPool \<Rightarrow> bool \<times> 't TaskPool" where
  "TaskPool_start t p =
     (case t of
        None \<Rightarrow> (False, p)
      | Some t \<Rightarrow> if tp_stopping p \<or> tp_workers p = 0 then (False, p)
                  else (True, p\<lparr>tp_queue := tp_queue p @ [Plain t]\<rparr>))"

definition TaskPool_enqueueStrandDrain :: "nat \<Rightarrow> 't TaskPool \<Rightarrow> bool \<times> 't TaskPool" where
  "TaskPool_enqueueStrandDrain s p =
     (if tp_joined p \<or> (tp_workers p = 0 \<and> \<not> tp_stopping p) then (False, p)
      else (True, p\<lparr>tp_queue := tp_queue p @ [DrainOf s]\<rparr>))"

text \<open>\<open>acquireStrand\<close>: the check under \<open>m_mutex\<close>, then the region under \<open>m_strandMutex\<close>.\<close>

definition TaskPool_accepts :: "'t TaskPool \<Rightarrow> bool" where
  "TaskPool_accepts p \<longleftrightarrow> \<not> (tp_stopping p \<or> tp_workers p = 0)"

definition TaskPool_takeStrand :: "'t TaskPool \<Rightarrow> nat \<times> 't TaskPool" where
  "TaskPool_takeStrand p =
     (let (s, p1) = (if tp_freeStrands p \<noteq> []
                     then (last (tp_freeStrands p), p\<lparr>tp_freeStrands := butlast (tp_freeStrands p)\<rparr>)
                     else (length (tp_strands p), p\<lparr>tp_strands := tp_strands p @ [Strand_init]\<rparr>))
      in (s, at_strand s (\<lambda>x. x\<lparr>st_free := False, st_reserved := True\<rparr>) p1))"

definition TaskPool_acquireStrand :: "'t TaskPool \<Rightarrow> (nat \<times> 't TaskPool) option" where
  "TaskPool_acquireStrand p = (if \<not> TaskPool_accepts p then None else Some (TaskPool_takeStrand p))"

definition TaskPool_recycleStrandIfIdle :: "nat \<Rightarrow> 't TaskPool \<Rightarrow> 't TaskPool" where
  "TaskPool_recycleStrandIfIdle s p =
     (if Strand_isRecyclable (tp_strands p ! s)
      then (at_strand s (\<lambda>x. x\<lparr>st_free := True\<rparr>) p)\<lparr>tp_freeStrands := tp_freeStrands p @ [s]\<rparr>
      else p)"

definition TaskPool_releaseStrandReservation :: "nat \<Rightarrow> 't TaskPool \<Rightarrow> 't TaskPool" where
  "TaskPool_releaseStrandReservation s p =
     (let p1 = at_strand s (\<lambda>x. x\<lparr>st_reserved := False\<rparr>) p
      in if Strand_isRecyclable (tp_strands p1 ! s)
         then (at_strand s (\<lambda>x. x\<lparr>st_free := True\<rparr>) p1)\<lparr>tp_freeStrands := tp_freeStrands p1 @ [s]\<rparr>
         else p1)"

text \<open>The two locked regions of \<open>workerLoop\<close>, and those of \<open>shutdown\<close>.\<close>

definition TaskPool_take :: "'t TaskPool \<Rightarrow> ('t pool_task \<times> 't TaskPool) option" where
  "TaskPool_take p =
     (case tp_queue p of
        [] \<Rightarrow> None
      | x # q \<Rightarrow> Some (x, p\<lparr>tp_queue := q, tp_activeTasks := tp_activeTasks p + 1\<rparr>))"

definition TaskPool_done :: "'t TaskPool \<Rightarrow> 't TaskPool" where
  "TaskPool_done p = p\<lparr>tp_activeTasks := tp_activeTasks p - 1\<rparr>"

definition TaskPool_isDone :: "'t TaskPool \<Rightarrow> bool" where
  "TaskPool_isDone p \<longleftrightarrow> tp_queue p = [] \<and> tp_activeTasks p = 0"

definition TaskPool_beginShutdown :: "'t TaskPool \<Rightarrow> 't TaskPool" where
  "TaskPool_beginShutdown p = p\<lparr>tp_stopping := True, tp_workers := 0\<rparr>"

definition TaskPool_setJoined :: "'t TaskPool \<Rightarrow> 't TaskPool" where
  "TaskPool_setJoined p = p\<lparr>tp_joined := True\<rparr>"


section \<open>Threads\<close>

text \<open>
  Where a thread is: outside the pool, in \<open>workerLoop\<close> (waiting, behind its task), in a plain task, or
  in \<open>drain\<close> of a strand (at the head of the loop with so many tasks run, in a task, in the pending
  deletes with the local vector, before the last locked region, before \<open>recycleStrandIfIdle\<close>).
\<close>

datatype 't activity =
    External
  | WorkerIdle
  | WorkerDone
  | RunPlain 't
  | Draining nat nat
  | RunTask nat nat 't
  | Deletes nat "addr list"
  | Finishing nat
  | Recycling nat

text \<open>The call a thread is in the middle of: \<open>post\<close> past its check, \<open>schedule\<close> before and behind
  \<open>enqueueStrandDrain\<close>, \<open>acquireStrand\<close> past its check.\<close>

datatype 't call =
    NoCall
  | Posting nat 't
  | Scheduling nat
  | ScheduleFailed nat
  | Acquiring

type_synonym 't thread = "'t activity \<times> 't call"

fun user_code :: "'t activity \<Rightarrow> bool" where
  "user_code External = True"
| "user_code (RunPlain t) = True"
| "user_code (RunTask s n t) = True"
| "user_code (Deletes s ns) = True"
| "user_code _ = False"

fun in_strand :: "nat \<Rightarrow> 't activity \<Rightarrow> bool" where
  "in_strand s (RunTask s' n t) = (s = s')"
| "in_strand s (Deletes s' ns) = (s = s')"
| "in_strand s _ = False"

record 't pool_state =
  ps_pool :: "'t TaskPool"
  ps_posted :: "nat \<Rightarrow> 't list"
  ps_ran :: "nat \<Rightarrow> 't list"

abbreviation strand :: "'t pool_state \<Rightarrow> nat \<Rightarrow> 't Strand" where
  "strand w s \<equiv> tp_strands (ps_pool w) ! s"

definition on_pool :: "('t TaskPool \<Rightarrow> 't TaskPool) \<Rightarrow> 't pool_state \<Rightarrow> 't pool_state" where
  "on_pool f w = w\<lparr>ps_pool := f (ps_pool w)\<rparr>"

fun run_pool_task :: "'t pool_task \<Rightarrow> 't activity" where
  "run_pool_task (Plain t) = RunPlain t"
| "run_pool_task (DrainOf s) = Draining s 0"

inductive thread_step :: "'t pool_state \<Rightarrow> 't thread \<Rightarrow> 't pool_state \<Rightarrow> 't thread \<Rightarrow> bool" where
  post_check: "user_code a \<Longrightarrow> s < length (tp_strands (ps_pool w)) \<Longrightarrow> \<not> st_retired (strand w s) \<Longrightarrow>
     thread_step w (a, NoCall) w (a, Posting s t)"
| post_push: "Strand_push t (strand w s) = (need, x) \<Longrightarrow>
     thread_step w (a, Posting s t)
       (on_pool (at_strand s (\<lambda>_. x)) w\<lparr>ps_posted := (ps_posted w)(s := ps_posted w s @ [t])\<rparr>)
       (a, if need then Scheduling s else NoCall)"
| schedule: "TaskPool_enqueueStrandDrain s (ps_pool w) = (ok, p) \<Longrightarrow>
     thread_step w (a, Scheduling s) (w\<lparr>ps_pool := p\<rparr>) (a, if ok then NoCall else ScheduleFailed s)"
| schedule_failed:
     "thread_step w (a, ScheduleFailed s) (on_pool (at_strand s Strand_unschedule) w) (a, NoCall)"
| start: "user_code a \<Longrightarrow> TaskPool_start t (ps_pool w) = (ok, p) \<Longrightarrow>
     thread_step w (a, NoCall) (w\<lparr>ps_pool := p\<rparr>) (a, NoCall)"
| acquire_check: "user_code a \<Longrightarrow> TaskPool_accepts (ps_pool w) \<Longrightarrow> thread_step w (a, NoCall) w (a, Acquiring)"
| acquire: "TaskPool_takeStrand (ps_pool w) = (s, p) \<Longrightarrow>
     thread_step w (a, Acquiring) (w\<lparr>ps_pool := p\<rparr>) (a, NoCall)"
| release: "user_code a \<Longrightarrow> s < length (tp_strands (ps_pool w)) \<Longrightarrow> st_reserved (strand w s) \<Longrightarrow>
     thread_step w (a, NoCall) (on_pool (TaskPool_releaseStrandReservation s) w) (a, NoCall)"
| node: "user_code a \<Longrightarrow> s < length (tp_strands (ps_pool w)) \<Longrightarrow>
     f \<in> {Strand_addNode, Strand_removeNode, Strand_addRootNode n, Strand_removeRootNode n} \<Longrightarrow>
     thread_step w (a, NoCall) (on_pool (at_strand s f) w) (a, NoCall)"
| enqueue_delete: "in_strand s a \<Longrightarrow>
     thread_step w (a, NoCall) (on_pool (at_strand s (Strand_enqueueDelete n)) w) (a, NoCall)"
| take: "TaskPool_take (ps_pool w) = Some (x, p) \<Longrightarrow>
     thread_step w (WorkerIdle, NoCall) (w\<lparr>ps_pool := p\<rparr>) (run_pool_task x, NoCall)"
| leave: "tp_stopping (ps_pool w) \<Longrightarrow> tp_queue (ps_pool w) = [] \<Longrightarrow>
     thread_step w (WorkerIdle, NoCall) w (External, NoCall)"
| plain_end: "thread_step w (RunPlain t, NoCall) w (WorkerDone, NoCall)"
| work_done: "thread_step w (WorkerDone, NoCall) (on_pool TaskPool_done w) (WorkerIdle, NoCall)"
| drain_pop: "n < kBatchSize \<Longrightarrow> Strand_pop (strand w s) = Some (t, x) \<Longrightarrow>
     thread_step w (Draining s n, NoCall)
       (on_pool (at_strand s (\<lambda>_. x)) w\<lparr>ps_ran := (ps_ran w)(s := ps_ran w s @ [t])\<rparr>)
       (RunTask s n t, NoCall)"
| drain_break: "\<not> n < kBatchSize \<or> Strand_pop (strand w s) = None \<Longrightarrow>
     thread_step w (Draining s n, NoCall) w (Deletes s [], NoCall)"
| task_end: "thread_step w (RunTask s n t, NoCall) w (Draining s (Suc n), NoCall)"
| delete_node: "thread_step w (Deletes s (n # ns), NoCall) w (Deletes s ns, NoCall)"
| deletes_swap: "st_pendingDeletes (strand w s) \<noteq> [] \<Longrightarrow>
     thread_step w (Deletes s [], NoCall) (on_pool (at_strand s (\<lambda>x. x\<lparr>st_pendingDeletes := []\<rparr>)) w)
       (Deletes s (st_pendingDeletes (strand w s)), NoCall)"
| deletes_end: "st_pendingDeletes (strand w s) = [] \<Longrightarrow>
     thread_step w (Deletes s [], NoCall) w (Finishing s, NoCall)"
| finish: "Strand_finish (strand w s) = (again, x) \<Longrightarrow>
     thread_step w (Finishing s, NoCall) (on_pool (at_strand s (\<lambda>_. x)) w)
       (if again then (WorkerDone, Scheduling s) else (Recycling s, NoCall))"
| recycle: "thread_step w (Recycling s, NoCall) (on_pool (TaskPool_recycleStrandIfIdle s) w) (WorkerDone, NoCall)"
| begin_shutdown: "thread_step w (External, NoCall) (on_pool TaskPool_beginShutdown w) (External, NoCall)"
| retire: "tp_joined (ps_pool w) \<Longrightarrow> s < length (tp_strands (ps_pool w)) \<Longrightarrow>
     thread_step w (External, NoCall) (on_pool (at_strand s Strand_retire) w) (External, NoCall)"
| clear: "s < length (tp_strands (ps_pool w)) \<Longrightarrow> st_retired (strand w s) \<Longrightarrow>
     thread_step w (External, NoCall) (on_pool (at_strand s Strand_clear) w) (External, NoCall)"

text \<open>
  The whole pool: one thread makes a step, or \<open>shutdown\<close> has joined every worker, which is the one
  step that looks at all threads. The pool starts with its workers waiting, next to any number of
  other threads.
\<close>

inductive pool_step ::
  "'t pool_state \<times> 't thread list \<Rightarrow> 't pool_state \<times> 't thread list \<Rightarrow> bool" where
  thread: "i < length ths \<Longrightarrow> thread_step w (ths ! i) w' th \<Longrightarrow> pool_step (w, ths) (w', ths[i := th])"
| joined: "tp_stopping (ps_pool w) \<Longrightarrow> \<forall>th \<in> set ths. fst th = External \<Longrightarrow>
     pool_step (w, ths) (on_pool TaskPool_setJoined w, ths)"

inductive pool_reach :: "nat \<Rightarrow> nat \<Rightarrow> 't pool_state \<times> 't thread list \<Rightarrow> bool" for maxThreadCount others where
  start: "pool_reach maxThreadCount others
     (\<lparr>ps_pool = TaskPool_init maxThreadCount, ps_posted = (\<lambda>_. []), ps_ran = (\<lambda>_. [])\<rparr>,
      replicate (max 1 maxThreadCount) (WorkerIdle, NoCall) @ replicate others (External, NoCall))"
| step: "pool_reach maxThreadCount others c \<Longrightarrow> pool_step c c' \<Longrightarrow> pool_reach maxThreadCount others c'"

inductive_cases thread_stepE: "thread_step w th w' th'"
inductive_cases pool_stepE: "pool_step c c'"


section \<open>Invariants\<close>

text \<open>
  The right to drain a strand is a token: a queued drain, a thread inside \<open>drain\<close> up to its last
  locked region, or a thread on its way through \<open>schedule\<close>. \<open>m_scheduled\<close> counts it.
\<close>

fun act_token :: "nat \<Rightarrow> 't activity \<Rightarrow> nat" where
  "act_token s (Draining s' n) = of_bool (s = s')"
| "act_token s (RunTask s' n t) = of_bool (s = s')"
| "act_token s (Deletes s' ns) = of_bool (s = s')"
| "act_token s (Finishing s') = of_bool (s = s')"
| "act_token s _ = 0"

fun call_token :: "nat \<Rightarrow> 't call \<Rightarrow> nat" where
  "call_token s (Scheduling s') = of_bool (s = s')"
| "call_token s (ScheduleFailed s') = of_bool (s = s')"
| "call_token s _ = 0"

definition thread_token :: "nat \<Rightarrow> 't thread \<Rightarrow> nat" where
  "thread_token s th = act_token s (fst th) + call_token s (snd th)"

definition queue_token :: "nat \<Rightarrow> 't TaskPool \<Rightarrow> nat" where
  "queue_token s p = length (filter (\<lambda>x. case x of DrainOf s' \<Rightarrow> s' = s | Plain _ \<Rightarrow> False) (tp_queue p))"

definition scheduled_bit :: "nat \<Rightarrow> 't TaskPool \<Rightarrow> nat" where
  "scheduled_bit s p = of_bool (s < length (tp_strands p) \<and> st_scheduled (tp_strands p ! s))"

fun busy :: "'t activity \<Rightarrow> nat" where
  "busy External = 0"
| "busy WorkerIdle = 0"
| "busy _ = 1"

fun act_valid :: "nat \<Rightarrow> 't activity \<Rightarrow> bool" where
  "act_valid m (Draining s n) = (s < m \<and> n \<le> kBatchSize)"
| "act_valid m (RunTask s n t) = (s < m \<and> n < kBatchSize)"
| "act_valid m (Deletes s ns) = (s < m)"
| "act_valid m (Finishing s) = (s < m)"
| "act_valid m (Recycling s) = (s < m)"
| "act_valid m _ = True"

fun call_valid :: "nat \<Rightarrow> bool \<Rightarrow> 't call \<Rightarrow> bool" where
  "call_valid m joined (Posting s t) = (s < m)"
| "call_valid m joined (Scheduling s) = (s < m)"
| "call_valid m joined (ScheduleFailed s) = (s < m \<and> joined)"
| "call_valid m joined _ = True"

definition thread_ok :: "'t TaskPool \<Rightarrow> 't thread \<Rightarrow> bool" where
  "thread_ok p th \<longleftrightarrow> act_valid (length (tp_strands p)) (fst th)
     \<and> call_valid (length (tp_strands p)) (tp_joined p) (snd th) \<and> (tp_joined p \<longrightarrow> fst th = External)"

text \<open>A strand against its history: in order, nothing lost, and scheduled while it has work.\<close>

definition strand_ok :: "bool \<Rightarrow> 't list \<Rightarrow> 't list \<Rightarrow> 't Strand \<Rightarrow> bool" where
  "strand_ok joined posted started x \<longleftrightarrow> st_active x = st_scheduled x
     \<and> (\<not> st_retired x \<longrightarrow> posted = started @ st_queue x)
     \<and> (st_queue x \<noteq> [] \<longrightarrow> st_scheduled x \<or> joined)"

definition free_ok :: "'t TaskPool \<Rightarrow> bool" where
  "free_ok p \<longleftrightarrow> distinct (tp_freeStrands p)
     \<and> (\<forall>s. s \<in> set (tp_freeStrands p) \<longleftrightarrow> s < length (tp_strands p) \<and> st_free (tp_strands p ! s))
     \<and> (\<forall>s < length (tp_strands p). st_free (tp_strands p ! s) \<longrightarrow> \<not> st_reserved (tp_strands p ! s))"

definition shared_ok :: "'t pool_state \<Rightarrow> bool" where
  "shared_ok w \<longleftrightarrow> free_ok (ps_pool w)
     \<and> (\<forall>s < length (tp_strands (ps_pool w)).
          strand_ok (tp_joined (ps_pool w)) (ps_posted w s) (ps_ran w s) (strand w s))
     \<and> (\<forall>s \<ge> length (tp_strands (ps_pool w)). ps_posted w s = [] \<and> ps_ran w s = [])
     \<and> (tp_workers (ps_pool w) = 0 \<longrightarrow> tp_stopping (ps_pool w))
     \<and> (tp_joined (ps_pool w) \<longrightarrow> tp_stopping (ps_pool w))"

definition pool_ok :: "'t pool_state \<times> 't thread list \<Rightarrow> bool" where
  "pool_ok c \<longleftrightarrow> (case c of (w, ths) \<Rightarrow>
     shared_ok w \<and> (\<forall>th \<in> set ths. thread_ok (ps_pool w) th)
     \<and> (\<forall>s. queue_token s (ps_pool w) + sum_list (map (thread_token s) ths) = scheduled_bit s (ps_pool w))
     \<and> tp_activeTasks (ps_pool w) = sum_list (map (busy \<circ> fst) ths))"

lemma at_strand_simps [simp]:
  "tp_strands (at_strand s f p) = (tp_strands p)[s := f (tp_strands p ! s)]"
  "tp_queue (at_strand s f p) = tp_queue p" "tp_workers (at_strand s f p) = tp_workers p"
  "tp_activeTasks (at_strand s f p) = tp_activeTasks p" "tp_stopping (at_strand s f p) = tp_stopping p"
  "tp_joined (at_strand s f p) = tp_joined p" "tp_freeStrands (at_strand s f p) = tp_freeStrands p"
  by (simp_all add: at_strand_def)

lemma on_pool_simps [simp]:
  "ps_pool (on_pool f w) = f (ps_pool w)" "ps_posted (on_pool f w) = ps_posted w"
  "ps_ran (on_pool f w) = ps_ran w"
  by (simp_all add: on_pool_def)

lemmas strand_region_defs = Strand_push_def Strand_unschedule_def Strand_pop_def Strand_finish_def
  Strand_enqueueDelete_def Strand_addNode_def Strand_removeNode_def Strand_addRootNode_def
  Strand_removeRootNode_def Strand_retire_def Strand_clear_def Strand_isRecyclable_def Strand_init_def

lemmas pool_region_defs = TaskPool_start_def TaskPool_enqueueStrandDrain_def TaskPool_accepts_def
  TaskPool_takeStrand_def TaskPool_recycleStrandIfIdle_def TaskPool_releaseStrandReservation_def
  TaskPool_take_def TaskPool_done_def TaskPool_beginShutdown_def TaskPool_setJoined_def

lemma sum_list_update_thread:
  "i < length ths \<Longrightarrow> sum_list (map f (ths[i := th])) + f (ths ! i) = sum_list (map f ths) + (f th :: nat)"
proof (induction ths arbitrary: i)
  case (Cons a ths)
  then show ?case by (cases i) auto
qed simp

lemma sum_list_member_le: "i < length ths \<Longrightarrow> f (ths ! i) \<le> sum_list (map f ths)" for f :: "'a \<Rightarrow> nat"
  by (simp add: member_le_sum_list)

text \<open>The right to drain is neither lost nor doubled.\<close>

lemma queue_token_eq [simp]: "queue_token s (at_strand s' f p) = queue_token s p"
  by (simp add: queue_token_def)


lemma last_free:
  "free_ok p \<Longrightarrow> tp_freeStrands p \<noteq> [] \<Longrightarrow> last (tp_freeStrands p) < length (tp_strands p)"
  using last_in_set unfolding free_ok_def by blast

lemma token_step:
  assumes "thread_step w th w' th'" "thread_ok (ps_pool w) th" "free_ok (ps_pool w)"
    and "\<And>s. thread_token s th > 0 \<Longrightarrow> st_scheduled (strand w s)"
  shows "queue_token s (ps_pool w') + thread_token s th' + scheduled_bit s (ps_pool w) =
    queue_token s (ps_pool w) + thread_token s th + scheduled_bit s (ps_pool w')"
  using assms
proof (induction rule: thread_step.induct)
  case (post_push t w s' need x a)
  then show ?case
    by (auto simp: Strand_push_def nth_list_update thread_token_def thread_ok_def Let_def scheduled_bit_def split: if_splits)
next
  case (schedule s w ok p a)
  then show ?case
    by (auto simp: TaskPool_enqueueStrandDrain_def thread_token_def queue_token_def scheduled_bit_def split: if_splits)
next
  case (schedule_failed w a s')
  have "st_scheduled (strand w s')" using schedule_failed.prems(3) [of s'] by (simp add: thread_token_def)
  then show ?case using schedule_failed
    by (auto simp: Strand_unschedule_def nth_list_update thread_token_def thread_ok_def scheduled_bit_def)
next
  case (start a t w ok p)
  then show ?case
    by (auto simp: TaskPool_start_def queue_token_def scheduled_bit_def split: if_splits option.splits)
next
  case (acquire w s' p a)
  then show ?case
    by (auto simp: TaskPool_takeStrand_def thread_token_def queue_token_def scheduled_bit_def at_strand_def last_free
        nth_list_update nth_append Strand_init_def split: if_splits)
next
  case (release a s w)
  then show ?case
    by (auto simp: TaskPool_releaseStrandReservation_def queue_token_def scheduled_bit_def Let_def at_strand_def nth_list_update)
next
  case (node a s w f n)
  then show ?case
    by (auto simp: nth_list_update scheduled_bit_def strand_region_defs)
next
  case (enqueue_delete s a w n)
  then show ?case
    by (cases a) (auto simp: nth_list_update scheduled_bit_def Strand_enqueueDelete_def thread_ok_def)
next
  case (take w x p)
  then show ?case
    by (cases x) (auto simp: TaskPool_take_def thread_token_def queue_token_def scheduled_bit_def split: list.splits)
next
  case (drain_pop n w s t x)
  then show ?case
    by (auto simp: Strand_pop_def nth_list_update scheduled_bit_def thread_token_def thread_ok_def split: list.splits)
next
  case (deletes_swap w s)
  then show ?case by (auto simp: nth_list_update scheduled_bit_def thread_token_def thread_ok_def)
next
  case (finish w s' again x)
  have "st_scheduled (strand w s')" using finish.prems(3) [of s'] by (simp add: thread_token_def)
  then show ?case using finish
    by (auto simp: Strand_finish_def Strand_unschedule_def nth_list_update thread_token_def thread_ok_def
        scheduled_bit_def split: if_splits)
next
  case (recycle w s)
  then show ?case
    by (auto simp: TaskPool_recycleStrandIfIdle_def queue_token_def scheduled_bit_def thread_token_def at_strand_def nth_list_update thread_ok_def)
next
  case (retire w s)
  then show ?case by (auto simp: nth_list_update scheduled_bit_def Strand_retire_def)
next
  case (clear s w)
  then show ?case by (auto simp: nth_list_update scheduled_bit_def Strand_clear_def)
qed (auto simp: thread_token_def queue_token_def scheduled_bit_def pool_region_defs)

lemma thread_ok_step:
  assumes "thread_step w th w' th'" "thread_ok (ps_pool w) th"
    and "\<And>s. queue_token s (ps_pool w) > 0 \<Longrightarrow> s < length (tp_strands (ps_pool w))"
    and "tp_workers (ps_pool w) = 0 \<longrightarrow> tp_stopping (ps_pool w)"
  shows "thread_ok (ps_pool w') th'"
  using assms
proof (induction rule: thread_step.induct)
  case (take w x p)
  have "s < length (tp_strands (ps_pool w))" if "x = DrainOf s" for s
    using take that by (auto simp: TaskPool_take_def queue_token_def split: list.splits)
  then show ?case using take by (cases x) (auto simp: TaskPool_take_def thread_ok_def split: list.splits)
next
  case (start a t w ok p)
  then show ?case by (auto simp: TaskPool_start_def thread_ok_def split: if_splits option.splits)
next
  case (acquire w s' p a)
  then show ?case
    by (cases a) (auto simp: TaskPool_takeStrand_def thread_ok_def at_strand_def split: if_splits)
qed (auto simp: thread_ok_def pool_region_defs kBatchSize_def Let_def split: if_splits list.splits)

text \<open>No step of another thread invalidates where a thread is.\<close>

lemma thread_ok_mono:
  "thread_ok p th \<Longrightarrow> length (tp_strands p) \<le> length (tp_strands p') \<Longrightarrow> tp_joined p' = tp_joined p \<Longrightarrow>
   thread_ok p' th"
  by (cases th; cases "fst th"; cases "snd th") (auto simp: thread_ok_def)

lemma step_mono:
  "thread_step w th w' th' \<Longrightarrow> length (tp_strands (ps_pool w)) \<le> length (tp_strands (ps_pool w'))
     \<and> tp_joined (ps_pool w') = tp_joined (ps_pool w)"
  by (induction rule: thread_step.induct)
     (auto simp: pool_region_defs Let_def at_strand_def split: if_splits list.splits option.splits)

lemma active_step:
  "thread_step w th w' th' \<Longrightarrow> busy (fst th) \<le> tp_activeTasks (ps_pool w) \<Longrightarrow>
   tp_activeTasks (ps_pool w') + busy (fst th) = tp_activeTasks (ps_pool w) + busy (fst th')"
proof (induction rule: thread_step.induct)
  case (take w x p)
  then show ?case by (cases x) (auto simp: TaskPool_take_def split: list.splits)
qed (auto simp: pool_region_defs Let_def at_strand_def split: if_splits option.splits)


lemma free_ok_frame:
  "free_ok p \<Longrightarrow> tp_freeStrands p' = tp_freeStrands p \<Longrightarrow> length (tp_strands p') = length (tp_strands p) \<Longrightarrow>
   (\<And>s. s < length (tp_strands p) \<Longrightarrow> st_free (tp_strands p' ! s) = st_free (tp_strands p ! s)
      \<and> st_reserved (tp_strands p' ! s) = st_reserved (tp_strands p ! s)) \<Longrightarrow> free_ok p'"
  by (auto simp: free_ok_def)

lemma free_ok_at:
  assumes "free_ok p" "st_free (f (tp_strands p ! s)) = st_free (tp_strands p ! s)"
    "st_reserved (f (tp_strands p ! s)) = st_reserved (tp_strands p ! s)"
  shows "free_ok (at_strand s f p)"
  by (rule free_ok_frame [OF assms(1)])
     (use assms(2,3) in \<open>cases "s < length (tp_strands p)"; auto simp: nth_list_update\<close>)+

lemma free_ok_takeStrand:
  assumes ok: "free_ok p" and take: "TaskPool_takeStrand p = (s, p')"
  shows "free_ok p'"
proof (cases "tp_freeStrands p")
  case Nil
  with ok take show ?thesis
    by (auto simp: free_ok_def TaskPool_takeStrand_def at_strand_def nth_append Strand_init_def less_Suc_eq)
next
  case (Cons f fs)
  then obtain fs' l where fs: "tp_freeStrands p = fs' @ [l]" by (metis rev_exhaust list.discI)
  with ok have "l < length (tp_strands p)" by (simp add: free_ok_def) metis
  with fs ok take show ?thesis
    by (auto simp: free_ok_def TaskPool_takeStrand_def at_strand_def nth_list_update split: if_splits)
qed

lemma free_ok_recycle:
  "free_ok p \<Longrightarrow> s < length (tp_strands p) \<Longrightarrow> free_ok (TaskPool_recycleStrandIfIdle s p)"
  by (auto simp: free_ok_def TaskPool_recycleStrandIfIdle_def at_strand_def nth_list_update Strand_isRecyclable_def)

lemma free_ok_release:
  assumes "free_ok p" "s < length (tp_strands p)"
  shows "free_ok (TaskPool_releaseStrandReservation s p)"
proof -
  have "free_ok (at_strand s (\<lambda>x. x\<lparr>st_reserved := False\<rparr>) p)"
    using assms by (auto simp: free_ok_def at_strand_def nth_list_update)
  then have "free_ok (TaskPool_recycleStrandIfIdle s (at_strand s (\<lambda>x. x\<lparr>st_reserved := False\<rparr>) p))"
    using assms by (intro free_ok_recycle) simp_all
  then show ?thesis
    by (simp add: TaskPool_releaseStrandReservation_def TaskPool_recycleStrandIfIdle_def Let_def)
qed

lemma free_ok_step:
  assumes "thread_step w th w' th'" "thread_ok (ps_pool w) th" "free_ok (ps_pool w)"
  shows "free_ok (ps_pool w')"
  using assms
proof (induction rule: thread_step.induct)
  case (acquire w s p a)
  then show ?case using free_ok_takeStrand by auto
next
  case (post_push t w s' need x a)
  then show ?case by (auto simp: Strand_push_def Let_def split: if_splits intro!: free_ok_at simp del: at_strand_simps)
next
  case (drain_pop n w s t x)
  then show ?case by (auto simp: Strand_pop_def split: list.splits intro!: free_ok_at simp del: at_strand_simps)
next
  case (finish w s' again x)
  then show ?case by (auto simp: Strand_finish_def Strand_unschedule_def split: if_splits intro!: free_ok_at simp del: at_strand_simps)
next
  case (node a s w f n)
  then show ?case by (auto simp: strand_region_defs intro!: free_ok_at simp del: at_strand_simps)
next
  case (take w x p)
  then show ?case by (auto simp: TaskPool_take_def free_ok_def split: list.splits)
next
  case (start a t w ok p)
  then show ?case by (auto simp: TaskPool_start_def free_ok_def split: if_splits option.splits)
next
  case (schedule s w ok p a)
  then show ?case by (auto simp: TaskPool_enqueueStrandDrain_def free_ok_def split: if_splits)
next
  case (work_done w)
  then show ?case by (simp add: TaskPool_done_def free_ok_def)
next
  case (begin_shutdown w)
  then show ?case by (simp add: TaskPool_beginShutdown_def free_ok_def)
qed (auto simp: strand_region_defs thread_ok_def
       intro!: free_ok_at free_ok_recycle free_ok_release simp del: at_strand_simps)


text \<open>One step keeps every strand in step with its history.\<close>

definition strands_ok :: "'t pool_state \<Rightarrow> bool" where
  "strands_ok w \<longleftrightarrow> (\<forall>s < length (tp_strands (ps_pool w)).
       strand_ok (tp_joined (ps_pool w)) (ps_posted w s) (ps_ran w s) (strand w s))
     \<and> (\<forall>s \<ge> length (tp_strands (ps_pool w)). ps_posted w s = [] \<and> ps_ran w s = [])"

lemma strands_ok_at:
  assumes "strands_ok w" "s < length (tp_strands (ps_pool w))"
    and "ps_pool w' = at_strand s f (ps_pool w)"
    and "\<And>s'. s' \<noteq> s \<Longrightarrow> ps_posted w' s' = ps_posted w s' \<and> ps_ran w' s' = ps_ran w s'"
    and "strand_ok (tp_joined (ps_pool w)) (ps_posted w s) (ps_ran w s) (strand w s) \<Longrightarrow>
      strand_ok (tp_joined (ps_pool w)) (ps_posted w' s) (ps_ran w' s) (f (strand w s))"
  shows "strands_ok w'"
proof -
  have "strand_ok (tp_joined (ps_pool w)) (ps_posted w' s') (ps_ran w' s') (strand w' s')"
    if "s' < length (tp_strands (ps_pool w))" for s'
    using assms that by (cases "s' = s") (auto simp: strands_ok_def nth_list_update)
  then show ?thesis using assms by (auto simp: strands_ok_def)
qed

lemma strands_ok_frame:
  "strands_ok w \<Longrightarrow> tp_strands (ps_pool w') = tp_strands (ps_pool w) \<Longrightarrow> tp_joined (ps_pool w') = tp_joined (ps_pool w) \<Longrightarrow>
   ps_posted w' = ps_posted w \<Longrightarrow> ps_ran w' = ps_ran w \<Longrightarrow> strands_ok w'"
  by (simp add: strands_ok_def)

lemma strands_ok_takeStrand:
  assumes "strands_ok w" "free_ok (ps_pool w)" "TaskPool_takeStrand (ps_pool w) = (s, p)"
  shows "strands_ok (w\<lparr>ps_pool := p\<rparr>)"
proof (cases "tp_freeStrands (ps_pool w)")
  case Nil
  then show ?thesis using assms
    by (auto simp: strands_ok_def TaskPool_takeStrand_def nth_append nth_list_update less_Suc_eq
        strand_ok_def Strand_init_def at_strand_def)
next
  case (Cons f fs)
  then have "s < length (tp_strands (ps_pool w))" using assms last_free [OF assms(2)]
    by (auto simp: TaskPool_takeStrand_def)
  with Cons assms show ?thesis
    by (auto simp: strands_ok_def TaskPool_takeStrand_def nth_list_update strand_ok_def at_strand_def split: if_splits)
qed

lemma strands_ok_step:
  assumes "thread_step w th w' th'" "thread_ok (ps_pool w) th" "free_ok (ps_pool w)" "strands_ok w"
    and "\<And>s. thread_token s th > 0 \<Longrightarrow> st_scheduled (strand w s)"
  shows "strands_ok w'"
  using assms
proof (induction rule: thread_step.induct)
  case (post_push t w s need x a)
  then show ?case
    by (rule_tac strands_ok_at [where w = w and s = s and f = "\<lambda>_. x"]) (auto simp: thread_ok_def strand_ok_def Strand_push_def Let_def split: if_splits)
next
  case (schedule_failed w a s)
  then show ?case
    by (rule_tac strands_ok_at [where w = w and s = s and f = "Strand_unschedule"]) (auto simp: thread_ok_def strand_ok_def Strand_unschedule_def)
next
  case (acquire w s p a)
  then show ?case using strands_ok_takeStrand by blast
next
  case (drain_pop n w s t x)
  then have "st_scheduled (strand w s)" by (simp add: thread_token_def)
  with drain_pop show ?case
    by (rule_tac strands_ok_at [where w = w and s = s and f = "\<lambda>_. x"]) (auto simp: thread_ok_def strand_ok_def Strand_pop_def split: list.splits)
next
  case (finish w s again x)
  then show ?case
    by (rule_tac strands_ok_at [where w = w and s = s and f = "\<lambda>_. x"])
       (auto simp: thread_ok_def strand_ok_def Strand_finish_def Strand_unschedule_def split: if_splits)
next
  case (node a s w f n)
  then show ?case
    by (rule_tac strands_ok_at [where w = w and s = s and f = "f"]) (auto simp: strand_ok_def strand_region_defs)
next
  case (enqueue_delete s a w n)
  then have "s < length (tp_strands (ps_pool w))" by (cases a) (auto simp: thread_ok_def)
  with enqueue_delete show ?case
    by (rule_tac strands_ok_at [where w = w and s = s and f = "Strand_enqueueDelete n"]) (auto simp: strand_ok_def Strand_enqueueDelete_def)
next
  case (deletes_swap w s)
  then show ?case
    by (rule_tac strands_ok_at [where w = w and s = s and f = "\<lambda>x. x\<lparr>st_pendingDeletes := []\<rparr>"]) (auto simp: strand_ok_def thread_ok_def)
next
  case (recycle w s)
  then have "strands_ok (on_pool (at_strand s (\<lambda>x. x\<lparr>st_free := True\<rparr>)) w)"
    by (rule_tac strands_ok_at [where w = w and s = s and f = "\<lambda>x. x\<lparr>st_free := True\<rparr>"]) (auto simp: strand_ok_def thread_ok_def)
  then show ?case using recycle
    by (auto simp: TaskPool_recycleStrandIfIdle_def strands_ok_def)
next
  case (release a s w)
  define v where "v = on_pool (at_strand s (\<lambda>x. x\<lparr>st_reserved := False\<rparr>)) w"
  have v: "strands_ok v" unfolding v_def using release
    by (rule_tac strands_ok_at [where w = w and s = s and f = "\<lambda>x. x\<lparr>st_reserved := False\<rparr>"]) (auto simp: strand_ok_def)
  moreover have "strands_ok (on_pool (at_strand s (\<lambda>x. x\<lparr>st_free := True\<rparr>)) v)"
    by (rule strands_ok_at [where w = v and s = s and f = "\<lambda>x. x\<lparr>st_free := True\<rparr>"])
       (use v release in \<open>auto simp: strand_ok_def v_def\<close>)
  ultimately show ?case by (auto simp: TaskPool_releaseStrandReservation_def Let_def strands_ok_def v_def)
next
  case (retire w s)
  then show ?case by (rule_tac strands_ok_at [where w = w and s = s and f = "Strand_retire"]) (auto simp: strand_ok_def Strand_retire_def)
next
  case (clear s w)
  then show ?case by (rule_tac strands_ok_at [where w = w and s = s and f = "Strand_clear"]) (auto simp: strand_ok_def Strand_clear_def)
qed (auto simp: strands_ok_def pool_region_defs split: if_splits option.splits list.splits)

lemma flags_step:
  "thread_step w th w' th' \<Longrightarrow> tp_workers (ps_pool w) = 0 \<longrightarrow> tp_stopping (ps_pool w) \<Longrightarrow>
   tp_joined (ps_pool w) \<longrightarrow> tp_stopping (ps_pool w) \<Longrightarrow>
   (tp_workers (ps_pool w') = 0 \<longrightarrow> tp_stopping (ps_pool w')) \<and> (tp_joined (ps_pool w') \<longrightarrow> tp_stopping (ps_pool w'))"
  by (induction rule: thread_step.induct)
     (auto simp: pool_region_defs Let_def at_strand_def split: if_splits option.splits list.splits)

lemma shared_ok_iff:
  "shared_ok w \<longleftrightarrow> free_ok (ps_pool w) \<and> strands_ok w
     \<and> (tp_workers (ps_pool w) = 0 \<longrightarrow> tp_stopping (ps_pool w)) \<and> (tp_joined (ps_pool w) \<longrightarrow> tp_stopping (ps_pool w))"
  by (auto simp: shared_ok_def strands_ok_def)


lemma pool_ok_scheduled:
  assumes "pool_ok (w, ths)" "i < length ths" "thread_token s (ths ! i) > 0"
  shows "s < length (tp_strands (ps_pool w)) \<and> st_scheduled (strand w s)"
proof -
  have "queue_token s (ps_pool w) + sum_list (map (thread_token s) ths) = scheduled_bit s (ps_pool w)"
    using assms(1) by (simp add: pool_ok_def)
  then have "scheduled_bit s (ps_pool w) > 0"
    using assms(3) sum_list_member_le [OF assms(2), of "thread_token s"] by linarith
  then show ?thesis by (simp add: scheduled_bit_def)
qed

lemma pool_ok_thread_step:
  assumes ok: "pool_ok (w, ths)" and i: "i < length ths" and step: "thread_step w (ths ! i) w' th"
  shows "pool_ok (w', ths[i := th])"
proof -
  have sh: "shared_ok w" and th_ok: "\<forall>th \<in> set ths. thread_ok (ps_pool w) th"
    and tok: "\<And>s. queue_token s (ps_pool w) + sum_list (map (thread_token s) ths) = scheduled_bit s (ps_pool w)"
    and act: "tp_activeTasks (ps_pool w) = sum_list (map (busy \<circ> fst) ths)"
    using ok by (auto simp: pool_ok_def)
  have own: "thread_ok (ps_pool w) (ths ! i)" using th_ok i by simp
  have sched: "\<And>s. thread_token s (ths ! i) > 0 \<Longrightarrow> st_scheduled (strand w s)"
    using pool_ok_scheduled [OF ok i] by blast
  have queued: "s < length (tp_strands (ps_pool w))" if "queue_token s (ps_pool w) > 0" for s
  proof -
    have "scheduled_bit s (ps_pool w) > 0" using tok [of s] that by linarith
    then show ?thesis by (simp add: scheduled_bit_def)
  qed
  have "shared_ok w'"
    using sh free_ok_step [OF step own] strands_ok_step [OF step own _ _ sched] flags_step [OF step]
    unfolding shared_ok_iff by simp
  moreover have "thread_ok (ps_pool w') th"
    using thread_ok_step [OF step own queued] sh by (simp add: shared_ok_def)
  then have "\<forall>t \<in> set (ths[i := th]). thread_ok (ps_pool w') t"
    using th_ok step_mono [OF step] set_update_subset_insert [of ths i th] thread_ok_mono
    by (metis insertE subsetD)
  moreover have "queue_token s (ps_pool w') + sum_list (map (thread_token s) (ths[i := th])) = scheduled_bit s (ps_pool w')" for s
    using tok [of s] token_step [OF step own _ sched, of s] sum_list_update_thread [OF i, of "thread_token s" th] sh
    by (simp add: shared_ok_def)
  moreover have "busy (fst (ths ! i)) \<le> tp_activeTasks (ps_pool w)"
    using act sum_list_member_le [OF i, of "busy \<circ> fst"] by simp
  then have "tp_activeTasks (ps_pool w') = sum_list (map (busy \<circ> fst) (ths[i := th]))"
    using active_step [OF step] act sum_list_update_thread [OF i, of "busy \<circ> fst" th] by simp
  ultimately show ?thesis by (simp add: pool_ok_def)
qed

lemma pool_reach_ok: "pool_reach m k c \<Longrightarrow> pool_ok c"
proof (induction rule: pool_reach.induct)
  case start
  have "sum_list (map (thread_token s) (replicate a (WorkerIdle, NoCall) @ replicate b (External, NoCall))) = 0"
    "sum_list (map (busy \<circ> fst) (replicate a (WorkerIdle, NoCall) @ replicate b (External, NoCall))) = 0" for a b s
    by (simp_all add: thread_token_def)
  then show ?case
    by (auto simp: pool_ok_def shared_ok_def free_ok_def TaskPool_init_def thread_ok_def queue_token_def scheduled_bit_def)
next
  case (step c c')
  from step.hyps(2) show ?case
  proof cases
    case (thread i ths w w' th)
    then show ?thesis using pool_ok_thread_step step.IH by blast
  next
    case (joined w ths)
    have "thread_ok (TaskPool_setJoined (ps_pool w)) th" if "th \<in> set ths" for th
      using that joined step.IH by (cases th; cases "snd th") (auto simp: pool_ok_def thread_ok_def TaskPool_setJoined_def)
    then show ?thesis using joined step.IH
      by (auto simp: pool_ok_def shared_ok_def strand_ok_def free_ok_def TaskPool_setJoined_def queue_token_def scheduled_bit_def)
  qed
qed


section \<open>Guarantees\<close>

definition draining :: "nat \<Rightarrow> 't thread \<Rightarrow> bool" where
  "draining s th \<longleftrightarrow> act_token s (fst th) = 1"

lemma two_tokens:
  fixes f :: "'a \<Rightarrow> nat"
  shows "i < j \<Longrightarrow> j < length xs \<Longrightarrow> f (xs ! i) + f (xs ! j) \<le> sum_list (map f xs)"
proof (induction xs arbitrary: i j)
  case (Cons a xs)
  then obtain j' where j: "j = Suc j'" by (cases j) simp_all
  show ?case
  proof (cases i)
    case 0
    then show ?thesis using Cons.prems j sum_list_member_le [of j' xs f] by simp
  next
    case (Suc i')
    then show ?thesis using Cons.IH [of i' j'] Cons.prems j by simp
  qed
qed simp

lemma mutual_exclusion:
  assumes ok: "pool_ok (w, ths)" and "i < j" "j < length ths"
  shows "\<not> (draining s (ths ! i) \<and> draining s (ths ! j))"
proof
  assume "draining s (ths ! i) \<and> draining s (ths ! j)"
  then have "2 \<le> thread_token s (ths ! i) + thread_token s (ths ! j)"
    by (simp add: draining_def thread_token_def)
  also have "\<dots> \<le> sum_list (map (thread_token s) ths)" using assms(2,3) by (rule two_tokens)
  also have "\<dots> \<le> scheduled_bit s (ps_pool w)" using ok by (simp add: pool_ok_def) (metis le_add2)
  finally show False by (simp add: scheduled_bit_def of_bool_def split: if_splits)
qed

lemma pending_work_has_token:
  assumes ok: "pool_ok (w, ths)" and s: "s < length (tp_strands (ps_pool w))"
    and work: "st_queue (strand w s) \<noteq> []" "\<not> tp_joined (ps_pool w)"
  shows "DrainOf s \<in> set (tp_queue (ps_pool w)) \<or> (\<exists>th \<in> set ths. thread_token s th > 0)"
proof (rule ccontr)
  assume none: "\<not> ?thesis"
  then have "\<forall>th \<in> set ths. thread_token s th = 0" by simp
  then have "sum_list (map (thread_token s) ths) = 0" by (induction ths) auto
  moreover have "queue_token s (ps_pool w) = 0"
    using none by (auto simp: queue_token_def filter_empty_conv split: pool_task.splits)
  moreover have "queue_token s (ps_pool w) + sum_list (map (thread_token s) ths) = scheduled_bit s (ps_pool w)"
    using ok by (simp add: pool_ok_def)
  moreover have "st_scheduled (strand w s)"
    using ok s work by (auto simp: pool_ok_def shared_ok_def strand_ok_def)
  ultimately have "scheduled_bit s (ps_pool w) = 0" by linarith
  with \<open>st_scheduled (strand w s)\<close> s show False by (simp add: scheduled_bit_def)
qed

lemma reach_thread:
  "pool_reach m k (w, ths) \<Longrightarrow> i < length ths \<Longrightarrow> thread_step w (ths ! i) w' th' \<Longrightarrow> ths' = ths[i := th'] \<Longrightarrow>
   pool_reach m k (w', ths')"
  by (auto intro: pool_reach.step pool_step.thread)

text \<open>A run of a pool with one worker: another thread acquires a strand and posts two tasks to it; the
  worker starts the first.\<close>

definition demo_strand :: "nat Strand" where
  "demo_strand = Strand_init\<lparr>st_queue := [8], st_scheduled := True, st_active := True, st_reserved := True\<rparr>"

definition demo_pool :: "nat pool_state" where
  "demo_pool = \<lparr>ps_pool = (TaskPool_init 1)\<lparr>tp_strands := [demo_strand], tp_activeTasks := 1\<rparr>,
     ps_posted = (\<lambda>_. [])(0 := [7, 8]), ps_ran = (\<lambda>_. [])(0 := [7])\<rparr>"


lemma demo_pool_reach:
  "pool_reach 1 1 (demo_pool, [(RunTask 0 0 7, NoCall), (External, NoCall)])"
proof -
  let ?w = "\<lambda>p posted ran. \<lparr>ps_pool = p, ps_posted = posted, ps_ran = ran\<rparr> :: nat pool_state"
  let ?s = "Strand_init\<lparr>st_reserved := True\<rparr>"
  let ?s1 = "?s\<lparr>st_queue := [7], st_scheduled := True, st_active := True\<rparr>"
  let ?s2 = "?s1\<lparr>st_queue := [7, 8]\<rparr>"
  let ?p = "\<lambda>x q n. (TaskPool_init 1)\<lparr>tp_strands := [x], tp_queue := q, tp_activeTasks := n\<rparr>"
  let ?e = "\<lambda>_. [] :: nat list"
  have "pool_reach 1 1 (?w (TaskPool_init 1) ?e ?e, [(WorkerIdle, NoCall), (External, NoCall)])"
    using pool_reach.start [of 1 1] by (simp add: TaskPool_init_def)
  then have "pool_reach 1 1 (?w (TaskPool_init 1) ?e ?e, [(WorkerIdle, NoCall), (External, Acquiring)])"
    by (rule reach_thread [where i = 1])
       (simp, simp, rule thread_step.acquire_check, auto simp: TaskPool_accepts_def TaskPool_init_def)
  then have "pool_reach 1 1 (?w (?p ?s [] 0) ?e ?e, [(WorkerIdle, NoCall), (External, NoCall)])"
    by (rule reach_thread [where i = 1])
       (use thread_step.acquire [of "?w (TaskPool_init 1) ?e ?e" 0 "?p ?s [] 0" External] in
         \<open>auto simp: TaskPool_takeStrand_def TaskPool_init_def at_strand_def Strand_init_def\<close>)
  then have "pool_reach 1 1 (?w (?p ?s [] 0) ?e ?e, [(WorkerIdle, NoCall), (External, Posting 0 7)])"
    by (rule reach_thread [where i = 1]) (auto intro!: thread_step.post_check simp: Strand_init_def)
  then have "pool_reach 1 1 (?w (?p ?s1 [] 0) (?e(0 := [7])) ?e, [(WorkerIdle, NoCall), (External, Scheduling 0)])"
    by (rule reach_thread [where i = 1])
       (use thread_step.post_push [of 7 "?w (?p ?s [] 0) ?e ?e" 0 True ?s1 External] in
         \<open>auto simp: Strand_push_def Strand_init_def at_strand_def on_pool_def Let_def TaskPool_init_def\<close>)
  then have "pool_reach 1 1 (?w (?p ?s1 [DrainOf 0] 0) (?e(0 := [7])) ?e, [(WorkerIdle, NoCall), (External, NoCall)])"
    by (rule reach_thread [where i = 1])
       (use thread_step.schedule [of 0 "?w (?p ?s1 [] 0) (?e(0 := [7])) ?e" True "?p ?s1 [DrainOf 0] 0" External] in
         \<open>auto simp: TaskPool_enqueueStrandDrain_def TaskPool_init_def\<close>)
  then have "pool_reach 1 1 (?w (?p ?s1 [DrainOf 0] 0) (?e(0 := [7])) ?e, [(WorkerIdle, NoCall), (External, Posting 0 8)])"
    by (rule reach_thread [where i = 1]) (auto intro!: thread_step.post_check simp: Strand_init_def)
  then have "pool_reach 1 1 (?w (?p ?s2 [DrainOf 0] 0) (?e(0 := [7, 8])) ?e, [(WorkerIdle, NoCall), (External, NoCall)])"
    by (rule reach_thread [where i = 1])
       (use thread_step.post_push [of 8 "?w (?p ?s1 [DrainOf 0] 0) (?e(0 := [7])) ?e" 0 False ?s2 External] in
         \<open>auto simp: Strand_push_def Strand_init_def at_strand_def on_pool_def Let_def TaskPool_init_def\<close>)
  then have "pool_reach 1 1 (?w (?p ?s2 [] 1) (?e(0 := [7, 8])) ?e, [(Draining 0 0, NoCall), (External, NoCall)])"
    by (rule reach_thread [where i = 0])
       (use thread_step.take [of "?w (?p ?s2 [DrainOf 0] 0) (?e(0 := [7, 8])) ?e" "DrainOf 0" "?p ?s2 [] 1"] in
         \<open>auto simp: TaskPool_take_def TaskPool_init_def\<close>)
  then show ?thesis
    by (rule reach_thread [where i = 0])
       (use thread_step.drain_pop [of 0 "?w (?p ?s2 [] 1) (?e(0 := [7, 8])) ?e" 0 7 demo_strand] in
         \<open>auto simp: demo_pool_def demo_strand_def kBatchSize_def Strand_pop_def Strand_init_def at_strand_def
           on_pool_def TaskPool_init_def\<close>)
qed


lemma demo_pool_strands: "tp_strands (ps_pool demo_pool) = [demo_strand]" "\<not> tp_joined (ps_pool demo_pool)"
  "tp_queue (ps_pool demo_pool) = []" "st_queue demo_strand = [8]" "\<not> st_retired demo_strand"
  "st_reserved demo_strand" "tp_freeStrands (ps_pool demo_pool) = []"
  by (simp_all add: demo_pool_def demo_strand_def TaskPool_init_def Strand_init_def)

text \<open>
  C4. Mutual exclusion: however posts, drains, recycling and shutdown interleave, two threads are
  never inside the same strand, that is between the start of \<open>drain\<close> and its last locked region,
  where tasks and deferred deletes of the strand run.
\<close>
theorem strand_mutual_exclusion:
  assumes "pool_reach m k (w, ths)" "i < length ths" "j < length ths"
    and "draining s (ths ! i)" "draining s (ths ! j)"
  shows "i = j"
  using mutual_exclusion [OF pool_reach_ok [OF assms(1)]] assms(2-5)
  by (metis linorder_neqE_nat)

theorem strand_mutual_exclusion_witness:
  "\<exists>w ths. pool_reach 1 1 (w, ths) \<and> draining 0 (ths ! 0)
     \<and> (\<forall>j < length (ths :: nat thread list). draining 0 (ths ! j) \<longrightarrow> 0 = j)"
proof (intro exI conjI allI impI)
  let ?ths = "[(RunTask 0 0 7, NoCall), (External, NoCall)] :: nat thread list"
  show "pool_reach 1 1 (demo_pool, ?ths)" by (rule demo_pool_reach)
  show "draining 0 (?ths ! 0)" by (simp add: draining_def)
  then show "0 = j" if "j < length ?ths" "draining 0 (?ths ! j)" for j
    using strand_mutual_exclusion [OF demo_pool_reach _ that(1) _ that(2)] by simp
qed

text \<open>
  C5. Order: the tasks a strand has started are a prefix of the tasks posted to it, in the order of
  posting; exactly the rest is in its queue. So no task is lost, run twice or overtaken before the
  strand is retired.
\<close>
theorem strand_runs_in_posting_order:
  assumes "pool_reach m k (w, ths)" "s < length (tp_strands (ps_pool w))" "\<not> st_retired (strand w s)"
  shows "ps_posted w s = ps_ran w s @ st_queue (strand w s)"
  using pool_reach_ok [OF assms(1)] assms(2,3) by (simp add: pool_ok_def shared_ok_def strand_ok_def)

theorem strand_runs_in_posting_order_witness:
  "ps_posted demo_pool 0 = ps_ran demo_pool 0 @ st_queue (strand demo_pool 0) \<and> ps_ran demo_pool 0 = [7]"
  using strand_runs_in_posting_order [OF demo_pool_reach, of 0]
  by (simp add: demo_pool_strands) (simp add: demo_pool_def)

text \<open>
  C6. No strand with work is forgotten: as long as the workers are not joined, a strand with queued
  tasks has a drain waiting in the pool, or a thread that is inside it or about to schedule it.
\<close>
theorem strand_work_never_forgotten:
  assumes "pool_reach m k (w, ths)" "s < length (tp_strands (ps_pool w))"
    and "st_queue (strand w s) \<noteq> []" "\<not> tp_joined (ps_pool w)"
  shows "DrainOf s \<in> set (tp_queue (ps_pool w)) \<or> (\<exists>th \<in> set ths. thread_token s th > 0)"
  by (rule pending_work_has_token [OF pool_reach_ok [OF assms(1)] assms(2-4)])

theorem strand_work_never_forgotten_witness:
  "\<exists>th \<in> set [(RunTask 0 0 (7::nat), NoCall), (External, NoCall)]. thread_token 0 th > 0"
  using strand_work_never_forgotten [OF demo_pool_reach, of 0] by (simp add: demo_pool_strands)

text \<open>
  Recycling: a strand handed out by \<open>acquireStrand\<close> is new or was on the free list, which holds
  every free strand once and no reserved one; so it is reserved by nobody else, and afterwards it is
  reserved and no longer free, while all other strands are as before.
\<close>
theorem acquired_strand_is_unreserved:
  assumes "pool_reach m k (w, ths)" "TaskPool_takeStrand (ps_pool w) = (s, p)"
  shows "(s < length (tp_strands (ps_pool w)) \<longrightarrow> st_free (strand w s) \<and> \<not> st_reserved (strand w s))
    \<and> s < length (tp_strands p) \<and> st_reserved (tp_strands p ! s) \<and> s \<notin> set (tp_freeStrands p)
    \<and> (\<forall>s' < length (tp_strands (ps_pool w)). s' \<noteq> s \<longrightarrow> tp_strands p ! s' = strand w s')"
proof -
  have ok: "free_ok (ps_pool w)" using pool_reach_ok [OF assms(1)] by (simp add: pool_ok_def shared_ok_def)
  show ?thesis
  proof (cases "tp_freeStrands (ps_pool w)")
    case Nil
    then show ?thesis using assms(2) by (auto simp: TaskPool_takeStrand_def at_strand_def nth_append)
  next
    case (Cons f fs)
    then obtain fs' l where fs: "tp_freeStrands (ps_pool w) = fs' @ [l]" by (metis rev_exhaust list.discI)
    have "l \<in> set (tp_freeStrands (ps_pool w))" using fs by simp
    then have l: "l < length (tp_strands (ps_pool w))" "st_free (strand w l)" "\<not> st_reserved (strand w l)"
      using ok unfolding free_ok_def by blast+
    moreover have "distinct (fs' @ [l])" using ok fs by (metis free_ok_def)
    ultimately show ?thesis using assms(2) fs by (auto simp: TaskPool_takeStrand_def at_strand_def)
  qed
qed

theorem acquired_strand_is_unreserved_witness:
  "\<exists>p. TaskPool_takeStrand (ps_pool demo_pool) = (1, p) \<and> st_reserved (tp_strands p ! 1)
     \<and> tp_strands p ! 0 = demo_strand"
  using acquired_strand_is_unreserved [OF demo_pool_reach refl [THEN trans, OF surjective_pairing]]
  by (simp add: demo_pool_strands TaskPool_takeStrand_def Let_def)

text \<open>
  \<open>waitForDone\<close>: when its condition holds, no worker is inside a task or a drain, every strand
  that still has work has a thread from outside the pool on its way to schedule it, and every other
  strand is idle.
\<close>
theorem waitForDone_means_quiescent:
  assumes "pool_reach m k (w, ths)" "TaskPool_isDone (ps_pool w)"
  shows "(\<forall>th \<in> set ths. fst th = External \<or> fst th = WorkerIdle)
    \<and> (\<forall>s < length (tp_strands (ps_pool w)). st_scheduled (strand w s) \<longrightarrow>
         (\<exists>th \<in> set ths. snd th = Scheduling s \<or> snd th = ScheduleFailed s))"
proof -
  have ok: "pool_ok (w, ths)" by (rule pool_reach_ok [OF assms(1)])
  have idle: "fst th = External \<or> fst th = WorkerIdle" if "th \<in> set ths" for th
  proof -
    have "sum_list (map (busy \<circ> fst) ths) = 0" using ok assms(2) by (simp add: pool_ok_def TaskPool_isDone_def)
    then have "busy (fst th) = 0" using that by simp
    then show ?thesis by (cases "fst th") auto
  qed
  have "\<exists>th \<in> set ths. snd th = Scheduling s \<or> snd th = ScheduleFailed s"
    if s: "s < length (tp_strands (ps_pool w))" "st_scheduled (strand w s)" for s
  proof -
    have "queue_token s (ps_pool w) + sum_list (map (thread_token s) ths) = 1"
      using ok s by (simp add: pool_ok_def scheduled_bit_def)
    moreover have "queue_token s (ps_pool w) = 0" using assms(2) by (simp add: TaskPool_isDone_def queue_token_def)
    ultimately have "sum_list (map (thread_token s) ths) \<noteq> 0" by simp
    then obtain th where th: "th \<in> set ths" "thread_token s th \<noteq> 0"
      by (metis (no_types, lifting) sum_list_eq_0_iff imageE list.set_map)
    then have "call_token s (snd th) \<noteq> 0" using idle [OF th(1)] by (auto simp: thread_token_def)
    then show ?thesis using th(1) by (cases "snd th") (auto split: if_splits)
  qed
  with idle show ?thesis by blast
qed

theorem waitForDone_means_quiescent_witness:
  "\<exists>w :: nat pool_state. pool_reach 1 0 (w, [(WorkerIdle, NoCall)]) \<and> TaskPool_isDone (ps_pool w)
     \<and> (\<forall>th \<in> set [(WorkerIdle, NoCall) :: nat thread]. fst th = External \<or> fst th = WorkerIdle)"
proof -
  let ?w = "\<lparr>ps_pool = TaskPool_init 1, ps_posted = (\<lambda>_. []), ps_ran = (\<lambda>_. [])\<rparr> :: nat pool_state"
  have r: "pool_reach 1 0 (?w, [(WorkerIdle, NoCall)])" using pool_reach.start [of 1 0] by simp
  moreover have "TaskPool_isDone (ps_pool ?w)" by (simp add: TaskPool_isDone_def TaskPool_init_def)
  ultimately show ?thesis using waitForDone_means_quiescent [OF r] by blast
qed

end
