(* ===== verification/ThreadPools.thy ===== *)
theory ThreadPools
  imports EventLoop "HOL-Library.Product_Lexorder"
begin

text \<open>
  \<open>snf::ThreadPool\<close> and its placement policy (\<open>Core/src/SNFCore/ThreadPool.cpp\<close>,
  \<open>WorkerSelectionPolicy.cpp\<close>): worker threads that each run an event loop. A worker thread id is a
  number, the default id is 0; the loops are addresses, the null pointer of a worker that is not ready
  yet included. \<open>WorkerSelectionPolicyPtr\<close> is a selection function. Every definition is one locked
  region or one whole function.
\<close>

section \<open>Placement\<close>

record WorkerLoadSnapshot =
  ws_threadId :: nat
  ws_hasPendingWork :: bool
  ws_pendingDeleteCount :: u64
  ws_registeredNodesCount :: u64
  ws_activeTimerCount :: u64
  ws_lastIterationDuration :: u64
  ws_lastActivityAge :: u64

type_synonym score = "u64 \<times> u64 \<times> u64 \<times> u64 \<times> u64"

definition snapshot_score :: "WorkerLoadSnapshot \<Rightarrow> score" where
  "snapshot_score x = (ws_registeredNodesCount x, ws_pendingDeleteCount x, ws_activeTimerCount x,
     ws_lastIterationDuration x, (- 1) - ws_lastActivityAge x)"

text \<open>The loop of \<open>selectWorkerIndex\<close>: the size \<open>n\<close> stands for no best index yet.\<close>

fun select_from :: "nat \<Rightarrow> nat \<Rightarrow> nat \<Rightarrow> score \<Rightarrow> WorkerLoadSnapshot list \<Rightarrow> nat" where
  "select_from n index bestIndex bestScore [] = bestIndex"
| "select_from n index bestIndex bestScore (x # xs) =
     (if bestIndex = n \<or> snapshot_score x < bestScore
      then select_from n (Suc index) index (snapshot_score x) xs
      else select_from n (Suc index) bestIndex bestScore xs)"

definition selectWorkerIndex :: "WorkerLoadSnapshot list \<Rightarrow> nat" where
  "selectWorkerIndex xs =
     (if xs = [] then length xs else select_from (length xs) 0 (length xs) (0, 0, 0, 0, 0) xs)"


section \<open>The pool\<close>

record ThreadPool =
  th_workers :: "nat list"
  th_workerLoops :: "addr list"
  th_nextWorker :: u64
  th_queuedTasks :: u64
  th_activeTasks :: u64
  th_stopping :: bool
  th_policy :: "(WorkerLoadSnapshot list \<Rightarrow> nat) option"

text \<open>The constructor once every worker is ready: \<open>max 1 maxThreadCount\<close> workers and their loops.\<close>

definition ThreadPool_init :: "nat \<Rightarrow> (nat \<Rightarrow> nat \<times> addr) \<Rightarrow> ThreadPool" where
  "ThreadPool_init maxThreadCount worker =
     (let ws = map worker [0..<max 1 maxThreadCount]
      in \<lparr>th_workers = map fst ws, th_workerLoops = map snd ws, th_nextWorker = 0, th_queuedTasks = 0,
          th_activeTasks = 0, th_stopping = False, th_policy = Some selectWorkerIndex\<rparr>)"

text \<open>\<open>start\<close>: the loop the task is posted to, \<open>None\<close> for the result \<open>false\<close>.\<close>

definition ThreadPool_start :: "bool \<Rightarrow> ThreadPool \<Rightarrow> addr option \<times> ThreadPool" where
  "ThreadPool_start runnable p =
     (if \<not> runnable then (None, p)
      else if th_stopping p \<or> th_workerLoops p = [] then (None, p)
      else (Some (th_workerLoops p ! (unat (th_nextWorker p) mod length (th_workerLoops p))),
            p\<lparr>th_nextWorker := th_nextWorker p + 1, th_queuedTasks := th_queuedTasks p + 1\<rparr>))"

text \<open>The two locked regions of the posted task, around \<open>execute()\<close>.\<close>

definition ThreadPool_taskBegin :: "ThreadPool \<Rightarrow> ThreadPool" where
  "ThreadPool_taskBegin p = p\<lparr>th_queuedTasks := th_queuedTasks p - 1, th_activeTasks := th_activeTasks p + 1\<rparr>"

definition ThreadPool_taskEnd :: "ThreadPool \<Rightarrow> ThreadPool" where
  "ThreadPool_taskEnd p = p\<lparr>th_activeTasks := th_activeTasks p - 1\<rparr>"

definition ThreadPool_isDone :: "ThreadPool \<Rightarrow> bool" where
  "ThreadPool_isDone p \<longleftrightarrow> th_queuedTasks p = 0 \<and> th_activeTasks p = 0"

text \<open>\<open>shutdown\<close>: the loops it retires and stops, and the pool once the workers are joined.\<close>

definition ThreadPool_beginShutdown :: "ThreadPool \<Rightarrow> addr list \<times> ThreadPool" where
  "ThreadPool_beginShutdown p =
     (if th_stopping p then ([], p)
      else (filter (\<lambda>l. l \<noteq> nullptr) (th_workerLoops p), p\<lparr>th_stopping := True\<rparr>))"

definition ThreadPool_endShutdown :: "ThreadPool \<Rightarrow> ThreadPool" where
  "ThreadPool_endShutdown p = p\<lparr>th_workers := [], th_workerLoops := [], th_nextWorker := 0\<rparr>"

definition ThreadPool_setWorkerSelectionPolicy ::
  "(WorkerLoadSnapshot list \<Rightarrow> nat) option \<Rightarrow> ThreadPool \<Rightarrow> ThreadPool" where
  "ThreadPool_setWorkerSelectionPolicy f p =
     p\<lparr>th_policy := (case f of None \<Rightarrow> Some selectWorkerIndex | Some g \<Rightarrow> Some g)\<rparr>"

text \<open>What the pool reads of a loop: its queues, and the two durations of its activity clock.\<close>

definition snapshot_of :: "nat \<Rightarrow> ('t, 'c) EventLoop \<times> u64 \<times> u64 \<Rightarrow> WorkerLoadSnapshot" where
  "snapshot_of tid l =
     \<lparr>ws_threadId = tid, ws_hasPendingWork = EventLoop_hasPendingWork (fst l),
      ws_pendingDeleteCount = of_nat (EventLoop_pendingDeleteCount (fst l)),
      ws_registeredNodesCount = of_nat (EventLoop_registeredNodesCount (fst l)),
      ws_activeTimerCount = of_nat (EventLoop_activeTimerCount (fst l)),
      ws_lastIterationDuration = fst (snd l), ws_lastActivityAge = snd (snd l)\<rparr>"

definition worker_snapshots ::
  "(addr \<Rightarrow> ('t, 'c) EventLoop \<times> u64 \<times> u64) \<Rightarrow> ThreadPool \<Rightarrow> WorkerLoadSnapshot list" where
  "worker_snapshots loop p =
     map (\<lambda>(tid, l). snapshot_of tid (loop l))
       (filter (\<lambda>(tid, l). l \<noteq> nullptr) (zip (th_workers p) (th_workerLoops p)))"

definition ThreadPool_preferredWorkerThreadId ::
  "(addr \<Rightarrow> ('t, 'c) EventLoop \<times> u64 \<times> u64) \<Rightarrow> ThreadPool \<Rightarrow> nat" where
  "ThreadPool_preferredWorkerThreadId loop p =
     (if th_workerLoops p = [] \<or> length (th_workerLoops p) \<noteq> length (th_workers p) then 0
      else let snapshots = worker_snapshots loop p
           in if snapshots = [] then 0
              else let policy = (case th_policy p of None \<Rightarrow> selectWorkerIndex | Some f \<Rightarrow> f);
                       selected = policy snapshots
                   in if length snapshots \<le> selected then 0 else ws_threadId (snapshots ! selected))"


section \<open>The default policy takes the first of the least loaded workers\<close>

lemma select_from_best:
  assumes "length pre = index" "length pre + length xs = n" "best < length pre"
    and "bestScore = snapshot_score (pre ! best)"
    and "\<forall>j < length pre. bestScore \<le> snapshot_score (pre ! j)"
    and "\<forall>j < best. bestScore < snapshot_score (pre ! j)"
  shows "let i = select_from n index best bestScore xs; ys = pre @ xs
    in i < length ys \<and> (\<forall>j < length ys. snapshot_score (ys ! i) \<le> snapshot_score (ys ! j))
      \<and> (\<forall>j < i. snapshot_score (ys ! i) < snapshot_score (ys ! j))"
  using assms
proof (induction xs arbitrary: pre index best bestScore)
  case Nil
  then show ?case by simp
next
  case (Cons x xs)
  have ne: "best \<noteq> n" using Cons.prems by simp
  show ?case
  proof (cases "snapshot_score x < bestScore")
    case True
    have "\<forall>j < length pre. snapshot_score x < snapshot_score (pre ! j)"
      using True Cons.prems(5) by (meson order_less_le_trans)
    then show ?thesis using Cons.IH [of "pre @ [x]" "Suc index" index "snapshot_score x"] Cons.prems True ne
      by (auto simp: nth_append less_Suc_eq Let_def less_imp_le)
  next
    case False
    then have le: "bestScore \<le> snapshot_score x" by simp
    have "\<forall>j < length (pre @ [x]). bestScore \<le> snapshot_score ((pre @ [x]) ! j)"
      using le Cons.prems(5) by (simp add: nth_append)
    then show ?thesis using Cons.IH [of "pre @ [x]" "Suc index" best bestScore] Cons.prems False ne
      by (simp add: nth_append Let_def)
  qed
qed

lemma selectWorkerIndex_best:
  assumes "xs \<noteq> []"
  shows "selectWorkerIndex xs < length xs
    \<and> (\<forall>j < length xs. snapshot_score (xs ! selectWorkerIndex xs) \<le> snapshot_score (xs ! j))
    \<and> (\<forall>j < selectWorkerIndex xs. snapshot_score (xs ! selectWorkerIndex xs) < snapshot_score (xs ! j))"
proof -
  obtain x ys where xs: "xs = x # ys" using assms by (cases xs) auto
  have "selectWorkerIndex xs = select_from (length xs) 1 0 (snapshot_score x) ys"
    by (simp add: selectWorkerIndex_def xs)
  then show ?thesis using select_from_best [of "[x]" 1 ys "length xs" 0 "snapshot_score x"] xs
    by (simp add: Let_def)
qed


text \<open>Any number of \<open>start\<close> calls in a row.\<close>

fun starts :: "nat \<Rightarrow> ThreadPool \<Rightarrow> addr option list \<times> ThreadPool" where
  "starts 0 p = ([], p)"
| "starts (Suc k) p = (let (l, p1) = ThreadPool_start True p; (ls, p2) = starts k p1 in (l # ls, p2))"

lemma starts_round_robin:
  "\<not> th_stopping p \<Longrightarrow> th_workerLoops p \<noteq> [] \<Longrightarrow> unat (th_nextWorker p) + k < 2 ^ 64 \<Longrightarrow>
   fst (starts k p) = map (\<lambda>i. Some (th_workerLoops p ! ((unat (th_nextWorker p) + i) mod length (th_workerLoops p)))) [0..<k]"
proof (induction k arbitrary: p)
  case (Suc k)
  define p1 where "p1 = p\<lparr>th_nextWorker := th_nextWorker p + 1, th_queuedTasks := th_queuedTasks p + 1\<rparr>"
  have next1: "unat (th_nextWorker p1) = Suc (unat (th_nextWorker p))"
    using Suc.prems(3) by (simp add: p1_def unat_word_ariths)
  have "fst (starts k p1) = map (\<lambda>i. Some (th_workerLoops p1 ! ((unat (th_nextWorker p1) + i) mod length (th_workerLoops p1)))) [0..<k]"
    using Suc.prems next1 by (intro Suc.IH) (simp_all add: p1_def)
  moreover have "fst (starts (Suc k) p) =
      Some (th_workerLoops p ! (unat (th_nextWorker p) mod length (th_workerLoops p))) # fst (starts k p1)"
    using Suc.prems by (simp add: ThreadPool_start_def p1_def [symmetric] split: prod.splits)
  moreover have "th_workerLoops p1 = th_workerLoops p" by (simp add: p1_def)
  ultimately show ?case using next1 by (simp add: map_upt_Suc del: upt_Suc)
qed simp

lemma all_snapshots:
  "nullptr \<notin> set (th_workerLoops p) \<Longrightarrow> length (th_workerLoops p) = length (th_workers p) \<Longrightarrow>
   worker_snapshots loop p = map (\<lambda>(tid, l). snapshot_of tid (loop l)) (zip (th_workers p) (th_workerLoops p))"
proof -
  assume "nullptr \<notin> set (th_workerLoops p)"
  then have "\<forall>x \<in> set (zip (th_workers p) (th_workerLoops p)). case x of (tid, l) \<Rightarrow> l \<noteq> nullptr"
    by (metis (mono_tags, lifting) case_prodI2 set_zip_rightD)
  then show ?thesis unfolding worker_snapshots_def by (subst filter_True) simp_all
qed

lemma le_first_component: "(a, b) \<le> (c, d) \<Longrightarrow> a \<le> c" for a c :: u64 and b d :: "'a :: order"
  by (auto simp: less_imp_le)


section \<open>Guarantees\<close>

text \<open>
  The default policy returns the first worker whose score (registered nodes, pending deletes,
  active timers, duration of the last iteration, time since its last activity, longest first) is
  lexicographically least.
\<close>
theorem policy_picks_first_least_loaded:
  assumes "xs \<noteq> []"
  shows "selectWorkerIndex xs < length xs
    \<and> (\<forall>j < length xs. snapshot_score (xs ! selectWorkerIndex xs) \<le> snapshot_score (xs ! j))
    \<and> (\<forall>j < selectWorkerIndex xs. snapshot_score (xs ! selectWorkerIndex xs) < snapshot_score (xs ! j))"
  by (rule selectWorkerIndex_best [OF assms])

definition demo_snapshot :: "nat \<Rightarrow> u64 \<Rightarrow> WorkerLoadSnapshot" where
  "demo_snapshot tid n = \<lparr>ws_threadId = tid, ws_hasPendingWork = True, ws_pendingDeleteCount = 0,
     ws_registeredNodesCount = n, ws_activeTimerCount = 0, ws_lastIterationDuration = 0, ws_lastActivityAge = 0\<rparr>"

theorem policy_picks_first_least_loaded_witness:
  "selectWorkerIndex [demo_snapshot 1 4, demo_snapshot 2 3, demo_snapshot 3 3] = 1
   \<and> snapshot_score (demo_snapshot 2 3) < snapshot_score (demo_snapshot 1 4)"
proof -
  let ?xs = "[demo_snapshot 1 4, demo_snapshot 2 3, demo_snapshot 3 3]"
  have "selectWorkerIndex ?xs = 1"
    by (simp add: selectWorkerIndex_def demo_snapshot_def snapshot_score_def)
  then show ?thesis using policy_picks_first_least_loaded [of ?xs] by fastforce
qed

text \<open>
  With the default policy, a node is placed on a worker that hosts a least number of nodes of
  all workers: \<open>preferredWorkerThreadId\<close> returns the id of such a worker, never the default id.
\<close>
theorem preferred_worker_hosts_fewest_nodes:
  assumes "th_policy p = Some selectWorkerIndex" "th_workers p \<noteq> []"
    and "length (th_workerLoops p) = length (th_workers p)" "nullptr \<notin> set (th_workerLoops p)"
  shows "\<exists>i < length (th_workers p). ThreadPool_preferredWorkerThreadId loop p = th_workers p ! i
    \<and> (\<forall>j < length (th_workers p).
        (of_nat (EventLoop_registeredNodesCount (fst (loop (th_workerLoops p ! i)))) :: u64)
          \<le> of_nat (EventLoop_registeredNodesCount (fst (loop (th_workerLoops p ! j)))))"
proof -
  define xs where "xs = worker_snapshots loop p"
  define i where "i = selectWorkerIndex xs"
  have xs: "xs = map (\<lambda>(tid, l). snapshot_of tid (loop l)) (zip (th_workers p) (th_workerLoops p))"
    using all_snapshots assms(3,4) by (simp add: xs_def)
  then have len: "length xs = length (th_workers p)" using assms(3) by simp
  have best: "i < length xs" "\<forall>j < length xs. snapshot_score (xs ! i) \<le> snapshot_score (xs ! j)"
    using selectWorkerIndex_best [of xs] assms(2) len unfolding i_def by fastforce+
  have nth: "xs ! j = snapshot_of (th_workers p ! j) (loop (th_workerLoops p ! j))" if "j < length xs" for j
    using that assms(3) len by (simp add: xs)
  have "ThreadPool_preferredWorkerThreadId loop p = th_workers p ! i"
    using assms best(1) len nth [OF best(1)]
    by (auto simp: ThreadPool_preferredWorkerThreadId_def xs_def [symmetric] Let_def i_def [symmetric] snapshot_of_def)
  moreover have "ws_registeredNodesCount (xs ! i) \<le> ws_registeredNodesCount (xs ! j)" if "j < length xs" for j
    using best(2) that unfolding snapshot_score_def by (blast dest: le_first_component)
  then have "\<forall>j < length xs. (of_nat (EventLoop_registeredNodesCount (fst (loop (th_workerLoops p ! i)))) :: u64)
      \<le> of_nat (EventLoop_registeredNodesCount (fst (loop (th_workerLoops p ! j))))"
    using nth best(1) by (simp add: snapshot_of_def)
  ultimately show ?thesis using best(1) len by metis
qed

lemma upt_small: "[0..<2] = [0, 1]" "[0..<3] = [0, 1, 2]"
  by (simp_all add: numeral_2_eq_2 numeral_3_eq_3)

definition demo_loop :: "addr \<Rightarrow> (unit, unit) EventLoop \<times> u64 \<times> u64" where
  "demo_loop a = (if a = 5 then EventLoop_addNode 9 EventLoop_init else EventLoop_init, 0, 0)"

theorem preferred_worker_hosts_fewest_nodes_witness:
  "\<exists>i < 2. ThreadPool_preferredWorkerThreadId demo_loop (ThreadPool_init 2 (\<lambda>i. (i + 1, i + 5))) = [1, 2] ! i"
proof -
  let ?p = "ThreadPool_init 2 (\<lambda>i. (i + 1, i + 5))"
  have p: "th_policy ?p = Some selectWorkerIndex" "th_workers ?p = [1, 2]" "th_workerLoops ?p = [5, 6]"
    by (simp_all add: ThreadPool_init_def Let_def upt_small)
  then obtain i where "i < length (th_workers ?p)"
      "ThreadPool_preferredWorkerThreadId demo_loop ?p = th_workers ?p ! i"
    using preferred_worker_hosts_fewest_nodes [of ?p demo_loop] by auto
  with p show ?thesis by (intro exI [of _ i]) (simp only: list.size, simp)
qed

text \<open>
  Runnables are handed out round robin: of \<open>k\<close> consecutive \<open>start\<close> calls, the \<open>i\<close>-th goes to worker
  \<open>m_nextWorker + i\<close> modulo the number of workers, up to the wrap-around of the 64-bit counter.
\<close>
theorem start_round_robin:
  assumes "\<not> th_stopping p" "th_workerLoops p \<noteq> []" "unat (th_nextWorker p) + k < 2 ^ 64"
  shows "fst (starts k p) =
    map (\<lambda>i. Some (th_workerLoops p ! ((unat (th_nextWorker p) + i) mod length (th_workerLoops p)))) [0..<k]"
  by (rule starts_round_robin [OF assms])

theorem start_round_robin_witness:
  "fst (starts 3 (ThreadPool_init 2 (\<lambda>i. (i + 1, i + 5)))) = [Some 5, Some 6, Some 5]"
  using start_round_robin [of "ThreadPool_init 2 (\<lambda>i. (i + 1, i + 5))" 3]
  by (simp add: ThreadPool_init_def Let_def upt_small) (simp add: numeral_2_eq_2)

end
