(* ===== verification/IoServices.thy ===== *)
theory IoServices
  imports Executors
begin

text \<open>
  \<open>snf::detail::IoService\<close> (\<open>Core/src/SNFCore/IoService.h\<close>, \<open>IoService.cpp\<close>): descriptors of
  strand-owned nodes, watched one-shot by one thread. Every definition is one region under
  \<open>m_mutex\<close>. The poller is the kernel's side, a map from descriptors to the events they are armed for:
  \<open>EPOLLONESHOT\<close> disarms a descriptor when it is reported. \<open>canArm fd\<close> says whether \<open>epoll_ctl\<close>
  accepts the descriptor (\<open>arm\<close> swallows the exception otherwise). \<open>io_step\<close> interleaves the calls
  with the polling thread and with the tasks it posts: \<open>iy_ready\<close> are the events \<open>run\<close> has received
  and not yet looked up, \<open>iy_posted\<close> the tasks posted to strands that have not reached
  \<open>markHandled\<close>.
\<close>

section \<open>State and operations\<close>

record 'c Watch =
  wa_strand :: addr
  wa_events :: u32
  wa_callback :: 'c
  wa_queued :: bool
  wa_registration :: u64

record 'c IoService =
  is_watches :: "(int, 'c Watch) smap"
  is_armed :: "(int, u32) smap"
  is_thread :: bool
  is_nextRegistration :: u64
  is_stopped :: bool

definition IoService_init :: "'c IoService" where
  "IoService_init = \<lparr>is_watches = [], is_armed = [], is_thread = False, is_nextRegistration = 1, is_stopped = False\<rparr>"

definition IoService_arm :: "(int \<Rightarrow> bool) \<Rightarrow> int \<Rightarrow> u32 \<Rightarrow> 'c IoService \<Rightarrow> 'c IoService" where
  "IoService_arm canArm fd ev s = (if canArm fd then s\<lparr>is_armed := smap_put fd ev (is_armed s)\<rparr> else s)"

definition IoService_registerIO ::
  "(int \<Rightarrow> bool) \<Rightarrow> addr \<Rightarrow> int \<Rightarrow> u32 \<Rightarrow> 'c \<Rightarrow> 'c IoService \<Rightarrow> 'c IoService" where
  "IoService_registerIO canArm strand fd ev cb s =
     (if fd < 0 then s
      else if is_stopped s then s
      else (IoService_arm canArm fd ev
             (s\<lparr>is_watches := smap_put fd \<lparr>wa_strand = strand, wa_events = ev, wa_callback = cb, wa_queued = False,
                                            wa_registration = is_nextRegistration s\<rparr> (is_watches s),
                is_nextRegistration := is_nextRegistration s + 1\<rparr>))\<lparr>is_thread := True\<rparr>)"

definition IoService_modifyIO :: "(int \<Rightarrow> bool) \<Rightarrow> int \<Rightarrow> u32 \<Rightarrow> 'c IoService \<Rightarrow> 'c IoService" where
  "IoService_modifyIO canArm fd ev s =
     (case smap_get (is_watches s) fd of
        None \<Rightarrow> s
      | Some w \<Rightarrow>
          let s1 = s\<lparr>is_watches := smap_put fd (w\<lparr>wa_events := ev\<rparr>) (is_watches s)\<rparr>
          in if \<not> wa_queued w \<and> \<not> is_stopped s then IoService_arm canArm fd ev s1 else s1)"

definition IoService_unregisterIO :: "int \<Rightarrow> 'c IoService \<Rightarrow> 'c IoService" where
  "IoService_unregisterIO fd s =
     (case smap_get (is_watches s) fd of
        None \<Rightarrow> s
      | Some _ \<Rightarrow> s\<lparr>is_watches := smap_del fd (is_watches s), is_armed := smap_del fd (is_armed s)\<rparr>)"

definition IoService_hasIOWatch :: "int \<Rightarrow> 'c IoService \<Rightarrow> bool" where
  "IoService_hasIOWatch fd s \<longleftrightarrow> smap_get (is_watches s) fd \<noteq> None"

definition IoService_watchCount :: "'c IoService \<Rightarrow> nat" where
  "IoService_watchCount s = length (is_watches s)"

definition IoService_stop :: "'c IoService \<Rightarrow> 'c IoService" where
  "IoService_stop s = s\<lparr>is_stopped := True, is_thread := False\<rparr>"

definition IoService_markHandled :: "(int \<Rightarrow> bool) \<Rightarrow> int \<Rightarrow> u64 \<Rightarrow> 'c IoService \<Rightarrow> 'c IoService" where
  "IoService_markHandled canArm fd r s =
     (case smap_get (is_watches s) fd of
        None \<Rightarrow> s
      | Some w \<Rightarrow>
          if wa_registration w \<noteq> r then s
          else let s1 = s\<lparr>is_watches := smap_put fd (w\<lparr>wa_queued := False\<rparr>) (is_watches s)\<rparr>
               in if \<not> is_stopped s then IoService_arm canArm fd (wa_events w) s1 else s1)"

record 'c Ready =
  rd_strand :: addr
  rd_fd :: int
  rd_events :: u32
  rd_registration :: u64
  rd_callback :: 'c

text \<open>The locked region of \<open>run\<close>: the tasks to post for one batch of events.\<close>

fun look_up_ready :: "(int \<times> u32) list \<Rightarrow> 'c IoService \<Rightarrow> 'c Ready list \<times> 'c IoService" where
  "look_up_ready [] s = ([], s)"
| "look_up_ready ((fd, ev) # evs) s =
     (case smap_get (is_watches s) fd of
        None \<Rightarrow> look_up_ready evs s
      | Some w \<Rightarrow>
          if wa_queued w then look_up_ready evs s
          else let (rs, s') = look_up_ready evs (s\<lparr>is_watches := smap_put fd (w\<lparr>wa_queued := True\<rparr>) (is_watches s)\<rparr>)
               in (\<lparr>rd_strand = wa_strand w, rd_fd = fd, rd_events = ev, rd_registration = wa_registration w,
                    rd_callback = wa_callback w\<rparr> # rs, s'))"

definition IoService_run :: "(int \<times> u32) list \<Rightarrow> 'c IoService \<Rightarrow> 'c Ready list \<times> 'c IoService" where
  "IoService_run evs s = (if is_stopped s then ([], s) else look_up_ready evs s)"


section \<open>The polling thread and the posted tasks\<close>

record 'c io_system =
  iy_service :: "'c IoService"
  iy_ready :: "(int \<times> u32) list"
  iy_posted :: "'c Ready list"

datatype 'c io_call =
    RegisterIO addr int u32 'c
  | ModifyIO int u32
  | UnregisterIO int
  | StopIO

fun io_apply :: "(int \<Rightarrow> bool) \<Rightarrow> 'c io_call \<Rightarrow> 'c IoService \<Rightarrow> 'c IoService" where
  "io_apply canArm (RegisterIO strand fd ev cb) s = IoService_registerIO canArm strand fd ev cb s"
| "io_apply canArm (ModifyIO fd ev) s = IoService_modifyIO canArm fd ev s"
| "io_apply canArm (UnregisterIO fd) s = IoService_unregisterIO fd s"
| "io_apply canArm StopIO s = IoService_stop s"

inductive io_step :: "(int \<Rightarrow> bool) \<Rightarrow> 'c io_system \<Rightarrow> 'c io_system \<Rightarrow> bool" for canArm where
  call: "io_step canArm y (y\<lparr>iy_service := io_apply canArm c (iy_service y)\<rparr>)"
| wait: "smap_get (is_armed (iy_service y)) fd = Some armedFor \<Longrightarrow>
     io_step canArm y (y\<lparr>iy_service := (iy_service y)\<lparr>is_armed := smap_del fd (is_armed (iy_service y))\<rparr>,
                        iy_ready := iy_ready y @ [(fd, ev)]\<rparr>)"
| look_up: "IoService_run (iy_ready y) (iy_service y) = (rs, s) \<Longrightarrow>
     io_step canArm y (y\<lparr>iy_service := s, iy_ready := [], iy_posted := iy_posted y @ rs\<rparr>)"
| handled: "iy_posted y = xs @ r # ys \<Longrightarrow>
     io_step canArm y (y\<lparr>iy_service := IoService_markHandled canArm (rd_fd r) (rd_registration r) (iy_service y),
                        iy_posted := xs @ ys\<rparr>)"

inductive io_reach :: "(int \<Rightarrow> bool) \<Rightarrow> nat \<Rightarrow> 'c io_system \<Rightarrow> bool" for canArm where
  start: "io_reach canArm 0 \<lparr>iy_service = IoService_init, iy_ready = [], iy_posted = []\<rparr>"
| step: "io_reach canArm n y \<Longrightarrow> io_step canArm y y' \<Longrightarrow> io_reach canArm (Suc n) y'"


section \<open>Invariant\<close>

definition posted_key :: "'c Ready \<Rightarrow> int \<times> u64" where
  "posted_key r = (rd_fd r, rd_registration r)"

text \<open>Registrations are never reused, a watch is marked exactly while its one task is under way, and an
  unmarked watch of a running service is armed or just reported.\<close>

definition io_service_ok :: "nat \<Rightarrow> 'c IoService \<Rightarrow> (int \<times> u64) list \<Rightarrow> bool" where
  "io_service_ok n s posted \<longleftrightarrow> smap_ok (is_watches s) \<and> smap_ok (is_armed s)
     \<and> unat (is_nextRegistration s) \<le> Suc n \<and> distinct posted
     \<and> (\<forall>p \<in> set posted. unat (snd p) < unat (is_nextRegistration s))
     \<and> (\<forall>fd w. smap_get (is_watches s) fd = Some w \<longrightarrow>
          unat (wa_registration w) < unat (is_nextRegistration s)
          \<and> (wa_queued w \<longleftrightarrow> (fd, wa_registration w) \<in> set posted))"

definition io_armed_ok :: "(int \<Rightarrow> bool) \<Rightarrow> 'c IoService \<Rightarrow> (int \<times> u32) list \<Rightarrow> bool" where
  "io_armed_ok canArm s ready \<longleftrightarrow>
     (\<forall>fd w. smap_get (is_watches s) fd = Some w \<longrightarrow> canArm fd \<longrightarrow> \<not> is_stopped s \<longrightarrow> \<not> wa_queued w \<longrightarrow>
        smap_get (is_armed s) fd \<noteq> None \<or> fd \<in> fst ` set ready)"

lemma unat_next_registration:
  "unat (g :: u64) \<le> Suc n \<Longrightarrow> Suc (Suc n) < 2 ^ 64 \<Longrightarrow> unat (g + 1) = Suc (unat g)"
  by (subst unat_word_ariths(1)) simp

lemmas io_defs = IoService_registerIO_def IoService_modifyIO_def IoService_unregisterIO_def IoService_stop_def
  IoService_arm_def IoService_markHandled_def Let_def

lemma io_service_ok_apply:
  assumes "io_service_ok n s posted" "Suc (Suc n) < 2 ^ 64"
  shows "io_service_ok (Suc n) (io_apply canArm c s) posted"
proof (cases c)
  case (RegisterIO strand fd ev cb)
  have u: "unat (is_nextRegistration s + 1) = Suc (unat (is_nextRegistration s))"
    using assms by (intro unat_next_registration [of _ n]) (auto simp: io_service_ok_def)
  have "(fd, is_nextRegistration s) \<notin> set posted" using assms(1) by (auto simp: io_service_ok_def)
  then show ?thesis using assms(1) RegisterIO u
    by (auto simp: io_service_ok_def io_defs less_Suc_eq)
qed (use assms(1) in \<open>auto simp: io_service_ok_def io_defs split: option.splits\<close>)

lemma io_armed_ok_apply:
  "io_service_ok n s posted \<Longrightarrow> io_armed_ok canArm s ready \<Longrightarrow> io_armed_ok canArm (io_apply canArm c s) ready"
  by (cases c) (auto simp: io_armed_ok_def io_service_ok_def io_defs split: option.splits)


lemma look_up_ready_ok:
  "io_service_ok n s posted \<Longrightarrow> look_up_ready evs s = (rs, s') \<Longrightarrow> io_service_ok n s' (posted @ map posted_key rs)"
proof (induction evs s arbitrary: rs s' posted rule: look_up_ready.induct)
  case (2 fd ev evs s)
  show ?case
  proof (cases "smap_get (is_watches s) fd")
    case None
    then show ?thesis using 2 by simp
  next
    case (Some w)
    show ?thesis
    proof (cases "wa_queued w")
      case True
      then show ?thesis using 2 Some by simp
    next
      case False
      let ?s = "s\<lparr>is_watches := smap_put fd (w\<lparr>wa_queued := True\<rparr>) (is_watches s)\<rparr>"
      obtain rs' s2 where rec: "look_up_ready evs ?s = (rs', s2)" by fastforce
      have "(fd, wa_registration w) \<notin> set posted" "unat (wa_registration w) < unat (is_nextRegistration s)"
        using "2.prems"(1) Some False by (auto simp: io_service_ok_def)
      then have "io_service_ok n ?s (posted @ [(fd, wa_registration w)])"
        using "2.prems"(1) Some by (auto simp: io_service_ok_def)
      from "2.IH"(3) [OF Some False this rec] show ?thesis
        using "2.prems"(2) Some False rec by (auto simp: posted_key_def)
    qed
  qed
qed simp

lemma look_up_ready_armed:
  "io_armed_ok canArm s (evs @ ready) \<Longrightarrow> look_up_ready evs s = (rs, s') \<Longrightarrow> io_armed_ok canArm s' ready"
proof (induction evs s arbitrary: rs s' rule: look_up_ready.induct)
  case (2 fd ev evs s)
  show ?case
  proof (cases "smap_get (is_watches s) fd")
    case None
    have "io_armed_ok canArm s (evs @ ready)"
      using "2.prems"(1) None by (fastforce simp: io_armed_ok_def)
    then show ?thesis using 2 None by simp
  next
    case (Some w)
    show ?thesis
    proof (cases "wa_queued w")
      case True
      then have "io_armed_ok canArm s (evs @ ready)"
        using "2.prems"(1) Some by (fastforce simp: io_armed_ok_def)
      then show ?thesis using 2 Some True by simp
    next
      case False
      let ?s = "s\<lparr>is_watches := smap_put fd (w\<lparr>wa_queued := True\<rparr>) (is_watches s)\<rparr>"
      obtain rs' s2 where rec: "look_up_ready evs ?s = (rs', s2)" by fastforce
      have "io_armed_ok canArm ?s (evs @ ready)"
        using "2.prems"(1) by (auto simp: io_armed_ok_def)
      from "2.IH"(3) [OF Some False this rec] show ?thesis
        using "2.prems"(2) Some False rec by auto
    qed
  qed
qed simp

lemma markHandled_ok:
  assumes "io_service_ok n s (xs @ (fd, r) # ys)"
  shows "io_service_ok n (IoService_markHandled canArm fd r s) (xs @ ys)"
  using assms by (auto simp: io_service_ok_def io_defs split: option.splits)

lemma markHandled_armed:
  "io_service_ok n s posted \<Longrightarrow> io_armed_ok canArm s ready \<Longrightarrow>
   io_armed_ok canArm (IoService_markHandled canArm fd r s) ready"
  by (auto simp: io_armed_ok_def io_service_ok_def io_defs split: option.splits)

definition io_ok :: "(int \<Rightarrow> bool) \<Rightarrow> nat \<Rightarrow> 'c io_system \<Rightarrow> bool" where
  "io_ok canArm n y \<longleftrightarrow> io_service_ok n (iy_service y) (map posted_key (iy_posted y))
     \<and> io_armed_ok canArm (iy_service y) (iy_ready y)"

lemma io_service_ok_Suc: "io_service_ok n s posted \<Longrightarrow> io_service_ok (Suc n) s posted"
  by (auto simp: io_service_ok_def)

lemma io_ok_step:
  assumes ok: "io_ok canArm n y" and n: "Suc (Suc n) < 2 ^ 64" and step: "io_step canArm y y'"
  shows "io_ok canArm (Suc n) y'"
  using step
proof cases
  case (call c)
  then show ?thesis using ok io_service_ok_apply [OF _ n] io_armed_ok_apply by (fastforce simp: io_ok_def)
next
  case (wait fd armedFor ev)
  have "io_service_ok (Suc n) (iy_service y) (map posted_key (iy_posted y))"
    using ok io_service_ok_Suc by (auto simp: io_ok_def)
  then show ?thesis using wait ok by (auto simp: io_ok_def io_service_ok_def io_armed_ok_def)
next
  case (look_up rs s)
  show ?thesis
  proof (cases "is_stopped (iy_service y)")
    case True
    then show ?thesis using look_up ok io_service_ok_Suc by (auto simp: io_ok_def IoService_run_def io_armed_ok_def)
  next
    case False
    then have "look_up_ready (iy_ready y) (iy_service y) = (rs, s)" using look_up by (simp add: IoService_run_def)
    then show ?thesis
      using look_up ok look_up_ready_ok io_service_ok_Suc look_up_ready_armed [of canArm _ "iy_ready y" "[]"]
      by (fastforce simp: io_ok_def)
  qed
next
  case (handled xs r ys)
  have "io_service_ok (Suc n) (iy_service y) (map posted_key xs @ (rd_fd r, rd_registration r) # map posted_key ys)"
    using ok handled io_service_ok_Suc by (auto simp: io_ok_def posted_key_def)
  from markHandled_ok [OF this] markHandled_armed [OF this] ok show ?thesis
    by (simp add: handled(1) io_ok_def)
qed

lemma io_reach_ok: "io_reach canArm n y \<Longrightarrow> Suc n < 2 ^ 64 \<Longrightarrow> io_ok canArm n y"
proof (induction rule: io_reach.induct)
  case start
  then show ?case by (simp add: io_ok_def io_service_ok_def io_armed_ok_def IoService_init_def)
next
  case (step n y y')
  then show ?case using io_ok_step by simp
qed


section \<open>Guarantees\<close>

text \<open>A run: a descriptor is registered; the poller reports it; its callback is posted.\<close>

definition demo_io :: "unit io_system" where
  "demo_io = \<lparr>iy_service = IoService_registerIO (\<lambda>_. True) 9 3 1 () IoService_init, iy_ready = [], iy_posted = []\<rparr>"

lemmas demo_io_eval = demo_io_def IoService_registerIO_def IoService_arm_def IoService_init_def

lemma demo_io_reach: "io_reach (\<lambda>_. True) 1 demo_io"
  using io_reach.step [OF io_reach.start io_step.call, of "\<lambda>_. True" "RegisterIO 9 3 1 ()"] by (simp add: demo_io_def)

lemma demo_io_posted:
  "\<exists>y :: unit io_system. io_reach (\<lambda>_. True) 3 y \<and> map posted_key (iy_posted y) = [(3, 1)]
     \<and> (\<exists>w. smap_get (is_watches (iy_service y)) 3 = Some w \<and> wa_registration w = 1)"
proof -
  have "smap_get (is_armed (iy_service demo_io)) 3 = Some 1" by (simp add: demo_io_eval)
  note r1 = io_reach.step [OF demo_io_reach io_step.wait [OF this, of "\<lambda>_. True" 1]]
  obtain rs s where run: "IoService_run [(3, 1)] ((iy_service demo_io)\<lparr>is_armed := []\<rparr>) = (rs, s)"
    and rs: "map posted_key rs = [(3, 1)]" "\<exists>w. smap_get (is_watches s) 3 = Some w \<and> wa_registration w = 1"
    by (simp add: demo_io_eval IoService_run_def posted_key_def)
  have "smap_del 3 (is_armed (iy_service demo_io)) = []" "iy_ready demo_io = []" "iy_posted demo_io = []"
    by (simp_all add: demo_io_eval)
  with io_reach.step [OF r1 io_step.look_up, of rs s] run rs show ?thesis
    by (intro exI [of _ "demo_io\<lparr>iy_service := s, iy_ready := [], iy_posted := rs\<rparr>"])
       (simp add: numeral_3_eq_3)
qed

text \<open>
  C7. Callbacks of a descriptor never pile up: over any interleaving of registrations, changes,
  unregistrations, reports of the poller and finished callbacks, every registration has at most one
  callback posted and not finished, and it has one exactly while its watch is marked as queued. A
  late callback of an earlier registration of a reused descriptor does not disturb the new one.
\<close>
theorem one_callback_per_registration:
  assumes "io_reach canArm n y" "Suc n < 2 ^ 64"
  shows "distinct (map posted_key (iy_posted y))
    \<and> (\<forall>fd w. smap_get (is_watches (iy_service y)) fd = Some w \<longrightarrow>
         (wa_queued w \<longleftrightarrow> (fd, wa_registration w) \<in> posted_key ` set (iy_posted y)))"
  using io_reach_ok [OF assms] by (simp add: io_ok_def io_service_ok_def)

theorem one_callback_per_registration_witness:
  "\<exists>y :: unit io_system. map posted_key (iy_posted y) = [(3, 1)]
     \<and> (\<exists>w. smap_get (is_watches (iy_service y)) 3 = Some w \<and> wa_queued w)"
proof -
  obtain y :: "unit io_system" and w where y: "io_reach (\<lambda>_. True) 3 y" "map posted_key (iy_posted y) = [(3, 1)]"
    "smap_get (is_watches (iy_service y)) 3 = Some w" "wa_registration w = 1"
    using demo_io_posted by metis
  have "wa_queued w \<longleftrightarrow> (3, wa_registration w) \<in> posted_key ` set (iy_posted y)"
    using one_callback_per_registration [OF y(1)] y(3) by simp
  moreover have "posted_key ` set (iy_posted y) = {(3, 1)}" using y(2) by (metis list.set_map list.simps(15) empty_set)
  ultimately show ?thesis using y by (intro exI [of _ y] conjI exI [of _ w]) simp_all
qed

text \<open>
  No readiness is lost: a watched descriptor of a running service that has no callback under way
  is armed in the poller, or has been reported and is about to be looked up.
\<close>
theorem unqueued_watch_is_armed:
  assumes "io_reach canArm n y" "Suc n < 2 ^ 64"
    and "smap_get (is_watches (iy_service y)) fd = Some w" "canArm fd" "\<not> is_stopped (iy_service y)" "\<not> wa_queued w"
  shows "(\<exists>ev. smap_get (is_armed (iy_service y)) fd = Some ev) \<or> fd \<in> fst ` set (iy_ready y)"
  using io_reach_ok [OF assms(1,2)] assms(3-6) by (simp add: io_ok_def io_armed_ok_def)


theorem unqueued_watch_is_armed_witness:
  "(\<exists>ev. smap_get (is_armed (iy_service demo_io)) 3 = Some ev) \<or> (3 :: int) \<in> fst ` set (iy_ready demo_io)"
proof (rule unqueued_watch_is_armed [OF demo_io_reach])
  let ?w = "\<lparr>wa_strand = 9, wa_events = 1, wa_callback = (), wa_queued = False, wa_registration = 1\<rparr>"
  show "smap_get (is_watches (iy_service demo_io)) 3 = Some ?w" by (simp add: demo_io_eval)
  show "\<not> wa_queued ?w" by simp
qed (simp_all add: demo_io_eval)

end
