(* ===== verification/HttpMessages.thy ===== *)
theory HttpMessages
  imports StdMap
begin

text \<open>
  The HTTP messages of \<open>HttpServer/src/SNFHttpServer\<close>: \<open>HttpRequest\<close>, the incremental
  \<open>HttpRequestParser\<close> and \<open>HttpResponse\<close>. Bytes are characters, \<open>std::map\<close> is the ordered
  association list of \<open>StdMap\<close>; a \<open>size_t\<close> is a \<^typ>\<open>nat\<close>, except that the one sum of the
  parser that can exceed \<open>2^64\<close>, \<open>chunkSize + 2\<close>, wraps around as it does in the code.
\<close>

section \<open>Requests\<close>

record HttpRequest =
  hr_method :: string
  hr_path :: string
  hr_queryParams :: "(string, string) smap"
  hr_headers :: "(string, string) smap"
  hr_body :: string

definition HttpRequest_init :: HttpRequest where
  "HttpRequest_init = \<lparr>hr_method = [], hr_path = [], hr_queryParams = [], hr_headers = [], hr_body = []\<rparr>"

definition iequal :: "string \<Rightarrow> string \<Rightarrow> bool" where
  "iequal a b \<longleftrightarrow> map to_lower a = map to_lower b"

fun first_header :: "string \<Rightarrow> (string \<times> string) list \<Rightarrow> string" where
  "first_header key [] = []"
| "first_header key ((k, v) # kvs) = (if iequal k key then v else first_header key kvs)"

definition HttpRequest_getHeader :: "string \<Rightarrow> HttpRequest \<Rightarrow> string" where
  "HttpRequest_getHeader key r = first_header key (hr_headers r)"

definition HttpRequest_getQueryParam :: "string \<Rightarrow> HttpRequest \<Rightarrow> string" where
  "HttpRequest_getQueryParam key r = (case smap_get (hr_queryParams r) key of None \<Rightarrow> [] | Some v \<Rightarrow> v)"

definition HttpRequest_contentType :: "HttpRequest \<Rightarrow> string" where
  "HttpRequest_contentType r =
     (let ct = HttpRequest_getHeader ''Content-Type'' r in if ct = [] then ''text/plain'' else ct)"

definition HttpRequest_contentLength :: "HttpRequest \<Rightarrow> nat" where
  "HttpRequest_contentLength r =
     (let cl = HttpRequest_getHeader ''Content-Length'' r
      in if cl = [] then 0 else case stoul 10 cl of Inl _ \<Rightarrow> 0 | Inr n \<Rightarrow> n)"


section \<open>The parser\<close>

datatype State = RequestLine | Headers | Body | Complete | Error

record HttpRequestParser =
  hp_state :: State
  hp_buffer :: string
  hp_errorMessage :: string
  hp_request :: HttpRequest
  hp_bodyBytesRead :: nat
  hp_bodyBytesExpected :: nat
  hp_isChunked :: bool

definition HttpRequestParser_init :: HttpRequestParser where
  "HttpRequestParser_init = \<lparr>hp_state = RequestLine, hp_buffer = [], hp_errorMessage = [],
     hp_request = HttpRequest_init, hp_bodyBytesRead = 0, hp_bodyBytesExpected = 0, hp_isChunked = False\<rparr>"

definition parser_fail :: "string \<Rightarrow> HttpRequestParser \<Rightarrow> HttpRequestParser" where
  "parser_fail msg p = p\<lparr>hp_state := Error, hp_errorMessage := msg\<rparr>"

text \<open>What all three parsing functions start with: the next line, taken out of the buffer.\<close>

definition take_line :: "HttpRequestParser \<Rightarrow> (string \<times> HttpRequestParser) option" where
  "take_line p =
     (case find_sub crlf (hp_buffer p) of
        None \<Rightarrow> None
      | Some pos \<Rightarrow> Some (take pos (hp_buffer p), p\<lparr>hp_buffer := drop (pos + 2) (hp_buffer p)\<rparr>))"

lemma take_line_shorter: "take_line p = Some (line, p1) \<Longrightarrow> length (hp_buffer p1) < length (hp_buffer p)"
  by (auto simp: take_line_def split: option.splits dest!: find_sub_Some)

text \<open>\<open>METHOD PATH PROTOCOL\<close> and the query string.\<close>

definition read_three :: "string \<Rightarrow> (string \<times> string \<times> string) option" where
  "read_three line =
     (case get_word line of
        None \<Rightarrow> None
      | Some (a, r1) \<Rightarrow>
          (case get_word r1 of
             None \<Rightarrow> None
           | Some (b, r2) \<Rightarrow> (case get_word r2 of None \<Rightarrow> None | Some (c, _) \<Rightarrow> Some (a, b, c))))"

definition parse_param :: "string \<Rightarrow> (string, string) smap \<Rightarrow> (string, string) smap" where
  "parse_param param m =
     (case find_char (CHR ''='') param of
        Some i \<Rightarrow> smap_put (take i param) (drop (Suc i) param) m
      | None \<Rightarrow> smap_put param [] m)"

definition set_target :: "string \<Rightarrow> HttpRequest \<Rightarrow> HttpRequest" where
  "set_target path r =
     (case find_char (CHR ''?'') path of
        Some i \<Rightarrow> r\<lparr>hr_path := take i path,
                    hr_queryParams := fold parse_param (getlines (CHR ''&'') (drop (Suc i) path)) (hr_queryParams r)\<rparr>
      | None \<Rightarrow> r\<lparr>hr_path := path\<rparr>)"

definition parseRequestLine :: "HttpRequestParser \<Rightarrow> HttpRequestParser" where
  "parseRequestLine p =
     (case take_line p of
        None \<Rightarrow> p
      | Some (line, p1) \<Rightarrow>
          (case read_three line of
             None \<Rightarrow> parser_fail ''Invalid request line format'' p1
           | Some (method, path, protocol) \<Rightarrow>
               let p2 = p1\<lparr>hp_request := set_target path ((hp_request p1)\<lparr>hr_method := map to_upper method\<rparr>)\<rparr>
               in if protocol \<noteq> ''HTTP/1.1'' \<and> protocol \<noteq> ''HTTP/1.0''
                  then parser_fail ''Unsupported HTTP protocol version'' p2
                  else p2\<lparr>hp_state := Headers\<rparr>))"

definition parseContentLength :: "string \<Rightarrow> nat" where
  "parseContentLength s = (case stoul 10 s of Inl _ \<Rightarrow> 0 | Inr n \<Rightarrow> n)"

definition is_blank :: "char \<Rightarrow> bool" where
  "is_blank c \<longleftrightarrow> c = CHR '' '' \<or> c = tab"

text \<open>The empty line: what body to expect.\<close>

definition end_of_headers :: "HttpRequestParser \<Rightarrow> HttpRequestParser" where
  "end_of_headers p =
     (let te = HttpRequest_getHeader ''Transfer-Encoding'' (hp_request p);
          cl = HttpRequest_getHeader ''Content-Length'' (hp_request p);
          p1 = p\<lparr>hp_state := Body\<rparr>;
          p2 = (if te \<noteq> []
                then if find_sub ''chunked'' te \<noteq> None
                     then p1\<lparr>hp_isChunked := True, hp_bodyBytesExpected := 0\<rparr> else p1
                else if cl \<noteq> [] then p1\<lparr>hp_bodyBytesExpected := parseContentLength cl\<rparr> else p1)
      in if hp_bodyBytesExpected p2 = 0 \<and> \<not> hp_isChunked p2 then p2\<lparr>hp_state := Complete\<rparr> else p2)"

definition add_header :: "nat \<Rightarrow> string \<Rightarrow> HttpRequestParser \<Rightarrow> HttpRequestParser" where
  "add_header colonPos line p =
     p\<lparr>hp_request := (hp_request p)\<lparr>hr_headers :=
         smap_put (take colonPos line) (strip is_blank (drop (Suc colonPos) line)) (hr_headers (hp_request p))\<rparr>\<rparr>"

function parseHeaders :: "HttpRequestParser \<Rightarrow> HttpRequestParser" where
  "parseHeaders p =
     (case take_line p of
        None \<Rightarrow> p
      | Some (line, p1) \<Rightarrow>
          if line = [] then end_of_headers p1
          else case find_char (CHR '':'') line of
                 None \<Rightarrow> parser_fail ''Invalid header format (missing colon)'' p1
               | Some colonPos \<Rightarrow> parseHeaders (add_header colonPos line p1))"
  by pat_completeness auto
termination
  by (relation "measure (\<lambda>p. length (hp_buffer p))") (auto simp: add_header_def dest!: take_line_shorter)

text \<open>The chunked body. \<open>chunkSize + 2\<close> is a sum of \<open>unsigned long\<close>.\<close>

definition add_chunk :: "nat \<Rightarrow> HttpRequestParser \<Rightarrow> HttpRequestParser" where
  "add_chunk chunkSize p =
     p\<lparr>hp_request := (hp_request p)\<lparr>hr_body := hr_body (hp_request p) @ take chunkSize (hp_buffer p)\<rparr>,
       hp_buffer := drop ((chunkSize + 2) mod 2 ^ 64) (hp_buffer p)\<rparr>"

function parseChunks :: "HttpRequestParser \<Rightarrow> HttpRequestParser" where
  "parseChunks p =
     (case take_line p of
        None \<Rightarrow> p
      | Some (line, p1) \<Rightarrow>
          (case stoul 16 line of
             Inl _ \<Rightarrow> parser_fail ''Invalid chunk size'' p1
           | Inr chunkSize \<Rightarrow>
               if chunkSize = 0 then p1\<lparr>hp_state := Complete\<rparr>
               else if length (hp_buffer p1) < (chunkSize + 2) mod 2 ^ 64 then p1
               else parseChunks (add_chunk chunkSize p1)))"
  by pat_completeness auto
termination
  by (relation "measure (\<lambda>p. length (hp_buffer p))") (auto simp: add_chunk_def dest!: take_line_shorter)

declare parseHeaders.simps [simp del] parseChunks.simps [simp del]

definition parseBody :: "HttpRequestParser \<Rightarrow> HttpRequestParser" where
  "parseBody p =
     (if \<not> hp_isChunked p
      then if hp_bodyBytesRead p < hp_bodyBytesExpected p
           then let needed = hp_bodyBytesExpected p - hp_bodyBytesRead p; available = length (hp_buffer p)
                in if needed \<le> available
                   then p\<lparr>hp_request := (hp_request p)\<lparr>hr_body := hr_body (hp_request p) @ take needed (hp_buffer p)\<rparr>,
                          hp_buffer := drop needed (hp_buffer p),
                          hp_bodyBytesRead := hp_bodyBytesExpected p, hp_state := Complete\<rparr>
                   else p\<lparr>hp_request := (hp_request p)\<lparr>hr_body := hr_body (hp_request p) @ hp_buffer p\<rparr>,
                          hp_bodyBytesRead := hp_bodyBytesRead p + available, hp_buffer := []\<rparr>
           else p
      else parseChunks p)"

definition HttpRequestParser_hasError :: "HttpRequestParser \<Rightarrow> bool" where
  "HttpRequestParser_hasError p \<longleftrightarrow> hp_state p = Error"

definition HttpRequestParser_isComplete :: "HttpRequestParser \<Rightarrow> bool" where
  "HttpRequestParser_isComplete p \<longleftrightarrow> hp_state p = Complete"

definition HttpRequestParser_feed :: "string \<Rightarrow> HttpRequestParser \<Rightarrow> HttpRequestParser" where
  "HttpRequestParser_feed data p =
     (if HttpRequestParser_hasError p then p
      else let p0 = p\<lparr>hp_buffer := hp_buffer p @ data\<rparr>;
               p1 = (if hp_state p0 = RequestLine then parseRequestLine p0 else p0);
               p2 = (if hp_state p1 = Headers \<and> \<not> HttpRequestParser_hasError p1 then parseHeaders p1 else p1)
           in if hp_state p2 = Body \<and> \<not> HttpRequestParser_hasError p2 then parseBody p2 else p2)"

definition HttpRequestParser_reset :: "HttpRequestParser \<Rightarrow> HttpRequestParser" where
  "HttpRequestParser_reset p = HttpRequestParser_init"

definition HttpRequestParser_parse :: "HttpRequestParser \<Rightarrow> HttpRequest \<times> HttpRequestParser" where
  "HttpRequestParser_parse p =
     (if \<not> HttpRequestParser_isComplete p then (HttpRequest_init, p)
      else (hp_request p, HttpRequestParser_reset p))"


section \<open>Input in pieces\<close>

definition app :: "string \<Rightarrow> HttpRequestParser \<Rightarrow> HttpRequestParser" where
  "app b p = p\<lparr>hp_buffer := hp_buffer p @ b\<rparr>"

lemma app_simps [simp]:
  "hp_buffer (app b p) = hp_buffer p @ b" "hp_state (app b p) = hp_state p"
  "hp_request (app b p) = hp_request p" "hp_isChunked (app b p) = hp_isChunked p"
  "hp_bodyBytesRead (app b p) = hp_bodyBytesRead p" "hp_bodyBytesExpected (app b p) = hp_bodyBytesExpected p"
  "app [] p = p" "app c (app b p) = app (b @ c) p"
  by (simp_all add: app_def)

lemma app_upd [simp]:
  "(app b p)\<lparr>hp_buffer := x @ b\<rparr> = app b (p\<lparr>hp_buffer := x\<rparr>)"
  "(app b p)\<lparr>hp_state := st\<rparr> = app b (p\<lparr>hp_state := st\<rparr>)"
  "(app b p)\<lparr>hp_request := r\<rparr> = app b (p\<lparr>hp_request := r\<rparr>)"
  "parser_fail msg (app b p) = app b (parser_fail msg p)"
  by (simp_all add: app_def parser_fail_def)

text \<open>The line the parser looks at does not change when more input arrives.\<close>

lemma take_line_app: "take_line p = Some (line, p1) \<Longrightarrow> take_line (app b p) = Some (line, app b p1)"
proof -
  assume t: "take_line p = Some (line, p1)"
  then obtain pos where pos: "find_sub crlf (hp_buffer p) = Some pos" "line = take pos (hp_buffer p)"
    "p1 = p\<lparr>hp_buffer := drop (pos + 2) (hp_buffer p)\<rparr>" by (auto simp: take_line_def split: option.splits)
  moreover have "pos + 2 \<le> length (hp_buffer p)" using find_sub_Some [OF pos(1)] by simp
  ultimately show ?thesis using find_sub_append [OF pos(1), of b] by (simp add: take_line_def app_def)
qed

lemma take_line_frame:
  "take_line p = Some (line, p1) \<Longrightarrow> hp_state p1 = hp_state p \<and> hp_isChunked p1 = hp_isChunked p
     \<and> hp_request p1 = hp_request p \<and> hp_bodyBytesRead p1 = hp_bodyBytesRead p"
  by (auto simp: take_line_def split: option.splits)

lemma parseRequestLine_app:
  "take_line p = Some (line, p1) \<Longrightarrow> parseRequestLine (app b p) = app b (parseRequestLine p)"
  using take_line_app [of p line p1 b]
  by (simp add: parseRequestLine_def Let_def split: option.splits prod.splits)

lemma state_parseRequestLine:
  "take_line p = Some (line, p1) \<Longrightarrow> hp_state (parseRequestLine p) \<in> {Headers, Error}
     \<and> hp_isChunked (parseRequestLine p) = hp_isChunked p"
  using take_line_frame [of p line p1]
  by (auto simp: parseRequestLine_def Let_def parser_fail_def split: option.splits)

lemma end_of_headers_app: "end_of_headers (app b p) = app b (end_of_headers p)"
  by (simp add: end_of_headers_def app_def Let_def)

lemma state_end_of_headers: "hp_state (end_of_headers p) \<in> {Body, Complete}"
  by (auto simp: end_of_headers_def Let_def)

lemma add_header_simps [simp]:
  "add_header c l (app b p) = app b (add_header c l p)" "hp_state (add_header c l p) = hp_state p"
  "hp_isChunked (add_header c l p) = hp_isChunked p"
  by (simp_all add: add_header_def app_def)

lemma parseHeaders_None: "take_line p = None \<Longrightarrow> parseHeaders p = p"
  by (simp add: parseHeaders.simps [of p])

lemma parseHeaders_Some:
  "take_line p = Some (line, p1) \<Longrightarrow> parseHeaders p =
     (if line = [] then end_of_headers p1
      else case find_char (CHR '':'') line of
             None \<Rightarrow> parser_fail ''Invalid header format (missing colon)'' p1
           | Some c \<Rightarrow> parseHeaders (add_header c line p1))"
  by (simp add: parseHeaders.simps [of p])

lemma parseHeaders_app:
  "hp_state p = Headers \<Longrightarrow>
   parseHeaders (app b p) =
     (if hp_state (parseHeaders p) = Headers then parseHeaders (app b (parseHeaders p)) else app b (parseHeaders p))"
proof (induction p rule: parseHeaders.induct)
  case (1 p)
  show ?case
  proof (cases "take_line p")
    case None
    then show ?thesis using "1.prems" by (simp add: parseHeaders_None)
  next
    case (Some lp)
    obtain line p1 where lp: "lp = (line, p1)" by (cases lp)
    note t = Some [unfolded lp]
    note unf = parseHeaders_Some [OF t] parseHeaders_Some [OF take_line_app [OF t, of b]]
    show ?thesis
    proof (cases "line = []")
      case True
      then show ?thesis using state_end_of_headers [of p1] by (auto simp: unf end_of_headers_app)
    next
      case False
      show ?thesis
      proof (cases "find_char (CHR '':'') line")
        case None
        then show ?thesis using False by (simp add: unf) (simp add: parser_fail_def)
      next
        case (Some c)
        have "hp_state p1 = Headers" using "1.prems" take_line_frame [OF t] by simp
        then show ?thesis using "1.IH" [OF t refl False Some] False Some by (simp add: unf)
      qed
    qed
  qed
qed

lemma parseBody_app:
  assumes "\<not> hp_isChunked p" "hp_state p = Body"
  shows "parseBody (app b p) =
    (if hp_state (parseBody p) = Body then parseBody (app b (parseBody p)) else app b (parseBody p))"
proof (cases "hp_bodyBytesRead p < hp_bodyBytesExpected p")
  case True
  show ?thesis
  proof (cases "hp_bodyBytesExpected p - hp_bodyBytesRead p \<le> length (hp_buffer p)")
    case False
    with True assms show ?thesis by (auto simp: parseBody_def Let_def app_def)
  qed (use True assms in \<open>simp add: parseBody_def Let_def app_def\<close>)
qed (use assms in \<open>simp add: parseBody_def\<close>)


text \<open>\<open>feed\<close> is to append and to advance through the phases.\<close>

definition advance :: "HttpRequestParser \<Rightarrow> HttpRequestParser" where
  "advance p =
     (let p1 = (if hp_state p = RequestLine then parseRequestLine p else p);
          p2 = (if hp_state p1 = Headers then parseHeaders p1 else p1)
      in if hp_state p2 = Body then parseBody p2 else p2)"

lemma feed_advance: "HttpRequestParser_feed b p = (if hp_state p = Error then p else advance (app b p))"
  by (auto simp: HttpRequestParser_feed_def HttpRequestParser_hasError_def advance_def Let_def app_def)

lemma advance_RequestLine:
  "hp_state p = RequestLine \<Longrightarrow> advance p = (if take_line p = None then p else advance (parseRequestLine p))"
proof (cases "take_line p")
  case None
  moreover assume "hp_state p = RequestLine"
  ultimately show ?thesis by (simp add: advance_def parseRequestLine_def)
next
  case (Some lp)
  moreover assume "hp_state p = RequestLine"
  ultimately show ?thesis using state_parseRequestLine [of p "fst lp" "snd lp"] by (auto simp: advance_def Let_def)
qed

lemma advance_Headers:
  "hp_state p = Headers \<Longrightarrow>
   advance p = (if hp_state (parseHeaders p) = Body then parseBody (parseHeaders p) else parseHeaders p)"
  by (simp add: advance_def)

lemma advance_Body: "hp_state p = Body \<Longrightarrow> advance p = parseBody p"
  by (simp add: advance_def)

lemma advance_end: "hp_state p \<in> {Complete, Error} \<Longrightarrow> advance p = p"
  by (auto simp: advance_def)

text \<open>The flag for chunked bodies is never taken back.\<close>

lemma isChunked_parseChunks [simp]: "hp_isChunked (parseChunks p) = hp_isChunked p"
proof (induction p rule: parseChunks.induct)
  case (1 p)
  show ?case
  proof (cases "take_line p")
    case (Some lp)
    obtain line p1 where t: "take_line p = Some (line, p1)" using Some by (cases lp) simp
    show ?thesis
    proof (cases "stoul 16 line")
      case (Inr n)
      then show ?thesis using t take_line_frame [OF t] "1.IH" [OF t refl Inr]
        by (subst parseChunks.simps) (auto simp: add_chunk_def)
    qed (use t take_line_frame [OF t] in \<open>subst parseChunks.simps, simp add: parser_fail_def\<close>)
  qed (subst parseChunks.simps, simp)
qed

lemma isChunked_parseBody [simp]: "hp_isChunked (parseBody p) = hp_isChunked p"
  by (simp add: parseBody_def Let_def)

lemma state_parseChunks: "hp_state p = Body \<Longrightarrow> hp_state (parseChunks p) \<in> {Body, Complete, Error}"
proof (induction p rule: parseChunks.induct)
  case (1 p)
  show ?case
  proof (cases "take_line p")
    case (Some lp)
    obtain line p1 where t: "take_line p = Some (line, p1)" using Some by (cases lp) simp
    show ?thesis
    proof (cases "stoul 16 line")
      case (Inr n)
      then show ?thesis using t take_line_frame [OF t] "1.IH" [OF t refl Inr] "1.prems"
        by (subst parseChunks.simps) (auto simp: add_chunk_def)
    qed (use t in \<open>subst parseChunks.simps, simp add: parser_fail_def\<close>)
  qed (use "1.prems" in \<open>subst parseChunks.simps, simp\<close>)
qed

lemma isChunked_parseHeaders: "hp_isChunked p \<Longrightarrow> hp_isChunked (parseHeaders p)"
proof (induction p rule: parseHeaders.induct)
  case (1 p)
  show ?case
  proof (cases "take_line p")
    case None
    then show ?thesis using "1.prems" by (simp add: parseHeaders_None)
  next
    case (Some lp)
    obtain line p1 where t: "take_line p = Some (line, p1)" using Some by (cases lp) simp
    have "hp_isChunked p1" using "1.prems" take_line_frame [OF t] by simp
    then show ?thesis using "1.IH" [OF t refl]
      by (cases "find_char (CHR '':'') line")
         (auto simp: parseHeaders_Some [OF t] end_of_headers_def parser_fail_def Let_def)
  qed
qed

lemma state_parseHeaders: "hp_state p = Headers \<Longrightarrow> hp_state (parseHeaders p) \<noteq> RequestLine"
proof (induction p rule: parseHeaders.induct)
  case (1 p)
  show ?case
  proof (cases "take_line p")
    case None
    then show ?thesis using "1.prems" by (simp add: parseHeaders_None)
  next
    case (Some lp)
    obtain line p1 where t: "take_line p = Some (line, p1)" using Some by (cases lp) simp
    show ?thesis using "1.IH" [OF t refl] "1.prems" take_line_frame [OF t] state_end_of_headers [of p1]
      by (cases "find_char (CHR '':'') line") (auto simp: parseHeaders_Some [OF t] parser_fail_def)
  qed
qed

lemma isChunked_advance: "hp_isChunked p \<Longrightarrow> hp_isChunked (advance p)"
proof -
  assume c: "hp_isChunked p"
  define p1 where "p1 = (if hp_state p = RequestLine then parseRequestLine p else p)"
  have "hp_isChunked (parseRequestLine p)"
  proof (cases "take_line p")
    case None
    then show ?thesis using c by (simp add: parseRequestLine_def)
  next
    case (Some lp)
    then show ?thesis using c state_parseRequestLine [of p "fst lp" "snd lp"] by simp
  qed
  then have "hp_isChunked p1" using c by (simp add: p1_def)
  then show ?thesis unfolding advance_def Let_def p1_def [symmetric] by (simp add: isChunked_parseHeaders)
qed

text \<open>After an error the unread bytes are dead: they are the only difference pieces can make.\<close>

definition observe :: "HttpRequestParser \<Rightarrow> HttpRequestParser" where
  "observe p = (if hp_state p = Error then p\<lparr>hp_buffer := []\<rparr> else p)"

lemma observe_app_Error: "hp_state p = Error \<Longrightarrow> observe (app b p) = observe p"
  by (simp add: observe_def app_def)

lemma advance_app_Body:
  assumes "hp_state p = Body" "\<not> hp_isChunked p"
  shows "HttpRequestParser_feed b (advance p) = advance (app b p)"
proof -
  have "hp_state (parseBody p) \<in> {Body, Complete}" using assms by (auto simp: parseBody_def Let_def)
  then show ?thesis using assms parseBody_app [OF assms(2,1), of b]
    by (auto simp: feed_advance advance_Body advance_end)
qed

lemma advance_app_Headers:
  assumes p: "hp_state p = Headers" and "\<not> hp_isChunked (advance (app b p))"
  shows "observe (HttpRequestParser_feed b (advance p)) = observe (advance (app b p))"
proof -
  define q where "q = parseHeaders p"
  note h = advance_Headers [OF p, folded q_def] parseHeaders_app [OF p, of b, folded q_def]
    advance_Headers [of "app b p"]
  show ?thesis
  proof (cases "hp_state q")
    case Headers
    then show ?thesis using h p by (simp add: feed_advance advance_Headers)
  next
    case Body
    have "\<not> hp_isChunked q" using assms(2) Body h p by (simp split: if_splits)
    then show ?thesis using Body h p advance_app_Body [of q b] by (simp add: advance_Body)
  next
    case Error
    then show ?thesis using h p by (simp add: feed_advance observe_app_Error)
  next
    case Complete
    then show ?thesis using h p by (simp add: feed_advance advance_end)
  next
    case RequestLine
    then show ?thesis using state_parseHeaders [OF p] by (simp add: q_def)
  qed
qed

lemma feed_split:
  assumes "\<not> hp_isChunked (HttpRequestParser_feed (a @ b) p)"
  shows "observe (HttpRequestParser_feed b (HttpRequestParser_feed a p)) = observe (HttpRequestParser_feed (a @ b) p)"
proof (cases "hp_state p = Error")
  case False
  define q where "q = app a p"
  have feed: "HttpRequestParser_feed a p = advance q" "HttpRequestParser_feed (a @ b) p = advance (app b q)"
    "hp_state q = hp_state p"
    using False by (simp_all add: feed_advance q_def)
  have nc: "\<not> hp_isChunked (advance (app b q))" using assms feed by simp
  have "observe (HttpRequestParser_feed b (advance q)) = observe (advance (app b q))"
  proof (cases "hp_state q")
    case RequestLine
    show ?thesis
    proof (cases "take_line q")
      case None
      then show ?thesis using RequestLine by (simp add: advance_RequestLine feed_advance)
    next
      case (Some lp)
      obtain line p1 where t: "take_line q = Some (line, p1)" using Some by (cases lp) simp
      define r where "r = parseRequestLine q"
      have r: "advance q = advance r" "advance (app b q) = advance (app b r)" "hp_state r \<in> {Headers, Error}"
        using RequestLine t take_line_app [OF t, of b] parseRequestLine_app [OF t, of b] state_parseRequestLine [OF t]
        by (simp_all add: r_def advance_RequestLine)
      then consider "hp_state r = Headers" | "hp_state r = Error" by blast
      then show ?thesis
      proof cases
        case 1
        then show ?thesis using advance_app_Headers [of r b] nc r by simp
      next
        case 2
        then show ?thesis using r by (simp add: advance_end feed_advance observe_app_Error)
      qed
    qed
  next
    case Headers
    then show ?thesis using advance_app_Headers nc by blast
  next
    case Body
    have "\<not> hp_isChunked q" using isChunked_advance [of "app b q"] nc by auto
    then show ?thesis using advance_app_Body [OF Body] by simp
  next
    case Complete
    then show ?thesis by (simp add: advance_end feed_advance)
  next
    case Error
    then show ?thesis using False feed by simp
  qed
  then show ?thesis using feed by simp
qed (simp add: feed_advance)

lemma observe_state: "observe p = observe q \<Longrightarrow> hp_state p = hp_state q"
  unfolding observe_def by (metis HttpRequestParser.select_convs(1) HttpRequestParser.surjective HttpRequestParser.update_convs(2))

lemma observe_eq: "observe p = observe q \<Longrightarrow> hp_state q \<noteq> Error \<Longrightarrow> p = q"
proof -
  assume o: "observe p = observe q" and q: "hp_state q \<noteq> Error"
  have "hp_state p \<noteq> Error" using q by (simp only: observe_state [OF o] not_False_eq_True)
  with o q show ?thesis unfolding observe_def by (simp only: if_False)
qed

lemma feed_observe: "observe p = observe q \<Longrightarrow> observe (HttpRequestParser_feed b p) = observe (HttpRequestParser_feed b q)"
proof -
  assume o: "observe p = observe q"
  then have "hp_state p = hp_state q" by (rule observe_state)
  then show ?thesis using o by (cases "hp_state p = Error") (auto simp: feed_advance observe_def)
qed


lemma isChunked_later:
  assumes "hp_isChunked (advance p)"
  shows "hp_isChunked (advance (app b p))"
proof -
  have hdr: "hp_isChunked (advance (app b q))" if q: "hp_state q = Headers" "hp_isChunked (advance q)" for q
  proof (cases "hp_state (parseHeaders q) = Headers")
    case True
    then have "hp_isChunked (parseHeaders q)" using q by (simp add: advance_Headers)
    then have "hp_isChunked (parseHeaders (app b (parseHeaders q)))" by (intro isChunked_parseHeaders) simp
    then show ?thesis using q True parseHeaders_app [OF q(1), of b] by (simp add: advance_Headers)
  next
    case False
    then show ?thesis using q parseHeaders_app [OF q(1), of b] by (auto simp: advance_Headers split: if_splits)
  qed
  show ?thesis
  proof (cases "hp_state p")
    case RequestLine
    show ?thesis
    proof (cases "take_line p")
      case None
      then show ?thesis using RequestLine assms isChunked_advance [of "app b p"] by (simp add: advance_RequestLine)
    next
      case (Some lp)
      obtain line p1 where t: "take_line p = Some (line, p1)" using Some by (cases lp) simp
      define r where "r = parseRequestLine p"
      have r: "advance p = advance r" "advance (app b p) = advance (app b r)" "hp_state r \<in> {Headers, Error}"
        using RequestLine t take_line_app [OF t, of b] parseRequestLine_app [OF t, of b] state_parseRequestLine [OF t]
        by (simp_all add: r_def advance_RequestLine)
      then show ?thesis using hdr [of r] assms by (auto simp: advance_end)
    qed
  next
    case Headers
    then show ?thesis using hdr assms by blast
  next
    case Body
    then show ?thesis using assms isChunked_advance [of "app b p"] by (simp add: advance_Body)
  qed (use assms in \<open>simp_all add: advance_end\<close>)
qed

lemma feed_pieces:
  assumes "\<not> hp_isChunked (HttpRequestParser_feed (concat ds) HttpRequestParser_init)"
  shows "observe (fold HttpRequestParser_feed ds HttpRequestParser_init) =
    observe (HttpRequestParser_feed (concat ds) HttpRequestParser_init)"
  using assms
proof (induction ds rule: rev_induct)
  case Nil
  have "take_line HttpRequestParser_init = None" by (simp add: take_line_def HttpRequestParser_init_def)
  then have "advance HttpRequestParser_init = HttpRequestParser_init"
    by (simp add: advance_RequestLine HttpRequestParser_init_def)
  then show ?case by (simp add: feed_advance HttpRequestParser_init_def)
next
  case (snoc d ds)
  let ?i = HttpRequestParser_init
  have "\<not> hp_isChunked (HttpRequestParser_feed (concat ds) ?i)"
    using snoc.prems isChunked_later [of "app (concat ds) ?i" d]
    by (auto simp: feed_advance HttpRequestParser_init_def)
  then have "observe (fold HttpRequestParser_feed ds ?i) = observe (HttpRequestParser_feed (concat ds) ?i)"
    by (rule snoc.IH)
  then have "observe (HttpRequestParser_feed d (fold HttpRequestParser_feed ds ?i)) =
      observe (HttpRequestParser_feed d (HttpRequestParser_feed (concat ds) ?i))"
    by (rule feed_observe)
  then show ?case using feed_split [of "concat ds" d ?i] snoc.prems by simp
qed



section \<open>Rendering and parsing back\<close>

definition render_headers :: "(string \<times> string) list \<Rightarrow> string" where
  "render_headers kvs = concat (map (\<lambda>(k, v). k @ '': '' @ v @ crlf) kvs)"

definition render_request :: "HttpRequest \<Rightarrow> string" where
  "render_request r = hr_method r @ '' '' @ hr_path r @ '' HTTP/1.1'' @ crlf @ render_headers (hr_headers r)
     @ crlf @ hr_body r"

definition valid_header :: "string \<times> string \<Rightarrow> bool" where
  "valid_header kv \<longleftrightarrow> CHR '':'' \<notin> set (fst kv) \<and> cr \<notin> set (fst kv) \<and> cr \<notin> set (snd kv) \<and> stripped is_blank (snd kv)"

text \<open>
  The requests the round trips speak of: method in capitals, path without white space and query, plain
  headers, no \<open>Transfer-Encoding\<close>, and a body whose length is announced, or no body and no
  \<open>Content-Length\<close>.
\<close>

definition sendable :: "HttpRequest \<Rightarrow> bool" where
  "sendable r \<longleftrightarrow> word_like (hr_method r) \<and> map to_upper (hr_method r) = hr_method r
     \<and> word_like (hr_path r) \<and> CHR ''?'' \<notin> set (hr_path r) \<and> hr_queryParams r = []
     \<and> smap_ok (hr_headers r) \<and> (\<forall>kv \<in> set (hr_headers r). valid_header kv)
     \<and> HttpRequest_getHeader ''Transfer-Encoding'' r = []
     \<and> (HttpRequest_getHeader ''Content-Length'' r = show_nat (length (hr_body r)) \<and> length (hr_body r) < 2 ^ 64
        \<or> HttpRequest_getHeader ''Content-Length'' r = [] \<and> hr_body r = [])"

lemma find_crlf: "cr \<notin> set line \<Longrightarrow> find_sub crlf (line @ crlf @ rest) = Some (length line)"
  by (induction line) auto

lemma take_line_line:
  "cr \<notin> set line \<Longrightarrow> hp_buffer p = line @ crlf @ rest \<Longrightarrow> take_line p = Some (line, p\<lparr>hp_buffer := rest\<rparr>)"
  using find_crlf [of line rest] by (simp add: take_line_def)

lemma parse_header_line:
  assumes "valid_header (k, v)" "hp_buffer p = (k @ '': '' @ v @ crlf) @ rest"
  shows "parseHeaders p = parseHeaders (p\<lparr>hp_buffer := rest,
    hp_request := (hp_request p)\<lparr>hr_headers := smap_put k v (hr_headers (hp_request p))\<rparr>\<rparr>)"
proof -
  let ?line = "k @ CHR '':'' # CHR '' '' # v"
  have "take_line p = Some (?line, p\<lparr>hp_buffer := rest\<rparr>)"
    using assms by (intro take_line_line) (auto simp: valid_header_def)
  moreover have "find_char (CHR '':'') ?line = Some (length k)"
    using assms by (intro find_char_append) (simp add: valid_header_def)
  moreover have "strip is_blank (CHR '' '' # v) = v"
    using assms by (simp add: strip_left strip_id is_blank_def valid_header_def)
  ultimately show ?thesis by (simp add: parseHeaders_Some add_header_def)
qed

lemma parse_rendered_headers:
  "\<forall>kv \<in> set kvs. valid_header kv \<Longrightarrow> hp_buffer p = render_headers kvs @ crlf @ rest \<Longrightarrow>
   parseHeaders p = end_of_headers (p\<lparr>hp_buffer := rest,
     hp_request := (hp_request p)\<lparr>hr_headers := fold (\<lambda>(k, v). smap_put k v) kvs (hr_headers (hp_request p))\<rparr>\<rparr>)"
proof (induction kvs arbitrary: p)
  case Nil
  then have "take_line p = Some ([], p\<lparr>hp_buffer := rest\<rparr>)" by (intro take_line_line) (simp_all add: render_headers_def)
  then show ?case by (simp add: parseHeaders_Some)
next
  case (Cons kv kvs)
  obtain k v where kv: "kv = (k, v)" by (cases kv)
  define q where "q = p\<lparr>hp_buffer := render_headers kvs @ crlf @ rest,
    hp_request := (hp_request p)\<lparr>hr_headers := smap_put k v (hr_headers (hp_request p))\<rparr>\<rparr>"
  have "parseHeaders p = parseHeaders q" unfolding q_def
    using Cons.prems by (intro parse_header_line) (simp_all add: kv render_headers_def)
  also have "\<dots> = end_of_headers (q\<lparr>hp_buffer := rest,
     hp_request := (hp_request q)\<lparr>hr_headers := fold (\<lambda>(k, v). smap_put k v) kvs (hr_headers (hp_request q))\<rparr>\<rparr>)"
    using Cons.prems by (intro Cons.IH) (simp_all add: q_def)
  finally show ?case by (simp add: q_def kv)
qed

lemma map_of_rev_distinct: "distinct (map fst m) \<Longrightarrow> map_of (rev m) = map_of m"
  by (rule map_of_inject_set [THEN iffD2]) (simp_all add: rev_map [symmetric] distinct_rev)

lemma smap_rebuild: "smap_ok m \<Longrightarrow> fold (\<lambda>(k, v). smap_put k v) m [] = m"
proof -
  assume m: "smap_ok m"
  then have "distinct (map fst m)" by (rule sm.entries_distinct)
  moreover have "smap_get (fold (\<lambda>(k, v). smap_put k v) m []) = map_of (rev m)"
    by (subst sm.get_puts) (auto simp: smap_get_map_of)
  ultimately show ?thesis using m
    by (intro sm.entries_inject) (simp_all add: sm.ok_puts smap_get_map_of map_of_rev_distinct)
qed

lemma read_three_words:
  "word_like a \<Longrightarrow> word_like b \<Longrightarrow> word_like c \<Longrightarrow> read_three (a @ '' '' @ b @ '' '' @ c) = Some (a, b, c)"
proof -
  assume w: "word_like a" "word_like b" "word_like c"
  have sp: "is_space (CHR '' '')" by (simp add: is_space_def)
  have "get_word (a @ CHR '' '' # b @ CHR '' '' # c) = Some (a, CHR '' '' # b @ CHR '' '' # c)"
    "get_word (b @ CHR '' '' # c) = Some (b, CHR '' '' # c)" "get_word c = Some (c, [])"
    using w sp by (auto intro: get_word_stop get_word_end)
  then show ?thesis using sp by (simp add: read_three_def get_word_skip)
qed

lemma parse_request_line:
  assumes r: "sendable r" and buf: "hp_buffer p = (hr_method r @ '' '' @ hr_path r @ '' HTTP/1.1'') @ crlf @ rest"
    and req: "hp_request p = HttpRequest_init"
  shows "parseRequestLine p = p\<lparr>hp_buffer := rest, hp_state := Headers,
    hp_request := HttpRequest_init\<lparr>hr_method := hr_method r, hr_path := hr_path r\<rparr>\<rparr>"
proof -
  have sp: "is_space cr" "\<not> is_space c" if "c \<in> set ''HTTP/1.1''" for c using that by (auto simp: is_space_def)
  then have w: "word_like (hr_method r)" "word_like (hr_path r)" "word_like ''HTTP/1.1''"
    using r by (auto simp: sendable_def word_like_def)
  have "cr \<notin> set (hr_method r @ '' '' @ hr_path r @ '' HTTP/1.1'')"
    using w by (auto simp: word_like_def is_space_def)
  then have "take_line p = Some (hr_method r @ '' '' @ hr_path r @ '' HTTP/1.1'', p\<lparr>hp_buffer := rest\<rparr>)"
    using buf by (intro take_line_line)
  moreover have "read_three (hr_method r @ '' '' @ hr_path r @ '' HTTP/1.1'') = Some (hr_method r, hr_path r, ''HTTP/1.1'')"
    using read_three_words [OF w] by simp
  moreover have "find_char (CHR ''?'') (hr_path r) = None" using r by (simp add: find_char_None sendable_def)
  ultimately show ?thesis using r req by (simp add: parseRequestLine_def set_target_def sendable_def)
qed


lemma end_of_headers_length:
  assumes "HttpRequest_getHeader ''Transfer-Encoding'' (hp_request p) = []" "\<not> hp_isChunked p" "hp_bodyBytesExpected p = 0"
    and cl: "HttpRequest_getHeader ''Content-Length'' (hp_request p) = cl"
      "cl = show_nat n \<and> n < 2 ^ 64 \<or> cl = [] \<and> n = 0"
  shows "end_of_headers p = p\<lparr>hp_bodyBytesExpected := n, hp_state := if n = 0 then Complete else Body\<rparr>"
  using cl(2)
proof
  assume "cl = show_nat n \<and> n < 2 ^ 64"
  then have n: "cl \<noteq> []" "parseContentLength cl = n" by (simp_all add: parseContentLength_def stoul_show_nat)
  then have "HttpRequest_getHeader ''Content-Length'' (hp_request p) \<noteq> []"
    "parseContentLength (HttpRequest_getHeader ''Content-Length'' (hp_request p)) = n" using cl(1) by simp_all
  then show ?thesis using assms(1,2) unfolding end_of_headers_def Let_def by simp
next
  assume "cl = [] \<and> n = 0"
  then show ?thesis using assms by (simp add: end_of_headers_def Let_def)
qed

lemma parse_rendered:
  assumes r: "sendable r"
  shows "hp_state (HttpRequestParser_feed (render_request r) HttpRequestParser_init) = Complete
    \<and> hp_request (HttpRequestParser_feed (render_request r) HttpRequestParser_init) = r
    \<and> hp_buffer (HttpRequestParser_feed (render_request r) HttpRequestParser_init) = []
    \<and> \<not> hp_isChunked (HttpRequestParser_feed (render_request r) HttpRequestParser_init)"
proof -
  define p0 where "p0 = app (render_request r) HttpRequestParser_init"
  define p1 where "p1 = parseRequestLine p0"
  define p2 where "p2 = parseHeaders p1"
  have p0: "hp_buffer p0 = (hr_method r @ '' '' @ hr_path r @ '' HTTP/1.1'') @ crlf @ render_headers (hr_headers r) @ crlf @ hr_body r"
    "hp_request p0 = HttpRequest_init" "hp_state p0 = RequestLine"
    by (simp_all add: p0_def HttpRequestParser_init_def render_request_def)
  have p1: "p1 = p0\<lparr>hp_buffer := render_headers (hr_headers r) @ crlf @ hr_body r, hp_state := Headers,
      hp_request := HttpRequest_init\<lparr>hr_method := hr_method r, hr_path := hr_path r\<rparr>\<rparr>"
    unfolding p1_def using parse_request_line [OF r p0(1,2)] .
  define r' where "r' = r\<lparr>hr_body := []\<rparr>"
  have r': "hp_request p1\<lparr>hr_headers := fold (\<lambda>(k, v). smap_put k v) (hr_headers r) (hr_headers (hp_request p1))\<rparr> = r'"
    using r by (simp add: p1 HttpRequest_init_def smap_rebuild sendable_def r'_def)
  have te: "HttpRequest_getHeader ''Transfer-Encoding'' r' = []"
    using r by (simp add: sendable_def r'_def HttpRequest_getHeader_def)
  have cl: "HttpRequest_getHeader ''Content-Length'' r' = show_nat (length (hr_body r)) \<and> length (hr_body r) < 2 ^ 64 \<or>
      HttpRequest_getHeader ''Content-Length'' r' = [] \<and> length (hr_body r) = 0"
    using r by (simp add: sendable_def r'_def HttpRequest_getHeader_def)
  have "\<not> hp_isChunked p1" "hp_bodyBytesExpected p1 = 0" by (simp_all add: p1 p0_def HttpRequestParser_init_def)
  then have "end_of_headers (p1\<lparr>hp_buffer := hr_body r, hp_request := r'\<rparr>) =
      p1\<lparr>hp_buffer := hr_body r, hp_request := r', hp_bodyBytesExpected := length (hr_body r),
         hp_state := if length (hr_body r) = 0 then Complete else Body\<rparr>"
    using end_of_headers_length [of "p1\<lparr>hp_buffer := hr_body r, hp_request := r'\<rparr>" _ "length (hr_body r)", OF _ _ _ refl] te cl
    by (simp del: length_0_conv)
  moreover have "p2 = end_of_headers (p1\<lparr>hp_buffer := hr_body r, hp_request := r'\<rparr>)"
    unfolding p2_def r' [symmetric] using r
    by (intro parse_rendered_headers [where rest = "hr_body r"]) (simp_all add: p1 sendable_def)
  ultimately have p2: "p2 = p1\<lparr>hp_buffer := hr_body r, hp_request := r', hp_bodyBytesExpected := length (hr_body r),
      hp_state := if length (hr_body r) = 0 then Complete else Body\<rparr>" by simp
  have "hp_state HttpRequestParser_init \<noteq> Error" by (simp add: HttpRequestParser_init_def)
  then have "HttpRequestParser_feed (render_request r) HttpRequestParser_init = advance p0"
    by (simp add: feed_advance p0_def)
  also have "\<dots> = advance p1"
    using p0(3) p1 by (cases "take_line p0") (auto simp: advance_RequestLine p1_def [symmetric] parseRequestLine_def p1_def)
  also have "\<dots> = (if hp_state p2 = Body then parseBody p2 else p2)"
    by (simp add: advance_Headers p2_def p1)
  finally have "HttpRequestParser_feed (render_request r) HttpRequestParser_init = (if hp_state p2 = Body then parseBody p2 else p2)" .
  then show ?thesis
    by (auto simp: p2 p1 p0_def HttpRequestParser_init_def parseBody_def Let_def r'_def)
qed


lemma parsed_in_pieces:
  assumes "sendable r" "concat pieces = render_request r"
  shows "hp_state (fold HttpRequestParser_feed pieces HttpRequestParser_init) = Complete"
    "hp_request (fold HttpRequestParser_feed pieces HttpRequestParser_init) = r"
    "hp_buffer (fold HttpRequestParser_feed pieces HttpRequestParser_init) = []"
proof -
  let ?whole = "HttpRequestParser_feed (render_request r) HttpRequestParser_init"
  let ?parts = "fold HttpRequestParser_feed pieces HttpRequestParser_init"
  note whole = parse_rendered [OF assms(1)]
  then have "observe ?parts = observe ?whole" using feed_pieces [of pieces] assms(2) by simp
  then have "?parts = ?whole" by (rule observe_eq) (simp add: whole)
  then show "hp_state ?parts = Complete" "hp_request ?parts = r" "hp_buffer ?parts = []" using whole by simp_all
qed

text \<open>As long as a part of the request is missing the parser waits.\<close>

lemma waits_for_rest:
  assumes "sendable r" "concat pieces @ rest = render_request r" "rest \<noteq> []"
  shows "hp_state (fold HttpRequestParser_feed pieces HttpRequestParser_init) \<notin> {Complete, Error}"
proof
  let ?p = "fold HttpRequestParser_feed pieces HttpRequestParser_init"
  assume ended: "hp_state ?p \<in> {Complete, Error}"
  have whole: "hp_state (HttpRequestParser_feed rest ?p) = Complete" "hp_buffer (HttpRequestParser_feed rest ?p) = []"
    using parsed_in_pieces [OF assms(1), of "pieces @ [rest]"] assms(2) by simp_all
  from ended have "HttpRequestParser_feed rest ?p = (if hp_state ?p = Error then ?p else app rest ?p)"
    by (auto simp: feed_advance advance_end)
  then show False using ended whole assms(3) by (auto split: if_splits)
qed


section \<open>The body of a request\<close>

text \<open>The counters of a body of known length.\<close>

definition body_ok :: "HttpRequestParser \<Rightarrow> bool" where
  "body_ok p \<longleftrightarrow> hp_isChunked p \<or>
     (case hp_state p of
        RequestLine \<Rightarrow> hp_bodyBytesExpected p = 0 \<and> hp_bodyBytesRead p = 0 \<and> hr_body (hp_request p) = []
      | Headers \<Rightarrow> hp_bodyBytesExpected p = 0 \<and> hp_bodyBytesRead p = 0 \<and> hr_body (hp_request p) = []
      | Body \<Rightarrow> length (hr_body (hp_request p)) = hp_bodyBytesRead p \<and> hp_bodyBytesRead p < hp_bodyBytesExpected p
      | Complete \<Rightarrow> length (hr_body (hp_request p)) = hp_bodyBytesExpected p
      | Error \<Rightarrow> True)"

lemma body_ok_app [simp]: "body_ok (app b p) = body_ok p"
  by (cases "hp_state p") (simp_all add: body_ok_def)

lemma body_ok_parseRequestLine: "body_ok p \<Longrightarrow> hp_state p = RequestLine \<Longrightarrow> body_ok (parseRequestLine p)"
  by (auto simp: parseRequestLine_def take_line_def body_ok_def parser_fail_def set_target_def Let_def
      split: option.splits)

lemma body_ok_end_of_headers: "body_ok p \<Longrightarrow> hp_state p = Headers \<Longrightarrow> body_ok (end_of_headers p)"
  by (auto simp: body_ok_def end_of_headers_def Let_def)

lemma body_ok_parseHeaders: "body_ok p \<Longrightarrow> hp_state p = Headers \<Longrightarrow> body_ok (parseHeaders p)"
proof (induction p rule: parseHeaders.induct)
  case (1 p)
  show ?case
  proof (cases "take_line p")
    case None
    then show ?thesis using "1.prems" by (simp add: parseHeaders_None)
  next
    case (Some lp)
    obtain line p1 where t: "take_line p = Some (line, p1)" using Some by (cases lp) simp
    have p1: "body_ok p1" "hp_state p1 = Headers"
      using "1.prems" t by (auto simp: take_line_def body_ok_def split: option.splits)
    show ?thesis
    proof (cases "line = []")
      case True
      then show ?thesis using p1 by (simp add: parseHeaders_Some [OF t] body_ok_end_of_headers)
    next
      case False
      show ?thesis
      proof (cases "find_char (CHR '':'') line")
        case None
        then show ?thesis using False by (simp add: parseHeaders_Some [OF t] body_ok_def parser_fail_def)
      next
        case (Some c)
        have "body_ok (add_header c line p1)" using p1 by (auto simp: body_ok_def add_header_def)
        then show ?thesis using "1.IH" [OF t refl False Some] p1 False Some by (simp add: parseHeaders_Some [OF t])
      qed
    qed
  qed
qed

lemma body_ok_parseBody: "body_ok p \<Longrightarrow> hp_state p = Body \<Longrightarrow> body_ok (parseBody p)"
proof (cases "hp_isChunked p")
  case True
  then show ?thesis using isChunked_parseBody [of p] by (simp add: body_ok_def)
next
  case False
  assume "body_ok p" "hp_state p = Body"
  with False show ?thesis by (auto simp: body_ok_def parseBody_def Let_def)
qed

lemma body_ok_feed: "body_ok p \<Longrightarrow> body_ok (HttpRequestParser_feed b p)"
proof -
  assume ok: "body_ok p"
  define p1 where "p1 = (if hp_state p = RequestLine then parseRequestLine (app b p) else app b p)"
  define p2 where "p2 = (if hp_state p1 = Headers then parseHeaders p1 else p1)"
  have "body_ok p1" using ok by (simp add: p1_def body_ok_parseRequestLine)
  then have "body_ok p2" by (simp add: p2_def body_ok_parseHeaders)
  then show ?thesis using ok
    by (simp add: feed_advance advance_def p1_def [symmetric] p2_def [symmetric] body_ok_parseBody)
qed

lemma body_ok_feeds: "body_ok p \<Longrightarrow> body_ok (fold HttpRequestParser_feed ds p)"
  by (induction ds arbitrary: p) (simp_all add: body_ok_feed)



section \<open>Responses\<close>

record HttpResponse =
  rs_statusCode :: int
  rs_headers :: "(string, string) smap"
  rs_body :: string

definition HttpResponse_new :: "int \<Rightarrow> string \<Rightarrow> HttpResponse" where
  "HttpResponse_new code body = \<lparr>rs_statusCode = code, rs_headers = smap_put ''Content-Type'' ''text/plain'' [], rs_body = body\<rparr>"

definition HttpResponse_init :: HttpResponse where
  "HttpResponse_init = \<lparr>rs_statusCode = 200, rs_headers = smap_put ''Content-Type'' ''text/plain'' [], rs_body = []\<rparr>"

definition HttpResponse_status :: "int \<Rightarrow> HttpResponse \<Rightarrow> HttpResponse" where
  "HttpResponse_status code r = r\<lparr>rs_statusCode := code\<rparr>"

definition HttpResponse_header :: "string \<Rightarrow> string \<Rightarrow> HttpResponse \<Rightarrow> HttpResponse" where
  "HttpResponse_header key value r = r\<lparr>rs_headers := smap_put key value (rs_headers r)\<rparr>"

definition setBodyAndContentType :: "string \<Rightarrow> string \<Rightarrow> HttpResponse \<Rightarrow> HttpResponse" where
  "setBodyAndContentType body ct r = r\<lparr>rs_body := body, rs_headers := smap_put ''Content-Type'' ct (rs_headers r)\<rparr>"

definition HttpResponse_json :: "string \<Rightarrow> HttpResponse \<Rightarrow> HttpResponse" where
  "HttpResponse_json data r = setBodyAndContentType data ''application/json'' r"

definition HttpResponse_text :: "string \<Rightarrow> HttpResponse \<Rightarrow> HttpResponse" where
  "HttpResponse_text data r = setBodyAndContentType data ''text/plain'' r"

definition HttpResponse_html :: "string \<Rightarrow> HttpResponse \<Rightarrow> HttpResponse" where
  "HttpResponse_html data r = setBodyAndContentType data ''text/html'' r"

text \<open>The content type by extension: the text from the last dot on, in lower case.\<close>

definition mime_types :: "(string \<times> string) list" where
  "mime_types = [(''.html'', ''text/html''), (''.htm'', ''text/html''), (''.css'', ''text/css''),
     (''.js'', ''application/javascript''), (''.json'', ''application/json''), (''.xml'', ''application/xml''),
     (''.txt'', ''text/plain''), (''.png'', ''image/png''), (''.jpg'', ''image/jpeg''), (''.jpeg'', ''image/jpeg''),
     (''.gif'', ''image/gif''), (''.svg'', ''image/svg+xml''), (''.ico'', ''image/x-icon''), (''.webp'', ''image/webp''),
     (''.wasm'', ''application/wasm''), (''.woff'', ''font/woff''), (''.woff2'', ''font/woff2''), (''.ttf'', ''font/ttf''),
     (''.pdf'', ''application/pdf''), (''.zip'', ''application/zip''), (''.mp4'', ''video/mp4''), (''.mp3'', ''audio/mpeg''),
     (''.wav'', ''audio/wav'')]"

definition guessContentType :: "string \<Rightarrow> string" where
  "guessContentType filePath =
     (if CHR ''.'' \<notin> set filePath then ''application/octet-stream''
      else let ext = CHR ''.'' # rev (takeWhile (\<lambda>c. c \<noteq> CHR ''.'') (rev filePath))
           in case map_of mime_types (map to_lower ext) of None \<Rightarrow> ''application/octet-stream'' | Some t \<Rightarrow> t)"

text \<open>\<open>file\<close>, with the file system as a parameter: the contents of a readable file.\<close>

definition HttpResponse_file :: "(string \<Rightarrow> string option) \<Rightarrow> string \<Rightarrow> HttpResponse \<Rightarrow> HttpResponse" where
  "HttpResponse_file readFile filePath r =
     (case readFile filePath of
        None \<Rightarrow> r\<lparr>rs_statusCode := 500, rs_body := ''Internal Server Error: Cannot read file'',
                  rs_headers := smap_put ''Content-Type'' ''text/plain'' (rs_headers r)\<rparr>
      | Some content \<Rightarrow> r\<lparr>rs_body := content, rs_statusCode := 200,
                  rs_headers := smap_put ''Content-Type'' (guessContentType filePath) (rs_headers r)\<rparr>)"

definition status_texts :: "(int \<times> string) list" where
  "status_texts = [(200, ''OK''), (201, ''Created''), (204, ''No Content''), (400, ''Bad Request''), (404, ''Not Found''),
     (405, ''Method Not Allowed''), (411, ''Length Required''), (500, ''Internal Server Error''), (503, ''Service Unavailable'')]"

definition statusText :: "int \<Rightarrow> string" where
  "statusText code = (case map_of status_texts code of None \<Rightarrow> ''Unknown'' | Some t \<Rightarrow> t)"

definition HttpResponse_serialize :: "HttpResponse \<Rightarrow> string" where
  "HttpResponse_serialize r =
     ''HTTP/1.1 '' @ show_int (rs_statusCode r) @ '' '' @ statusText (rs_statusCode r) @ crlf
       @ render_headers (smap_put ''Content-Length'' (show_nat (length (rs_body r))) (rs_headers r))
       @ crlf @ rs_body r"

definition HttpResponse_notFound :: HttpResponse where
  "HttpResponse_notFound = HttpResponse_header ''Content-Type'' ''text/plain'' ((HttpResponse_new 404 [])\<lparr>rs_body := ''404 Not Found''\<rparr>)"

definition HttpResponse_methodNotAllowed :: HttpResponse where
  "HttpResponse_methodNotAllowed =
     HttpResponse_header ''Content-Type'' ''text/plain'' ((HttpResponse_new 405 [])\<lparr>rs_body := ''405 Method Not Allowed''\<rparr>)"

definition HttpResponse_badRequest :: "string \<Rightarrow> HttpResponse" where
  "HttpResponse_badRequest reason =
     HttpResponse_header ''Content-Type'' ''text/plain'' ((HttpResponse_new 400 [])\<lparr>rs_body := ''400 Bad Request: '' @ reason\<rparr>)"

definition HttpResponse_internalServerError :: "string \<Rightarrow> HttpResponse" where
  "HttpResponse_internalServerError reason =
     HttpResponse_header ''Content-Type'' ''text/plain'' ((HttpResponse_new 500 [])\<lparr>rs_body := ''500 Internal Server Error: '' @ reason\<rparr>)"

text \<open>No line of the head is empty, so the first empty line is the one before the body.\<close>

lemma find_blank_line_Cons:
  "line \<noteq> [] \<Longrightarrow> cr \<notin> set line \<Longrightarrow>
   find_sub (crlf @ crlf) (line @ crlf @ rest) =
     (if prefix crlf rest then Some (length line) else map_option (\<lambda>k. length line + 2 + k) (find_sub (crlf @ crlf) rest))"
proof (induction line rule: list_nonempty_induct)
  case (single c)
  then show ?case
    by (cases "prefix crlf rest"; cases "find_sub (crlf @ crlf) rest") (auto simp: prefix_def)
next
  case (cons c cs)
  then have "\<not> prefix (crlf @ crlf) ((c # cs) @ crlf @ rest)" by (auto simp: prefix_def)
  with cons show ?case by (cases "find_sub (crlf @ crlf) rest") auto
qed

fun head_text :: "string list \<Rightarrow> string" where
  "head_text [] = []"
| "head_text (l # ls) = l @ crlf @ head_text ls"

lemma head_text_start: "\<forall>l \<in> set ls. l \<noteq> [] \<and> cr \<notin> set l \<Longrightarrow> ls \<noteq> [] \<Longrightarrow> \<not> prefix crlf (head_text ls @ x)"
  by (cases ls; cases "hd ls") (auto simp: prefix_def)

lemma find_blank_line:
  "\<forall>l \<in> set ls. l \<noteq> [] \<and> cr \<notin> set l \<Longrightarrow> ls \<noteq> [] \<Longrightarrow>
   find_sub (crlf @ crlf) (head_text ls @ crlf @ body) = Some (length (head_text ls) - 2)"
proof (induction ls)
  case (Cons l ls)
  then have l: "l \<noteq> []" "cr \<notin> set l" by auto
  show ?case
  proof (cases "ls = []")
    case True
    then show ?thesis using find_blank_line_Cons [OF l, of "crlf @ body"] by simp
  next
    case False
    then have "find_sub (crlf @ crlf) (head_text ls @ crlf @ body) = Some (length (head_text ls) - 2)"
      using Cons by simp
    moreover have "\<not> prefix crlf (head_text ls @ crlf @ body)" using head_text_start [of ls] Cons.prems False by auto
    moreover have "2 \<le> length (head_text ls)" using False by (cases ls) auto
    ultimately show ?thesis using find_blank_line_Cons [OF l, of "head_text ls @ crlf @ body"] by simp
  qed
qed simp


lemma statusText_no_cr: "statusText code \<noteq> [] \<and> cr \<notin> set (statusText code)"
proof -
  have "\<forall>(c, t) \<in> set status_texts. t \<noteq> [] \<and> cr \<notin> set t" by (simp add: status_texts_def)
  then show ?thesis by (auto simp: statusText_def split: option.splits dest!: map_of_SomeD)
qed

lemma show_int_no_cr: "cr \<notin> set (show_int i)"
proof -
  have "cr \<notin> set (show_nat n)" for n
    using word_like_show_nat [of n] by (auto simp: word_like_def is_space_def)
  then show ?thesis by (simp add: show_int_def)
qed

lemma serialize_head:
  "HttpResponse_serialize r = head_text ((''HTTP/1.1 '' @ show_int (rs_statusCode r) @ '' '' @ statusText (rs_statusCode r))
      # map (\<lambda>(k, v). k @ '': '' @ v)
          (smap_put ''Content-Length'' (show_nat (length (rs_body r))) (rs_headers r))) @ crlf @ rs_body r"
proof -
  have "render_headers kvs = head_text (map (\<lambda>(k, v). k @ '': '' @ v) kvs)" for kvs
    by (induction kvs) (auto simp: render_headers_def)
  then show ?thesis by (simp add: HttpResponse_serialize_def)
qed

lemma set_smap_put: "set (smap_put k v m) \<subseteq> insert (k, v) (set m)"
  by (induction k v m rule: smap_put.induct) auto


section \<open>Guarantees\<close>

definition demo_request :: HttpRequest where
  "demo_request = \<lparr>hr_method = ''POST'', hr_path = ''/a'', hr_queryParams = [],
     hr_headers = [(''Content-Length'', ''2'')], hr_body = ''hi''\<rparr>"

lemma demo_request_sendable: "sendable demo_request"
proof -
  have "show_nat (Suc (Suc 0)) = ''2''" by code_simp
  then show ?thesis
    by (simp add: sendable_def demo_request_def word_like_def is_space_def to_upper_def char_code_def smap_ok_def
        valid_header_def stripped_def is_blank_def HttpRequest_getHeader_def iequal_def to_lower_def)
qed

text \<open>A plain \<open>GET\<close>, without headers and body, is one of them.\<close>

lemma plain_get_sendable:
  assumes "word_like path" "CHR ''?'' \<notin> set path"
  shows "sendable \<lparr>hr_method = ''GET'', hr_path = path, hr_queryParams = [], hr_headers = [], hr_body = []\<rparr>"
  using assms by (simp add: sendable_def word_like_def is_space_def to_upper_def char_code_def smap_ok_def HttpRequest_getHeader_def)

text \<open>
  C8. Round trip over a stream, for the requests \<open>sendable\<close> describes: however the bytes of a rendered request are cut
  into pieces, feeding the pieces leaves the parser complete, \<open>parse()\<close> returns exactly the request, and
  the parser is back in its initial state.
\<close>
theorem request_roundtrip_in_pieces:
  assumes "sendable r" "concat pieces = render_request r"
  shows "HttpRequestParser_parse (fold HttpRequestParser_feed pieces HttpRequestParser_init) = (r, HttpRequestParser_init)"
  using parsed_in_pieces [OF assms]
  by (simp add: HttpRequestParser_parse_def HttpRequestParser_isComplete_def HttpRequestParser_reset_def)
theorem request_roundtrip_in_pieces_witness:
  "HttpRequestParser_parse (fold HttpRequestParser_feed
      [take 7 (render_request demo_request), drop 7 (render_request demo_request)] HttpRequestParser_init)
    = (demo_request, HttpRequestParser_init)"
  by (rule request_roundtrip_in_pieces [OF demo_request_sendable]) simp

text \<open>
  C9. For any input that does not announce a chunked body, well-formed or not, the outcome does not
  depend on how the input is cut into pieces: state, request, error message, counters and, unless the
  input is in error, the bytes kept for later are the same as for one single \<open>feed\<close>.
\<close>
theorem feed_independent_of_cutting:
  assumes "\<not> hp_isChunked (HttpRequestParser_feed (concat pieces) HttpRequestParser_init)"
  shows "observe (fold HttpRequestParser_feed pieces HttpRequestParser_init) =
    observe (HttpRequestParser_feed (concat pieces) HttpRequestParser_init)"
  by (rule feed_pieces [OF assms])

theorem feed_independent_of_cutting_witness:
  "observe (fold HttpRequestParser_feed [''GET'', '' /'' @ [cr], [lf]] HttpRequestParser_init) =
    observe (HttpRequestParser_feed (concat [''GET'', '' /'' @ [cr], [lf]]) HttpRequestParser_init)"
  by (rule feed_independent_of_cutting)
     (simp add: feed_advance advance_RequestLine HttpRequestParser_init_def app_def take_line_def parseRequestLine_def
        read_three_def get_word_def is_space_def parser_fail_def advance_end)

text \<open>
  A request without chunked encoding that the parser reports complete has a body of exactly the
  announced length, and while the parser waits the body is shorter, whatever was fed.
\<close>
theorem body_has_announced_length:
  assumes "p = fold HttpRequestParser_feed pieces HttpRequestParser_init" "\<not> hp_isChunked p"
  shows "(hp_state p = Complete \<longrightarrow> length (hr_body (hp_request p)) = hp_bodyBytesExpected p)
    \<and> (hp_state p = Body \<longrightarrow> length (hr_body (hp_request p)) < hp_bodyBytesExpected p)"
proof -
  have "body_ok HttpRequestParser_init" by (simp add: body_ok_def HttpRequestParser_init_def HttpRequest_init_def)
  then have "body_ok p" using assms(1) body_ok_feeds by blast
  then show ?thesis using assms(2) by (auto simp: body_ok_def)
qed

theorem body_has_announced_length_witness:
  "length (hr_body (hp_request (HttpRequestParser_feed (render_request demo_request) HttpRequestParser_init)))
    = hp_bodyBytesExpected (HttpRequestParser_feed (render_request demo_request) HttpRequestParser_init)"
  using body_has_announced_length [of _ "[render_request demo_request]", OF refl] parse_rendered [OF demo_request_sendable]
  by simp

lemma parseChunks_line:
  assumes "take_line p = Some (line, p1)"
  shows "stoul 16 line = Inl e \<Longrightarrow> parseChunks p = parser_fail ''Invalid chunk size'' p1"
    "stoul 16 line = Inr 0 \<Longrightarrow> parseChunks p = p1\<lparr>hp_state := Complete\<rparr>"
    "stoul 16 line = Inr k \<Longrightarrow> k \<noteq> 0 \<Longrightarrow> length (hp_buffer p1) < (k + 2) mod 2 ^ 64 \<Longrightarrow> parseChunks p = p1"
    "stoul 16 line = Inr k \<Longrightarrow> k \<noteq> 0 \<Longrightarrow> \<not> length (hp_buffer p1) < (k + 2) mod 2 ^ 64 \<Longrightarrow>
       parseChunks p = parseChunks (add_chunk k p1)"
  using assms by (subst parseChunks.simps, simp)+

lemma chunk_sizes: "stoul 16 ''3'' = Inr 3" "stoul 16 ''0'' = Inr 0" "stoul 16 ''xyz'' = Inl InvalidArgument"
  by (simp_all add: stoul_def skip_sign_def is_space_def skip_0x_def has_digit_def digit_value_def is_digit_def char_code_def)

text \<open>
  C40. The size of a chunk is forgotten between two feeds. For every chunk of a body, whatever its size and
  wherever it is cut behind its size line before all of it has arrived: the rest is read as if
  the size line had never been sent, so the data is taken for the next chunk size. Fed at once, the same bytes add
  the chunk to the body, and the parser goes on behind it.
\<close>
theorem chunk_size_lost_between_feeds:
  assumes "hp_state p = Body" "hp_isChunked p" "hp_buffer p = []"
    and size: "cr \<notin> set line" "stoul 16 line = Inr k" "0 < k" "k + 2 < 2 ^ 64"
    and data: "length part < k + 2" "k + 2 \<le> length (part @ rest)"
  shows "HttpRequestParser_feed rest (HttpRequestParser_feed (line @ crlf @ part) p) = HttpRequestParser_feed (part @ rest) p
    \<and> HttpRequestParser_feed (line @ crlf @ part @ rest) p = HttpRequestParser_feed (drop (k + 2) (part @ rest))
        (p\<lparr>hp_request := (hp_request p)\<lparr>hr_body := hr_body (hp_request p) @ take k (part @ rest)\<rparr>\<rparr>)"
proof -
  have feed: "HttpRequestParser_feed b q = parseChunks (q\<lparr>hp_buffer := hp_buffer q @ b\<rparr>)"
    if "hp_state q = Body" "hp_isChunked q" for b q
    using that by (simp add: feed_advance advance_Body parseBody_def app_def)
  have line: "take_line (p\<lparr>hp_buffer := line @ crlf @ b\<rparr>) = Some (line, p\<lparr>hp_buffer := b\<rparr>)" for b
    using take_line_line [OF size(1), of "p\<lparr>hp_buffer := line @ crlf @ b\<rparr>" b] by simp
  have m: "(k + 2) mod 2 ^ 64 = k + 2" using size(4) by simp
  have "parseChunks (p\<lparr>hp_buffer := line @ crlf @ part\<rparr>) = p\<lparr>hp_buffer := part\<rparr>"
    using parseChunks_line(3) [OF line size(2)] size(3) data(1) unfolding m by simp
  then have cut: "HttpRequestParser_feed (line @ crlf @ part) p = p\<lparr>hp_buffer := part\<rparr>"
    using assms(1-3) by (simp add: feed)
  have "parseChunks (p\<lparr>hp_buffer := line @ crlf @ part @ rest\<rparr>) = parseChunks (add_chunk k (p\<lparr>hp_buffer := part @ rest\<rparr>))"
    using parseChunks_line(4) [OF line size(2)] size(3) data(2) unfolding m by simp
  then have "HttpRequestParser_feed (line @ crlf @ part @ rest) p = parseChunks (add_chunk k (p\<lparr>hp_buffer := part @ rest\<rparr>))"
    using assms(1-3) by (simp add: feed)
  then show ?thesis using assms(1-3) cut m by (simp add: feed add_chunk_def)
qed

definition demo_chunked :: HttpRequestParser where
  "demo_chunked = HttpRequestParser_init\<lparr>hp_state := Body, hp_isChunked := True\<rparr>"

theorem chunk_size_lost_between_feeds_witness:
  "hp_state (fold HttpRequestParser_feed [''3'' @ crlf, ''xyz'' @ crlf @ ''0'' @ crlf] demo_chunked) = Error
    \<and> HttpRequestParser_feed (''3'' @ crlf @ [] @ ''xyz'' @ crlf @ ''0'' @ crlf) demo_chunked = HttpRequestParser_feed (''0'' @ crlf)
        (demo_chunked\<lparr>hp_request := HttpRequest_init\<lparr>hr_body := ''xyz''\<rparr>\<rparr>)"
proof -
  let ?data = "''xyz'' @ crlf @ ''0'' @ crlf"
  have "take_line (demo_chunked\<lparr>hp_buffer := ?data\<rparr>) = Some (''xyz'', demo_chunked\<lparr>hp_buffer := ''0'' @ crlf\<rparr>)"
    by (simp add: take_line_def)
  from parseChunks_line(1) [OF this chunk_sizes(3)] have "hp_state (HttpRequestParser_feed ([] @ ?data) demo_chunked) = Error"
    by (simp add: feed_advance advance_Body parseBody_def app_def demo_chunked_def HttpRequestParser_init_def parser_fail_def)
  moreover have "cr \<notin> set ''3''" "length ([] :: string) < 3 + 2" "3 + 2 \<le> length ([] @ ?data)" by simp_all
  ultimately show ?thesis
    using chunk_size_lost_between_feeds [of demo_chunked "''3''" 3 "[]" ?data] chunk_sizes(1)
    by (simp add: demo_chunked_def HttpRequestParser_init_def HttpRequest_init_def)
qed

text \<open>
  The client finds the body: in a serialized response whose header names and values hold no
  carriage return, the first empty line is the one that ends the head, and what follows it is exactly
  the body.
\<close>
theorem serialized_body_is_found:
  assumes "\<forall>(k, v) \<in> set (rs_headers r). cr \<notin> set k \<and> cr \<notin> set v"
  shows "\<exists>pos. find_sub (crlf @ crlf) (HttpResponse_serialize r) = Some pos
    \<and> drop (pos + 4) (HttpResponse_serialize r) = rs_body r"
proof -
  define ls where "ls = (''HTTP/1.1 '' @ show_int (rs_statusCode r) @ '' '' @ statusText (rs_statusCode r))
      # map (\<lambda>(k, v). k @ '': '' @ v) (smap_put ''Content-Length'' (show_nat (length (rs_body r))) (rs_headers r))"
  have kv: "cr \<notin> set k \<and> cr \<notin> set v"
    if "(k, v) \<in> set (smap_put ''Content-Length'' (show_nat (length (rs_body r))) (rs_headers r))" for k v
    using that set_smap_put assms show_int_no_cr [of "int (length (rs_body r))"] by (fastforce simp: show_int_def)
  have "\<forall>l \<in> set ls. l \<noteq> [] \<and> cr \<notin> set l"
    using kv statusText_no_cr show_int_no_cr by (auto simp: ls_def)
  then have "find_sub (crlf @ crlf) (head_text ls @ crlf @ rs_body r) = Some (length (head_text ls) - 2)"
    by (rule find_blank_line) (simp add: ls_def)
  moreover have "2 \<le> length (head_text ls)" by (simp add: ls_def)
  ultimately show ?thesis unfolding serialize_head ls_def [symmetric] by auto
qed

theorem serialized_body_is_found_witness:
  "\<exists>pos. find_sub (crlf @ crlf) (HttpResponse_serialize HttpResponse_notFound) = Some pos
    \<and> drop (pos + 4) (HttpResponse_serialize HttpResponse_notFound) = ''404 Not Found''"
  using serialized_body_is_found [of HttpResponse_notFound]
  by (simp add: HttpResponse_notFound_def HttpResponse_header_def HttpResponse_new_def)

end
