(* ===== verification/WebSocketFrames.thy ===== *)
theory WebSocketFrames
  imports Prelude
begin

text \<open>
  The WebSocket frame codec (\<open>WebSocket/src/SNFWebSocket/WebSocketFrame.h\<close>, \<open>WebSocketFrame.cpp\<close>):
  \<open>encodeFrame\<close> and the incremental \<open>WebSocketFrameParser\<close>. Bytes and the 64-bit payload length are
  words; sizes of vectors are natural numbers (\<open>offset + payloadSize\<close> is below \<open>2^64\<close>, because the
  parser rejects lengths from \<open>2^63\<close> on). The masking key \<open>randomMask()\<close> draws is an argument of
  \<open>encodeFrame\<close>.
\<close>

section \<open>Frames\<close>

datatype OpCode = Continuation | Text | Binary | Close | Ping | Pong

fun opcode_byte :: "OpCode \<Rightarrow> byte" where
  "opcode_byte Continuation = 0x0"
| "opcode_byte Text = 0x1"
| "opcode_byte Binary = 0x2"
| "opcode_byte Close = 0x8"
| "opcode_byte Ping = 0x9"
| "opcode_byte Pong = 0xA"

text \<open>\<open>isKnownOpcode\<close> with the cast that follows it.\<close>

definition known_opcode :: "byte \<Rightarrow> OpCode option" where
  "known_opcode b =
     (if b = 0x0 then Some Continuation else if b = 0x1 then Some Text else if b = 0x2 then Some Binary
      else if b = 0x8 then Some Close else if b = 0x9 then Some Ping else if b = 0xA then Some Pong else None)"

definition isControlOpcode :: "OpCode \<Rightarrow> bool" where
  "isControlOpcode op \<longleftrightarrow> op = Close \<or> op = Ping \<or> op = Pong"

record WebSocketFrame =
  wf_fin :: bool
  wf_opcode :: OpCode
  wf_masked :: bool
  wf_payload :: "byte list"

definition readBigEndian :: "byte list \<Rightarrow> nat \<Rightarrow> nat \<Rightarrow> u64" where
  "readBigEndian data offset count =
     foldl (\<lambda>value b. push_bit 8 value OR ucast b) 0 (take count (drop offset data))"

text \<open>\<open>payload[i] ^= maskKey[i % 4]\<close> for every \<open>i\<close>.\<close>

definition apply_mask :: "byte list \<Rightarrow> byte list \<Rightarrow> byte list" where
  "apply_mask key payload = map (\<lambda>i. payload ! i XOR key ! (i mod 4)) [0..<length payload]"

text \<open>The length field: one, three or nine bytes.\<close>

definition length_bytes :: "byte \<Rightarrow> nat \<Rightarrow> byte list" where
  "length_bytes maskBit n =
     (if n \<le> 125 then [maskBit OR of_nat n]
      else if n \<le> 0xFFFF
      then [maskBit OR 126, of_nat (drop_bit 8 n AND 0xFF), of_nat (n AND 0xFF)]
      else (maskBit OR 127) #
           map (\<lambda>shift. ucast (drop_bit shift (of_nat n :: u64) AND 0xFF)) [56, 48, 40, 32, 24, 16, 8, 0])"

definition encodeFrame :: "OpCode \<Rightarrow> byte list \<Rightarrow> byte list option \<Rightarrow> byte list" where
  "encodeFrame op payload maskKey =
     (0x80 OR opcode_byte op) # length_bytes (if maskKey \<noteq> None then 0x80 else 0x00) (length payload) @
     (case maskKey of None \<Rightarrow> payload | Some key \<Rightarrow> key @ apply_mask key payload)"


section \<open>The parser\<close>

record WebSocketFrameParser =
  wp_buffer :: "byte list"
  wp_frames :: "WebSocketFrame list"
  wp_error :: string

definition WebSocketFrameParser_init :: WebSocketFrameParser where
  "WebSocketFrameParser_init = \<lparr>wp_buffer = [], wp_frames = [], wp_error = []\<rparr>"

text \<open>What \<open>tryParseOne\<close> finds at the front of the buffer: not enough bytes (\<open>return false\<close>), an
  error, or a frame and the number of bytes it takes.\<close>

datatype frame_result = NeedMore | Bad string | Got WebSocketFrame nat

text \<open>The length field: the payload length and the offset behind it.\<close>

datatype length_result = LengthNeedMore | LengthBad string | Length u64 nat

definition parse_length :: "byte list \<Rightarrow> u64 \<Rightarrow> length_result" where
  "parse_length buf len7 =
     (if len7 = 126
      then if length buf < 4 then LengthNeedMore
           else let len = readBigEndian buf 2 2
                in if len < 126 then LengthBad ''Non-minimal 16-bit WebSocket payload length'' else Length len 4
      else if len7 = 127
      then if length buf < 10 then LengthNeedMore
           else let len = readBigEndian buf 2 8
                in if len AND push_bit 63 1 \<noteq> 0 then LengthBad ''Invalid 64-bit WebSocket payload length''
                   else if len \<le> 0xFFFF then LengthBad ''Non-minimal 64-bit WebSocket payload length''
                   else Length len 10
      else Length len7 2)"

definition parse_payload :: "byte list \<Rightarrow> bool \<Rightarrow> OpCode \<Rightarrow> bool \<Rightarrow> u64 \<Rightarrow> nat \<Rightarrow> frame_result" where
  "parse_payload buf fin op masked len offset =
     (if isControlOpcode op \<and> \<not> fin then Bad ''Fragmented WebSocket control frames are invalid''
      else if isControlOpcode op \<and> 125 < len then Bad ''WebSocket control frame payload is too large''
      else if masked \<and> length buf < offset + 4 then NeedMore
      else let key = (if masked then take 4 (drop offset buf) else [0, 0, 0, 0]);
               offset = (if masked then offset + 4 else offset);
               size = unat len
           in if length buf < offset + size then NeedMore
              else let payload = take size (drop offset buf)
                   in Got \<lparr>wf_fin = fin, wf_opcode = op, wf_masked = masked,
                           wf_payload = (if masked then apply_mask key payload else payload)\<rparr> (offset + size))"

definition parse_frame :: "byte list \<Rightarrow> frame_result" where
  "parse_frame buf =
     (if length buf < 2 then NeedMore
      else let first = buf ! 0; second = buf ! 1; fin = (first AND 0x80 \<noteq> 0); masked = (second AND 0x80 \<noteq> 0)
           in if first AND 0x70 \<noteq> 0 then Bad ''Reserved frame bits are not supported''
              else case known_opcode (first AND 0x0F) of
                     None \<Rightarrow> Bad ''Unsupported WebSocket opcode''
                   | Some op \<Rightarrow>
                       (case parse_length buf (ucast (second AND 0x7F)) of
                          LengthNeedMore \<Rightarrow> NeedMore
                        | LengthBad msg \<Rightarrow> Bad msg
                        | Length len offset \<Rightarrow> parse_payload buf fin op masked len offset))"

definition tryParseOne :: "WebSocketFrameParser \<Rightarrow> bool \<times> WebSocketFrameParser" where
  "tryParseOne p =
     (case parse_frame (wp_buffer p) of
        NeedMore \<Rightarrow> (False, p)
      | Bad msg \<Rightarrow> (False, p\<lparr>wp_error := msg\<rparr>)
      | Got f n \<Rightarrow> (True, p\<lparr>wp_buffer := drop n (wp_buffer p), wp_frames := wp_frames p @ [f]\<rparr>))"

definition WebSocketFrameParser_hasError :: "WebSocketFrameParser \<Rightarrow> bool" where
  "WebSocketFrameParser_hasError p \<longleftrightarrow> wp_error p \<noteq> []"

lemma parse_length_offset: "parse_length buf l = Length len offset \<Longrightarrow> 2 \<le> offset"
  by (auto simp: parse_length_def Let_def split: if_splits)

lemma parse_frame_consumes: "parse_frame buf = Got f n \<Longrightarrow> 2 \<le> n \<and> n \<le> length buf"
  by (auto simp: parse_frame_def parse_payload_def Let_def split: if_splits option.splits length_result.splits
      dest: parse_length_offset)

lemma tryParseOne_shorter:
  "tryParseOne p = (True, q) \<Longrightarrow> length (wp_buffer q) < length (wp_buffer p)"
  using parse_frame_consumes [of "wp_buffer p"] by (fastforce simp: tryParseOne_def split: frame_result.splits)

text \<open>\<open>while (!hasError() && tryParseOne())\<close>\<close>

function parse_all :: "WebSocketFrameParser \<Rightarrow> WebSocketFrameParser" where
  "parse_all p =
     (if WebSocketFrameParser_hasError p then p
      else let (ok, q) = tryParseOne p in if ok then parse_all q else q)"
  by pat_completeness auto
termination
  by (relation "measure (\<lambda>p. length (wp_buffer p))") (auto dest!: tryParseOne_shorter sym [of "(True, _)"])

declare parse_all.simps [simp del]

definition WebSocketFrameParser_feed :: "byte list \<Rightarrow> WebSocketFrameParser \<Rightarrow> WebSocketFrameParser" where
  "WebSocketFrameParser_feed data p =
     (if WebSocketFrameParser_hasError p \<or> data = [] then p
      else parse_all (p\<lparr>wp_buffer := wp_buffer p @ data\<rparr>))"

definition WebSocketFrameParser_hasFrame :: "WebSocketFrameParser \<Rightarrow> bool" where
  "WebSocketFrameParser_hasFrame p \<longleftrightarrow> wp_frames p \<noteq> []"

definition WebSocketFrame_default :: WebSocketFrame where
  "WebSocketFrame_default = \<lparr>wf_fin = True, wf_opcode = Text, wf_masked = False, wf_payload = []\<rparr>"

definition WebSocketFrameParser_nextFrame :: "WebSocketFrameParser \<Rightarrow> WebSocketFrame \<times> WebSocketFrameParser" where
  "WebSocketFrameParser_nextFrame p =
     (case wp_frames p of [] \<Rightarrow> (WebSocketFrame_default, p) | f # fs \<Rightarrow> (f, p\<lparr>wp_frames := fs\<rparr>))"

definition WebSocketFrameParser_reset :: "WebSocketFrameParser \<Rightarrow> WebSocketFrameParser" where
  "WebSocketFrameParser_reset p = \<lparr>wp_buffer = [], wp_frames = [], wp_error = []\<rparr>"



section \<open>Input in pieces\<close>

lemma readBigEndian_append: "offset + count \<le> length data \<Longrightarrow> readBigEndian (data @ x) offset count = readBigEndian data offset count"
  by (simp add: readBigEndian_def)

lemma parse_length_append:
  "parse_length buf l \<noteq> LengthNeedMore \<Longrightarrow> parse_length (buf @ x) l = parse_length buf l"
  by (auto simp: parse_length_def Let_def readBigEndian_append split: if_splits)

lemma parse_payload_append:
  "parse_payload buf fin op masked len offset \<noteq> NeedMore \<Longrightarrow>
   parse_payload (buf @ x) fin op masked len offset = parse_payload buf fin op masked len offset"
  by (auto simp: parse_payload_def Let_def split: if_splits)

lemma parse_frame_append: "parse_frame buf \<noteq> NeedMore \<Longrightarrow> parse_frame (buf @ x) = parse_frame buf"
  by (auto simp: parse_frame_def Let_def nth_append parse_payload_append parse_length_append
      split: if_splits option.splits length_result.splits)

definition more :: "byte list \<Rightarrow> WebSocketFrameParser \<Rightarrow> WebSocketFrameParser" where
  "more x p = p\<lparr>wp_buffer := wp_buffer p @ x\<rparr>"

lemma parse_all_error: "wp_error p \<noteq> [] \<Longrightarrow> parse_all p = p"
  by (simp add: parse_all.simps WebSocketFrameParser_hasError_def)

lemma parse_all_NeedMore: "parse_frame (wp_buffer p) = NeedMore \<Longrightarrow> parse_all p = p"
  by (simp add: parse_all.simps tryParseOne_def)

lemma parse_all_Bad:
  "wp_error p = [] \<Longrightarrow> parse_frame (wp_buffer p) = Bad msg \<Longrightarrow> parse_all p = p\<lparr>wp_error := msg\<rparr>"
  by (simp add: parse_all.simps tryParseOne_def WebSocketFrameParser_hasError_def)

lemma parse_all_Got:
  "wp_error p = [] \<Longrightarrow> parse_frame (wp_buffer p) = Got f n \<Longrightarrow>
   parse_all p = parse_all (p\<lparr>wp_buffer := drop n (wp_buffer p), wp_frames := wp_frames p @ [f]\<rparr>)"
  by (simp add: parse_all.simps [of p] tryParseOne_def WebSocketFrameParser_hasError_def)

text \<open>After an error the unread bytes are dead.\<close>

definition settled :: "WebSocketFrameParser \<Rightarrow> WebSocketFrameParser" where
  "settled p = (if wp_error p \<noteq> [] then p\<lparr>wp_buffer := []\<rparr> else p)"

lemma parse_frame_Bad: "parse_frame buf = Bad msg \<Longrightarrow> msg \<noteq> []"
  by (auto simp: parse_frame_def parse_payload_def parse_length_def Let_def
      split: if_splits option.splits length_result.splits)

lemma parse_all_more: "settled (parse_all (more x (parse_all p))) = settled (parse_all (more x p))"
proof (induction "length (wp_buffer p)" arbitrary: p rule: less_induct)
  case less
  show ?case
  proof (cases "wp_error p = []")
    case False
    then show ?thesis by (simp add: parse_all_error)
  next
    case True
    show ?thesis
    proof (cases "parse_frame (wp_buffer p)")
      case NeedMore
      then show ?thesis by (simp add: parse_all_NeedMore)
    next
      case (Bad msg)
      have "parse_frame (wp_buffer (more x p)) = Bad msg" using parse_frame_append [of "wp_buffer p" x] Bad by (simp add: more_def)
      then have "parse_all (more x p) = (more x p)\<lparr>wp_error := msg\<rparr>" using True by (intro parse_all_Bad) (simp_all add: more_def)
      then show ?thesis using Bad True parse_frame_Bad [OF Bad]
        by (simp add: parse_all_Bad parse_all_error settled_def more_def)
    next
      case (Got f n)
      define q where "q = p\<lparr>wp_buffer := drop n (wp_buffer p), wp_frames := wp_frames p @ [f]\<rparr>"
      have n: "2 \<le> n" "n \<le> length (wp_buffer p)" using parse_frame_consumes [OF Got] by auto
      have "parse_frame (wp_buffer (more x p)) = Got f n" using parse_frame_append [of "wp_buffer p" x] Got by (simp add: more_def)
      then have "parse_all (more x p) = parse_all (more x q)"
        using True n by (subst parse_all_Got) (simp_all add: more_def q_def, cases p, simp)
      moreover have "parse_all p = parse_all q" using Got True by (simp add: parse_all_Got q_def)
      moreover have "length (wp_buffer q) < length (wp_buffer p)" using n by (simp add: q_def)
      ultimately show ?thesis using less by simp
    qed
  qed
qed

lemma feed_more: "wp_error p = [] \<Longrightarrow> x \<noteq> [] \<Longrightarrow> WebSocketFrameParser_feed x p = parse_all (more x p)"
  by (simp add: WebSocketFrameParser_feed_def WebSocketFrameParser_hasError_def more_def)

lemma settled_eq:
  "settled p = settled q \<Longrightarrow> wp_error p = wp_error q \<and> wp_frames p = wp_frames q \<and> (wp_error q = [] \<longrightarrow> p = q)"
  unfolding settled_def
  by (metis WebSocketFrameParser.select_convs(2,3) WebSocketFrameParser.surjective WebSocketFrameParser.update_convs(1))

lemma settled_feed: "settled p = settled q \<Longrightarrow> settled (WebSocketFrameParser_feed x p) = settled (WebSocketFrameParser_feed x q)"
proof -
  assume pq: "settled p = settled q"
  show ?thesis
  proof (cases "wp_error q = []")
    case True
    then have "p = q" using settled_eq [OF pq] by blast
    then show ?thesis by (simp only:)
  next
    case False
    then have "wp_error p \<noteq> []" using settled_eq [OF pq] by simp
    with False pq show ?thesis by (simp add: WebSocketFrameParser_feed_def WebSocketFrameParser_hasError_def)
  qed
qed

lemma settled_more: "wp_error p = [] \<Longrightarrow> settled (WebSocketFrameParser_feed x (parse_all p)) = settled (parse_all (more x p))"
proof -
  assume p: "wp_error p = []"
  show ?thesis
  proof (cases "x = []")
    case True
    then show ?thesis by (simp add: WebSocketFrameParser_feed_def more_def)
  next
    case False
    show ?thesis
    proof (cases "wp_error (parse_all p) = []")
      case True
      then show ?thesis using False parse_all_more [of x p] by (simp add: feed_more)
    next
      case e: False
      then have "parse_all (more x (parse_all p)) = more x (parse_all p)" by (intro parse_all_error) (simp add: more_def)
      then show ?thesis using e parse_all_more [of x p]
        by (simp add: WebSocketFrameParser_feed_def WebSocketFrameParser_hasError_def settled_def more_def)
    qed
  qed
qed

lemma feed_pieces_frames:
  "settled (fold WebSocketFrameParser_feed pieces WebSocketFrameParser_init) =
   settled (parse_all (more (concat pieces) WebSocketFrameParser_init))"
proof (induction pieces rule: rev_induct)
  case Nil
  have "parse_frame [] = NeedMore" by (simp add: parse_frame_def)
  then show ?case by (simp add: more_def WebSocketFrameParser_init_def parse_all_NeedMore)
next
  case (snoc x xs)
  let ?i = WebSocketFrameParser_init
  have "settled (fold WebSocketFrameParser_feed (xs @ [x]) ?i) =
      settled (WebSocketFrameParser_feed x (parse_all (more (concat xs) ?i)))"
    using settled_feed [OF snoc.IH] by simp
  also have "\<dots> = settled (parse_all (more x (more (concat xs) ?i)))"
    by (rule settled_more) (simp add: more_def WebSocketFrameParser_init_def)
  finally show ?case by (simp add: more_def)
qed



section \<open>Decoding what was encoded\<close>

lemma length_byte_all:
  "list_all (\<lambda>n. (0x80 OR (of_nat n :: byte)) AND 0x80 \<noteq> 0 \<and> (0x00 OR (of_nat n :: byte)) AND 0x80 = 0
     \<and> (ucast ((0x80 OR (of_nat n :: byte)) AND 0x7F) :: u64) = of_nat n
     \<and> (ucast ((0x00 OR (of_nat n :: byte)) AND 0x7F) :: u64) = of_nat n) [0..<128]"
  by code_simp

lemma opcode_byte_all:
  "(0x80 OR opcode_byte op) AND 0x80 \<noteq> 0 \<and> (0x80 OR opcode_byte op) AND 0x70 = 0
   \<and> known_opcode ((0x80 OR opcode_byte op) AND 0x0F) = Some op"
  by (cases op) (simp_all add: known_opcode_def)

lemma be_step:
  assumes "unat (v :: u64) < 2 ^ 56"
  shows "unat (push_bit 8 v OR ucast (b :: byte)) = unat v * 256 + unat b"
proof -
  have "push_bit 8 v OR ucast b = push_bit 8 v + ucast b"
    by (rule disjunctive_add [symmetric]) (auto simp: bit_simps dest: bit_imp_le_length)
  moreover have "unat (push_bit 8 v) = unat v * 256"
    using assms by (simp add: push_bit_eq_mult unat_word_ariths(2))
  moreover have "unat (ucast b :: u64) = unat b" by (simp add: unsigned_ucast_eq take_bit_nat_eq_self unsigned_less less_trans [OF unsigned_less])
  moreover have "unat b < 256" using unsigned_less [of b] by simp
  ultimately show ?thesis using assms by (simp add: unat_word_ariths(1))
qed

lemma be_foldl:
  "length bs \<le> k \<Longrightarrow> k \<le> 8 \<Longrightarrow> unat v < 256 ^ (8 - k) \<Longrightarrow>
   unat (foldl (\<lambda>value b. push_bit 8 value OR ucast b) (v :: u64) (bs :: byte list)) =
     foldl (\<lambda>a b. a * 256 + unat b) (unat v) bs"
proof (induction bs arbitrary: v k)
  case (Cons b bs)
  obtain k' where k: "k = Suc k'" using Cons.prems by (cases k) auto
  have "(256 :: nat) ^ (8 - k) \<le> 256 ^ 7" using k by (intro power_increasing) auto
  then have "unat v < 256 ^ 7" using Cons.prems(3) by linarith
  then have s: "unat (push_bit 8 v OR ucast b) = unat v * 256 + unat b" by (intro be_step) simp
  have "unat b < 256" using unsigned_less [of b] by simp
  moreover have "256 ^ (8 - k') = (256 :: nat) ^ (8 - k) * 256"
    using k Cons.prems(2) by (simp add: Suc_diff_Suc [symmetric] flip: power_Suc2)
  moreover have "unat v * 256 + 256 \<le> 256 ^ (8 - k) * 256"
    using mult_le_mono1 [OF Suc_leI [OF Cons.prems(3)], of 256] by simp
  ultimately have "unat (push_bit 8 v OR ucast b) < 256 ^ (8 - k')" using s by linarith
  then show ?case using Cons.IH [of k' "push_bit 8 v OR ucast b"] Cons.prems k s by simp
qed simp

lemma unat_low_byte: "unat (of_nat (n AND 0xFF) :: byte) = n mod 256"
proof -
  have "n AND 0xFF = take_bit 8 n" by (simp add: take_bit_eq_mask mask_eq_exp_minus_1)
  then show ?thesis by (simp add: unat_of_nat take_bit_eq_mod)
qed

lemma unat_shift_byte:
  assumes "n < 2 ^ 64"
  shows "unat (ucast (drop_bit s (of_nat n :: u64) AND 0xFF) :: byte) = n div 2 ^ s mod 256"
proof -
  have "drop_bit s (of_nat n :: u64) AND 0xFF = take_bit 8 (drop_bit s (of_nat n))"
    by (simp add: take_bit_eq_mask mask_eq_exp_minus_1)
  moreover have "unat (take_bit 8 (drop_bit s (of_nat n :: u64))) = n div 2 ^ s mod 256"
    using assms by (simp only: unsigned_take_bit_eq unsigned_drop_bit_eq unsigned_of_nat)
      (simp add: take_bit_nat_eq_self drop_bit_eq_div take_bit_eq_mod)
  ultimately show ?thesis by (simp add: unsigned_ucast_eq take_bit_eq_mod)
qed

lemma join_byte: "k' = k + 8 \<Longrightarrow> n div 2 ^ k' * 256 + n div 2 ^ k mod 256 = (n div 2 ^ k :: nat)"
proof -
  assume "k' = k + 8"
  then have "n div 2 ^ k' = n div 2 ^ k div 256" by (simp add: power_add div_mult2_eq [symmetric])
  then show ?thesis by (simp only: div_mult_mod_eq)
qed

lemma read16:
  assumes "n \<le> 0xFFFF"
  shows "readBigEndian (a # b # of_nat (drop_bit 8 n AND 0xFF) # of_nat (n AND 0xFF) # rest) 2 2 = of_nat n"
proof -
  let ?bs = "[of_nat (drop_bit 8 n AND 0xFF), of_nat (n AND 0xFF)] :: byte list"
  let ?r = "readBigEndian (a # b # of_nat (drop_bit 8 n AND 0xFF) # of_nat (n AND 0xFF) # rest) 2 2"
  have "?r = foldl (\<lambda>value b. push_bit 8 value OR ucast b) 0 ?bs"
    by (simp add: readBigEndian_def numeral_2_eq_2)
  then have "unat ?r = foldl (\<lambda>a b. a * 256 + unat b) 0 ?bs"
    using be_foldl [of ?bs 8 0] by simp
  also have "\<dots> = (n div 256 mod 256) * 256 + n mod 256" by (simp add: unat_low_byte drop_bit_eq_div)
  also have "n div 256 mod 256 = n div 256" using assms by (simp add: div_less_dividend)
  also have "n div 256 * 256 + n mod 256 = n" by (simp add: div_mult_mod_eq)
  finally have "unat ?r = n" .
  moreover have "of_nat (unat ?r) = ?r" by simp
  ultimately show ?thesis by (simp only:)
qed

lemma read64:
  assumes "n < 2 ^ 64"
  shows "readBigEndian (a # b # map (\<lambda>shift. ucast (drop_bit shift (of_nat n :: u64) AND 0xFF)) [56, 48, 40, 32, 24, 16, 8, 0] @ rest) 2 8 = of_nat n"
proof -
  let ?bs = "map (\<lambda>shift. ucast (drop_bit shift (of_nat n :: u64) AND 0xFF)) [56, 48, 40, 32, 24, 16, 8, 0] :: byte list"
  let ?r = "readBigEndian (a # b # ?bs @ rest) 2 8"
  have "?r = foldl (\<lambda>value b. push_bit 8 value OR ucast b) 0 ?bs"
    by (simp add: readBigEndian_def numeral_2_eq_2)
  then have "unat ?r = foldl (\<lambda>a b. a * 256 + unat b) 0 ?bs"
    using be_foldl [of ?bs 8 0] by simp
  also have "\<dots> = ((((((((n div 2 ^ 56 mod 256) * 256 + n div 2 ^ 48 mod 256) * 256 + n div 2 ^ 40 mod 256) * 256
      + n div 2 ^ 32 mod 256) * 256 + n div 2 ^ 24 mod 256) * 256 + n div 2 ^ 16 mod 256) * 256 + n div 2 ^ 8 mod 256) * 256
      + n div 2 ^ 0 mod 256)"
    by (simp only: list.map foldl_Cons foldl_Nil unat_shift_byte [OF assms] mult_0 add_0)
  also have "n div 2 ^ 56 mod 256 = n div 2 ^ 56" using assms by simp
  finally have eq: "unat ?r = (((((((n div 2 ^ 56) * 256 + n div 2 ^ 48 mod 256) * 256 + n div 2 ^ 40 mod 256) * 256
      + n div 2 ^ 32 mod 256) * 256 + n div 2 ^ 24 mod 256) * 256 + n div 2 ^ 16 mod 256) * 256 + n div 2 ^ 8 mod 256) * 256
      + n div 2 ^ 0 mod 256" .
  have j: "n div 2 ^ 56 * 256 + n div 2 ^ 48 mod 256 = n div 2 ^ 48" "n div 2 ^ 48 * 256 + n div 2 ^ 40 mod 256 = n div 2 ^ 40"
    "n div 2 ^ 40 * 256 + n div 2 ^ 32 mod 256 = n div 2 ^ 32" "n div 2 ^ 32 * 256 + n div 2 ^ 24 mod 256 = n div 2 ^ 24"
    "n div 2 ^ 24 * 256 + n div 2 ^ 16 mod 256 = n div 2 ^ 16" "n div 2 ^ 16 * 256 + n div 2 ^ 8 mod 256 = n div 2 ^ 8"
    "n div 2 ^ 8 * 256 + n div 2 ^ 0 mod 256 = n div 2 ^ 0"
    by (rule join_byte, simp)+
  have "unat ?r = n" unfolding eq j by simp
  moreover have "of_nat (unat ?r) = ?r" by simp
  ultimately show ?thesis by (simp only:)
qed

lemma length_byte:
  assumes "n < 128"
  shows "(0x80 OR (of_nat n :: byte)) AND 0x80 \<noteq> 0" "(0x00 OR (of_nat n :: byte)) AND 0x80 = 0"
    "(ucast ((0x80 OR (of_nat n :: byte)) AND 0x7F) :: u64) = of_nat n"
    "(ucast ((0x00 OR (of_nat n :: byte)) AND 0x7F) :: u64) = of_nat n"
proof -
  have "n \<in> set [0..<128]" using assms by simp
  then have "(0x80 OR (of_nat n :: byte)) AND 0x80 \<noteq> 0 \<and> (0x00 OR (of_nat n :: byte)) AND 0x80 = 0
     \<and> (ucast ((0x80 OR (of_nat n :: byte)) AND 0x7F) :: u64) = of_nat n
     \<and> (ucast ((0x00 OR (of_nat n :: byte)) AND 0x7F) :: u64) = of_nat n"
    using length_byte_all unfolding list_all_iff by (rule bspec [rotated])
  then show "(0x80 OR (of_nat n :: byte)) AND 0x80 \<noteq> 0" "(0x00 OR (of_nat n :: byte)) AND 0x80 = 0"
    "(ucast ((0x80 OR (of_nat n :: byte)) AND 0x7F) :: u64) = of_nat n"
    "(ucast ((0x00 OR (of_nat n :: byte)) AND 0x7F) :: u64) = of_nat n" by blast+
qed

lemma unat_u64: "n < 2 ^ 64 \<Longrightarrow> unat (of_nat n :: u64) = n"
  by (simp add: unat_of_nat)

lemma no_top_bit: "n < 2 ^ 63 \<Longrightarrow> (of_nat n :: u64) AND push_bit 63 1 = 0"
proof -
  assume n: "n < 2 ^ 63"
  have "bit (of_nat n :: u64) 63 \<longleftrightarrow> bit (unat (of_nat n :: u64)) 63" by (simp only: bit_unsigned_iff) simp
  also have "unat (of_nat n :: u64) = n" using n by (intro unat_u64) simp
  also have "\<not> bit n 63" using n by (simp add: bit_iff_odd)
  finally have "\<not> bit (of_nat n :: u64) 63" .
  then show ?thesis by (simp only: push_bit_of_1 and_exp_eq_0_iff_not_bit not_False_eq_True)
qed

lemma parse_length_encoded:
  assumes mb: "mb \<in> {0x80, 0x00}" and n: "n < 2 ^ 63" and buf: "buf = b # length_bytes mb n @ rest"
  shows "parse_length buf (ucast (buf ! 1 AND 0x7F)) = Length (of_nat n) (Suc (length (length_bytes mb n)))"
    and "(buf ! 1 AND 0x80 \<noteq> 0) = (mb = 0x80)"
proof -
  have u: "unat (of_nat n :: u64) = n" using n by (intro unat_u64) simp
  define m where "m = (if n \<le> 125 then n else if n \<le> 0xFFFF then 126 else 127)"
  have m: "m < 128" "buf ! 1 = mb OR of_nat m" by (auto simp: m_def buf length_bytes_def)
  have l: "(ucast (buf ! 1 AND 0x7F) :: u64) = of_nat m" using mb m length_byte [of m] by auto
  show "(buf ! 1 AND 0x80 \<noteq> 0) = (mb = 0x80)" using mb m length_byte [of m] by auto
  show "parse_length buf (ucast (buf ! 1 AND 0x7F)) = Length (of_nat n) (Suc (length (length_bytes mb n)))"
  proof (cases "n \<le> 125")
    case True
    then have "(of_nat n :: u64) \<noteq> 126" "(of_nat n :: u64) \<noteq> 127" using u by (auto dest: arg_cong [where f = unat])
    then show ?thesis unfolding l using True by (simp add: m_def parse_length_def length_bytes_def)
  next
    case False
    show ?thesis
    proof (cases "n \<le> 0xFFFF")
      case True
      have "readBigEndian buf 2 2 = of_nat n" using False True read16 [OF True] by (simp add: buf length_bytes_def)
      moreover have "\<not> (of_nat n :: u64) < 126" using u False by (simp add: word_less_nat_alt)
      ultimately show ?thesis unfolding l using False True
        by (simp add: m_def parse_length_def length_bytes_def buf Let_def)
    next
      case large: False
      have "readBigEndian buf 2 8 = of_nat n"
        using False large read64 [of n b "mb OR 127" rest] n by (simp add: buf length_bytes_def)
      moreover have "\<not> (of_nat n :: u64) \<le> 0xFFFF" using u large by (simp add: word_le_nat_alt)
      moreover have "(of_nat n :: u64) AND push_bit 63 1 = 0" by (rule no_top_bit [OF n])
      ultimately show ?thesis unfolding l using False large
        by (simp add: m_def parse_length_def length_bytes_def buf Let_def)
    qed
  qed
qed

lemma apply_mask_twice: "apply_mask key (apply_mask key payload) = payload"
  by (rule nth_equalityI) (simp_all add: apply_mask_def xor.assoc)

lemma length_apply_mask [simp]: "length (apply_mask key payload) = length payload"
  by (simp add: apply_mask_def)

text \<open>What can be encoded: a masking key has four bytes, a control frame at most 125 bytes of payload.\<close>

definition encodable :: "OpCode \<times> byte list \<times> byte list option \<Rightarrow> bool" where
  "encodable f \<longleftrightarrow> (case f of (op, payload, maskKey) \<Rightarrow>
     length payload < 2 ^ 63 \<and> (isControlOpcode op \<longrightarrow> length payload \<le> 125)
     \<and> (\<forall>key. maskKey = Some key \<longrightarrow> length key = 4))"

definition sent :: "OpCode \<times> byte list \<times> byte list option \<Rightarrow> byte list" where
  "sent f = (case f of (op, payload, maskKey) \<Rightarrow> encodeFrame op payload maskKey)"

definition received :: "OpCode \<times> byte list \<times> byte list option \<Rightarrow> WebSocketFrame" where
  "received f = (case f of (op, payload, maskKey) \<Rightarrow>
     \<lparr>wf_fin = True, wf_opcode = op, wf_masked = (maskKey \<noteq> None), wf_payload = payload\<rparr>)"

lemma parse_frame_sent:
  assumes "encodable f"
  shows "parse_frame (sent f @ rest) = Got (received f) (length (sent f))"
proof -
  obtain op payload maskKey where f: "f = (op, payload, maskKey)" by (cases f)
  define mb where "mb = (if maskKey \<noteq> None then 0x80 else 0x00 :: byte)"
  define body where "body = (case maskKey of None \<Rightarrow> payload | Some key \<Rightarrow> key @ apply_mask key payload)"
  define buf where "buf = (0x80 OR opcode_byte op) # length_bytes mb (length payload) @ body @ rest"
  have buf: "sent f @ rest = buf" by (simp add: sent_def f encodeFrame_def buf_def mb_def body_def)
  have n: "length payload < 2 ^ 63" using assms by (simp add: encodable_def f)
  have u: "unat (of_nat (length payload) :: u64) = length payload" using n by (intro unat_u64) simp
  note len = parse_length_encoded [OF _ n buf_def]
  have mb: "mb \<in> {0x80, 0x00}" by (simp add: mb_def)
  have "2 \<le> length buf" by (simp add: buf_def length_bytes_def)
  moreover have ctl: "isControlOpcode op \<Longrightarrow> \<not> 125 < (of_nat (length payload) :: u64)"
    using assms u by (simp add: encodable_def f word_less_nat_alt)
  define off where "off = Suc (length (length_bytes mb (length payload)))"
  have drop: "drop off buf = body @ rest" "length buf = off + length body + length rest" by (simp_all add: off_def buf_def)
  have "parse_payload buf True op (mb = 0x80) (of_nat (length payload)) off = Got (received f) (length (sent f))"
  proof (cases maskKey)
    case None
    then show ?thesis using ctl u drop
      by (simp add: parse_payload_def mb_def received_def f sent_def encodeFrame_def body_def off_def Let_def)
  next
    case (Some key)
    then have "length key = 4" using assms by (simp add: encodable_def f)
    moreover have "drop (off + 4) buf = apply_mask key payload @ rest"
      using arg_cong [OF drop(1), of "drop 4"] Some \<open>length key = 4\<close> by (simp add: body_def add.commute)
    ultimately show ?thesis using ctl u drop Some
      by (simp add: parse_payload_def mb_def received_def f sent_def encodeFrame_def body_def off_def Let_def apply_mask_twice)
  qed
  moreover have "buf ! 0 = 0x80 OR opcode_byte op" by (simp add: buf_def)
  ultimately show ?thesis unfolding buf parse_frame_def using len [OF mb] opcode_byte_all [of op]
    by (simp add: off_def Let_def)
qed


lemma parse_all_sent:
  "\<forall>f \<in> set fs. encodable f \<Longrightarrow> wp_error p = [] \<Longrightarrow> wp_buffer p = concat (map sent fs) \<Longrightarrow>
   parse_all p = p\<lparr>wp_buffer := [], wp_frames := wp_frames p @ map received fs\<rparr>"
proof (induction fs arbitrary: p)
  case Nil
  have "parse_frame [] = NeedMore" by (simp add: parse_frame_def)
  then have "parse_all p = p" using Nil by (simp add: parse_all_NeedMore)
  then show ?case using Nil by (cases p) simp
next
  case (Cons f fs)
  have "parse_frame (wp_buffer p) = Got (received f) (length (sent f))"
    using Cons.prems by (simp add: parse_frame_sent)
  then have "parse_all p = parse_all (p\<lparr>wp_buffer := concat (map sent fs), wp_frames := wp_frames p @ [received f]\<rparr>)"
    using Cons.prems by (simp add: parse_all_Got)
  also have "\<dots> = p\<lparr>wp_buffer := [], wp_frames := wp_frames p @ map received (f # fs)\<rparr>"
    using Cons.prems by (subst Cons.IH) simp_all
  finally show ?case .
qed


section \<open>What the parser accepts\<close>

definition frame_ok :: "WebSocketFrame \<Rightarrow> bool" where
  "frame_ok f \<longleftrightarrow> length (wf_payload f) < 2 ^ 63
     \<and> (isControlOpcode (wf_opcode f) \<longrightarrow> wf_fin f \<and> length (wf_payload f) \<le> 125)"

lemma parse_length_bound:
  assumes "parse_length buf (ucast (b AND (0x7F :: byte))) = Length len offset"
  shows "unat len < 2 ^ 63"
proof -
  have "unat (b AND (0x7F :: byte)) < 256" by (rule order_less_le_trans [OF unsigned_less]) simp
  then have "unat (ucast (b AND (0x7F :: byte)) :: u64) < 2 ^ 63"
    by (simp add: unsigned_ucast_eq take_bit_nat_eq_self)
  moreover have "unat len < 2 ^ 63" if "len AND push_bit 63 1 = 0" for len :: u64
  proof -
    have "\<not> bit len 63" using that by (simp only: push_bit_of_1 and_exp_eq_0_iff_not_bit not_False_eq_True)
    then have "\<not> bit (unat len) 63" by (simp only: bit_unsigned_iff simp_thms)
    then have "even (unat len div 2 ^ 63)" by (simp add: bit_iff_odd)
    moreover have "unat len < 2 ^ 64" using unsigned_less [of len] by simp
    then have "unat len div 2 ^ 63 < 2" by simp
    ultimately have "unat len div 2 ^ 63 = 0" by (cases "unat len div 2 ^ 63 = 1") (simp, linarith)
    then show ?thesis by (simp add: div_eq_0_iff)
  qed
  moreover have "unat (readBigEndian buf 2 2) < 2 ^ 63"
  proof -
    let ?bs = "take 2 (drop 2 buf)"
    have "foldl (\<lambda>a b. a * 256 + unat b) (0 :: nat) (bs :: byte list) < 256 ^ length bs" for bs
    proof (induction bs rule: rev_induct)
      case (snoc b bs)
      have "unat b < 256" using unsigned_less [of b] by simp
      with snoc show ?case by simp
    qed simp
    then have "foldl (\<lambda>a b. a * 256 + unat b) (0 :: nat) ?bs < 256 ^ length ?bs" .
    also have "(256 :: nat) ^ length ?bs \<le> 256 ^ 2" by (intro power_increasing) simp_all
    finally show ?thesis using be_foldl [of ?bs 2 0] by (simp add: readBigEndian_def)
  qed
  ultimately show ?thesis using assms
    by (auto simp: parse_length_def Let_def split: if_splits)
qed

lemma parse_frame_ok: "parse_frame buf = Got f n \<Longrightarrow> frame_ok f"
proof -
  assume g: "parse_frame buf = Got f n"
  then obtain op len offset where
    pl: "parse_length buf (ucast (buf ! 1 AND 0x7F)) = Length len offset"
    and pp: "parse_payload buf (buf ! 0 AND 0x80 \<noteq> 0) op (buf ! 1 AND 0x80 \<noteq> 0) len offset = Got f n"
    by (auto simp: parse_frame_def Let_def split: if_splits option.splits length_result.splits)
  have "unat len < 2 ^ 63" by (rule parse_length_bound [OF pl])
  with pp show ?thesis
    by (auto simp: parse_payload_def Let_def frame_ok_def word_less_nat_alt split: if_splits)
qed

lemma parse_all_ok: "\<forall>f \<in> set (wp_frames p). frame_ok f \<Longrightarrow> \<forall>f \<in> set (wp_frames (parse_all p)). frame_ok f"
proof (induction "length (wp_buffer p)" arbitrary: p rule: less_induct)
  case less
  show ?case
  proof (cases "wp_error p = []")
    case False
    then show ?thesis using less.prems by (simp add: parse_all_error)
  next
    case True
    show ?thesis
    proof (cases "parse_frame (wp_buffer p)")
      case NeedMore
      then show ?thesis using less.prems by (simp add: parse_all_NeedMore)
    next
      case (Bad msg)
      then show ?thesis using less.prems True by (simp add: parse_all_Bad)
    next
      case (Got f n)
      define q where "q = p\<lparr>wp_buffer := drop n (wp_buffer p), wp_frames := wp_frames p @ [f]\<rparr>"
      have "length (wp_buffer q) < length (wp_buffer p)" using parse_frame_consumes [OF Got] by (auto simp: q_def)
      moreover have "\<forall>f \<in> set (wp_frames q). frame_ok f" using less.prems parse_frame_ok [OF Got] by (simp add: q_def)
      ultimately have "\<forall>f \<in> set (wp_frames (parse_all q)). frame_ok f" using less.hyps by blast
      then show ?thesis using parse_all_Got [OF True Got] by (simp add: q_def)
    qed
  qed
qed

lemma feeds_ok:
  "\<forall>f \<in> set (wp_frames p). frame_ok f \<Longrightarrow> \<forall>f \<in> set (wp_frames (fold WebSocketFrameParser_feed pieces p)). frame_ok f"
proof (induction pieces arbitrary: p)
  case (Cons x xs)
  have "\<forall>f \<in> set (wp_frames (WebSocketFrameParser_feed x p)). frame_ok f"
    using Cons.prems parse_all_ok [of "p\<lparr>wp_buffer := wp_buffer p @ x\<rparr>"] by (simp add: WebSocketFrameParser_feed_def)
  then show ?case using Cons.IH by simp
qed simp



section \<open>Guarantees\<close>

text \<open>
  Codec round trip over a stream: however the bytes of a sequence of encoded frames, masked or not,
  are cut into pieces, the parser yields exactly those frames in order, with their payloads
  unmasked, keeps no byte back and reports no error.
\<close>
theorem frames_roundtrip_in_pieces:
  assumes "\<forall>f \<in> set fs. encodable f" "concat pieces = concat (map sent fs)"
  shows "fold WebSocketFrameParser_feed pieces WebSocketFrameParser_init =
    \<lparr>wp_buffer = [], wp_frames = map received fs, wp_error = []\<rparr>"
proof -
  let ?p = "fold WebSocketFrameParser_feed pieces WebSocketFrameParser_init"
  let ?q = "\<lparr>wp_buffer = [], wp_frames = map received fs, wp_error = []\<rparr>"
  have "parse_all (more (concat pieces) WebSocketFrameParser_init) = ?q"
    using parse_all_sent [OF assms(1), of "more (concat pieces) WebSocketFrameParser_init"] assms(2)
    by (simp add: more_def WebSocketFrameParser_init_def)
  then have "settled ?p = settled ?q" using feed_pieces_frames by (simp only:)
  from settled_eq [OF this] show ?thesis by simp
qed

theorem frames_roundtrip_in_pieces_witness:
  "fold WebSocketFrameParser_feed
     [take 3 (sent (Text, [72, 105], Some [1, 2, 3, 4])),
      drop 3 (sent (Text, [72, 105], Some [1, 2, 3, 4])) @ sent (Ping, [], None)] WebSocketFrameParser_init =
    \<lparr>wp_buffer = [],
     wp_frames = [\<lparr>wf_fin = True, wf_opcode = Text, wf_masked = True, wf_payload = [72, 105]\<rparr>,
                  \<lparr>wf_fin = True, wf_opcode = Ping, wf_masked = False, wf_payload = []\<rparr>], wp_error = []\<rparr>"
  using frames_roundtrip_in_pieces [of "[(Text, [72, 105], Some [1, 2, 3, 4]), (Ping, [], None)]"
      "[take 3 (sent (Text, [72, 105], Some [1, 2, 3, 4])),
        drop 3 (sent (Text, [72, 105], Some [1, 2, 3, 4])) @ sent (Ping, [], None)]"]
  by (simp add: encodable_def received_def flip: append_assoc)

text \<open>
  C10. For any bytes at all, the outcome does not depend on how they are cut into pieces: the same frames,
  the same error and, unless there is an error, the same bytes kept for later.
\<close>
theorem frames_independent_of_cutting:
  assumes "concat pieces = concat pieces'"
  shows "settled (fold WebSocketFrameParser_feed pieces WebSocketFrameParser_init) =
    settled (fold WebSocketFrameParser_feed pieces' WebSocketFrameParser_init)"
  using assms feed_pieces_frames by simp

theorem frames_independent_of_cutting_witness:
  "settled (fold WebSocketFrameParser_feed [[0x83], [1, 2, 3]] WebSocketFrameParser_init) =
    settled (fold WebSocketFrameParser_feed [[0x83, 1], [2, 3]] WebSocketFrameParser_init)"
  by (rule frames_independent_of_cutting) simp

text \<open>
  C11. Whatever the peer sends, every frame the parser hands out obeys the protocol limits: control
  frames are not fragmented and carry at most 125 bytes, and no payload reaches \<open>2^63\<close> bytes.
\<close>
theorem accepted_frames_obey_limits:
  "list_all frame_ok (wp_frames (fold WebSocketFrameParser_feed pieces WebSocketFrameParser_init))"
  using feeds_ok [of WebSocketFrameParser_init pieces] by (simp add: list_all_iff WebSocketFrameParser_init_def)

end
