(* ===== verification/Digests.thy ===== *)
theory Digests
  imports Prelude
begin

text \<open>
  The encodings behind the WebSocket opening handshake (the anonymous namespace of
  \<open>WebSocket/src/SNFWebSocket/WebSocketHandshake.cpp\<close>): base64 and SHA-1. \<open>std::uint32_t\<close> is a
  32-bit word, \<open>int\<close> values of base64 digits are integers. \<open>base64Decode\<close> returns \<open>None\<close> where the
  code returns false; what it leaves in \<open>output\<close> then is not looked at by its only caller.
\<close>

section \<open>Base64\<close>

definition alphabet :: string where
  "alphabet = ''ABCDEFGHIJKLMNOPQRSTUVWXYZabcdefghijklmnopqrstuvwxyz0123456789+/''"

text \<open>The loop body at index \<open>i\<close>, on the bytes from \<open>i\<close> on.\<close>

definition encode_group :: "byte list \<Rightarrow> string" where
  "encode_group data =
     (let octetA = ucast (data ! 0);
          octetB = (if 1 < length data then ucast (data ! 1) else 0);
          octetC = (if 2 < length data then ucast (data ! 2) else 0);
          triple = push_bit 16 octetA OR push_bit 8 octetB OR octetC :: u32
      in [alphabet ! unat (drop_bit 18 triple AND 0x3F),
          alphabet ! unat (drop_bit 12 triple AND 0x3F),
          if 1 < length data then alphabet ! unat (drop_bit 6 triple AND 0x3F) else CHR ''='',
          if 2 < length data then alphabet ! unat (triple AND 0x3F) else CHR ''=''])"

fun base64Encode :: "byte list \<Rightarrow> string" where
  "base64Encode [] = []"
| "base64Encode (b # bs) = encode_group (b # bs) @ base64Encode (drop 2 bs)"

definition base64Value :: "char \<Rightarrow> int" where
  "base64Value c =
     (let n = int (char_code c)
      in if 65 \<le> n \<and> n \<le> 90 then n - 65
         else if 97 \<le> n \<and> n \<le> 122 then n - 97 + 26
         else if 48 \<le> n \<and> n \<le> 57 then n - 48 + 52
         else if c = CHR ''+'' then 62
         else if c = CHR ''/'' then 63
         else - 1)"

definition count_padding :: "string \<Rightarrow> nat" where
  "count_padding input =
     (if input \<noteq> [] \<and> input ! (length input - 1) = CHR ''='' then 1 else 0) +
     (if 1 < length input \<and> input ! (length input - 2) = CHR ''='' then 1 else 0)"

text \<open>One character at position \<open>pos\<close>; padding is allowed from \<open>limit\<close> on.\<close>

definition decode_char :: "nat \<Rightarrow> nat \<Rightarrow> char \<Rightarrow> int option" where
  "decode_char limit pos c =
     (if c = CHR ''='' then if pos < limit then None else Some 0
      else if base64Value c < 0 then None else Some (base64Value c))"

definition decode_group :: "nat \<Rightarrow> nat \<Rightarrow> char \<Rightarrow> char \<Rightarrow> char \<Rightarrow> char \<Rightarrow> byte list option" where
  "decode_group limit i c0 c1 c2 c3 =
     (case (decode_char limit i c0, decode_char limit (i + 1) c1,
            decode_char limit (i + 2) c2, decode_char limit (i + 3) c3) of
        (Some v0, Some v1, Some v2, Some v3) \<Rightarrow>
          let triple = push_bit 18 (of_int v0) OR push_bit 12 (of_int v1) OR push_bit 6 (of_int v2) OR of_int v3 :: u32
          in Some (ucast (drop_bit 16 triple AND 0xFF) #
                   (if c2 \<noteq> CHR ''='' then [ucast (drop_bit 8 triple AND 0xFF)] else []) @
                   (if c3 \<noteq> CHR ''='' then [ucast (triple AND 0xFF)] else []))
      | _ \<Rightarrow> None)"

fun decode_groups :: "nat \<Rightarrow> nat \<Rightarrow> string \<Rightarrow> byte list option" where
  "decode_groups limit i (c0 # c1 # c2 # c3 # cs) =
     (case decode_group limit i c0 c1 c2 c3 of
        None \<Rightarrow> None
      | Some bs \<Rightarrow> map_option (\<lambda>rest. bs @ rest) (decode_groups limit (i + 4) cs))"
| "decode_groups limit i _ = Some []"

definition base64Decode :: "string \<Rightarrow> byte list option" where
  "base64Decode input =
     (if input = [] \<or> length input mod 4 \<noteq> 0 then None
      else decode_groups (length input - count_padding input) 0 input)"

definition isValidClientKey :: "string \<Rightarrow> bool" where
  "isValidClientKey key \<longleftrightarrow> (case base64Decode key of None \<Rightarrow> False | Some decoded \<Rightarrow> length decoded = 16)"

text \<open>The sixteen bytes the generator draws are an argument.\<close>

definition createClientKey :: "byte list \<Rightarrow> string" where
  "createClientKey bytes = base64Encode bytes"


subsection \<open>Decoding what was encoded\<close>

lemma alphabet_values: "map base64Value alphabet = map int [0..<64]"
  by (simp add: alphabet_def base64Value_def char_code_def upt_conv_Cons)

lemma alphabet_value: "k < 64 \<Longrightarrow> base64Value (alphabet ! k) = int k \<and> alphabet ! k \<noteq> CHR ''=''"
proof -
  assume k: "k < 64"
  have "length alphabet = 64" by (simp add: alphabet_def)
  with k have "base64Value (alphabet ! k) = map base64Value alphabet ! k" by simp
  also have "\<dots> = int k" unfolding alphabet_values using k by simp
  finally have v: "base64Value (alphabet ! k) = int k" .
  moreover have "base64Value (CHR ''='') = - 1" by (simp add: base64Value_def char_code_def)
  ultimately show ?thesis by auto
qed

lemma six_bits: "unat (w AND 0x3F :: u32) < 64"
proof -
  have "w AND 0x3F = take_bit 6 w" by (simp add: take_bit_eq_mask mask_eq_exp_minus_1)
  then have "unat (w AND 0x3F) = take_bit 6 (unat w)" by (simp add: unsigned_take_bit_eq)
  moreover have "take_bit 6 (unat w) < 2 ^ 6" by (rule take_bit_nat_less_exp)
  ultimately show ?thesis by simp
qed

lemma decode_char_alphabet [simp]:
  "decode_char limit pos (alphabet ! unat (w AND 0x3F :: u32)) = Some (int (unat (w AND 0x3F)))"
  "(alphabet ! unat (w AND 0x3F :: u32) = CHR ''='') = False"
  using alphabet_value [OF six_bits [of w]] by (auto simp: decode_char_def)

lemma decode_char_padding [simp]:
  "decode_char limit pos (CHR ''='') = (if pos < limit then None else Some 0)"
  by (simp add: decode_char_def)

lemma regroup:
  fixes t :: u32
  assumes "t = take_bit 24 t"
  shows "push_bit 18 (drop_bit 18 t AND 0x3F) OR push_bit 12 (drop_bit 12 t AND 0x3F)
         OR push_bit 6 (drop_bit 6 t AND 0x3F) OR (t AND 0x3F) = t"
proof -
  have m: "(0x3F :: u32) = mask 6" by (simp add: mask_eq_exp_minus_1)
  have b: "bit t n \<Longrightarrow> n < 24" for n using assms by (metis bit_take_bit_iff)
  show ?thesis unfolding m
  proof (rule bit_word_eqI)
    fix n
    assume "n < LENGTH(32)"
    consider "n < 6" | "6 \<le> n \<and> n < 12" | "12 \<le> n \<and> n < 18" | "18 \<le> n \<and> n < 24" | "24 \<le> n" by linarith
    then show "bit (push_bit 18 (drop_bit 18 t AND mask 6) OR push_bit 12 (drop_bit 12 t AND mask 6)
         OR push_bit 6 (drop_bit 6 t AND mask 6) OR (t AND mask 6)) n = bit t n"
      using b [of n] by cases (auto simp: bit_simps)
  qed
qed


definition triple_of :: "byte \<Rightarrow> byte \<Rightarrow> byte \<Rightarrow> u32" where
  "triple_of a b c = push_bit 16 (ucast a) OR push_bit 8 (ucast b) OR ucast c"

lemma bit_triple_of:
  "bit (triple_of a b c) n \<longleftrightarrow>
     (if n < 8 then bit c n else if n < 16 then bit b (n - 8) else if n < 24 then bit a (n - 16) else False)"
  using bit_imp_le_length [of a "n - 16"] bit_imp_le_length [of b "n - 8"] bit_imp_le_length [of c n]
  by (auto simp: triple_of_def bit_simps)

lemma triple_of_24: "triple_of a b c = take_bit 24 (triple_of a b c)"
  by (rule bit_word_eqI) (auto simp: bit_simps bit_triple_of)

lemma triple_of_bytes:
  "ucast (drop_bit 16 (triple_of a b c) AND 0xFF) = a"
  "ucast (drop_bit 8 (triple_of a b c) AND 0xFF) = b"
  "ucast (triple_of a b c AND 0xFF) = c"
proof -
  have m: "(0xFF :: u32) = mask 8" by (simp add: mask_eq_exp_minus_1)
  show "ucast (drop_bit 16 (triple_of a b c) AND 0xFF) = a"
    "ucast (drop_bit 8 (triple_of a b c) AND 0xFF) = b" "ucast (triple_of a b c AND 0xFF) = c"
    unfolding m by (rule bit_word_eqI, auto simp: bit_simps bit_triple_of)+
qed

lemma triple_of_low:
  "drop_bit 6 (triple_of a 0 0) AND 0x3F = 0" "triple_of a b 0 AND 0x3F = 0"
proof -
  have m: "(0x3F :: u32) = mask 6" by (simp add: mask_eq_exp_minus_1)
  show "drop_bit 6 (triple_of a 0 0) AND 0x3F = 0" "triple_of a b 0 AND 0x3F = 0"
    unfolding m by (rule bit_word_eqI, auto simp: bit_simps bit_triple_of)+
qed

text \<open>The characters of a group, one after the other.\<close>

definition enc :: "nat \<Rightarrow> u32 \<Rightarrow> char" where
  "enc k t = alphabet ! unat (drop_bit k t AND 0x3F)"

lemma base64Encode_1: "base64Encode [a] = [enc 18 (triple_of a 0 0), enc 12 (triple_of a 0 0), CHR ''='', CHR ''='']"
  by (simp add: base64Encode.simps encode_group_def enc_def triple_of_def Let_def)

lemma base64Encode_2:
  "base64Encode [a, b] = [enc 18 (triple_of a b 0), enc 12 (triple_of a b 0), enc 6 (triple_of a b 0), CHR ''='']"
  by (simp add: base64Encode.simps encode_group_def enc_def triple_of_def Let_def)

lemma base64Encode_3:
  "base64Encode (a # b # c # bs) =
     [enc 18 (triple_of a b c), enc 12 (triple_of a b c), enc 6 (triple_of a b c), enc 0 (triple_of a b c)]
     @ base64Encode bs"
  by (simp add: base64Encode.simps encode_group_def enc_def triple_of_def Let_def)

declare base64Encode.simps(2) [simp del]

lemma enc_simps [simp]:
  "decode_char limit pos (enc k t) = Some (int (unat (drop_bit k t AND 0x3F)))" "enc k t \<noteq> CHR ''=''"
  by (simp_all add: enc_def)

lemma of_int_unat [simp]: "of_int (int (unat (w :: u32))) = w"
  by simp

lemmas triple_back = regroup [OF triple_of_24]

lemma decode_group_3:
  "decode_group limit i (enc 18 (triple_of a b c)) (enc 12 (triple_of a b c)) (enc 6 (triple_of a b c))
     (enc 0 (triple_of a b c)) = Some [a, b, c]"
  using triple_back [of a b c] by (simp add: decode_group_def Let_def triple_of_bytes)

lemma decode_group_2:
  "limit \<le> i + 3 \<Longrightarrow> decode_group limit i (enc 18 (triple_of a b 0)) (enc 12 (triple_of a b 0))
     (enc 6 (triple_of a b 0)) (CHR ''='') = Some [a, b]"
  using triple_back [of a b 0] by (simp add: decode_group_def Let_def triple_of_bytes triple_of_low)

lemma decode_group_1:
  "limit \<le> i + 2 \<Longrightarrow> decode_group limit i (enc 18 (triple_of a 0 0)) (enc 12 (triple_of a 0 0))
     (CHR ''='') (CHR ''='') = Some [a]"
  using triple_back [of a 0 0] by (simp add: decode_group_def Let_def triple_of_bytes triple_of_low)

definition pad_of :: "byte list \<Rightarrow> nat" where
  "pad_of data = (3 - length data mod 3) mod 3"

fun by_threes :: "'a list \<Rightarrow> bool" where
  "by_threes (a # b # c # bs) = by_threes bs"
| "by_threes [] = True"
| "by_threes [a] = True"
| "by_threes [a, b] = True"

lemma decode_groups_encode:
  "limit + pad_of data = i + length (base64Encode data) \<Longrightarrow> decode_groups limit i (base64Encode data) = Some data"
proof (induction data arbitrary: i rule: by_threes.induct)
  case (1 a b c bs)
  have "limit + pad_of bs = (i + 4) + length (base64Encode bs)"
    using "1.prems" by (simp add: base64Encode_3 pad_of_def)
  from "1.IH" [OF this] show ?case by (simp add: base64Encode_3 decode_group_3)
next
  case (3 a)
  then show ?case by (simp add: base64Encode_1 decode_group_1 pad_of_def)
next
  case (4 a b)
  then show ?case by (simp add: base64Encode_2 decode_group_2 pad_of_def)
qed simp

lemma length_base64Encode: "length (base64Encode data) = 4 * ((length data + 2) div 3)"
proof (induction data rule: by_threes.induct)
  case (1 a b c bs)
  have "(length (a # b # c # bs) + 2) div 3 = Suc ((length bs + 2) div 3)" by simp
  with 1 show ?case by (simp add: base64Encode_3)
qed (simp_all add: base64Encode_1 base64Encode_2)

lemma count_padding_append: "2 \<le> length e \<Longrightarrow> count_padding (g @ e) = count_padding e"
proof -
  assume e: "2 \<le> length e"
  then have "(g @ e) ! (length (g @ e) - k) = e ! (length e - k)" if "1 \<le> k" "k \<le> 2" for k
    using that by (auto simp: nth_append)
  moreover have "e \<noteq> []" using e by auto
  ultimately show ?thesis using e by (simp add: count_padding_def)
qed

lemma count_padding_encode: "data \<noteq> [] \<Longrightarrow> count_padding (base64Encode data) = pad_of data"
proof (induction data rule: by_threes.induct)
  case (1 a b c bs)
  show ?case
  proof (cases "bs = []")
    case True
    then show ?thesis by (simp add: base64Encode_3 count_padding_def pad_of_def)
  next
    case False
    then have "2 \<le> length (base64Encode bs)" by (cases bs) (simp_all add: length_base64Encode)
    with 1 False show ?thesis by (simp only: base64Encode_3 count_padding_append) (simp add: pad_of_def)
  qed
qed (simp_all add: base64Encode_1 base64Encode_2 count_padding_def pad_of_def)

lemma decode_encode: "data \<noteq> [] \<Longrightarrow> base64Decode (base64Encode data) = Some data"
proof -
  assume d: "data \<noteq> []"
  then have e: "base64Encode data \<noteq> []" by (cases data) (simp_all add: base64Encode.simps encode_group_def Let_def)
  then have "0 < length (base64Encode data)" by simp
  moreover have "pad_of data < 3" by (simp add: pad_of_def)
  ultimately have "pad_of data \<le> length (base64Encode data)" by (simp add: length_base64Encode)
  with e d show ?thesis
    by (simp add: base64Decode_def count_padding_encode decode_groups_encode length_base64Encode)
qed

text \<open>
  Decoding what \<open>base64Encode\<close> wrote gives back the bytes, for any non-empty byte sequence,
  padding included.
\<close>
theorem base64_roundtrip:
  assumes "data \<noteq> []"
  shows "base64Decode (base64Encode data) = Some data"
  using assms by (rule decode_encode)

theorem base64_roundtrip_witness:
  "[0xFF, 0x00, 0x80, 0x01 :: byte] \<noteq> []
   \<and> base64Decode (base64Encode [0xFF, 0x00, 0x80, 0x01]) = Some [0xFF, 0x00, 0x80, 0x01]"
  using base64_roundtrip [of "[0xFF, 0x00, 0x80, 0x01]"] by simp

lemma isValidClientKey_created: "length bytes = 16 \<Longrightarrow> isValidClientKey (createClientKey bytes)"
  using decode_encode [of bytes] by (cases bytes) (auto simp: isValidClientKey_def createClientKey_def)


section \<open>SHA-1\<close>

record Sha1 =
  m_h0 :: u32
  m_h1 :: u32
  m_h2 :: u32
  m_h3 :: u32
  m_h4 :: u32
  m_totalBytes :: u64
  sha_buffer :: "byte list"

definition Sha1_init :: Sha1 where
  "Sha1_init = \<lparr>m_h0 = 0x67452301, m_h1 = 0xEFCDAB89, m_h2 = 0x98BADCFE, m_h3 = 0x10325476, m_h4 = 0xC3D2E1F0,
     m_totalBytes = 0, sha_buffer = []\<rparr>"

definition leftRotate :: "u32 \<Rightarrow> nat \<Rightarrow> u32" where
  "leftRotate value shift = push_bit shift value OR drop_bit (32 - shift) value"

definition writeWord :: "u32 \<Rightarrow> byte list" where
  "writeWord value =
     [ucast (drop_bit 24 value AND 0xFF), ucast (drop_bit 16 value AND 0xFF),
      ucast (drop_bit 8 value AND 0xFF), ucast (value AND 0xFF)]"

definition readWord :: "byte list \<Rightarrow> u32" where
  "readWord input =
     push_bit 24 (ucast (input ! 0)) OR push_bit 16 (ucast (input ! 1)) OR push_bit 8 (ucast (input ! 2))
     OR ucast (input ! 3)"

text \<open>The array \<open>w\<close>: sixteen words of the block, then each from earlier ones.\<close>

definition schedule :: "byte list \<Rightarrow> u32 list" where
  "schedule block =
     foldl (\<lambda>w i. w @ [leftRotate (w ! (i - 3) XOR w ! (i - 8) XOR w ! (i - 14) XOR w ! (i - 16)) 1])
       (map (\<lambda>i. readWord (drop (i * 4) block)) [0..<16]) [16..<80]"

definition round_f :: "nat \<Rightarrow> u32 \<Rightarrow> u32 \<Rightarrow> u32 \<Rightarrow> u32" where
  "round_f i b c d =
     (if i < 20 then (b AND c) OR (NOT b AND d)
      else if i < 40 then b XOR c XOR d
      else if i < 60 then (b AND c) OR (b AND d) OR (c AND d)
      else b XOR c XOR d)"

definition round_k :: "nat \<Rightarrow> u32" where
  "round_k i = (if i < 20 then 0x5A827999 else if i < 40 then 0x6ED9EBA1 else if i < 60 then 0x8F1BBCDC else 0xCA62C1D6)"

fun rounds :: "u32 list \<Rightarrow> nat list \<Rightarrow> u32 \<times> u32 \<times> u32 \<times> u32 \<times> u32 \<Rightarrow> u32 \<times> u32 \<times> u32 \<times> u32 \<times> u32" where
  "rounds w [] abcde = abcde"
| "rounds w (i # is) (a, b, c, d, e) =
     rounds w is (leftRotate a 5 + round_f i b c d + e + round_k i + w ! i, a, leftRotate b 30, c, d)"

definition processBlock :: "byte list \<Rightarrow> Sha1 \<Rightarrow> Sha1" where
  "processBlock block s =
     (let w = schedule block;
          (a, b, c, d, e) = rounds w [0..<80] (m_h0 s, m_h1 s, m_h2 s, m_h3 s, m_h4 s)
      in s\<lparr>m_h0 := m_h0 s + a, m_h1 := m_h1 s + b, m_h2 := m_h2 s + c, m_h3 := m_h3 s + d, m_h4 := m_h4 s + e\<rparr>)"

lemma sha_buffer_processBlock [simp]: "sha_buffer (processBlock b s) = sha_buffer s"
  by (simp add: processBlock_def Let_def split: prod.splits)

text \<open>\<open>while (m_buffer.size() >= 64)\<close>\<close>

function drain_blocks :: "Sha1 \<Rightarrow> Sha1" where
  "drain_blocks s =
     (if 64 \<le> length (sha_buffer s)
      then drain_blocks ((processBlock (sha_buffer s) s)\<lparr>sha_buffer := drop 64 (sha_buffer s)\<rparr>)
      else s)"
  by pat_completeness auto
termination
  by (relation "measure (\<lambda>s. length (sha_buffer s))") auto

declare drain_blocks.simps [simp del]

definition Sha1_update :: "byte list \<Rightarrow> Sha1 \<Rightarrow> Sha1" where
  "Sha1_update data s =
     drain_blocks (s\<lparr>m_totalBytes := m_totalBytes s + of_nat (length data), sha_buffer := sha_buffer s @ data\<rparr>)"

text \<open>\<open>while ((m_buffer.size() % 64) != 56) m_buffer.push_back(0x00)\<close>\<close>

lemma pad_step:
  fixes r :: nat
  assumes "r < 64" "r \<noteq> 56"
  shows "(120 - r) mod 64 = Suc ((120 - (if r = 63 then 0 else Suc r)) mod 64)"
proof (cases "r < 56")
  case True
  then have "(120 - r) mod 64 = 56 - r" "(120 - Suc r) mod 64 = 55 - r"
    using mod_add_self1 [of 64 "56 - r"] mod_add_self1 [of 64 "55 - r"] by (simp_all add: algebra_simps)
  then show ?thesis using True by simp
next
  case False
  with assms show ?thesis by auto
qed

function pad_to_56 :: "byte list \<Rightarrow> byte list" where
  "pad_to_56 buf = (if length buf mod 64 \<noteq> 56 then pad_to_56 (buf @ [0x00]) else buf)"
  by pat_completeness auto
termination
proof (relation "measure (\<lambda>buf. (120 - length buf mod 64) mod 64)", simp, clarsimp)
  fix buf :: "byte list"
  assume "length buf mod 64 \<noteq> 56"
  moreover have "Suc (length buf) mod 64 = (if length buf mod 64 = 63 then 0 else Suc (length buf mod 64))"
    by (simp add: mod_Suc)
  ultimately show "(120 - Suc (length buf) mod 64) mod 64 < (120 - length buf mod 64) mod 64"
    using pad_step [of "length buf mod 64"] by simp
qed

declare pad_to_56.simps [simp del]

definition bits_suffix :: "u64 \<Rightarrow> byte list" where
  "bits_suffix totalBits = map (\<lambda>shift. ucast (drop_bit shift totalBits AND 0xFF)) [56, 48, 40, 32, 24, 16, 8, 0]"

text \<open>\<open>for (offset = 0; offset < m_buffer.size(); offset += 64) processBlock(m_buffer.data() + offset)\<close>\<close>

fun process_blocks :: "byte list \<Rightarrow> Sha1 \<Rightarrow> Sha1" where
  "process_blocks [] s = s"
| "process_blocks (b # bs) s = process_blocks (drop 63 bs) (processBlock (b # bs) s)"

declare process_blocks.simps(2) [simp del]

definition digest_of :: "Sha1 \<Rightarrow> byte list" where
  "digest_of s = writeWord (m_h0 s) @ writeWord (m_h1 s) @ writeWord (m_h2 s) @ writeWord (m_h3 s) @ writeWord (m_h4 s)"

definition Sha1_final :: "Sha1 \<Rightarrow> byte list \<times> Sha1" where
  "Sha1_final s =
     (let totalBits = m_totalBytes s * 8;
          buf = pad_to_56 (sha_buffer s @ [0x80]) @ bits_suffix totalBits;
          s' = process_blocks buf (s\<lparr>sha_buffer := buf\<rparr>)
      in (digest_of s', s'))"


subsection \<open>Streaming\<close>

text \<open>Reference: pad the whole message, then compress block after block (FIPS 180-4, 5.1.1 and 6.1.2).\<close>

definition sha1_padded :: "byte list \<Rightarrow> byte list" where
  "sha1_padded msg = msg @ [0x80] @ replicate ((119 - length msg mod 64) mod 64) 0 @ bits_suffix (of_nat (8 * length msg))"

definition sha1 :: "byte list \<Rightarrow> byte list" where
  "sha1 msg = digest_of (process_blocks (sha1_padded msg) Sha1_init)"

definition same_hash :: "Sha1 \<Rightarrow> Sha1 \<Rightarrow> bool" where
  "same_hash s t \<longleftrightarrow> m_h0 s = m_h0 t \<and> m_h1 s = m_h1 t \<and> m_h2 s = m_h2 t \<and> m_h3 s = m_h3 t \<and> m_h4 s = m_h4 t"

lemma schedule_take: "64 \<le> length x \<Longrightarrow> schedule (x @ y) = schedule x"
proof -
  assume x: "64 \<le> length x"
  have "map (\<lambda>i. readWord (drop (i * 4) (x @ y))) [0..<16] = map (\<lambda>i. readWord (drop (i * 4) x)) [0..<16]"
    using x by (intro map_cong) (auto simp: readWord_def nth_append)
  then show ?thesis by (simp only: schedule_def)
qed

lemma processBlock_append: "64 \<le> length x \<Longrightarrow> processBlock (x @ y) s = processBlock x s"
  by (simp add: processBlock_def schedule_take)

lemma same_hash_processBlock: "same_hash s t \<Longrightarrow> same_hash (processBlock b s) (processBlock b t)"
  by (auto simp: same_hash_def processBlock_def Let_def split: prod.splits)

lemma same_hash_process_blocks: "same_hash s t \<Longrightarrow> same_hash (process_blocks b s) (process_blocks b t)"
  by (induction b s arbitrary: t rule: process_blocks.induct) (auto simp: process_blocks.simps same_hash_processBlock)

lemma digest_of_same_hash: "same_hash s t \<Longrightarrow> digest_of s = digest_of t"
  by (simp add: same_hash_def digest_of_def)

text \<open>\<open>update\<close> keeps the hash of the full blocks of what it was given and the rest of it.\<close>

definition sha_inv :: "byte list \<Rightarrow> Sha1 \<Rightarrow> bool" where
  "sha_inv msg s \<longleftrightarrow> m_totalBytes s = of_nat (length msg) \<and> length (sha_buffer s) < 64 \<and>
     (\<exists>full. msg = full @ sha_buffer s \<and> length full mod 64 = 0 \<and> same_hash s (process_blocks full Sha1_init))"

lemma process_blocks_append:
  "length x mod 64 = 0 \<Longrightarrow> process_blocks (x @ y) s = process_blocks y (process_blocks x s)"
proof (induction x s rule: process_blocks.induct)
  case (2 b bs s)
  then have len: "64 \<le> length (b # bs)" by (metis length_Cons less_Suc_eq_le mod_less nat.distinct(1) not_less_eq_eq not_le)
  then have "length (drop 63 bs) mod 64 = 0" using "2.prems" by (simp add: le_mod_geq)
  from "2.IH" [OF this] show ?case
    using processBlock_append [OF len, of y s] len by (simp add: process_blocks.simps)
qed simp

lemma process_block_last:
  "length x mod 64 = 0 \<Longrightarrow> 64 \<le> length y \<Longrightarrow>
   process_blocks (x @ take 64 y) s = processBlock y (process_blocks x s)"
proof -
  assume x: "length x mod 64 = 0" and y: "64 \<le> length y"
  then obtain c cs where c: "take 64 y = c # cs" by (cases "take 64 y") auto
  have "length (take 64 y) = 64" using y by simp
  then have "drop 63 cs = []" using c by simp
  moreover have "processBlock y t = processBlock (take 64 y) t" for t
    using processBlock_append [of "take 64 y" "drop 64 y" t] y by simp
  ultimately show ?thesis using process_blocks_append [OF x, of "take 64 y" s] c by (simp add: process_blocks.simps)
qed

lemma drain_blocks_inv:
  assumes "m_totalBytes s = of_nat (length msg)" "msg = full @ sha_buffer s" "length full mod 64 = 0"
    "same_hash s (process_blocks full Sha1_init)"
  shows "sha_inv msg (drain_blocks s)"
  using assms
proof (induction s arbitrary: full rule: drain_blocks.induct)
  case (1 s)
  show ?case
  proof (cases "64 \<le> length (sha_buffer s)")
    case False
    with 1 show ?thesis by (auto simp: drain_blocks.simps [of s] sha_inv_def)
  next
    case True
    let ?s = "(processBlock (sha_buffer s) s)\<lparr>sha_buffer := drop 64 (sha_buffer s)\<rparr>"
    let ?full = "full @ take 64 (sha_buffer s)"
    have "same_hash (processBlock (sha_buffer s) s) (process_blocks ?full Sha1_init)"
      using "1.prems"(3,4) True by (simp add: process_block_last same_hash_processBlock)
    then have "same_hash ?s (process_blocks ?full Sha1_init)" by (simp add: same_hash_def)
    moreover have "m_totalBytes ?s = m_totalBytes s" by (simp add: processBlock_def Let_def split: prod.splits)
    moreover have "length ?full mod 64 = 0" using "1.prems"(3) True by (simp add: min_absorb2)
    ultimately have "sha_inv msg (drain_blocks ?s)"
      using "1.prems" True by (intro "1.IH" [of ?full]) auto
    then show ?thesis using True by (simp add: drain_blocks.simps [of s])
  qed
qed

lemma sha_inv_update: "sha_inv msg s \<Longrightarrow> sha_inv (msg @ data) (Sha1_update data s)"
proof -
  assume "sha_inv msg s"
  then obtain full where "m_totalBytes s = of_nat (length msg)" "msg = full @ sha_buffer s"
    "length full mod 64 = 0" "same_hash s (process_blocks full Sha1_init)" by (auto simp: sha_inv_def)
  then show ?thesis unfolding Sha1_update_def
    by (intro drain_blocks_inv [of _ _ full]) (simp_all add: same_hash_def)
qed

lemma sha_inv_updates: "sha_inv msg s \<Longrightarrow> sha_inv (msg @ concat pieces) (fold Sha1_update pieces s)"
proof (induction pieces arbitrary: msg s)
  case (Cons p ps)
  from Cons.IH [OF sha_inv_update [OF Cons.prems, of p]] show ?case by simp
qed simp

lemma sha_inv_init: "sha_inv [] Sha1_init"
  by (auto simp: sha_inv_def Sha1_init_def same_hash_def)

lemma pad_to_56_zeros: "pad_to_56 buf = buf @ replicate ((120 - length buf mod 64) mod 64) 0"
proof (induction buf rule: pad_to_56.induct)
  case (1 buf)
  show ?case
  proof (cases "length buf mod 64 = 56")
    case False
    have next_r: "Suc (length buf) mod 64 = (if length buf mod 64 = 63 then 0 else Suc (length buf mod 64))"
      by (simp add: mod_Suc)
    have "(120 - length buf mod 64) mod 64 = Suc ((120 - Suc (length buf) mod 64) mod 64)"
      unfolding next_r using False pad_step [of "length buf mod 64"] by simp
    with 1 False show ?thesis by (simp add: pad_to_56.simps [of buf])
  qed (simp add: pad_to_56.simps [of buf])
qed

lemma pad_shift: "(119 - n mod 64) mod 64 = (120 - Suc n mod 64) mod (64::nat)"
  using mod_Suc [of n 64] by (cases "n mod 64 = 63") auto

text \<open>
  C12. The digest does not depend on how the message is cut: after any sequence of \<open>update\<close> calls
  \<open>final\<close> returns the digest of the concatenation, computed by padding the whole message and
  compressing block after block.
\<close>
theorem sha1_streaming:
  "fst (Sha1_final (fold Sha1_update pieces Sha1_init)) = sha1 (concat pieces)"
proof -
  let ?msg = "concat pieces" and ?s = "fold Sha1_update pieces Sha1_init"
  have "sha_inv ?msg ?s" using sha_inv_updates [OF sha_inv_init, of pieces] by simp
  then obtain full where total: "m_totalBytes ?s = of_nat (length ?msg)" and msg: "?msg = full @ sha_buffer ?s"
    and full: "length full mod 64 = 0" and hash: "same_hash ?s (process_blocks full Sha1_init)"
    by (auto simp: sha_inv_def)
  have "length ?msg mod 64 = length (sha_buffer ?s) mod 64"
    using full by (simp add: msg) (metis add_0 mod_add_left_eq)
  then have pad: "sha1_padded ?msg = full @ (pad_to_56 (sha_buffer ?s @ [0x80]) @ bits_suffix (m_totalBytes ?s * 8))"
    by (simp add: sha1_padded_def total msg pad_to_56_zeros pad_shift mult.commute)
  let ?buf = "pad_to_56 (sha_buffer ?s @ [0x80]) @ bits_suffix (m_totalBytes ?s * 8)"
  have "same_hash (?s\<lparr>sha_buffer := ?buf\<rparr>) (process_blocks full Sha1_init)"
    using hash by (simp add: same_hash_def)
  then have "same_hash (process_blocks ?buf (?s\<lparr>sha_buffer := ?buf\<rparr>)) (process_blocks (sha1_padded ?msg) Sha1_init)"
    using same_hash_process_blocks by (simp only: pad process_blocks_append [OF full])
  then show ?thesis by (simp add: Sha1_final_def Let_def sha1_def digest_of_same_hash)
qed


lemma length_digest [simp]: "length (digest_of s) = 20"
  by (simp add: digest_of_def writeWord_def)

end
