(* ===== verification/WebSocketHandshake.thy ===== *)
theory WebSocketHandshake
  imports StdMap Digests
begin

text \<open>
  The WebSocket opening handshake (\<open>WebSocket/src/SNFWebSocket/WebSocketHandshake.cpp\<close>): building
  and checking the client's upgrade request and the server's answer. A function that returns false
  and sets \<open>errorMessage\<close> returns \<open>Inl errorMessage\<close>.
\<close>

section \<open>Text\<close>

definition kWebSocketGuid :: string where
  "kWebSocketGuid = ''258EAFA5-E914-47DA-95CA-C5AB0DC85B11''"

definition toLower :: "string \<Rightarrow> string" where
  "toLower value = map to_lower value"

definition trim_char :: "char \<Rightarrow> bool" where
  "trim_char c \<longleftrightarrow> c \<in> {CHR '' '', tab, cr, lf}"

definition trim :: "string \<Rightarrow> string" where
  "trim value = strip trim_char value"

definition containsToken :: "string \<Rightarrow> string \<Rightarrow> bool" where
  "containsToken value expectedToken \<longleftrightarrow>
     list_ex (\<lambda>token. toLower (trim token) = expectedToken) (getlines (CHR '','') value)"

text \<open>\<open>stream >> statusCode\<close> for an \<open>int\<close>: digits with an optional sign; a value out of range fails.\<close>

definition get_int :: "string \<Rightarrow> int option" where
  "get_int s =
     (let (neg, t) = skip_sign (dropWhile is_space s)
      in if \<not> has_digit 10 t then None
         else let n = int (read_digits 10 0 t); v = (if neg then - n else n)
              in if - (2 ^ 31) \<le> v \<and> v < 2 ^ 31 then Some v else None)"

section \<open>Messages\<close>

record HttpMessage =
  hm_startLine :: string
  hm_headers :: "(string, string) smap"

definition headerValue :: "HttpMessage \<Rightarrow> string \<Rightarrow> string" where
  "headerValue message key = (case smap_get (hm_headers message) (toLower key) of None \<Rightarrow> [] | Some v \<Rightarrow> v)"

definition formatHostHeader :: "string \<Rightarrow> 16 word \<Rightarrow> string" where
  "formatHostHeader host port =
     (let host = (if find_char (CHR '':'') host \<noteq> None \<and> (host = [] \<or> hd host \<noteq> CHR ''['')
                  then ''['' @ host @ '']'' else host)
      in host @ '':'' @ show_nat (unat port))"

definition computeAcceptKey :: "string \<Rightarrow> string" where
  "computeAcceptKey clientKey =
     (let sha1 = Sha1_update (map of_char (clientKey @ kWebSocketGuid)) Sha1_init
      in base64Encode (fst (Sha1_final sha1)))"

definition buildClientHandshakeRequest :: "string \<Rightarrow> 16 word \<Rightarrow> string \<Rightarrow> string \<Rightarrow> string" where
  "buildClientHandshakeRequest host port path clientKey =
     (let requestPath = (if path = [] then ''/'' else if hd path = CHR ''/'' then path else ''/'' @ path)
      in ''GET '' @ requestPath @ '' HTTP/1.1'' @ crlf @
         ''Host: '' @ formatHostHeader host port @ crlf @
         ''Upgrade: websocket'' @ crlf @
         ''Connection: Upgrade'' @ crlf @
         ''Sec-WebSocket-Key: '' @ clientKey @ crlf @
         ''Sec-WebSocket-Version: 13'' @ crlf @ crlf)"

definition buildServerHandshakeResponse :: "string \<Rightarrow> string" where
  "buildServerHandshakeResponse clientKey =
     ''HTTP/1.1 101 Switching Protocols'' @ crlf @
     ''Upgrade: websocket'' @ crlf @
     ''Connection: Upgrade'' @ crlf @
     ''Sec-WebSocket-Accept: '' @ computeAcceptKey clientKey @ crlf @ crlf"

text \<open>The header lines, up to the first blank one.\<close>

fun parse_header_lines :: "string list \<Rightarrow> (string, string) smap \<Rightarrow> string + (string, string) smap" where
  "parse_header_lines [] m = Inr m"
| "parse_header_lines (l # ls) m =
     (let line = trim l
      in if line = [] then Inr m
         else case find_char (CHR '':'') line of
                None \<Rightarrow> Inl ''Invalid HTTP header line''
              | Some colon \<Rightarrow>
                  parse_header_lines ls (smap_put (toLower (trim (take colon line))) (trim (drop (Suc colon) line)) m))"

definition parseHttpMessage :: "string \<Rightarrow> string + HttpMessage" where
  "parseHttpMessage raw =
     (case getlines lf raw of
        [] \<Rightarrow> Inl ''Missing HTTP start line''
      | first # rest \<Rightarrow>
          let start = trim first
          in if start = [] then Inl ''Empty HTTP start line''
             else case parse_header_lines rest [] of
                    Inl e \<Rightarrow> Inl e
                  | Inr headers \<Rightarrow> Inr \<lparr>hm_startLine = start, hm_headers = headers\<rparr>)"

definition status_line_ok :: "string \<Rightarrow> bool" where
  "status_line_ok line \<longleftrightarrow>
     (case get_word line of
        None \<Rightarrow> False
      | Some (protocol, r) \<Rightarrow> (case get_int r of
                                   None \<Rightarrow> False
                                 | Some statusCode \<Rightarrow> prefix ''HTTP/'' protocol \<and> statusCode = 101))"

definition validateServerHandshakeResponse :: "string \<Rightarrow> string \<Rightarrow> string + unit" where
  "validateServerHandshakeResponse rawResponse expectedClientKey =
     (case parseHttpMessage rawResponse of
        Inl e \<Rightarrow> Inl e
      | Inr message \<Rightarrow>
          if \<not> status_line_ok (hm_startLine message) then Inl ''WebSocket server did not return HTTP 101''
          else if toLower (headerValue message ''Upgrade'') \<noteq> ''websocket''
          then Inl ''WebSocket server response missing Upgrade: websocket''
          else if \<not> containsToken (headerValue message ''Connection'') ''upgrade''
          then Inl ''WebSocket server response missing Connection: Upgrade''
          else if headerValue message ''Sec-WebSocket-Accept'' \<noteq> computeAcceptKey expectedClientKey
          then Inl ''WebSocket server response has invalid Sec-WebSocket-Accept''
          else Inr ())"

definition request_line_ok :: "string \<Rightarrow> bool" where
  "request_line_ok line \<longleftrightarrow>
     (case get_word line of
        None \<Rightarrow> False
      | Some (method, r1) \<Rightarrow>
          (case get_word r1 of
             None \<Rightarrow> False
           | Some (path, r2) \<Rightarrow>
               (case get_word r2 of
                  None \<Rightarrow> False
                | Some (protocol, _) \<Rightarrow> method = ''GET'' \<and> prefix ''HTTP/'' protocol)))"

definition validateClientHandshakeRequest :: "string \<Rightarrow> string + string" where
  "validateClientHandshakeRequest rawRequest =
     (case parseHttpMessage rawRequest of
        Inl e \<Rightarrow> Inl e
      | Inr message \<Rightarrow>
          if \<not> request_line_ok (hm_startLine message) then Inl ''Invalid WebSocket upgrade request line''
          else if toLower (headerValue message ''Upgrade'') \<noteq> ''websocket''
          then Inl ''WebSocket upgrade request missing Upgrade: websocket''
          else if \<not> containsToken (headerValue message ''Connection'') ''upgrade''
          then Inl ''WebSocket upgrade request missing Connection: Upgrade''
          else if headerValue message ''Sec-WebSocket-Version'' \<noteq> ''13'' then Inl ''Unsupported WebSocket version''
          else let clientKey = headerValue message ''Sec-WebSocket-Key''
               in if clientKey = [] then Inl ''WebSocket upgrade request missing Sec-WebSocket-Key''
                  else if \<not> isValidClientKey clientKey
                  then Inl ''WebSocket upgrade request has invalid Sec-WebSocket-Key''
                  else Inr clientKey)"


section \<open>Messages line by line\<close>

definition render_lines :: "string list \<Rightarrow> string" where
  "render_lines ls = concat (map (\<lambda>l. l @ crlf) ls) @ crlf"

definition header_line :: "string \<times> string \<Rightarrow> string" where
  "header_line kv = fst kv @ '': '' @ snd kv"

text \<open>A header that survives trimming.\<close>

definition plain_header :: "string \<times> string \<Rightarrow> bool" where
  "plain_header kv \<longleftrightarrow> fst kv \<noteq> [] \<and> stripped trim_char (fst kv) \<and> stripped trim_char (snd kv) \<and> snd kv \<noteq> []
     \<and> CHR '':'' \<notin> set (fst kv) \<and> lf \<notin> set (fst kv) \<and> lf \<notin> set (snd kv)"

lemma trim_id [simp]: "stripped trim_char s \<Longrightarrow> trim s = s"
  by (simp add: trim_def strip_id)

lemma trim_cr [simp]: "trim (s @ [cr]) = trim s"
  by (simp add: trim_def strip_right trim_char_def)

lemma trim_space [simp]: "trim (CHR '' '' # s) = trim s"
  by (simp add: trim_def strip_left trim_char_def)

lemma getlines_render:
  "\<forall>l \<in> set ls. lf \<notin> set l \<Longrightarrow> getlines lf (render_lines ls) = map (\<lambda>l. l @ [cr]) ls @ [[cr]]"
proof -
  assume "\<forall>l \<in> set ls. lf \<notin> set l"
  then have "\<forall>p \<in> set (map (\<lambda>l. l @ [cr]) ls). lf \<notin> set p" by auto
  from getlines_concat [OF this, of "[cr, lf]"] show ?thesis
    using getlines_piece [of lf "[cr]" "[]"] by (simp add: render_lines_def comp_def)
qed

lemma plain_header_line:
  assumes "plain_header kv"
  shows "trim (header_line kv) = header_line kv" "header_line kv \<noteq> []"
    "find_char (CHR '':'') (header_line kv) = Some (length (fst kv))"
    "take (length (fst kv)) (header_line kv) = fst kv"
    "trim (drop (Suc (length (fst kv))) (header_line kv)) = snd kv"
proof -
  have "stripped trim_char (header_line kv)"
    using assms by (auto simp: plain_header_def header_line_def stripped_def)
  then show "trim (header_line kv) = header_line kv" by simp
qed (use assms in \<open>simp_all add: plain_header_def header_line_def find_char_append\<close>)

lemma parse_plain_headers:
  "\<forall>kv \<in> set kvs. plain_header kv \<Longrightarrow>
   parse_header_lines (map (\<lambda>l. l @ [cr]) (map header_line kvs) @ [[cr]]) m
     = Inr (fold (\<lambda>(k, v). smap_put k v) (map (\<lambda>(k, v). (toLower k, v)) kvs) m)"
proof (induction kvs arbitrary: m)
  case Nil
  have "trim [cr] = []" using trim_cr [of "[]"] by (simp add: stripped_def)
  then show ?case by simp
next
  case (Cons kv kvs)
  have "trim (fst kv) = fst kv" using Cons.prems by (simp add: plain_header_def)
  then show ?case using Cons plain_header_line [of kv]
    by (simp add: Let_def split: prod.splits)
qed

text \<open>What the headers of a rendered message are looked up as.\<close>

lemma headers_of_rendered:
  assumes "trim start = start" "start \<noteq> []" "lf \<notin> set start" "\<forall>kv \<in> set kvs. plain_header kv"
  shows "\<exists>h. parseHttpMessage (render_lines (start # map header_line kvs)) = Inr \<lparr>hm_startLine = start, hm_headers = h\<rparr>
     \<and> smap_get h = map_of (rev (map (\<lambda>(k, v). (toLower k, v)) kvs))"
proof -
  have "\<forall>l \<in> set (start # map header_line kvs). lf \<notin> set l"
    using assms(3,4) by (auto simp: plain_header_def header_line_def)
  from getlines_render [OF this]
  have "parseHttpMessage (render_lines (start # map header_line kvs))
     = Inr \<lparr>hm_startLine = start, hm_headers = fold (\<lambda>(k, v). smap_put k v) (map (\<lambda>(k, v). (toLower k, v)) kvs) []\<rparr>"
    using assms parse_plain_headers [OF assms(4), of "[]"] by (simp add: parseHttpMessage_def)
  moreover have "smap_get (fold (\<lambda>(k, v). smap_put k v) kvs' []) = map_of (rev kvs')" for kvs' :: "(string \<times> string) list"
    using sm.get_puts [of "[]" kvs'] by (simp add: map_add_def fun_eq_iff split: option.split)
  ultimately show ?thesis by blast
qed


section \<open>Both ends agree\<close>

lemma base64_chars: "c \<in> set (base64Encode data) \<Longrightarrow> c = CHR ''='' \<or> (\<exists>k < 64. c = alphabet ! k)"
  by (induction data rule: by_threes.induct)
    (auto simp: base64Encode_1 base64Encode_2 base64Encode_3 enc_def intro: six_bits)

lemma alphabet_plain: "k < 64 \<Longrightarrow> \<not> trim_char (alphabet ! k)"
proof -
  assume "k < 64"
  then have "base64Value (alphabet ! k) = int k" by (simp add: alphabet_value)
  moreover have "trim_char c \<Longrightarrow> base64Value c = - 1" for c
    by (auto simp: trim_char_def base64Value_def char_code_def)
  ultimately show ?thesis by force
qed

lemma base64_plain: "c \<in> set (base64Encode data) \<Longrightarrow> \<not> trim_char c"
  using base64_chars [of c data] alphabet_plain by (auto simp: trim_char_def)

lemma stripped_plain: "\<forall>c \<in> set s. \<not> trim_char c \<Longrightarrow> stripped trim_char s"
  by (auto simp: stripped_def)

lemma plain_header_base64: 
  "fst kv \<noteq> [] \<Longrightarrow> stripped trim_char (fst kv) \<Longrightarrow> CHR '':'' \<notin> set (fst kv) \<Longrightarrow> lf \<notin> set (fst kv) \<Longrightarrow>
   data \<noteq> [] \<Longrightarrow> snd kv = base64Encode data \<Longrightarrow> plain_header kv"
proof -
  have "stripped trim_char (base64Encode data)" using base64_plain by (blast intro: stripped_plain)
  moreover have "lf \<notin> set (base64Encode data)" using base64_plain [of lf data] by (auto simp: trim_char_def)
  moreover have "data \<noteq> [] \<Longrightarrow> base64Encode data \<noteq> []" using decode_encode [of data] by (auto simp: base64Decode_def)
  ultimately show "fst kv \<noteq> [] \<Longrightarrow> stripped trim_char (fst kv) \<Longrightarrow> CHR '':'' \<notin> set (fst kv) \<Longrightarrow>
      lf \<notin> set (fst kv) \<Longrightarrow> data \<noteq> [] \<Longrightarrow> snd kv = base64Encode data \<Longrightarrow> plain_header kv"
    by (simp add: plain_header_def)
qed

lemma acceptKey_is_base64: "\<exists>digest. digest \<noteq> [] \<and> computeAcceptKey key = base64Encode digest"
proof -
  have "fst (Sha1_final s) \<noteq> []" for s
    by (simp add: Sha1_final_def Let_def digest_of_def writeWord_def)
  then show ?thesis by (auto simp: computeAcceptKey_def Let_def)
qed

definition server_headers :: "string \<Rightarrow> (string \<times> string) list" where
  "server_headers accept = [(''Upgrade'', ''websocket''), (''Connection'', ''Upgrade''), (''Sec-WebSocket-Accept'', accept)]"

lemma response_lines:
  "buildServerHandshakeResponse key
     = render_lines (''HTTP/1.1 101 Switching Protocols'' # map header_line (server_headers (computeAcceptKey key)))"
  by (simp add: buildServerHandshakeResponse_def render_lines_def server_headers_def header_line_def)

lemma fixed_headers_plain [simp]:
  "plain_header (''Upgrade'', ''websocket'')" "plain_header (''Connection'', ''Upgrade'')"
  "plain_header (''Sec-WebSocket-Version'', ''13'')"
  by (simp_all add: plain_header_def stripped_def trim_char_def)

lemma server_headers_plain: "\<forall>kv \<in> set (server_headers (computeAcceptKey key)). plain_header kv"
proof -
  obtain d where "d \<noteq> []" "computeAcceptKey key = base64Encode d" using acceptKey_is_base64 by blast
  then have "plain_header (''Sec-WebSocket-Accept'', computeAcceptKey key)"
    by (intro plain_header_base64 [of _ d]) (simp_all add: stripped_def trim_char_def)
  then show ?thesis by (simp add: server_headers_def)
qed

lemma lower_names:
  "toLower ''Upgrade'' = ''upgrade''" "toLower ''Connection'' = ''connection''" "toLower ''Host'' = ''host''"
  "toLower ''websocket'' = ''websocket''" "toLower ''Sec-WebSocket-Accept'' = ''sec-websocket-accept''"
  "toLower ''Sec-WebSocket-Key'' = ''sec-websocket-key''" "toLower ''Sec-WebSocket-Version'' = ''sec-websocket-version''"
  by code_simp+

lemma containsToken_upgrade: "containsToken ''Upgrade'' ''upgrade''"
  by (simp add: containsToken_def getlines_last stripped_def trim_char_def lower_names)

lemma status_line_101: "status_line_ok ''HTTP/1.1 101 Switching Protocols''"
  by code_simp

text \<open>
  A client accepts the answer a server builds exactly when the answer was computed from a key
  with the same accept value, in particular when both use the same key; no answer of
  \<open>buildServerHandshakeResponse\<close> is rejected for any other reason.
\<close>
theorem server_answer_accepted_iff:
  "validateServerHandshakeResponse (buildServerHandshakeResponse key) expected =
     (if computeAcceptKey key = computeAcceptKey expected then Inr ()
      else Inl ''WebSocket server response has invalid Sec-WebSocket-Accept'')"
proof -
  have t: "trim ''HTTP/1.1 101 Switching Protocols'' = ''HTTP/1.1 101 Switching Protocols''"
    by (rule trim_id) (simp add: stripped_def trim_char_def)
  obtain h where msg: "parseHttpMessage (buildServerHandshakeResponse key)
       = Inr \<lparr>hm_startLine = ''HTTP/1.1 101 Switching Protocols'', hm_headers = h\<rparr>"
    and h: "smap_get h = map_of (rev (map (\<lambda>(k, v). (toLower k, v)) (server_headers (computeAcceptKey key))))"
    using headers_of_rendered [OF t _ _ server_headers_plain, of key] by (auto simp: response_lines)
  have "headerValue \<lparr>hm_startLine = x, hm_headers = h\<rparr> ''Upgrade'' = ''websocket''"
    "headerValue \<lparr>hm_startLine = x, hm_headers = h\<rparr> ''Connection'' = ''Upgrade''"
    "headerValue \<lparr>hm_startLine = x, hm_headers = h\<rparr> ''Sec-WebSocket-Accept'' = computeAcceptKey key" for x
    by (simp_all add: headerValue_def h server_headers_def lower_names)
  then show ?thesis
    by (simp add: lower_names validateServerHandshakeResponse_def msg status_line_101 containsToken_upgrade)
qed


definition client_headers :: "string \<Rightarrow> string \<Rightarrow> (string \<times> string) list" where
  "client_headers host key =
     [(''Host'', host), (''Upgrade'', ''websocket''), (''Connection'', ''Upgrade''),
      (''Sec-WebSocket-Key'', key), (''Sec-WebSocket-Version'', ''13'')]"

definition request_path :: "string \<Rightarrow> string" where
  "request_path path = (if path = [] then ''/'' else if hd path = CHR ''/'' then path else ''/'' @ path)"

lemma request_lines:
  "buildClientHandshakeRequest host port path key
     = render_lines ((''GET '' @ request_path path @ '' HTTP/1.1'') # map header_line (client_headers (formatHostHeader host port) key))"
  by (simp add: buildClientHandshakeRequest_def Let_def request_path_def render_lines_def client_headers_def header_line_def)

lemma word_like_request_path: "\<forall>c \<in> set path. \<not> is_space c \<Longrightarrow> word_like (request_path path)"
  by (auto simp: word_like_def request_path_def is_space_def)

lemma request_line_accepted:
  assumes "word_like p"
  shows "request_line_ok (''GET '' @ p @ '' HTTP/1.1'')"
proof -
  have sp: "is_space (CHR '' '')" by (simp add: is_space_def)
  have "word_like ''GET''" and http: "word_like ''HTTP/1.1''" by (simp_all add: word_like_def is_space_def)
  note get_word_stop [OF this(1) sp, of "p @ '' HTTP/1.1''"] get_word_end [OF http]
  moreover have "get_word (CHR '' '' # p @ '' HTTP/1.1'') = Some (p, '' HTTP/1.1'')"
    using get_word_skip [OF sp] get_word_stop [OF assms sp, of "''HTTP/1.1''"] by simp
  moreover have "get_word '' HTTP/1.1'' = get_word ''HTTP/1.1''" by (rule get_word_skip [OF sp])
  ultimately show ?thesis by (simp add: request_line_ok_def)
qed

text \<open>A host name that can stand in a header: no line break and no leading blank.\<close>

definition plain_host :: "string \<Rightarrow> bool" where
  "plain_host host \<longleftrightarrow> lf \<notin> set host \<and> (host = [] \<or> \<not> trim_char (hd host))"

lemma digit_plain: "is_digit c \<Longrightarrow> \<not> trim_char c"
  by (auto simp: is_digit_def trim_char_def char_code_def)

lemma delims_plain [simp]: "\<not> trim_char (CHR '':'')" "\<not> trim_char (CHR ''['')"
  by (simp_all add: trim_char_def)

lemma plain_host_header:
  assumes "plain_host host"
  shows "plain_header (''Host'', formatHostHeader host port)"
proof -
  have d: "\<forall>c \<in> set (show_nat (unat port)). \<not> trim_char c" using show_nat_digits digit_plain by blast
  then have "lf \<notin> set (show_nat (unat port))" by (auto simp: trim_char_def)
  moreover have "\<not> trim_char (last (show_nat (unat port)))" using d by simp
  ultimately show ?thesis using assms
    by (auto simp: plain_header_def formatHostHeader_def Let_def stripped_def plain_host_def hd_append) (simp_all add: trim_char_def)
qed

lemma client_headers_plain:
  "plain_host host \<Longrightarrow> bytes \<noteq> [] \<Longrightarrow>
   \<forall>kv \<in> set (client_headers (formatHostHeader host port) (createClientKey bytes)). plain_header kv"
proof -
  assume "plain_host host" and b: "bytes \<noteq> []"
  moreover have "plain_header (''Sec-WebSocket-Key'', createClientKey bytes)"
    using b by (intro plain_header_base64 [of _ bytes]) (simp_all add: stripped_def trim_char_def createClientKey_def)
  ultimately show ?thesis by (simp add: client_headers_def plain_host_header)
qed

text \<open>
  A server accepts every upgrade request a client builds with a key of \<open>createClientKey\<close> (sixteen
  random bytes), for any port, any path without white space and any host name without line breaks
  or leading blanks, and it reads the client's key out of it.
\<close>
theorem client_request_accepted:
  assumes "plain_host host" "\<forall>c \<in> set path. \<not> is_space c" "length bytes = 16"
  shows "validateClientHandshakeRequest (buildClientHandshakeRequest host port path (createClientKey bytes))
    = Inr (createClientKey bytes)"
proof -
  let ?key = "createClientKey bytes" and ?start = "''GET '' @ request_path path @ '' HTTP/1.1''"
  have b: "bytes \<noteq> []" using assms(3) by auto
  have w: "word_like (request_path path)" using assms(2) by (rule word_like_request_path)
  then have start: "trim ?start = ?start" "?start \<noteq> []" "lf \<notin> set ?start"
    by (auto simp: stripped_def trim_char_def word_like_def is_space_def)
  obtain h where msg: "parseHttpMessage (buildClientHandshakeRequest host port path ?key)
       = Inr \<lparr>hm_startLine = ?start, hm_headers = h\<rparr>"
    and h: "smap_get h = map_of (rev (map (\<lambda>(k, v). (toLower k, v)) (client_headers (formatHostHeader host port) ?key)))"
    using headers_of_rendered [OF start client_headers_plain [OF assms(1) b, of port]] unfolding request_lines by blast
  have "headerValue \<lparr>hm_startLine = x, hm_headers = h\<rparr> ''Upgrade'' = ''websocket''"
    "headerValue \<lparr>hm_startLine = x, hm_headers = h\<rparr> ''Connection'' = ''Upgrade''"
    "headerValue \<lparr>hm_startLine = x, hm_headers = h\<rparr> ''Sec-WebSocket-Version'' = ''13''"
    "headerValue \<lparr>hm_startLine = x, hm_headers = h\<rparr> ''Sec-WebSocket-Key'' = ?key" for x
    by (simp_all add: headerValue_def h client_headers_def lower_names)
  moreover have valid: "isValidClientKey ?key" using assms(3) by (rule isValidClientKey_created)
  moreover have "?key \<noteq> []" using valid by (auto simp: isValidClientKey_def base64Decode_def)
  moreover have "request_line_ok ?start" using w by (rule request_line_accepted)
  ultimately show ?thesis
    by (simp add: validateClientHandshakeRequest_def msg lower_names containsToken_upgrade)
qed

theorem client_request_accepted_witness:
  "plain_host ''::1'' \<and> list_all (\<lambda>c. \<not> is_space c) ''/chat'' \<and> length (replicate 16 (7 :: byte)) = 16 \<and>
   validateClientHandshakeRequest (buildClientHandshakeRequest ''::1'' 8080 ''/chat'' (createClientKey (replicate 16 7)))
     = Inr (createClientKey (replicate 16 7))"
proof -
  have "plain_host ''::1''" "\<forall>c \<in> set ''/chat''. \<not> is_space c" "length (replicate 16 (7 :: byte)) = 16"
    by (simp_all add: plain_host_def trim_char_def is_space_def)
  then show ?thesis using client_request_accepted [of "''::1''" "''/chat''" "replicate 16 7" 8080]
    unfolding list_all_iff by blast
qed

end
