(* ===== verification/IniFiles.thy ===== *)
theory IniFiles
  imports StdMap
begin

text \<open>
  \<open>Core/src/SNFCore/IniParser\<close>: reading, querying, changing and writing INI files. A section keeps a
  \<open>std::map\<close> of its values beside the order in which its keys were first seen, the parser the same
  for the sections; the global section is the one with the empty name. Files are a map from paths
  to contents; whether a file can be opened or written is an argument, and so is \<open>std::strtod\<close>.
\<close>

section \<open>Text\<close>

definition ini_trim :: "string \<Rightarrow> string" where
  "ini_trim value = strip is_space value"

definition isCommentLine :: "string \<Rightarrow> bool" where
  "isCommentLine line \<longleftrightarrow> line \<noteq> [] \<and> (hd line = CHR '';'' \<or> hd line = CHR ''#'')"

text \<open>The position of the comment: \<open>;\<close> or \<open>#\<close> at the start or behind white space.\<close>

fun comment_pos :: "bool \<Rightarrow> string \<Rightarrow> nat option" where
  "comment_pos atBreak [] = None"
| "comment_pos atBreak (c # cs) =
     (if (c = CHR '';'' \<or> c = CHR ''#'') \<and> atBreak then Some 0
      else map_option Suc (comment_pos (is_space c) cs))"

definition stripInlineComment :: "string \<Rightarrow> string" where
  "stripInlineComment value =
     (case comment_pos True value of Some i \<Rightarrow> ini_trim (take i value) | None \<Rightarrow> ini_trim value)"

text \<open>\<open>std::strtol\<close> on a C string, which ends at the first NUL; a 64-bit range error is outside the
  range of \<open>int\<close> too.\<close>

definition parseInt :: "string \<Rightarrow> int option" where
  "parseInt value =
     (let (neg, t) = skip_sign (dropWhile is_space (takeWhile (\<lambda>c. c \<noteq> CHR 0x00) value))
      in if \<not> has_digit 10 t \<or> dropWhile is_digit t \<noteq> [] then None
         else let n = int (read_digits 10 0 t); v = (if neg then - n else n)
              in if v < - (2 ^ 31) \<or> 2 ^ 31 - 1 < v then None else Some v)"

text \<open>\<open>strtod s\<close>: the value, the number of characters it takes, and whether it is out of range.\<close>

definition parseDouble :: "(string \<Rightarrow> 'd \<times> nat \<times> bool) \<Rightarrow> string \<Rightarrow> 'd option" where
  "parseDouble strtod value =
     (let s = takeWhile (\<lambda>c. c \<noteq> CHR 0x00) value; (v, used, erange) = strtod s
      in if used = 0 \<or> used < length s \<or> erange then None else Some v)"

definition parseBool :: "string \<Rightarrow> bool option" where
  "parseBool value =
     (let lowered = map to_lower (ini_trim value)
      in if lowered = ''1'' \<or> lowered = ''true'' \<or> lowered = ''yes'' \<or> lowered = ''on'' then Some True
         else if lowered = ''0'' \<or> lowered = ''false'' \<or> lowered = ''no'' \<or> lowered = ''off'' then Some False
         else None)"


section \<open>State\<close>

record SectionData =
  sd_values :: "(string, string) smap"
  sd_keyOrder :: "string list"

record IniParser =
  ip_data :: "(string, SectionData) smap"
  ip_sectionOrder :: "string list"
  ip_filePath :: string
  ip_errorText :: string

definition SectionData_init :: SectionData where
  "SectionData_init = \<lparr>sd_values = [], sd_keyOrder = []\<rparr>"

definition IniParser_init :: IniParser where
  "IniParser_init = \<lparr>ip_data = [], ip_sectionOrder = [], ip_filePath = [], ip_errorText = []\<rparr>"

definition IniParser_findSection :: "string \<Rightarrow> IniParser \<Rightarrow> SectionData option" where
  "IniParser_findSection s p = smap_get (ip_data p) s"

text \<open>\<open>m_data[section]\<close>, which creates a missing section.\<close>

definition section_at :: "(string, SectionData) smap \<Rightarrow> string \<Rightarrow> SectionData" where
  "section_at data s = (case smap_get data s of None \<Rightarrow> SectionData_init | Some d \<Rightarrow> d)"

definition ensureKeyTracked :: "string \<Rightarrow> SectionData \<Rightarrow> SectionData" where
  "ensureKeyTracked k d = (if k \<in> set (sd_keyOrder d) then d else d\<lparr>sd_keyOrder := sd_keyOrder d @ [k]\<rparr>)"

definition ensureSectionTracked :: "string \<Rightarrow> IniParser \<Rightarrow> IniParser" where
  "ensureSectionTracked s p =
     (if s = [] \<or> s \<in> set (ip_sectionOrder p) then p else p\<lparr>ip_sectionOrder := ip_sectionOrder p @ [s]\<rparr>)"


section \<open>Queries\<close>

definition IniParser_value :: "string \<Rightarrow> string \<Rightarrow> string \<Rightarrow> IniParser \<Rightarrow> string" where
  "IniParser_value s k defaultValue p =
     (case IniParser_findSection s p of
        None \<Rightarrow> defaultValue
      | Some d \<Rightarrow> (case smap_get (sd_values d) k of None \<Rightarrow> defaultValue | Some v \<Rightarrow> v))"

definition IniParser_intValue :: "string \<Rightarrow> string \<Rightarrow> int \<Rightarrow> IniParser \<Rightarrow> int" where
  "IniParser_intValue s k defaultValue p =
     (case parseInt (IniParser_value s k [] p) of None \<Rightarrow> defaultValue | Some v \<Rightarrow> v)"

definition IniParser_doubleValue ::
  "(string \<Rightarrow> 'd \<times> nat \<times> bool) \<Rightarrow> string \<Rightarrow> string \<Rightarrow> 'd \<Rightarrow> IniParser \<Rightarrow> 'd" where
  "IniParser_doubleValue strtod s k defaultValue p =
     (case parseDouble strtod (IniParser_value s k [] p) of None \<Rightarrow> defaultValue | Some v \<Rightarrow> v)"

definition IniParser_boolValue :: "string \<Rightarrow> string \<Rightarrow> bool \<Rightarrow> IniParser \<Rightarrow> bool" where
  "IniParser_boolValue s k defaultValue p =
     (case parseBool (IniParser_value s k [] p) of None \<Rightarrow> defaultValue | Some v \<Rightarrow> v)"

definition IniParser_contains :: "string \<Rightarrow> string \<Rightarrow> IniParser \<Rightarrow> bool" where
  "IniParser_contains s k p \<longleftrightarrow>
     (case IniParser_findSection s p of None \<Rightarrow> False | Some d \<Rightarrow> smap_get (sd_values d) k \<noteq> None)"

definition IniParser_hasSection :: "string \<Rightarrow> IniParser \<Rightarrow> bool" where
  "IniParser_hasSection s p \<longleftrightarrow> s \<noteq> [] \<and> smap_get (ip_data p) s \<noteq> None"

definition IniParser_sections :: "IniParser \<Rightarrow> string list" where
  "IniParser_sections p = ip_sectionOrder p"

definition IniParser_keys :: "string \<Rightarrow> IniParser \<Rightarrow> string list" where
  "IniParser_keys s p = (case IniParser_findSection s p of None \<Rightarrow> [] | Some d \<Rightarrow> sd_keyOrder d)"


section \<open>Changes\<close>

definition IniParser_setError :: "string \<Rightarrow> IniParser \<Rightarrow> IniParser" where
  "IniParser_setError msg p = p\<lparr>ip_errorText := msg\<rparr>"

definition IniParser_clearError :: "IniParser \<Rightarrow> IniParser" where
  "IniParser_clearError p = p\<lparr>ip_errorText := []\<rparr>"

definition IniParser_clear :: "IniParser \<Rightarrow> IniParser" where
  "IniParser_clear p = IniParser_clearError (p\<lparr>ip_data := [], ip_sectionOrder := []\<rparr>)"

definition IniParser_setValue :: "string \<Rightarrow> string \<Rightarrow> string \<Rightarrow> IniParser \<Rightarrow> IniParser" where
  "IniParser_setValue s k v p =
     (let d = ensureKeyTracked k (section_at (ip_data p) s);
          d = d\<lparr>sd_values := smap_put k v (sd_values d)\<rparr>
      in IniParser_clearError (ensureSectionTracked s (p\<lparr>ip_data := smap_put s d (ip_data p)\<rparr>)))"

definition drop_section :: "string \<Rightarrow> IniParser \<Rightarrow> IniParser" where
  "drop_section s p =
     p\<lparr>ip_data := smap_del s (ip_data p), ip_sectionOrder := erase_all s (ip_sectionOrder p)\<rparr>"

definition IniParser_remove :: "string \<Rightarrow> string \<Rightarrow> IniParser \<Rightarrow> bool \<times> IniParser" where
  "IniParser_remove s k p =
     (case IniParser_findSection s p of
        None \<Rightarrow> (False, p)
      | Some d \<Rightarrow>
          if smap_get (sd_values d) k = None then (False, p)
          else let d' = \<lparr>sd_values = smap_del k (sd_values d), sd_keyOrder = erase_all k (sd_keyOrder d)\<rparr>;
                   p' = p\<lparr>ip_data := smap_put s d' (ip_data p)\<rparr>
               in (True, if s \<noteq> [] \<and> sd_values d' = [] then drop_section s p' else p'))"

definition IniParser_removeSection :: "string \<Rightarrow> IniParser \<Rightarrow> bool \<times> IniParser" where
  "IniParser_removeSection s p =
     (if s = [] then (False, p)
      else if smap_get (ip_data p) s = None then (False, p)
      else (True, drop_section s p))"


section \<open>Reading\<close>

text \<open>The locals of \<open>loadFromString\<close>: \<open>parsedData\<close>, \<open>parsedSectionOrder\<close>, \<open>currentSection\<close>.\<close>

type_synonym ini_state = "(string, SectionData) smap \<times> string list \<times> string"

definition open_section :: "string \<Rightarrow> ini_state \<Rightarrow> ini_state" where
  "open_section s = (\<lambda>(data, order, _).
     if smap_get data s = None then (smap_put s SectionData_init data, order @ [s], s) else (data, order, s))"

definition add_entry :: "string \<Rightarrow> string \<Rightarrow> ini_state \<Rightarrow> ini_state" where
  "add_entry k v = (\<lambda>(data, order, s).
     let d = section_at data s;
         d = (if smap_get (sd_values d) k = None then d\<lparr>sd_keyOrder := sd_keyOrder d @ [k]\<rparr> else d);
         d = d\<lparr>sd_values := smap_put k v (sd_values d)\<rparr>
     in (smap_put s d data, if s \<noteq> [] \<and> s \<notin> set order then order @ [s] else order, s))"

definition drop_cr :: "string \<Rightarrow> string" where
  "drop_cr line = (if line \<noteq> [] \<and> last line = cr then butlast line else line)"

definition ini_line :: "nat \<Rightarrow> string \<Rightarrow> ini_state \<Rightarrow> string + ini_state" where
  "ini_line n line st =
     (let t = ini_trim (drop_cr line)
      in if t = [] \<or> isCommentLine t then Inr st
         else if hd t = CHR ''[''
         then if last t \<noteq> CHR '']'' then Inl (''Invalid section header on line '' @ show_nat n)
              else let s = ini_trim (take (length t - 2) (drop 1 t))
                   in if s = [] then Inl (''Empty section name on line '' @ show_nat n)
                      else Inr (open_section s st)
         else case find_char (CHR ''='') t of
                None \<Rightarrow> Inl (''Invalid key/value entry on line '' @ show_nat n)
              | Some i \<Rightarrow>
                  let k = ini_trim (take i t); v = stripInlineComment (drop (Suc i) t)
                  in if k = [] then Inl (''Empty key on line '' @ show_nat n)
                     else Inr (add_entry k v st))"

fun ini_lines :: "nat \<Rightarrow> string list \<Rightarrow> ini_state \<Rightarrow> string + ini_state" where
  "ini_lines n [] st = Inr st"
| "ini_lines n (l # ls) st = (case ini_line (Suc n) l st of Inl e \<Rightarrow> Inl e | Inr st' \<Rightarrow> ini_lines (Suc n) ls st')"

definition IniParser_loadFromString :: "string \<Rightarrow> IniParser \<Rightarrow> bool \<times> IniParser" where
  "IniParser_loadFromString content p =
     (case ini_lines 0 (getlines lf content) ([], [], []) of
        Inl e \<Rightarrow> (False, IniParser_setError e p)
      | Inr (data, order, _) \<Rightarrow>
          (True, IniParser_clearError (p\<lparr>ip_data := data, ip_sectionOrder := order, ip_filePath := []\<rparr>)))"

definition IniParser_load :: "(string \<Rightarrow> string option) \<Rightarrow> string \<Rightarrow> IniParser \<Rightarrow> bool \<times> IniParser" where
  "IniParser_load files filePath p =
     (case files filePath of
        None \<Rightarrow> (False, IniParser_setError (''Failed to open INI file: '' @ filePath)
                          ((IniParser_clear p)\<lparr>ip_filePath := []\<rparr>))
      | Some content \<Rightarrow>
          (let (ok, p') = IniParser_loadFromString content p
           in if \<not> ok then (False, p'\<lparr>ip_filePath := []\<rparr>) else (True, p'\<lparr>ip_filePath := filePath\<rparr>)))"


section \<open>Writing\<close>

definition entry_lines :: "SectionData \<Rightarrow> string" where
  "entry_lines d =
     concat (map (\<lambda>k. case smap_get (sd_values d) k of None \<Rightarrow> [] | Some v \<Rightarrow> k @ '' = '' @ v @ [lf]) (sd_keyOrder d))"

fun section_lines :: "IniParser \<Rightarrow> bool \<Rightarrow> string list \<Rightarrow> string" where
  "section_lines p wroteSection [] = []"
| "section_lines p wroteSection (s # ss) =
     (case IniParser_findSection s p of
        None \<Rightarrow> section_lines p wroteSection ss
      | Some d \<Rightarrow>
          if s = [] then section_lines p wroteSection ss
          else (if wroteSection then [lf] else []) @ ''['' @ s @ '']'' @ [lf] @ entry_lines d @ section_lines p True ss)"

definition IniParser_toString :: "IniParser \<Rightarrow> string" where
  "IniParser_toString p =
     (case IniParser_findSection [] p of
        None \<Rightarrow> section_lines p False (ip_sectionOrder p)
      | Some g \<Rightarrow> entry_lines g @ section_lines p (sd_keyOrder g \<noteq> []) (ip_sectionOrder p))"

text \<open>
  \<open>save(filePath)\<close> with the files, which paths open for writing, and what a failing write leaves of a
  file (\<open>None\<close> when the whole text is written and the stream stays good).
\<close>

definition IniParser_save_to ::
  "(string \<Rightarrow> bool) \<Rightarrow> (string \<Rightarrow> string option) \<Rightarrow> string \<Rightarrow> IniParser \<times> (string \<Rightarrow> string option)
     \<Rightarrow> bool \<times> IniParser \<times> (string \<Rightarrow> string option)" where
  "IniParser_save_to opens partial filePath = (\<lambda>(p, files).
     if \<not> opens filePath then (False, IniParser_setError (''Failed to write INI file: '' @ filePath) p, files)
     else case partial filePath of
            Some rest \<Rightarrow> (False, IniParser_setError (''Failed while writing INI file: '' @ filePath) p, files(filePath \<mapsto> rest))
          | None \<Rightarrow> (True, IniParser_clearError (p\<lparr>ip_filePath := filePath\<rparr>), files(filePath \<mapsto> IniParser_toString p)))"

definition IniParser_save ::
  "(string \<Rightarrow> bool) \<Rightarrow> (string \<Rightarrow> string option) \<Rightarrow> IniParser \<times> (string \<Rightarrow> string option)
     \<Rightarrow> bool \<times> IniParser \<times> (string \<Rightarrow> string option)" where
  "IniParser_save opens partial = (\<lambda>(p, files).
     if ip_filePath p = [] then (False, IniParser_setError ''No INI file path available for save()'' p, files)
     else IniParser_save_to opens partial (ip_filePath p) (p, files))"


section \<open>Well-formedness\<close>

definition section_ok :: "SectionData \<Rightarrow> bool" where
  "section_ok d \<longleftrightarrow> smap_ok (sd_values d) \<and> distinct (sd_keyOrder d)
     \<and> set (sd_keyOrder d) = dom (smap_get (sd_values d))"

definition tables_ok :: "(string, SectionData) smap \<Rightarrow> string list \<Rightarrow> bool" where
  "tables_ok data order \<longleftrightarrow> smap_ok data \<and> (\<forall>s d. smap_get data s = Some d \<longrightarrow> section_ok d)
     \<and> distinct order \<and> set order = dom (smap_get data) - {[]}"

definition ini_ok :: "IniParser \<Rightarrow> bool" where
  "ini_ok p \<longleftrightarrow> tables_ok (ip_data p) (ip_sectionOrder p)"

lemma section_ok_init [simp]: "section_ok SectionData_init"
  by (simp add: section_ok_def SectionData_init_def)

lemma section_ok_at: "tables_ok data order \<Longrightarrow> section_ok (section_at data s)"
  by (auto simp: tables_ok_def section_at_def split: option.splits)

lemma section_ok_put:
  "section_ok d \<Longrightarrow>
   section_ok ((ensureKeyTracked k d)\<lparr>sd_values := smap_put k v (sd_values d)\<rparr>)"
  by (auto simp: section_ok_def ensureKeyTracked_def)

lemma section_ok_erase:
  "section_ok d \<Longrightarrow> section_ok \<lparr>sd_values = smap_del k (sd_values d), sd_keyOrder = erase_all k (sd_keyOrder d)\<rparr>"
  by (auto simp: section_ok_def distinct_erase_all)

lemma tables_ok_put:
  "tables_ok data order \<Longrightarrow> section_ok d \<Longrightarrow>
   tables_ok (smap_put s d data) (if s = [] \<or> s \<in> set order then order else order @ [s])"
  by (auto simp: tables_ok_def)

lemma tables_ok_drop: "tables_ok data order \<Longrightarrow> tables_ok (smap_del s data) (erase_all s order)"
  by (auto simp: tables_ok_def distinct_erase_all)

lemma ini_ok_frame [simp]:
  "ini_ok (p\<lparr>ip_filePath := x\<rparr>) = ini_ok p" "ini_ok (p\<lparr>ip_errorText := x\<rparr>) = ini_ok p"
  "ini_ok (IniParser_setError x p) = ini_ok p" "ini_ok (IniParser_clearError p) = ini_ok p"
  by (simp_all add: ini_ok_def IniParser_setError_def IniParser_clearError_def)

lemma add_entry_tracked:
  "tables_ok data order \<Longrightarrow>
   (if smap_get (sd_values (section_at data s)) k = None
    then (section_at data s)\<lparr>sd_keyOrder := sd_keyOrder (section_at data s) @ [k]\<rparr> else section_at data s)
   = ensureKeyTracked k (section_at data s)"
  using section_ok_at [of data order s] by (auto simp: ensureKeyTracked_def section_ok_def)

lemma sd_values_ensureKeyTracked [simp]: "sd_values (ensureKeyTracked k d) = sd_values d"
  by (simp add: ensureKeyTracked_def)

definition state_ok :: "ini_state \<Rightarrow> bool" where
  "state_ok = (\<lambda>(data, order, _). tables_ok data order)"

lemma state_ok_open: "state_ok st \<Longrightarrow> s \<noteq> [] \<Longrightarrow> state_ok (open_section s st)"
proof -
  assume "state_ok st" "s \<noteq> []"
  moreover obtain data order c where "st = (data, order, c)" by (cases st)
  ultimately show ?thesis using tables_ok_put [of data order SectionData_init s]
    by (auto simp: state_ok_def open_section_def tables_ok_def split: if_splits)
qed

lemma state_ok_add: "state_ok st \<Longrightarrow> state_ok (add_entry k v st)"
proof -
  assume ok: "state_ok st"
  obtain data order s where st: "st = (data, order, s)" by (cases st)
  let ?d = "(ensureKeyTracked k (section_at data s))\<lparr>sd_values := smap_put k v (sd_values (section_at data s))\<rparr>"
  have t: "tables_ok data order" using ok by (simp add: st state_ok_def)
  then have "tables_ok (smap_put s ?d data) (if s = [] \<or> s \<in> set order then order else order @ [s])"
    by (intro tables_ok_put section_ok_put section_ok_at)
  moreover have "add_entry k v st = (smap_put s ?d data, if s = [] \<or> s \<in> set order then order else order @ [s], s)"
    unfolding st add_entry_def using add_entry_tracked [OF t, of s k] by (simp add: Let_def)
  ultimately show ?thesis by (simp add: state_ok_def)
qed

lemma state_ok_line: "ini_line n l st = Inr st' \<Longrightarrow> state_ok st \<Longrightarrow> state_ok st'"
  by (auto simp: ini_line_def Let_def state_ok_open state_ok_add split: if_splits option.splits)

lemma state_ok_lines: "ini_lines n ls st = Inr st' \<Longrightarrow> state_ok st \<Longrightarrow> state_ok st'"
  by (induction n ls st rule: ini_lines.induct) (auto split: sum.splits dest: state_ok_line)

lemma ini_ok_init: "ini_ok IniParser_init"
  by (simp add: ini_ok_def IniParser_init_def tables_ok_def)

lemma ini_ok_setValue [inv_step]: "ini_ok p \<Longrightarrow> ini_ok (IniParser_setValue s k v p)"
proof -
  let ?d = "section_at (ip_data p) s"
  let ?d' = "(ensureKeyTracked k ?d)\<lparr>sd_values := smap_put k v (sd_values ?d)\<rparr>"
  assume "ini_ok p"
  then have "tables_ok (ip_data p) (ip_sectionOrder p)" by (simp add: ini_ok_def)
  then have "tables_ok (smap_put s ?d' (ip_data p))
      (if s = [] \<or> s \<in> set (ip_sectionOrder p) then ip_sectionOrder p else ip_sectionOrder p @ [s])"
    by (intro tables_ok_put section_ok_put section_ok_at)
  then show ?thesis
    by (auto simp: IniParser_setValue_def ensureSectionTracked_def Let_def) (simp_all add: ini_ok_def)
qed

lemma ini_ok_drop: "ini_ok p \<Longrightarrow> ini_ok (drop_section s p)"
  by (simp add: ini_ok_def drop_section_def tables_ok_drop)

lemma ini_ok_remove [inv_step]: "ini_ok p \<Longrightarrow> ini_ok (snd (IniParser_remove s k p))"
proof -
  assume ok: "ini_ok p"
  have "ini_ok (p\<lparr>ip_data := smap_put s d (ip_data p)\<rparr>)"
    if "smap_get (ip_data p) s \<noteq> None" "section_ok d" for d
  proof -
    have "s = [] \<or> s \<in> set (ip_sectionOrder p)" using ok that by (auto simp: ini_ok_def tables_ok_def)
    then show ?thesis using tables_ok_put [OF _ that(2), of "ip_data p" "ip_sectionOrder p" s] ok by (simp add: ini_ok_def)
  qed
  note put = this
  show ?thesis
  proof (cases "smap_get (ip_data p) s")
    case None
    then show ?thesis using ok by (simp add: IniParser_remove_def IniParser_findSection_def)
  next
    case (Some d)
    let ?d = "\<lparr>sd_values = smap_del k (sd_values d), sd_keyOrder = erase_all k (sd_keyOrder d)\<rparr>"
    from Some have "section_ok ?d" using ok by (intro section_ok_erase) (auto simp: ini_ok_def tables_ok_def)
    with put Some have "ini_ok (p\<lparr>ip_data := smap_put s ?d (ip_data p)\<rparr>)" by blast
    note this ini_ok_drop [OF this] ok
    moreover have "snd (IniParser_remove s k p) = p \<or> snd (IniParser_remove s k p) = p\<lparr>ip_data := smap_put s ?d (ip_data p)\<rparr>
       \<or> snd (IniParser_remove s k p) = drop_section s (p\<lparr>ip_data := smap_put s ?d (ip_data p)\<rparr>)"
      using Some by (simp add: IniParser_remove_def IniParser_findSection_def Let_def)
    ultimately show ?thesis by metis
  qed
qed

lemma ini_ok_removeSection [inv_step]: "ini_ok p \<Longrightarrow> ini_ok (snd (IniParser_removeSection s p))"
  by (simp add: IniParser_removeSection_def ini_ok_drop)

lemma ini_ok_clear [inv_step]: "ini_ok (IniParser_clear p)"
  by (simp add: IniParser_clear_def ini_ok_def IniParser_clearError_def tables_ok_def)

lemma ini_ok_loadFromString [inv_step]: "ini_ok p \<Longrightarrow> ini_ok (snd (IniParser_loadFromString content p))"
proof (cases "ini_lines 0 (getlines lf content) ([], [], [])")
  case (Inr st)
  have "state_ok ([], [], [])" by (simp add: state_ok_def tables_ok_def)
  with Inr have "state_ok st" by (rule state_ok_lines)
  with Inr show ?thesis
    by (cases st) (simp add: IniParser_loadFromString_def state_ok_def, simp add: ini_ok_def)
qed (simp add: IniParser_loadFromString_def)

lemma ini_ok_load [inv_step]: "ini_ok p \<Longrightarrow> ini_ok (snd (IniParser_load files path p))"
proof (cases "files path")
  case (Some content)
  assume "ini_ok p"
  then have "ini_ok (snd (IniParser_loadFromString content p))" by (rule ini_ok_loadFromString)
  with Some show ?thesis
    by (cases "IniParser_loadFromString content p") (simp add: IniParser_load_def)
qed (simp add: IniParser_load_def ini_ok_clear)


section \<open>A store of settings\<close>

text \<open>
  What a client of the parser relies on: a value is what was last set, whatever else was changed.
\<close>

locale settings_store =
  fixes get :: "'p \<Rightarrow> string \<Rightarrow> string \<Rightarrow> string option"
    and set_value :: "string \<Rightarrow> string \<Rightarrow> string \<Rightarrow> 'p \<Rightarrow> 'p"
    and unset :: "string \<Rightarrow> string \<Rightarrow> 'p \<Rightarrow> 'p"
    and unset_section :: "string \<Rightarrow> 'p \<Rightarrow> 'p"
    and ok :: "'p \<Rightarrow> bool"
  assumes ok_set: "ok p \<Longrightarrow> ok (set_value s k v p)"
    and ok_unset: "ok p \<Longrightarrow> ok (unset s k p)"
    and ok_unset_section: "ok p \<Longrightarrow> ok (unset_section s p)"
    and get_set: "ok p \<Longrightarrow> get (set_value s k v p) s' k' = (if s' = s \<and> k' = k then Some v else get p s' k')"
    and get_unset: "ok p \<Longrightarrow> get (unset s k p) s' k' = (if s' = s \<and> k' = k then None else get p s' k')"
    and get_unset_section: "ok p \<Longrightarrow> s \<noteq> [] \<Longrightarrow>
      get (unset_section s p) s' k' = (if s' = s then None else get p s' k')"
begin

lemma ok_sets: "ok p \<Longrightarrow> ok (fold (\<lambda>(s, k, v). set_value s k v) ops p)"
  by (induction ops arbitrary: p) (auto simp: ok_set)

lemma get_sets:
  "ok p \<Longrightarrow> get (fold (\<lambda>(s, k, v). set_value s k v) ops p) s k
     = (case map_of (rev (map (\<lambda>(s, k, v). ((s, k), v)) ops)) (s, k) of Some v \<Rightarrow> Some v | None \<Rightarrow> get p s k)"
proof (induction ops arbitrary: p)
  case (Cons op ops)
  obtain a b c where "op = (a, b, c)" by (cases op)
  with Cons.IH [of "set_value a b c p"] Cons.prems show ?case
    by (auto simp: ok_set get_set map_add_def split: option.splits)
qed simp

lemma unset_set: "ok p \<Longrightarrow> get p s k = None \<Longrightarrow> get (unset s k (set_value s k v p)) s' k' = get p s' k'"
  by (auto simp: get_unset get_set ok_set)

end

definition ini_lookup :: "IniParser \<Rightarrow> string \<Rightarrow> string \<Rightarrow> string option" where
  "ini_lookup p s k = (case IniParser_findSection s p of None \<Rightarrow> None | Some d \<Rightarrow> smap_get (sd_values d) k)"

lemma ini_lookup_value: "IniParser_value s k x p = (case ini_lookup p s k of None \<Rightarrow> x | Some v \<Rightarrow> v)"
  by (simp add: IniParser_value_def ini_lookup_def split: option.split)

lemma ini_lookup_contains: "IniParser_contains s k p \<longleftrightarrow> ini_lookup p s k \<noteq> None"
  by (simp add: IniParser_contains_def ini_lookup_def split: option.split)

lemma lookup_set: "ini_lookup (IniParser_setValue s k v p) s' k' = (if s' = s \<and> k' = k then Some v else ini_lookup p s' k')"
  by (simp add: ini_lookup_def IniParser_findSection_def IniParser_setValue_def ensureSectionTracked_def
      IniParser_clearError_def section_at_def Let_def SectionData_init_def split: option.split)

lemma lookup_drop: "ini_ok p \<Longrightarrow> ini_lookup (drop_section s p) s' k = (if s' = s then None else ini_lookup p s' k)"
  by (simp add: ini_lookup_def IniParser_findSection_def drop_section_def ini_ok_def tables_ok_def)

lemma lookup_removeSection:
  "ini_ok p \<Longrightarrow> s \<noteq> [] \<Longrightarrow>
   ini_lookup (snd (IniParser_removeSection s p)) s' k = (if s' = s then None else ini_lookup p s' k)"
  by (auto simp: IniParser_removeSection_def lookup_drop) (simp add: ini_lookup_def IniParser_findSection_def)

lemma lookup_remove:
  assumes "ini_ok p"
  shows "ini_lookup (snd (IniParser_remove s k p)) s' k' = (if s' = s \<and> k' = k then None else ini_lookup p s' k')"
proof (cases "smap_get (ip_data p) s")
  case None
  then show ?thesis by (simp add: IniParser_remove_def IniParser_findSection_def ini_lookup_def)
next
  case (Some d)
  have ok: "smap_ok (sd_values d)" "smap_ok (ip_data p)"
    using assms Some by (auto simp: ini_ok_def tables_ok_def section_ok_def)
  have gone: "smap_get (sd_values d) x = None" if "smap_del k (sd_values d) = []" "x \<noteq> k" for x
    using smap_get_del [OF ok(1), of k] that by (metis fun_upd_other smap_get.simps(1))
  show ?thesis using Some ok gone
    by (auto simp: IniParser_remove_def IniParser_findSection_def ini_lookup_def drop_section_def Let_def fun_eq_iff
        split: if_splits)
qed

interpretation ini: settings_store ini_lookup IniParser_setValue "\<lambda>s k p. snd (IniParser_remove s k p)"
  "\<lambda>s p. snd (IniParser_removeSection s p)" ini_ok
  by unfold_locales (simp_all add: inv_step lookup_set lookup_remove lookup_removeSection)

text \<open>Sequences of changes and what they mean for a plain map.\<close>

datatype ini_op = SetValue string string string | Remove string string | RemoveSection string | Clear

fun ini_apply :: "ini_op \<Rightarrow> IniParser \<Rightarrow> IniParser" where
  "ini_apply (SetValue s k v) p = IniParser_setValue s k v p"
| "ini_apply (Remove s k) p = snd (IniParser_remove s k p)"
| "ini_apply (RemoveSection s) p = snd (IniParser_removeSection s p)"
| "ini_apply Clear p = IniParser_clear p"

fun map_apply :: "ini_op \<Rightarrow> (string \<times> string \<rightharpoonup> string) \<Rightarrow> (string \<times> string \<rightharpoonup> string)" where
  "map_apply (SetValue s k v) m = m((s, k) \<mapsto> v)"
| "map_apply (Remove s k) m = m((s, k) := None)"
| "map_apply (RemoveSection s) m = (\<lambda>(s', k). if s \<noteq> [] \<and> s' = s then None else m (s', k))"
| "map_apply Clear m = Map.empty"

definition ini_abs :: "IniParser \<Rightarrow> (string \<times> string \<rightharpoonup> string)" where
  "ini_abs p = (\<lambda>(s, k). ini_lookup p s k)"

lemma ini_apply_abs:
  "ini_ok p \<Longrightarrow> ini_ok (ini_apply op p) \<and> ini_abs (ini_apply op p) = map_apply op (ini_abs p)"
proof (cases op)
  case (RemoveSection s)
  assume "ini_ok p"
  with RemoveSection show ?thesis
    by (cases "s = []") (simp add: ini_abs_def IniParser_removeSection_def,
        auto simp: ini_abs_def fun_eq_iff inv_step lookup_removeSection)
next
  case Clear
  then show ?thesis
    by (simp add: inv_step) (simp add: ini_abs_def fun_eq_iff IniParser_clear_def IniParser_clearError_def ini_lookup_def IniParser_findSection_def)
qed (auto simp: ini_abs_def fun_eq_iff inv_step lookup_set lookup_remove)

lemma ini_fold_abs:
  "ini_ok p \<Longrightarrow> ini_ok (fold ini_apply ops p) \<and> ini_abs (fold ini_apply ops p) = fold map_apply ops (ini_abs p)"
proof (induction ops arbitrary: p)
  case (Cons op ops)
  from Cons.IH [of "ini_apply op p"] ini_apply_abs [OF Cons.prems, of op] show ?case by simp
qed simp

text \<open>
  C13. The parser behaves as a map from sections and keys to values: after any sequence of changes
  from an empty parser its tables are well-formed (keys and sections are listed exactly once, in
  the order tables, and exactly those that have values), a value is what the map holds, and a key is
  contained exactly when the map has it.
\<close>
theorem ini_refines_map:
  "ini_ok (fold ini_apply ops IniParser_init)
   \<and> IniParser_value s k x (fold ini_apply ops IniParser_init)
       = (case fold map_apply ops Map.empty (s, k) of None \<Rightarrow> x | Some v \<Rightarrow> v)
   \<and> (IniParser_contains s k (fold ini_apply ops IniParser_init) \<longleftrightarrow> (s, k) \<in> dom (fold map_apply ops Map.empty))"
proof -
  have "ini_abs IniParser_init = Map.empty"
    by (simp add: ini_abs_def fun_eq_iff ini_lookup_def IniParser_findSection_def IniParser_init_def)
  with ini_fold_abs [OF ini_ok_init, of ops]
  have "ini_ok (fold ini_apply ops IniParser_init)"
    and "ini_abs (fold ini_apply ops IniParser_init) = fold map_apply ops Map.empty" by simp_all
  moreover have "ini_lookup p s k = ini_abs p (s, k)" for p by (simp add: ini_abs_def)
  ultimately show ?thesis by (simp add: ini_lookup_value ini_lookup_contains dom_def)
qed


section \<open>Reading what was written\<close>

definition good_key :: "string \<Rightarrow> bool" where
  "good_key k \<longleftrightarrow> k \<noteq> [] \<and> stripped is_space k \<and> CHR ''='' \<notin> set k \<and> lf \<notin> set k
     \<and> hd k \<noteq> CHR ''['' \<and> hd k \<noteq> CHR '';'' \<and> hd k \<noteq> CHR ''#''"

definition good_value :: "string \<Rightarrow> bool" where
  "good_value v \<longleftrightarrow> stripped is_space v \<and> lf \<notin> set v \<and> comment_pos True v = None"

definition good_section :: "string \<Rightarrow> bool" where
  "good_section s \<longleftrightarrow> s \<noteq> [] \<and> stripped is_space s \<and> lf \<notin> set s"

definition writable :: "IniParser \<Rightarrow> bool" where
  "writable p \<longleftrightarrow> list_all (\<lambda>(s, d). (s = [] \<or> good_section s) \<and>
     list_all (\<lambda>(k, v). good_key k \<and> good_value v) (sd_values d)) (ip_data p)"

lemma space_facts [simp]: "is_space (CHR '' '')" "is_space cr" "\<not> is_space (CHR ''='')" "\<not> is_space (CHR ''['')"
  "\<not> is_space (CHR '']'')" "is_space lf"
  by (simp_all add: is_space_def)

lemma ini_trim_id: "stripped is_space s \<Longrightarrow> ini_trim s = s"
  by (simp add: ini_trim_def strip_id)

definition entry_line :: "string \<times> string \<Rightarrow> string" where
  "entry_line kv = fst kv @ '' = '' @ snd kv"

lemma entry_line_trim:
  assumes "good_key k" "good_value v"
  shows "ini_trim (drop_cr (entry_line (k, v))) = (if v = [] then k @ '' ='' else k @ '' = '' @ v)"
proof (cases "v = []")
  case True
  have "stripped is_space (k @ '' ='')" using assms(1) by (cases k) (auto simp: good_key_def stripped_def)
  then show ?thesis using True strip_right [of is_space "CHR '' ''" "k @ '' =''"]
    by (simp add: entry_line_def drop_cr_def ini_trim_def strip_id)
next
  case False
  have "last v \<noteq> cr" using assms(2) False by (auto simp: good_value_def stripped_def)
  moreover have "stripped is_space (k @ '' = '' @ v)"
    using assms False by (cases k) (auto simp: good_key_def good_value_def stripped_def)
  ultimately show ?thesis using False by (simp add: entry_line_def drop_cr_def ini_trim_id)
qed

lemma stripInlineComment_blank: "good_value v \<Longrightarrow> stripInlineComment (CHR '' '' # v) = v"
  by (simp add: stripInlineComment_def good_value_def ini_trim_def strip_left strip_id)

lemma ini_line_entry:
  assumes "good_key k" "good_value v"
  shows "ini_line n (entry_line (k, v)) st = Inr (add_entry k v st)"
proof -
  have k: "k \<noteq> []" "hd k \<noteq> CHR ''[''" "hd k \<noteq> CHR '';''" "hd k \<noteq> CHR ''#''" "CHR ''='' \<notin> set k"
    and trim: "ini_trim (k @ [CHR '' '']) = k"
    using assms(1) by (auto simp: good_key_def ini_trim_def strip_right strip_id)
  have "find_char (CHR ''='') ((k @ '' '') @ CHR ''='' # r) = Some (length k + 1)" for r
    using find_char_append [of "CHR ''=''" "k @ '' ''" r] k(5) by simp
  then have f: "find_char (CHR ''='') (k @ CHR '' '' # CHR ''='' # r) = Some (Suc (length k))" for r by simp
  have "stripInlineComment [] = []" by (simp add: stripInlineComment_def ini_trim_def strip_def)
  then show ?thesis
    using entry_line_trim [OF assms] k trim f stripInlineComment_blank [OF assms(2)]
    by (simp add: ini_line_def Let_def isCommentLine_def)
qed

lemma ini_line_section:
  assumes "good_section s"
  shows "ini_line n (''['' @ s @ '']'') st = Inr (open_section s st)"
proof -
  have "stripped is_space (''['' @ s @ '']'')" by (simp add: stripped_def)
  moreover have "drop_cr (''['' @ s @ '']'') = ''['' @ s @ '']''" by (simp add: drop_cr_def)
  ultimately have "ini_trim (drop_cr (''['' @ s @ '']'')) = ''['' @ s @ '']''" by (simp only: ini_trim_id)
  with assms show ?thesis
    by (simp add: ini_line_def Let_def isCommentLine_def good_section_def ini_trim_id)
qed

lemma ini_line_blank: "ini_line n [] st = Inr st"
  by (simp add: ini_line_def drop_cr_def ini_trim_def strip_def)

lemma ini_lines_append:
  "ini_lines n xs st = Inr st' \<Longrightarrow> ini_lines n (xs @ ys) st = ini_lines (n + length xs) ys st'"
  by (induction n xs st rule: ini_lines.induct) (auto split: sum.splits)

definition add_all :: "(string \<times> string) list \<Rightarrow> ini_state \<Rightarrow> ini_state" where
  "add_all kvs = fold (\<lambda>(k, v). add_entry k v) kvs"

lemma ini_lines_entries:
  "\<forall>(k, v) \<in> set kvs. good_key k \<and> good_value v \<Longrightarrow> ini_lines n (map entry_line kvs) st = Inr (add_all kvs st)"
proof (induction kvs arbitrary: n st)
  case (Cons kv kvs)
  obtain k v where "kv = (k, v)" by (cases kv)
  with Cons.prems Cons.IH [of "Suc n" "add_entry k v st"] show ?case by (simp add: add_all_def ini_line_entry)
qed (simp add: add_all_def)


text \<open>The entries of a section in order.\<close>

definition entries_of :: "SectionData \<Rightarrow> (string \<times> string) list" where
  "entries_of d = map (\<lambda>k. (k, the (smap_get (sd_values d) k))) (sd_keyOrder d)"

lemma entries_of_get:
  assumes "section_ok d"
  shows "map fst (entries_of d) = sd_keyOrder d" "map_of (entries_of d) = smap_get (sd_values d)"
proof -
  show fst: "map fst (entries_of d) = sd_keyOrder d" by (simp add: entries_of_def comp_def)
  show "map_of (entries_of d) = smap_get (sd_values d)"
  proof
    fix k
    show "map_of (entries_of d) k = smap_get (sd_values d) k"
    proof (cases "k \<in> set (sd_keyOrder d)")
      case True
      then show ?thesis using assms by (auto simp: entries_of_def map_of_map_keys section_ok_def)
    next
      case False
      then have "map_of (entries_of d) k = None" using fst by (metis map_of_eq_None_iff list.set_map)
      moreover have "smap_get (sd_values d) k = None" using False assms by (auto simp: section_ok_def dom_def)
      ultimately show ?thesis by simp
    qed
  qed
qed

lemma entry_lines_text:
  assumes "section_ok d"
  shows "entry_lines d = concat (map (\<lambda>l. l @ [lf]) (map entry_line (entries_of d)))"
proof -
  have "\<forall>k \<in> set (sd_keyOrder d). \<exists>v. smap_get (sd_values d) k = Some v"
    using assms by (auto simp: section_ok_def dom_def)
  then show ?thesis
    by (auto simp: entry_lines_def entries_of_def entry_line_def comp_def intro!: arg_cong [where f = concat] map_cong)
qed

fun section_texts :: "IniParser \<Rightarrow> bool \<Rightarrow> string list \<Rightarrow> string list" where
  "section_texts p w [] = []"
| "section_texts p w (s # ss) =
     (if w then [[]] else []) @ (''['' @ s @ '']'') # map entry_line (entries_of (section_at (ip_data p) s)) @ section_texts p True ss"

lemma section_lines_text:
  "ini_ok p \<Longrightarrow> set ss \<subseteq> set (ip_sectionOrder p) \<Longrightarrow>
   section_lines p w ss = concat (map (\<lambda>l. l @ [lf]) (section_texts p w ss))"
proof (induction ss arbitrary: w)
  case (Cons s ss)
  have "s \<noteq> []" "\<exists>d. smap_get (ip_data p) s = Some d" using Cons.prems by (auto simp: ini_ok_def tables_ok_def)
  then obtain d where s: "s \<noteq> []" "smap_get (ip_data p) s = Some d" by blast
  then have "section_ok d" using Cons.prems by (auto simp: ini_ok_def tables_ok_def)
  with s Cons show ?case by (simp add: IniParser_findSection_def section_at_def entry_lines_text)
qed simp

definition ini_texts :: "IniParser \<Rightarrow> string list" where
  "ini_texts p = (let g = section_at (ip_data p) []
     in map entry_line (entries_of g) @ section_texts p (sd_keyOrder g \<noteq> []) (ip_sectionOrder p))"

lemma toString_text: "ini_ok p \<Longrightarrow> IniParser_toString p = concat (map (\<lambda>l. l @ [lf]) (ini_texts p))"
proof (cases "smap_get (ip_data p) []")
  case None
  assume "ini_ok p"
  with None section_lines_text [of p "ip_sectionOrder p" False] show ?thesis
    by (simp add: IniParser_toString_def IniParser_findSection_def ini_texts_def section_at_def entries_of_def SectionData_init_def)
next
  case (Some d)
  assume ok: "ini_ok p"
  then have "section_ok d" using Some by (auto simp: ini_ok_def tables_ok_def)
  with Some section_lines_text [OF ok subset_refl] show ?thesis
    by (simp add: IniParser_toString_def IniParser_findSection_def ini_texts_def section_at_def entry_lines_text)
qed

definition load_section :: "IniParser \<Rightarrow> string \<Rightarrow> ini_state \<Rightarrow> ini_state" where
  "load_section p s st = add_all (entries_of (section_at (ip_data p) s)) (open_section s st)"

lemma writable_entries:
  assumes "ini_ok p" "writable p" "smap_get (ip_data p) s = Some d"
  shows "\<forall>(k, v) \<in> set (entries_of d). good_key k \<and> good_value v" "s \<noteq> [] \<Longrightarrow> good_section s"
proof -
  have ok: "section_ok d" using assms(1,3) by (auto simp: ini_ok_def tables_ok_def)
  have "(s, d) \<in> set (ip_data p)" using assms(3) by (auto simp: smap_get_map_of dest: map_of_SomeD)
  then have w: "s = [] \<or> good_section s" "\<forall>(k, v) \<in> set (sd_values d). good_key k \<and> good_value v"
    using assms(2) by (auto simp: writable_def list_all_iff)
  then show "s \<noteq> [] \<Longrightarrow> good_section s" by simp
  have "(k, v) \<in> set (sd_values d)" if "(k, v) \<in> set (entries_of d)" for k v
  proof -
    have "distinct (map fst (entries_of d))" using ok entries_of_get(1) [OF ok] by (simp add: section_ok_def)
    with that have "map_of (entries_of d) k = Some v" by simp
    then show ?thesis using entries_of_get(2) [OF ok] by (auto simp: smap_get_map_of dest: map_of_SomeD)
  qed
  with w(2) show "\<forall>(k, v) \<in> set (entries_of d). good_key k \<and> good_value v" by fast
qed

lemma ini_lines_sections:
  "ini_ok p \<Longrightarrow> writable p \<Longrightarrow> set ss \<subseteq> set (ip_sectionOrder p) \<Longrightarrow>
   ini_lines n (section_texts p w ss) st = Inr (fold (load_section p) ss st)"
proof (induction ss arbitrary: n w st)
  case (Cons s ss)
  then obtain d where d: "s \<noteq> []" "smap_get (ip_data p) s = Some d" by (auto simp: ini_ok_def tables_ok_def)
  note good = writable_entries [OF Cons.prems(1,2) d(2)]
  define k where "k = (if w then Suc n else n)"
  have "ini_lines n (section_texts p w (s # ss)) st
      = ini_lines (Suc k) (map entry_line (entries_of d) @ section_texts p True ss) (open_section s st)"
    using d good(2) ini_line_section [of s "Suc k" st] by (auto simp: k_def ini_line_blank section_at_def)
  also have "\<dots> = ini_lines (Suc k + length (map entry_line (entries_of d))) (section_texts p True ss) (load_section p s st)"
    using d by (simp add: load_section_def section_at_def ini_lines_append [OF ini_lines_entries [OF good(1)]])
  also have "\<dots> = Inr (fold (load_section p) (s # ss) st)" using Cons by simp
  finally show ?case .
qed simp


definition holds_entries :: "SectionData \<Rightarrow> (string \<times> string) list \<Rightarrow> bool" where
  "holds_entries d kvs \<longleftrightarrow> sd_keyOrder d = map fst kvs \<and> smap_get (sd_values d) = map_of kvs"

lemma add_all_get:
  assumes "smap_get data s = Some d" "s = [] \<or> s \<in> set order" "holds_entries d old" "distinct (map fst (old @ kvs))"
  shows "\<exists>data' d'. add_all kvs (data, order, s) = (data', order, s)
    \<and> smap_get data' = (smap_get data)(s \<mapsto> d') \<and> holds_entries d' (old @ kvs)"
  using assms
proof (induction kvs arbitrary: data d old)
  case Nil
  then show ?case by (intro exI [of _ data] exI [of _ d]) (simp add: add_all_def fun_upd_idem)
next
  case (Cons kv kvs)
  obtain k v where kv: "kv = (k, v)" by (cases kv)
  have new: "smap_get (sd_values d) k = None"
    using Cons.prems(3,4) by (auto simp: holds_entries_def kv map_of_eq_None_iff)
  define d1 where "d1 = d\<lparr>sd_keyOrder := sd_keyOrder d @ [k], sd_values := smap_put k v (sd_values d)\<rparr>"
  have step: "add_entry k v (data, order, s) = (smap_put s d1 data, order, s)"
    using Cons.prems(1,2) new by (auto simp: add_entry_def section_at_def Let_def d1_def)
  have d1: "holds_entries d1 (old @ [kv])"
  proof -
    have "k \<notin> fst ` set old" using Cons.prems(4) by (auto simp: kv)
    then have "map_of old k = None" by (simp add: map_of_eq_None_iff)
    then have "(map_of old)(k \<mapsto> v) = map_of (old @ [(k, v)])"
      by (auto simp: map_add_def fun_eq_iff split: option.splits)
    then show ?thesis using Cons.prems(3) by (simp add: holds_entries_def d1_def kv)
  qed
  have "smap_get (smap_put s d1 data) s = Some d1" by simp
  moreover have "distinct (map fst ((old @ [kv]) @ kvs))" using Cons.prems(4) by simp
  ultimately obtain data' d' where "add_all kvs (smap_put s d1 data, order, s) = (data', order, s)"
    "smap_get data' = (smap_get (smap_put s d1 data))(s \<mapsto> d')" "holds_entries d' ((old @ [kv]) @ kvs)"
    using Cons.IH [OF _ Cons.prems(2) d1] by blast
  then show ?case using step by (intro exI [of _ data'] exI [of _ d']) (simp add: add_all_def kv)
qed

lemma load_section_get:
  assumes "ini_ok p" "smap_get (ip_data p) s = Some d" "s \<noteq> []" "smap_get data s = None"
  shows "\<exists>data' d'. load_section p s (data, order, c) = (data', order @ [s], s)
    \<and> smap_get data' = (smap_get data)(s \<mapsto> d') \<and> holds_entries d' (entries_of d)"
proof -
  have "section_ok d" using assms(1,2) by (auto simp: ini_ok_def tables_ok_def)
  then have "distinct (map fst ([] @ entries_of d))" by (simp add: entries_of_get section_ok_def)
  moreover have "holds_entries SectionData_init []" by (simp add: holds_entries_def SectionData_init_def fun_eq_iff)
  ultimately obtain data' d' where "add_all (entries_of d) (smap_put s SectionData_init data, order @ [s], s) = (data', order @ [s], s)"
    "smap_get data' = (smap_get (smap_put s SectionData_init data))(s \<mapsto> d')" "holds_entries d' ([] @ entries_of d)"
    using add_all_get [of "smap_put s SectionData_init data" s SectionData_init "order @ [s]" "[]" "entries_of d"] by auto
  then show ?thesis using assms(2-4) by (auto simp: load_section_def section_at_def open_section_def)
qed

lemma load_sections_get:
  assumes "ini_ok p" "set ss \<subseteq> set (ip_sectionOrder p)" "distinct ss" "\<forall>s \<in> set ss. smap_get data s = None"
  shows "\<exists>data' c'. fold (load_section p) ss (data, order, c) = (data', order @ ss, c')
    \<and> (\<forall>s. s \<notin> set ss \<longrightarrow> smap_get data' s = smap_get data s)
    \<and> (\<forall>s \<in> set ss. \<exists>d'. smap_get data' s = Some d' \<and> holds_entries d' (entries_of (section_at (ip_data p) s)))"
  using assms(2-4)
proof (induction ss arbitrary: data order c)
  case (Cons s ss)
  obtain d where d: "s \<noteq> []" "smap_get (ip_data p) s = Some d"
    using Cons.prems(1) assms(1) by (auto simp: ini_ok_def tables_ok_def)
  obtain data1 d1 where one: "load_section p s (data, order, c) = (data1, order @ [s], s)"
    "smap_get data1 = (smap_get data)(s \<mapsto> d1)" "holds_entries d1 (entries_of d)"
    using load_section_get [OF assms(1) d(2,1), of data order c] Cons.prems(3) by auto
  have "\<forall>s \<in> set ss. smap_get data1 s = None" using Cons.prems(2,3) one(2) by auto
  then obtain data2 c2 where two: "fold (load_section p) ss (data1, order @ [s], s) = (data2, (order @ [s]) @ ss, c2)"
    "\<forall>x. x \<notin> set ss \<longrightarrow> smap_get data2 x = smap_get data1 x"
    "\<forall>x \<in> set ss. \<exists>d'. smap_get data2 x = Some d' \<and> holds_entries d' (entries_of (section_at (ip_data p) x))"
    using Cons.IH [of data1 "order @ [s]" s] Cons.prems(1,2) by auto
  have "smap_get data2 s = Some d1" using two(2) Cons.prems(2) one(2) by simp
  then show ?case using one two d by (auto simp: section_at_def)
qed simp

lemma load_global_get:
  assumes "ini_ok p"
  shows "\<exists>data. add_all (entries_of (section_at (ip_data p) [])) ([], [], []) = (data, [], [])
    \<and> (\<forall>s. s \<noteq> [] \<longrightarrow> smap_get data s = None) \<and> holds_entries (section_at data []) (entries_of (section_at (ip_data p) []))"
proof (cases "entries_of (section_at (ip_data p) [])")
  case Nil
  then show ?thesis by (simp add: add_all_def section_at_def holds_entries_def SectionData_init_def fun_eq_iff)
next
  case (Cons kv kvs)
  obtain k v where kv: "kv = (k, v)" by (cases kv)
  define d1 where "d1 = \<lparr>sd_values = [(k, v)], sd_keyOrder = [k]\<rparr>"
  have step: "add_entry k v ([], [], []) = ([([], d1)], [], [])"
    by (simp add: add_entry_def section_at_def SectionData_init_def Let_def d1_def)
  have "section_ok (section_at (ip_data p) [])" using assms section_ok_at by (auto simp: ini_ok_def)
  then have "distinct (map fst ([kv] @ kvs))" using Cons by (metis append_Cons append_Nil entries_of_get(1) section_ok_def)
  moreover have "holds_entries d1 [kv]" by (simp add: holds_entries_def d1_def kv fun_eq_iff)
  ultimately obtain data' d' where data': "add_all kvs ([([], d1)], [], []) = (data', [], [])"
    "smap_get data' = (smap_get [([], d1)])([] \<mapsto> d')" "holds_entries d' ([kv] @ kvs)"
    using add_all_get [of "[([], d1)]" "[]" d1 "[]" "[kv]" kvs] by auto
  then have "holds_entries (section_at data' []) (kv # kvs)" by (simp add: section_at_def)
  with data' step show ?thesis by (auto simp: add_all_def Cons kv)
qed

lemma ini_texts_no_lf:
  assumes "ini_ok p" "writable p"
  shows "\<forall>l \<in> set (ini_texts p). lf \<notin> set l"
proof -
  have e: "\<forall>l \<in> set (map entry_line (entries_of (section_at (ip_data p) s))). lf \<notin> set l" for s
  proof (cases "smap_get (ip_data p) s")
    case (Some d)
    from writable_entries(1) [OF assms Some] have "lf \<notin> set k \<and> lf \<notin> set v" if "(k, v) \<in> set (entries_of d)" for k v
      using that by (auto simp: good_key_def good_value_def)
    with Some show ?thesis by (auto simp: section_at_def entry_line_def)
  qed (simp add: section_at_def entries_of_def SectionData_init_def)
  have "\<forall>l \<in> set (section_texts p w ss). lf \<notin> set l" if "set ss \<subseteq> set (ip_sectionOrder p)" for w ss
    using that
  proof (induction ss arbitrary: w)
    case (Cons s ss)
    then obtain d where "s \<noteq> []" "smap_get (ip_data p) s = Some d" using assms(1) by (auto simp: ini_ok_def tables_ok_def)
    then have "lf \<notin> set s" using writable_entries(2) [OF assms] by (auto simp: good_section_def)
    with Cons e [of s] show ?case by auto
  qed simp
  with e [of "[]"] show ?thesis by (auto simp: ini_texts_def Let_def)
qed

lemma ini_load_texts:
  assumes "ini_ok p" "writable p"
  shows "\<exists>data c. ini_lines 0 (ini_texts p) ([], [], []) = Inr (data, ip_sectionOrder p, c)
    \<and> (\<forall>s. holds_entries (section_at data s) (entries_of (section_at (ip_data p) s)))"
proof -
  let ?g = "section_at (ip_data p) []" and ?order = "ip_sectionOrder p"
  have order: "set ?order \<subseteq> set ?order" "distinct ?order" "[] \<notin> set ?order"
    using assms(1) by (auto simp: ini_ok_def tables_ok_def)
  obtain data1 where g: "add_all (entries_of ?g) ([], [], []) = (data1, [], [])" "\<forall>s. s \<noteq> [] \<longrightarrow> smap_get data1 s = None"
    "holds_entries (section_at data1 []) (entries_of ?g)" using load_global_get [OF assms(1)] by blast
  have "\<forall>s \<in> set ?order. smap_get data1 s = None" using g(2) order(3) by metis
  from load_sections_get [OF assms(1) order(1,2) this, of "[]" "[]"]
  obtain data c where s: "fold (load_section p) ?order (data1, [], []) = (data, ?order, c)"
    "\<forall>s. s \<notin> set ?order \<longrightarrow> smap_get data s = smap_get data1 s"
    "\<forall>s \<in> set ?order. \<exists>d. smap_get data s = Some d \<and> holds_entries d (entries_of (section_at (ip_data p) s))"
    by auto
  have good: "\<forall>(k, v) \<in> set (entries_of ?g). good_key k \<and> good_value v"
    using writable_entries(1) [OF assms, of "[]"]
    by (cases "smap_get (ip_data p) []") (auto simp: section_at_def entries_of_def SectionData_init_def)
  have "ini_lines 0 (ini_texts p) ([], [], []) = Inr (data, ?order, c)"
    unfolding ini_texts_def Let_def
    using ini_lines_append [OF ini_lines_entries [OF good]] ini_lines_sections [OF assms order(1)] g(1) s(1) by simp
  moreover have "holds_entries (section_at data x) (entries_of (section_at (ip_data p) x))" for x
  proof (cases "x \<in> set ?order")
    case True
    then show ?thesis using s(3) by (auto simp: section_at_def)
  next
    case False
    then have "x = [] \<or> smap_get data x = None \<and> smap_get (ip_data p) x = None"
      using s(2) g(2) assms(1) by (auto simp: ini_ok_def tables_ok_def dom_def)
    then show ?thesis using g(3) s(2) order(3)
      by (auto simp: section_at_def holds_entries_def entries_of_def SectionData_init_def fun_eq_iff)
  qed
  ultimately show ?thesis by blast
qed

lemma keys_section_at: "IniParser_keys s p = sd_keyOrder (section_at (ip_data p) s)"
  by (simp add: IniParser_keys_def IniParser_findSection_def section_at_def SectionData_init_def split: option.split)

lemma lookup_section_at: "ini_lookup p s k = smap_get (sd_values (section_at (ip_data p) s)) k"
  by (simp add: ini_lookup_def IniParser_findSection_def section_at_def SectionData_init_def split: option.split)

text \<open>
  C14. Loading what \<open>toString\<close> writes gives back the parser's contents: the same sections in the same
  order, the same keys in the same order and the same values. It holds for every well-formed
  parser whose names and values can be written (no line breaks, no surrounding white space, nothing
  that reads as a comment; keys without \<open>=\<close>).
\<close>
theorem ini_roundtrip:
  assumes "ini_ok p" "writable p"
  shows "\<exists>r. IniParser_loadFromString (IniParser_toString p) q = (True, r) \<and> ini_ok r
    \<and> IniParser_sections r = IniParser_sections p \<and> (\<forall>s. IniParser_keys s r = IniParser_keys s p)
    \<and> (\<forall>s k x. IniParser_value s k x r = IniParser_value s k x p)"
proof -
  obtain data c where load: "ini_lines 0 (ini_texts p) ([], [], []) = Inr (data, ip_sectionOrder p, c)"
    and holds: "\<forall>s. holds_entries (section_at data s) (entries_of (section_at (ip_data p) s))"
    using ini_load_texts [OF assms] by blast
  let ?r = "IniParser_clearError (q\<lparr>ip_data := data, ip_sectionOrder := ip_sectionOrder p, ip_filePath := []\<rparr>)"
  have fields: "ip_data ?r = data" "ip_sectionOrder ?r = ip_sectionOrder p" by (simp_all add: IniParser_clearError_def)
  have "getlines lf (IniParser_toString p) = ini_texts p"
    using getlines_concat [OF ini_texts_no_lf [OF assms], of "[]"] toString_text [OF assms(1)] by simp
  then have "IniParser_loadFromString (IniParser_toString p) q = (True, ?r)"
    by (simp add: IniParser_loadFromString_def load)
  moreover have "tables_ok data (ip_sectionOrder p)"
    using state_ok_lines [OF load] by (simp add: state_ok_def) (simp add: tables_ok_def)
  then have "ini_ok ?r" unfolding ini_ok_def fields .
  moreover have "section_ok (section_at (ip_data p) x)" for x using assms(1) section_ok_at by (auto simp: ini_ok_def)
  then have "sd_keyOrder (section_at data x) = sd_keyOrder (section_at (ip_data p) x)"
    "smap_get (sd_values (section_at data x)) = smap_get (sd_values (section_at (ip_data p) x))" for x
    using holds entries_of_get by (simp_all add: holds_entries_def)
  then have "\<forall>s. IniParser_keys s ?r = IniParser_keys s p" "\<forall>s k x. IniParser_value s k x ?r = IniParser_value s k x p"
    by (simp_all add: keys_section_at ini_lookup_value lookup_section_at fields)
  ultimately show ?thesis by (auto simp: IniParser_sections_def fields)
qed

definition demo_ini :: IniParser where
  "demo_ini = fold ini_apply [SetValue [] ''name'' ''node'', SetValue ''net'' ''port'' ''8080'',
     SetValue ''net'' ''host'' [], SetValue ''log'' ''level'' ''a#b'', Remove [] ''name''] IniParser_init"

theorem ini_roundtrip_witness:
  "ini_ok demo_ini \<and> writable demo_ini \<and>
   (\<exists>r. IniParser_loadFromString (IniParser_toString demo_ini) IniParser_init = (True, r) \<and> ini_ok r
    \<and> IniParser_sections r = IniParser_sections demo_ini \<and> (\<forall>s. IniParser_keys s r = IniParser_keys s demo_ini)
    \<and> (\<forall>s k x. IniParser_value s k x r = IniParser_value s k x demo_ini))"
proof -
  have "ini_ok demo_ini" using ini_fold_abs [OF ini_ok_init] by (simp only: demo_ini_def)
  moreover have "writable demo_ini" by code_simp
  ultimately show ?thesis using ini_roundtrip [of demo_ini IniParser_init] by blast
qed

end
