(* ===== verification/TraceBuffers.thy ===== *)
theory TraceBuffers
  imports Prelude
begin

text \<open>
  The profiler's event buffer (\<open>Profiler/src/TraceBuffer.cpp\<close>): a ring that its own thread fills with
  \<open>push\<close> while the profiler thread empties it with \<open>drain\<close>, without a lock. Indices are \<open>uint32_t\<close>,
  written as natural numbers with the wrap-around of \<open>head + 1\<close>; the capacity \<open>kCapacity\<close> (65536 unless
  configured) is an argument. \<open>push\<close> and \<open>drain\<close> are given whole, and once more as the sequence of
  their accesses to shared memory, which may interleave.
\<close>

section \<open>The buffer\<close>

record 'e TraceBuffer =
  tb_head :: nat
  tb_tail :: nat
  tb_data :: "'e list"

definition TraceBuffer_init :: "nat \<Rightarrow> 'e \<Rightarrow> 'e TraceBuffer" where
  "TraceBuffer_init cap blank = \<lparr>tb_head = 0, tb_tail = 0, tb_data = replicate cap blank\<rparr>"

definition next_index :: "nat \<Rightarrow> nat \<Rightarrow> nat" where
  "next_index cap i = ((i + 1) mod 2 ^ 32) mod cap"

definition TraceBuffer_push :: "nat \<Rightarrow> 'e \<Rightarrow> 'e TraceBuffer \<Rightarrow> bool \<times> 'e TraceBuffer" where
  "TraceBuffer_push cap e b =
     (let head = tb_head b; nxt = next_index cap head
      in if nxt = tb_tail b then (False, b)
         else (True, b\<lparr>tb_data := (tb_data b)[head := e], tb_head := nxt\<rparr>))"

text \<open>The loop of \<open>drain\<close>: \<open>None\<close> would be a loop that never meets \<open>head\<close>.\<close>

partial_function (option) drain_loop :: "nat \<Rightarrow> 'e list \<Rightarrow> nat \<Rightarrow> nat \<Rightarrow> 'e list \<Rightarrow> (nat \<times> 'e list) option" where
  "drain_loop cap data tail head out =
     (if tail \<noteq> head then drain_loop cap data (next_index cap tail) head (out @ [data ! tail]) else Some (tail, out))"

definition TraceBuffer_drain :: "nat \<Rightarrow> 'e list \<Rightarrow> 'e TraceBuffer \<Rightarrow> ('e list \<times> 'e TraceBuffer) option" where
  "TraceBuffer_drain cap out b =
     map_option (\<lambda>(tail, out'). (out', b\<lparr>tb_tail := tail\<rparr>)) (drain_loop cap (tb_data b) (tb_tail b) (tb_head b) out)"

text \<open>\<open>drainAll\<close>: every registered buffer in registration order.\<close>

fun TraceBuffer_drainAll :: "nat \<Rightarrow> 'e list \<Rightarrow> 'e TraceBuffer list \<Rightarrow> ('e list \<times> 'e TraceBuffer list) option" where
  "TraceBuffer_drainAll cap out [] = Some (out, [])"
| "TraceBuffer_drainAll cap out (b # bs) =
     (case TraceBuffer_drain cap out b of
        None \<Rightarrow> None
      | Some (out', b') \<Rightarrow> map_option (\<lambda>(out'', bs'). (out'', b' # bs')) (TraceBuffer_drainAll cap out' bs))"


section \<open>What the ring holds\<close>

definition dist :: "nat \<Rightarrow> nat \<Rightarrow> nat \<Rightarrow> nat" where
  "dist cap i j = (if i \<le> j then j - i else cap - i + j)"

definition between :: "nat \<Rightarrow> 'e list \<Rightarrow> nat \<Rightarrow> nat \<Rightarrow> 'e list" where
  "between cap data i j = map (\<lambda>k. data ! ((i + k) mod cap)) [0..<dist cap i j]"

definition contents :: "nat \<Rightarrow> 'e TraceBuffer \<Rightarrow> 'e list" where
  "contents cap b = between cap (tb_data b) (tb_tail b) (tb_head b)"

definition cap_ok :: "nat \<Rightarrow> bool" where
  "cap_ok cap \<longleftrightarrow> 2 \<le> cap \<and> cap < 2 ^ 32"

definition buffer_ok :: "nat \<Rightarrow> 'e TraceBuffer \<Rightarrow> bool" where
  "buffer_ok cap b \<longleftrightarrow> tb_head b < cap \<and> tb_tail b < cap \<and> length (tb_data b) = cap"

lemma next_index_eq: "cap_ok cap \<Longrightarrow> i < cap \<Longrightarrow> next_index cap i = (if i + 1 = cap then 0 else i + 1)"
  by (auto simp: next_index_def cap_ok_def)

lemma next_index_less: "cap_ok cap \<Longrightarrow> i < cap \<Longrightarrow> next_index cap i < cap"
  by (auto simp: next_index_eq)

lemma dist_less: "i < cap \<Longrightarrow> j < cap \<Longrightarrow> dist cap i j < cap"
  by (auto simp: dist_def)

lemma dist_0: "i < cap \<Longrightarrow> j < cap \<Longrightarrow> dist cap i j = 0 \<longleftrightarrow> i = j"
  by (auto simp: dist_def)

lemma dist_next_head:
  "cap_ok cap \<Longrightarrow> i < cap \<Longrightarrow> j < cap \<Longrightarrow> next_index cap j \<noteq> i \<Longrightarrow> dist cap i (next_index cap j) = Suc (dist cap i j)"
  by (auto simp: dist_def next_index_eq)

lemma dist_next_tail:
  "cap_ok cap \<Longrightarrow> i < cap \<Longrightarrow> j < cap \<Longrightarrow> i \<noteq> j \<Longrightarrow> dist cap i j = Suc (dist cap (next_index cap i) j)"
  by (auto simp: dist_def next_index_eq)

lemma next_free: "cap_ok cap \<Longrightarrow> i < cap \<Longrightarrow> j < cap \<Longrightarrow> next_index cap j \<noteq> i \<longleftrightarrow> dist cap i j + 1 < cap"
  by (auto simp: dist_def next_index_eq)

lemma index_at: "i < cap \<Longrightarrow> j < cap \<Longrightarrow> (i + dist cap i j) mod cap = j"
  by (auto simp: dist_def)

lemma index_before: "i < cap \<Longrightarrow> j < cap \<Longrightarrow> k < dist cap i j \<Longrightarrow> (i + k) mod cap \<noteq> j"
proof
  assume i: "i < cap" and j: "j < cap" and k: "k < dist cap i j" and e: "(i + k) mod cap = j"
  show False
  proof (cases "i + k < cap")
    case True
    with e k show False by (auto simp: dist_def split: if_splits)
  next
    case False
    then have "(i + k) mod cap = i + k - cap" using i dist_less [OF i j] k by (simp add: le_mod_geq)
    with e k False i j show False by (auto simp: dist_def split: if_splits)
  qed
qed

lemma between_take:
  assumes "cap_ok cap" "i < cap" "j < cap" "i \<noteq> j"
  shows "between cap data i j = data ! i # between cap data (next_index cap i) j"
proof -
  have "(i + Suc k) mod cap = (next_index cap i + k) mod cap" for k
    using assms(1,2) by (auto simp: next_index_eq) (metis add.commute add_Suc mod_add_self1)
  then show ?thesis
    using assms dist_next_tail [OF assms] by (simp add: between_def map_upt_Suc del: upt_Suc)
qed

lemma between_same [simp]: "between cap data i i = []"
  by (simp add: between_def dist_def)

lemma between_frame:
  assumes "i < cap" "j < cap"
  shows "between cap (data[j := e]) i j = between cap data i j"
  unfolding between_def using index_before [OF assms]
  by (intro map_cong) (auto intro!: nth_list_update_neq dest: not_sym)

lemma between_push:
  assumes "cap_ok cap" "i < cap" "j < cap" "length data = cap" "next_index cap j \<noteq> i"
  shows "between cap data i (next_index cap j) = between cap data i j @ [data ! j]"
  using assms dist_next_head [OF assms(1-3,5)] index_at [OF assms(2,3)] by (simp add: between_def)

lemma drain_loop_between:
  assumes "cap_ok cap" "i < cap" "j < cap"
  shows "drain_loop cap data i j out = Some (j, out @ between cap data i j)"
  using assms(2)
proof (induction "dist cap i j" arbitrary: i out)
  case 0
  then have "i = j" using dist_0 assms(3) by simp
  then show ?case by (simp add: drain_loop.simps [of cap data j j])
next
  case (Suc n)
  then have ne: "i \<noteq> j" by (auto simp: dist_def)
  then have "n = dist cap (next_index cap i) j" using Suc dist_next_tail [OF assms(1) _ assms(3)] by simp
  from Suc.hyps(1) [OF this next_index_less [OF assms(1) Suc.prems]] ne
  show ?case by (simp add: drain_loop.simps [of cap data i j] between_take [OF assms(1) Suc.prems assms(3)])
qed


section \<open>A bounded queue\<close>

text \<open>What the profiler relies on when nothing runs concurrently.\<close>

locale bounded_queue =
  fixes push :: "'e \<Rightarrow> 'q \<Rightarrow> bool \<times> 'q"
    and drain :: "'e list \<Rightarrow> 'q \<Rightarrow> ('e list \<times> 'q) option"
    and items :: "'q \<Rightarrow> 'e list"
    and room :: nat
    and ok :: "'q \<Rightarrow> bool"
  assumes ok_push: "ok q \<Longrightarrow> ok (snd (push e q))"
    and push_room: "ok q \<Longrightarrow> length (items q) < room \<Longrightarrow> fst (push e q) \<and> items (snd (push e q)) = items q @ [e]"
    and push_full: "ok q \<Longrightarrow> \<not> length (items q) < room \<Longrightarrow> push e q = (False, q)"
    and drain_all: "ok q \<Longrightarrow> \<exists>q'. drain out q = Some (out @ items q, q') \<and> ok q' \<and> items q' = []"
    and bounded: "ok q \<Longrightarrow> length (items q) \<le> room"
begin

lemma pushes:
  "ok q \<Longrightarrow> ok (fold (\<lambda>e q. snd (push e q)) es q)
     \<and> items (fold (\<lambda>e q. snd (push e q)) es q) = items q @ take (room - length (items q)) es"
proof (induction es arbitrary: q)
  case (Cons e es)
  from Cons.IH [OF ok_push [OF Cons.prems, of e]] show ?case
    using push_room [OF Cons.prems, of e] push_full [OF Cons.prems, of e]
    by (cases "length (items q) < room") (auto simp: Suc_diff_Suc take_Cons' simp flip: append_assoc)
qed simp

lemma pushes_drain:
  "ok q \<Longrightarrow> \<exists>q'. drain out (fold (\<lambda>e q. snd (push e q)) es q) = Some (out @ items q @ take (room - length (items q)) es, q')
     \<and> ok q' \<and> items q' = []"
proof -
  assume "ok q"
  note pushes [OF this, of es]
  then show ?thesis using drain_all [of "fold (\<lambda>e q. snd (push e q)) es q" out] by simp
qed

end

lemma buffer_push:
  assumes "cap_ok cap" "buffer_ok cap b"
  shows "buffer_ok cap (snd (TraceBuffer_push cap e b))"
    "length (contents cap b) < cap - 1 \<Longrightarrow>
       fst (TraceBuffer_push cap e b) \<and> contents cap (snd (TraceBuffer_push cap e b)) = contents cap b @ [e]"
    "\<not> length (contents cap b) < cap - 1 \<Longrightarrow> TraceBuffer_push cap e b = (False, b)"
proof -
  have b: "tb_tail b < cap" "tb_head b < cap" "length (tb_data b) = cap" using assms(2) by (simp_all add: buffer_ok_def)
  have len: "length (contents cap b) = dist cap (tb_tail b) (tb_head b)" by (simp add: contents_def between_def)
  note free = next_free [OF assms(1) b(1,2)]
  show "buffer_ok cap (snd (TraceBuffer_push cap e b))"
    using assms b by (simp add: TraceBuffer_push_def Let_def buffer_ok_def next_index_less)
  show "\<not> length (contents cap b) < cap - 1 \<Longrightarrow> TraceBuffer_push cap e b = (False, b)"
    using free len by (simp add: TraceBuffer_push_def Let_def)
  show "length (contents cap b) < cap - 1 \<Longrightarrow>
       fst (TraceBuffer_push cap e b) \<and> contents cap (snd (TraceBuffer_push cap e b)) = contents cap b @ [e]"
    using free len b between_push [OF assms(1) b(1,2), of "(tb_data b)[tb_head b := e]"]
    by (simp add: TraceBuffer_push_def Let_def contents_def between_frame)
qed

lemma buffer_drain:
  assumes "cap_ok cap" "buffer_ok cap b"
  shows "\<exists>b'. TraceBuffer_drain cap out b = Some (out @ contents cap b, b') \<and> buffer_ok cap b' \<and> contents cap b' = []"
proof (intro exI conjI)
  have b: "tb_tail b < cap" "tb_head b < cap" using assms(2) by (simp_all add: buffer_ok_def)
  show "TraceBuffer_drain cap out b = Some (out @ contents cap b, b\<lparr>tb_tail := tb_head b\<rparr>)"
    by (simp add: TraceBuffer_drain_def drain_loop_between [OF assms(1) b] contents_def)
  show "buffer_ok cap (b\<lparr>tb_tail := tb_head b\<rparr>)" "contents cap (b\<lparr>tb_tail := tb_head b\<rparr>) = []"
    using assms(2) by (simp_all add: buffer_ok_def contents_def)
qed

interpretation tb: bounded_queue "TraceBuffer_push 65536" "TraceBuffer_drain 65536" "contents 65536" 65535 "buffer_ok 65536"
proof unfold_locales
  fix q :: "'a TraceBuffer"
  assume "buffer_ok 65536 q"
  then show "length (contents 65536 q) \<le> 65535"
    using dist_less [of "tb_tail q" 65536 "tb_head q"] by (simp add: contents_def between_def buffer_ok_def)
qed (use buffer_push [of 65536] buffer_drain [of 65536] in \<open>simp_all add: cap_ok_def\<close>)


section \<open>One thread pushing, one draining\<close>

text \<open>The accesses of \<open>push\<close>: the check against \<open>m_tail\<close>, the write of the slot, the store of
  \<open>m_head\<close>; of \<open>drain\<close>: the loads of both indices, one copy per round, the store of \<open>m_tail\<close>.\<close>

datatype 'e producer = PIdle | PChecked 'e nat nat | PWritten 'e nat

datatype consumer = CIdle | CLoop nat nat

record 'e ring =
  rg_buffer :: "'e TraceBuffer"
  rg_producer :: "'e producer"
  rg_consumer :: consumer
  rg_pushed :: "'e list"
  rg_out :: "'e list"

inductive ring_step :: "nat \<Rightarrow> 'e ring \<Rightarrow> 'e ring \<Rightarrow> bool" for cap where
  push_check:
    "rg_producer r = PIdle \<Longrightarrow> head = tb_head (rg_buffer r) \<Longrightarrow> next_index cap head \<noteq> tb_tail (rg_buffer r) \<Longrightarrow>
     ring_step cap r (r\<lparr>rg_producer := PChecked e head (next_index cap head)\<rparr>)"
| push_write:
    "rg_producer r = PChecked e head nxt \<Longrightarrow>
     ring_step cap r (r\<lparr>rg_producer := PWritten e nxt,
       rg_buffer := (rg_buffer r)\<lparr>tb_data := (tb_data (rg_buffer r))[head := e]\<rparr>\<rparr>)"
| push_publish:
    "rg_producer r = PWritten e nxt \<Longrightarrow>
     ring_step cap r (r\<lparr>rg_producer := PIdle, rg_buffer := (rg_buffer r)\<lparr>tb_head := nxt\<rparr>, rg_pushed := rg_pushed r @ [e]\<rparr>)"
| drain_load:
    "rg_consumer r = CIdle \<Longrightarrow>
     ring_step cap r (r\<lparr>rg_consumer := CLoop (tb_tail (rg_buffer r)) (tb_head (rg_buffer r))\<rparr>)"
| drain_copy:
    "rg_consumer r = CLoop tail head \<Longrightarrow> tail \<noteq> head \<Longrightarrow>
     ring_step cap r (r\<lparr>rg_consumer := CLoop (next_index cap tail) head, rg_out := rg_out r @ [tb_data (rg_buffer r) ! tail]\<rparr>)"
| drain_store:
    "rg_consumer r = CLoop tail head \<Longrightarrow> tail = head \<Longrightarrow>
     ring_step cap r (r\<lparr>rg_consumer := CIdle, rg_buffer := (rg_buffer r)\<lparr>tb_tail := tail\<rparr>\<rparr>)"

inductive ring_reach :: "nat \<Rightarrow> 'e \<Rightarrow> 'e ring \<Rightarrow> bool" for cap blank where
  start: "ring_reach cap blank \<lparr>rg_buffer = TraceBuffer_init cap blank, rg_producer = PIdle, rg_consumer = CIdle,
     rg_pushed = [], rg_out = []\<rparr>"
| step: "ring_reach cap blank r \<Longrightarrow> ring_step cap r r' \<Longrightarrow> ring_reach cap blank r'"

text \<open>The first slot that has not been copied out, and how far the running \<open>drain\<close> goes.\<close>

fun copied_to :: "'e TraceBuffer \<Rightarrow> consumer \<Rightarrow> nat" where
  "copied_to b CIdle = tb_tail b"
| "copied_to b (CLoop tail head) = tail"

fun drain_ok :: "nat \<Rightarrow> 'e TraceBuffer \<Rightarrow> consumer \<Rightarrow> bool" where
  "drain_ok cap b CIdle = True"
| "drain_ok cap b (CLoop tail head) \<longleftrightarrow> tail < cap \<and> head < cap
     \<and> dist cap (tb_tail b) tail \<le> dist cap (tb_tail b) head \<and> dist cap (tb_tail b) head \<le> dist cap (tb_tail b) (tb_head b)"

fun push_ok :: "nat \<Rightarrow> 'e TraceBuffer \<Rightarrow> 'e producer \<Rightarrow> bool" where
  "push_ok cap b PIdle = True"
| "push_ok cap b (PChecked e head nxt) \<longleftrightarrow> head = tb_head b \<and> nxt = next_index cap head
     \<and> dist cap (tb_tail b) (tb_head b) + 1 < cap"
| "push_ok cap b (PWritten e nxt) \<longleftrightarrow> nxt = next_index cap (tb_head b) \<and> tb_data b ! tb_head b = e
     \<and> dist cap (tb_tail b) (tb_head b) + 1 < cap"

definition ring_ok :: "nat \<Rightarrow> 'e ring \<Rightarrow> bool" where
  "ring_ok cap r \<longleftrightarrow> buffer_ok cap (rg_buffer r) \<and> drain_ok cap (rg_buffer r) (rg_consumer r)
     \<and> push_ok cap (rg_buffer r) (rg_producer r)
     \<and> rg_pushed r = rg_out r @ between cap (tb_data (rg_buffer r)) (copied_to (rg_buffer r) (rg_consumer r)) (tb_head (rg_buffer r))"

lemma dist_part:
  "t < cap \<Longrightarrow> a < cap \<Longrightarrow> b < cap \<Longrightarrow> dist cap t a \<le> dist cap t b \<Longrightarrow> dist cap a b = dist cap t b - dist cap t a"
  by (auto simp: dist_def split: if_splits)

lemma dist_inj: "t < cap \<Longrightarrow> a < cap \<Longrightarrow> b < cap \<Longrightarrow> dist cap t a = dist cap t b \<longleftrightarrow> a = b"
  by (auto simp: dist_def split: if_splits)

lemma copied_to_ok:
  "buffer_ok cap b \<Longrightarrow> drain_ok cap b c \<Longrightarrow>
   copied_to b c < cap \<and> dist cap (tb_tail b) (copied_to b c) \<le> dist cap (tb_tail b) (tb_head b)"
  by (cases c) (auto simp: buffer_ok_def dist_def)

lemma ring_ok_check:
  "cap_ok cap \<Longrightarrow> ring_ok cap r \<Longrightarrow> next_index cap (tb_head (rg_buffer r)) \<noteq> tb_tail (rg_buffer r) \<Longrightarrow>
   ring_ok cap (r\<lparr>rg_producer := PChecked e (tb_head (rg_buffer r)) (next_index cap (tb_head (rg_buffer r)))\<rparr>)"
  by (simp add: ring_ok_def buffer_ok_def next_free)

lemma ring_ok_write:
  assumes "ring_ok cap r" "rg_producer r = PChecked e head nxt"
  shows "ring_ok cap (r\<lparr>rg_producer := PWritten e nxt,
     rg_buffer := (rg_buffer r)\<lparr>tb_data := (tb_data (rg_buffer r))[head := e]\<rparr>\<rparr>)"
proof -
  have ok: "buffer_ok cap (rg_buffer r)" "drain_ok cap (rg_buffer r) (rg_consumer r)" using assms(1) by (simp_all add: ring_ok_def)
  then have "copied_to (rg_buffer r) (rg_consumer r) < cap" using copied_to_ok by blast
  moreover have "drain_ok cap ((rg_buffer r)\<lparr>tb_data := x\<rparr>) c = drain_ok cap (rg_buffer r) c"
    "copied_to ((rg_buffer r)\<lparr>tb_data := x\<rparr>) c = copied_to (rg_buffer r) c" for x c by (cases c; simp)+
  ultimately show ?thesis using assms by (auto simp: ring_ok_def buffer_ok_def between_frame)
qed

lemma ring_ok_publish:
  assumes "cap_ok cap" "ring_ok cap r" "rg_producer r = PWritten e nxt"
  shows "ring_ok cap (r\<lparr>rg_producer := PIdle, rg_buffer := (rg_buffer r)\<lparr>tb_head := nxt\<rparr>, rg_pushed := rg_pushed r @ [e]\<rparr>)"
proof -
  let ?b = "rg_buffer r" and ?c = "rg_consumer r"
  have ok: "buffer_ok cap ?b" "drain_ok cap ?b ?c" and nxt: "nxt = next_index cap (tb_head ?b)" "tb_data ?b ! tb_head ?b = e"
    and room: "dist cap (tb_tail ?b) (tb_head ?b) + 1 < cap" using assms by (simp_all add: ring_ok_def)
  have b: "tb_tail ?b < cap" "tb_head ?b < cap" "length (tb_data ?b) = cap" using ok(1) by (simp_all add: buffer_ok_def)
  have ne: "nxt \<noteq> tb_tail ?b" using next_free [OF assms(1) b(1,2)] room nxt by simp
  have far: "dist cap (tb_tail ?b) nxt = Suc (dist cap (tb_tail ?b) (tb_head ?b))"
    using dist_next_head [OF assms(1) b(1,2)] ne nxt by simp
  note pos = copied_to_ok [OF ok]
  then have "nxt \<noteq> copied_to ?b ?c" using far by auto
  then have "between cap (tb_data ?b) (copied_to ?b ?c) nxt = between cap (tb_data ?b) (copied_to ?b ?c) (tb_head ?b) @ [e]"
    using between_push [OF assms(1) _ b(2,3), of "copied_to ?b ?c"] pos nxt by simp
  moreover have "copied_to (?b\<lparr>tb_head := nxt\<rparr>) ?c = copied_to ?b ?c" by (cases ?c) simp_all
  moreover have "drain_ok cap (?b\<lparr>tb_head := nxt\<rparr>) ?c" using ok(2) far by (cases ?c) auto
  moreover have "nxt < cap" using next_index_less [OF assms(1) b(2)] nxt by simp
  ultimately show ?thesis using assms ok by (simp add: ring_ok_def buffer_ok_def)
qed

lemma ring_ok_load: "ring_ok cap r \<Longrightarrow> rg_consumer r = CIdle \<Longrightarrow>
   ring_ok cap (r\<lparr>rg_consumer := CLoop (tb_tail (rg_buffer r)) (tb_head (rg_buffer r))\<rparr>)"
  by (auto simp: ring_ok_def buffer_ok_def dist_def)

lemma ring_ok_copy:
  assumes "cap_ok cap" "ring_ok cap r" "rg_consumer r = CLoop tail head" "tail \<noteq> head"
  shows "ring_ok cap (r\<lparr>rg_consumer := CLoop (next_index cap tail) head, rg_out := rg_out r @ [tb_data (rg_buffer r) ! tail]\<rparr>)"
proof -
  let ?b = "rg_buffer r"
  have b: "tb_tail ?b < cap" "tb_head ?b < cap" and l: "tail < cap" "head < cap"
    and d: "dist cap (tb_tail ?b) tail \<le> dist cap (tb_tail ?b) head" "dist cap (tb_tail ?b) head \<le> dist cap (tb_tail ?b) (tb_head ?b)"
    using assms(2,3) by (simp_all add: ring_ok_def buffer_ok_def)
  have less: "dist cap (tb_tail ?b) tail < dist cap (tb_tail ?b) head"
    using d(1) dist_inj [OF b(1) l] assms(4) by linarith
  then have "dist cap (tb_tail ?b) tail + 1 < cap" using dist_less [OF b(1) l(2)] by simp
  then have "dist cap (tb_tail ?b) (next_index cap tail) = Suc (dist cap (tb_tail ?b) tail)"
    using next_free [OF assms(1) b(1) l(1)] by (intro dist_next_head [OF assms(1) b(1) l(1)]) simp
  moreover have "tail \<noteq> tb_head ?b" using less d(2) by auto
  ultimately show ?thesis using assms less d l next_index_less [OF assms(1) l(1)]
    by (simp add: ring_ok_def between_take [OF assms(1) l(1) b(2)])
qed

lemma ring_ok_store:
  assumes "ring_ok cap r" "rg_consumer r = CLoop tail tail"
  shows "ring_ok cap (r\<lparr>rg_consumer := CIdle, rg_buffer := (rg_buffer r)\<lparr>tb_tail := tail\<rparr>\<rparr>)"
proof -
  let ?b = "rg_buffer r"
  have b: "tb_tail ?b < cap" "tb_head ?b < cap" "tail < cap" "dist cap (tb_tail ?b) tail \<le> dist cap (tb_tail ?b) (tb_head ?b)"
    using assms by (simp_all add: ring_ok_def buffer_ok_def)
  have "dist cap tail (tb_head ?b) \<le> dist cap (tb_tail ?b) (tb_head ?b)" using dist_part [OF b(1,3,2,4)] by simp
  then have "push_ok cap (?b\<lparr>tb_tail := tail\<rparr>) (rg_producer r)"
    using assms(1) by (cases "rg_producer r") (auto simp: ring_ok_def)
  then show ?thesis using assms b by (simp add: ring_ok_def buffer_ok_def)
qed

lemma ring_ok_step: "cap_ok cap \<Longrightarrow> ring_ok cap r \<Longrightarrow> ring_step cap r r' \<Longrightarrow> ring_ok cap r'"
  by (erule ring_step.cases) (auto simp: ring_ok_check ring_ok_write ring_ok_publish ring_ok_load ring_ok_copy ring_ok_store)

lemma ring_reach_ok: "ring_reach cap blank r \<Longrightarrow> cap_ok cap \<Longrightarrow> ring_ok cap r"
proof (induction rule: ring_reach.induct)
  case start
  then show ?case by (simp add: ring_ok_def buffer_ok_def TraceBuffer_init_def cap_ok_def)
next
  case (step r r')
  then show ?case using ring_ok_step by blast
qed

text \<open>A \<open>push\<close> that runs alone is its three accesses.\<close>

lemma ring_reach_push:
  assumes "ring_reach cap blank r" "rg_producer r = PIdle" "TraceBuffer_push cap e (rg_buffer r) = (True, b)"
  shows "ring_reach cap blank (r\<lparr>rg_buffer := b, rg_pushed := rg_pushed r @ [e]\<rparr>)"
proof -
  let ?b = "rg_buffer r" and ?h = "tb_head (rg_buffer r)" and ?n = "next_index cap (tb_head (rg_buffer r))"
  let ?d = "?b\<lparr>tb_data := (tb_data ?b)[?h := e]\<rparr>"
  have free: "?n \<noteq> tb_tail ?b" and b: "b = ?d\<lparr>tb_head := ?n\<rparr>"
    using assms(3) by (auto simp: TraceBuffer_push_def Let_def split: if_splits)
  have "ring_reach cap blank (r\<lparr>rg_producer := PChecked e ?h ?n\<rparr>)" (is "ring_reach _ _ ?r1")
    by (rule ring_reach.step [OF assms(1) push_check]) (use assms(2) free in simp_all)
  then have "ring_reach cap blank (?r1\<lparr>rg_producer := PWritten e ?n,
      rg_buffer := (rg_buffer ?r1)\<lparr>tb_data := (tb_data (rg_buffer ?r1))[?h := e]\<rparr>\<rparr>)" (is "ring_reach _ _ ?r2")
    by (rule ring_reach.step [OF _ push_write]) simp
  then have "ring_reach cap blank (?r2\<lparr>rg_producer := PIdle, rg_buffer := (rg_buffer ?r2)\<lparr>tb_head := ?n\<rparr>,
      rg_pushed := rg_pushed ?r2 @ [e]\<rparr>)"
    by (rule ring_reach.step [OF _ push_publish]) simp
  moreover have "?r2\<lparr>rg_producer := PIdle, rg_buffer := (rg_buffer ?r2)\<lparr>tb_head := ?n\<rparr>, rg_pushed := rg_pushed ?r2 @ [e]\<rparr>
     = r\<lparr>rg_buffer := b, rg_pushed := rg_pushed r @ [e]\<rparr>"
    using assms(2) by (cases r) (simp add: b)
  ultimately show ?thesis by simp
qed

definition demo_ring :: "nat ring" where
  "demo_ring = \<lparr>rg_buffer = \<lparr>tb_head = 2, tb_tail = 0, tb_data = [7, 8, 0]\<rparr>, rg_producer = PIdle, rg_consumer = CIdle,
     rg_pushed = [7, 8], rg_out = []\<rparr>"

lemma demo_ring_reach: "ring_reach 3 0 demo_ring"
proof -
  have "cap_ok 3" by (simp add: cap_ok_def)
  note idx = next_index_eq [OF this]
  have blank: "replicate 3 (0 :: nat) = [0, 0, 0]" by (simp add: numeral_3_eq_3)
  have push: "TraceBuffer_push 3 (7 :: nat) (TraceBuffer_init 3 0) = (True, \<lparr>tb_head = 1, tb_tail = 0, tb_data = [7, 0, 0]\<rparr>)"
    "TraceBuffer_push 3 (8 :: nat) \<lparr>tb_head = 1, tb_tail = 0, tb_data = [7, 0, 0]\<rparr> = (True, \<lparr>tb_head = 2, tb_tail = 0, tb_data = [7, 8, 0]\<rparr>)"
    by (simp_all add: TraceBuffer_push_def TraceBuffer_init_def blank idx Let_def)
  note one = ring_reach_push [OF ring_reach.start [of 3 0], of 7]
  then have "ring_reach 3 0 \<lparr>rg_buffer = \<lparr>tb_head = 1, tb_tail = 0, tb_data = [7, 0, 0 :: nat]\<rparr>, rg_producer = PIdle,
      rg_consumer = CIdle, rg_pushed = [7], rg_out = []\<rparr>" using push(1) by simp
  note two = ring_reach_push [OF this, of 8]
  then show ?thesis using push(2) by (simp add: demo_ring_def)
qed

text \<open>
  C15. However pushes and a drain interleave, the profiler gets exactly the events that were pushed, in
  order: what was copied out so far is a prefix of the pushed events, the rest is still in the ring,
  and the ring never holds as many events as it has slots; a drain that runs alone returns, with all
  of them.
\<close>
theorem trace_buffer_lossless:
  assumes "ring_reach cap blank r" "2 \<le> cap" "cap < 2 ^ 32"
  shows "(\<exists>rest. rg_pushed r = rg_out r @ rest \<and> length rest < cap) \<and>
    (rg_producer r = PIdle \<and> rg_consumer r = CIdle \<longrightarrow>
      map_option fst (TraceBuffer_drain cap (rg_out r) (rg_buffer r)) = Some (rg_pushed r))"
proof (intro conjI impI)
  have cap: "cap_ok cap" and ok: "ring_ok cap r" using ring_reach_ok [OF assms(1)] assms(2,3) by (auto simp: cap_ok_def)
  let ?b = "rg_buffer r"
  show "\<exists>rest. rg_pushed r = rg_out r @ rest \<and> length rest < cap"
    using ok copied_to_ok [of cap ?b "rg_consumer r"] dist_less [of "copied_to ?b (rg_consumer r)" cap "tb_head ?b"]
    by (auto simp: ring_ok_def between_def buffer_ok_def)
  assume "rg_producer r = PIdle \<and> rg_consumer r = CIdle"
  then show "map_option fst (TraceBuffer_drain cap (rg_out r) ?b) = Some (rg_pushed r)"
    using ok buffer_drain [OF cap, of ?b "rg_out r"] by (auto simp: ring_ok_def contents_def)
qed

theorem trace_buffer_lossless_witness:
  "(\<exists>rest. rg_pushed demo_ring = rg_out demo_ring @ rest \<and> length rest < 3)
   \<and> map_option fst (TraceBuffer_drain 3 (rg_out demo_ring) (rg_buffer demo_ring)) = Some [7, 8]"
  using trace_buffer_lossless [OF demo_ring_reach] by (simp add: demo_ring_def)

end
