(* ===== verification/NodeHosts.thy ===== *)
theory NodeHosts
  imports EventLoop Strands
begin

text \<open>
  The part of the interface \<open>snf::Executor\<close> (\<open>Core/src/SNFCore/Executor.h\<close>) that nodes use: an owner
  knows the nodes it hosts and which of them are roots. \<open>EventLoop\<close> lists its nodes, \<open>Strand\<close> only
  counts them; both list their roots. A pointer to an \<open>Executor\<close> is one or the other, so the
  dispatch of the virtual functions is a case distinction.
\<close>

section \<open>The interface\<close>

text \<open>\<open>hosts x S\<close>: the owner's books agree with \<open>S\<close> as the set of nodes it hosts.\<close>

locale node_host =
  fixes addNode :: "addr \<Rightarrow> 'x \<Rightarrow> 'x"
    and removeNode :: "addr \<Rightarrow> 'x \<Rightarrow> 'x"
    and addRootNode :: "addr \<Rightarrow> 'x \<Rightarrow> 'x"
    and removeRootNode :: "addr \<Rightarrow> 'x \<Rightarrow> 'x"
    and enqueueDelete :: "addr \<Rightarrow> 'x \<Rightarrow> 'x"
    and hosts :: "'x \<Rightarrow> addr set \<Rightarrow> bool"
    and roots :: "'x \<Rightarrow> addr list"
    and deletes :: "'x \<Rightarrow> addr list"
  assumes hosts_add: "hosts x S \<Longrightarrow> finite S \<Longrightarrow> n \<notin> S \<Longrightarrow> hosts (addNode n x) (insert n S)"
    and hosts_remove: "hosts x S \<Longrightarrow> finite S \<Longrightarrow> n \<in> S \<Longrightarrow> hosts (removeNode n x) (S - {n})"
    and hosts_roots: "hosts (addRootNode n x) S = hosts x S" "hosts (removeRootNode n x) S = hosts x S"
    and hosts_delete: "hosts (enqueueDelete n x) S = hosts x S"
    and roots_add: "roots (addRootNode n x) = roots x @ [n]"
    and roots_remove: "roots (removeRootNode n x) = erase_all n (roots x)"
    and roots_nodes: "roots (addNode n x) = roots x" "roots (removeNode n x) = roots x"
    and roots_delete: "roots (enqueueDelete n x) = roots x"
    and deletes_enqueue: "n \<in> set (deletes (enqueueDelete n x))" "set (deletes x) \<subseteq> set (deletes (enqueueDelete n x))"
begin

lemma hosts_move: "hosts x S \<Longrightarrow> finite S \<Longrightarrow> n \<notin> S \<Longrightarrow> hosts (removeNode n (addNode n x)) S"
  using hosts_remove [OF hosts_add, of x S n n] by simp

lemma roots_distinct_add: "distinct (roots x) \<Longrightarrow> n \<notin> set (roots x) \<Longrightarrow> distinct (roots (addRootNode n x))"
  by (simp add: roots_add)

lemma roots_distinct_remove: "distinct (roots x) \<Longrightarrow> distinct (roots (removeRootNode n x))"
  by (simp add: roots_remove distinct_erase_all)

end


section \<open>Event loops and strands\<close>

definition loop_hosts :: "('t, 'c) EventLoop \<Rightarrow> addr set \<Rightarrow> bool" where
  "loop_hosts l S \<longleftrightarrow> distinct (el_nodes l) \<and> set (el_nodes l) = S"

interpretation loop_host: node_host EventLoop_addNode EventLoop_removeNode EventLoop_addRootNode EventLoop_removeRootNode
  EventLoop_enqueueDelete loop_hosts el_rootNodes el_nodesToDelete
  by unfold_locales
    (auto simp: loop_hosts_def EventLoop_addNode_def EventLoop_removeNode_def EventLoop_addRootNode_def
      EventLoop_removeRootNode_def EventLoop_enqueueDelete_def distinct_erase_all)

definition strand_hosts :: "'t Strand \<Rightarrow> addr set \<Rightarrow> bool" where
  "strand_hosts s S \<longleftrightarrow> st_nodeCount s = of_nat (card S)"

lemma of_nat_card_remove: "finite S \<Longrightarrow> n \<in> S \<Longrightarrow> (of_nat (card S) :: u64) - 1 = of_nat (card (S - {n}))"
proof -
  assume "finite S" "n \<in> S"
  then have "card S = Suc (card (S - {n}))" by (rule card.remove)
  then show ?thesis by simp
qed

interpretation strand_host: node_host "\<lambda>_. Strand_addNode" "\<lambda>_. Strand_removeNode" Strand_addRootNode Strand_removeRootNode
  Strand_enqueueDelete strand_hosts st_rootNodes st_pendingDeletes
  by unfold_locales
    (auto simp: strand_hosts_def Strand_addNode_def Strand_removeNode_def Strand_addRootNode_def
      Strand_removeRootNode_def Strand_enqueueDelete_def of_nat_card_remove)


section \<open>Executors\<close>

datatype ('t, 'c) executor = LoopExecutor "('t, 'c) EventLoop" | StrandExecutor "'t Strand"

fun Executor_addNode :: "addr \<Rightarrow> ('t, 'c) executor \<Rightarrow> ('t, 'c) executor" where
  "Executor_addNode n (LoopExecutor l) = LoopExecutor (EventLoop_addNode n l)"
| "Executor_addNode n (StrandExecutor s) = StrandExecutor (Strand_addNode s)"

fun Executor_removeNode :: "addr \<Rightarrow> ('t, 'c) executor \<Rightarrow> ('t, 'c) executor" where
  "Executor_removeNode n (LoopExecutor l) = LoopExecutor (EventLoop_removeNode n l)"
| "Executor_removeNode n (StrandExecutor s) = StrandExecutor (Strand_removeNode s)"

fun Executor_addRootNode :: "addr \<Rightarrow> ('t, 'c) executor \<Rightarrow> ('t, 'c) executor" where
  "Executor_addRootNode n (LoopExecutor l) = LoopExecutor (EventLoop_addRootNode n l)"
| "Executor_addRootNode n (StrandExecutor s) = StrandExecutor (Strand_addRootNode n s)"

fun Executor_removeRootNode :: "addr \<Rightarrow> ('t, 'c) executor \<Rightarrow> ('t, 'c) executor" where
  "Executor_removeRootNode n (LoopExecutor l) = LoopExecutor (EventLoop_removeRootNode n l)"
| "Executor_removeRootNode n (StrandExecutor s) = StrandExecutor (Strand_removeRootNode n s)"

fun Executor_enqueueDelete :: "addr \<Rightarrow> ('t, 'c) executor \<Rightarrow> ('t, 'c) executor" where
  "Executor_enqueueDelete n (LoopExecutor l) = LoopExecutor (EventLoop_enqueueDelete n l)"
| "Executor_enqueueDelete n (StrandExecutor s) = StrandExecutor (Strand_enqueueDelete n s)"

text \<open>\<open>post\<close>; the drain a strand asks its pool for is the pool's part (\<open>post_push\<close> in \<open>Strands\<close>).\<close>

fun Executor_post :: "'t \<Rightarrow> ('t, 'c) executor \<Rightarrow> ('t, 'c) executor" where
  "Executor_post t (LoopExecutor l) = LoopExecutor (EventLoop_post t l)"
| "Executor_post t (StrandExecutor s) = StrandExecutor (if st_retired s then s else snd (Strand_push t s))"

fun Executor_isLoop :: "('t, 'c) executor \<Rightarrow> bool" where
  "Executor_isLoop (LoopExecutor l) = True"
| "Executor_isLoop (StrandExecutor s) = False"

fun Executor_isRetired :: "('t, 'c) executor \<Rightarrow> bool" where
  "Executor_isRetired (LoopExecutor l) = el_retired l"
| "Executor_isRetired (StrandExecutor s) = st_retired s"

fun Executor_roots :: "('t, 'c) executor \<Rightarrow> addr list" where
  "Executor_roots (LoopExecutor l) = el_rootNodes l"
| "Executor_roots (StrandExecutor s) = st_rootNodes s"

fun Executor_deletes :: "('t, 'c) executor \<Rightarrow> addr list" where
  "Executor_deletes (LoopExecutor l) = el_nodesToDelete l"
| "Executor_deletes (StrandExecutor s) = st_pendingDeletes s"

fun Executor_tasks :: "('t, 'c) executor \<Rightarrow> 't list" where
  "Executor_tasks (LoopExecutor l) = el_tasks l"
| "Executor_tasks (StrandExecutor s) = st_queue s"

fun hosts :: "('t, 'c) executor \<Rightarrow> addr set \<Rightarrow> bool" where
  "hosts (LoopExecutor l) S = loop_hosts l S"
| "hosts (StrandExecutor s) S = strand_hosts s S"

interpretation ex: node_host Executor_addNode Executor_removeNode Executor_addRootNode Executor_removeRootNode
  Executor_enqueueDelete hosts Executor_roots Executor_deletes
proof unfold_locales
  fix x :: "('a, 'b) executor" and S n
  show "hosts x S \<Longrightarrow> finite S \<Longrightarrow> n \<notin> S \<Longrightarrow> hosts (Executor_addNode n x) (insert n S)"
    by (cases x) (simp_all add: loop_host.hosts_add strand_host.hosts_add)
  show "hosts x S \<Longrightarrow> finite S \<Longrightarrow> n \<in> S \<Longrightarrow> hosts (Executor_removeNode n x) (S - {n})"
    by (cases x) (simp_all add: loop_host.hosts_remove strand_host.hosts_remove)
  show "hosts (Executor_addRootNode n x) S = hosts x S" "hosts (Executor_removeRootNode n x) S = hosts x S"
    "hosts (Executor_enqueueDelete n x) S = hosts x S"
    by (cases x; simp add: loop_host.hosts_roots strand_host.hosts_roots loop_host.hosts_delete strand_host.hosts_delete)+
  show "Executor_roots (Executor_addRootNode n x) = Executor_roots x @ [n]"
    "Executor_roots (Executor_removeRootNode n x) = erase_all n (Executor_roots x)"
    "Executor_roots (Executor_addNode n x) = Executor_roots x" "Executor_roots (Executor_removeNode n x) = Executor_roots x"
    "Executor_roots (Executor_enqueueDelete n x) = Executor_roots x"
    by (cases x; simp add: loop_host.roots_add strand_host.roots_add loop_host.roots_remove strand_host.roots_remove
        loop_host.roots_nodes strand_host.roots_nodes loop_host.roots_delete strand_host.roots_delete)+
  show "n \<in> set (Executor_deletes (Executor_enqueueDelete n x))"
    "set (Executor_deletes x) \<subseteq> set (Executor_deletes (Executor_enqueueDelete n x))"
    by (cases x; simp add: loop_host.deletes_enqueue strand_host.deletes_enqueue)+
qed

lemma post_books [simp]:
  "Executor_roots (Executor_post t x) = Executor_roots x" "hosts (Executor_post t x) S = hosts x S"
  "Executor_isLoop (Executor_post t x) = Executor_isLoop x"
  by (cases x; simp add: EventLoop_post_def Strand_push_def loop_hosts_def strand_hosts_def Let_def)+

lemma tasks_books [simp]:
  "Executor_tasks (Executor_addNode n x) = Executor_tasks x" "Executor_tasks (Executor_removeNode n x) = Executor_tasks x"
  "Executor_tasks (Executor_addRootNode n x) = Executor_tasks x" "Executor_tasks (Executor_removeRootNode n x) = Executor_tasks x"
  "Executor_tasks (Executor_enqueueDelete n x) = Executor_tasks x"
  by (cases x; simp add: EventLoop_addNode_def EventLoop_removeNode_def EventLoop_addRootNode_def EventLoop_removeRootNode_def
      EventLoop_enqueueDelete_def Strand_addNode_def Strand_removeNode_def Strand_addRootNode_def Strand_removeRootNode_def
      Strand_enqueueDelete_def)+

lemma isLoop_ops [simp]:
  "Executor_isLoop (Executor_addNode n x) = Executor_isLoop x" "Executor_isLoop (Executor_removeNode n x) = Executor_isLoop x"
  "Executor_isLoop (Executor_addRootNode n x) = Executor_isLoop x"
  "Executor_isLoop (Executor_removeRootNode n x) = Executor_isLoop x"
  "Executor_isLoop (Executor_enqueueDelete n x) = Executor_isLoop x"
  by (cases x; simp)+

lemmas ex_books [simp] = ex.hosts_roots ex.hosts_delete ex.roots_add ex.roots_remove ex.roots_nodes ex.roots_delete

end
