(* ===== verification/NodeTree.thy ===== *)
theory NodeTree
  imports NodeHosts
begin

text \<open>
  \<open>snf::Node\<close> (\<open>Core/src/SNFCore/Node.cpp\<close>, \<open>Node.h\<close>) with what it keeps elsewhere: the lifetime block
  \<open>NodePtr\<close> looks at (\<open>NodeLifetimeBlock.h\<close>, \<open>NodePtr.h\<close>), the registry that finds it by address
  (\<open>NodeRegistry.cpp\<close>), the application's table of alive nodes (\<open>Application.cpp\<close>) and the owner's
  books (\<open>NodeHosts\<close>). Nodes live in an explicit heap: an address that is not in it is freed memory, and
  touching it is the fault \<open>Dangling\<close>; an exception is the fault \<open>RuntimeError\<close> or \<open>LogicError\<close>.
  Recursion over the tree takes fuel, one unit per level; \<open>NodeTreeSafety\<close> shows how much is enough.
  The \<open>onAboutToMoveToThread\<close> and \<open>onMovedToThread\<close> hooks of \<open>Node\<close> itself do nothing; those of \<open>Timer\<close>
  are in the theory \<open>Timers\<close>.
\<close>

section \<open>State\<close>

record NodeLifetimeBlock =
  bl_alive :: bool
  bl_marked :: bool
  bl_owner :: addr

record Node =
  nd_parent :: addr
  nd_children :: "addr list"
  nd_childrenToDelete :: "addr list"
  nd_isRoot :: bool
  nd_name :: string
  nd_generation :: u64
  nd_block :: nat

text \<open>Work the nodes post to executors: the closures of \<open>postDeleteToOwner\<close> and \<open>postMoveToOwner\<close> with
  the node, its block, the executor they were posted to and, for a move, the target.\<close>

datatype node_task = DeleteTask addr nat addr | MoveTask addr nat addr addr

record 'c world =
  w_nodes :: "addr \<Rightarrow> Node option"
  w_blocks :: "nat \<Rightarrow> NodeLifetimeBlock option"
  w_registry :: "addr \<Rightarrow> nat option"
  w_alive :: "addr \<Rightarrow> (u64 \<times> bool) option"
  w_executors :: "addr \<Rightarrow> (node_task, 'c) executor option"
  w_nextBlock :: nat
  w_nextGeneration :: u64

datatype fault = Dangling addr | IteratorInvalidated addr | RuntimeError string | LogicError string | OutOfFuel

text \<open>Sequencing: the first fault ends the call.\<close>

definition seq :: "fault + 'a \<Rightarrow> ('a \<Rightarrow> fault + 'b) \<Rightarrow> fault + 'b" where
  "seq r f = (case r of Inl e \<Rightarrow> Inl e | Inr x \<Rightarrow> f x)"

lemma seq_simps [simp]: "seq (Inl e) f = Inl e" "seq (Inr x) f = f x"
  by (simp_all add: seq_def)

text \<open>\<open>p->...\<close>\<close>

definition deref :: "addr \<Rightarrow> 'c world \<Rightarrow> fault + Node" where
  "deref n w = (case w_nodes w n of None \<Rightarrow> Inl (Dangling n) | Some nd \<Rightarrow> Inr nd)"

definition at_node :: "addr \<Rightarrow> (Node \<Rightarrow> Node) \<Rightarrow> 'c world \<Rightarrow> 'c world" where
  "at_node n f w = w\<lparr>w_nodes := (w_nodes w)(n := map_option f (w_nodes w n))\<rparr>"

definition at_block :: "nat \<Rightarrow> (NodeLifetimeBlock \<Rightarrow> NodeLifetimeBlock) \<Rightarrow> 'c world \<Rightarrow> 'c world" where
  "at_block b f w = w\<lparr>w_blocks := (w_blocks w)(b := map_option f (w_blocks w b))\<rparr>"

definition at_executor :: "addr \<Rightarrow> ((node_task, 'c) executor \<Rightarrow> (node_task, 'c) executor) \<Rightarrow> 'c world \<Rightarrow> 'c world" where
  "at_executor e f w =
     (if e = nullptr then w else w\<lparr>w_executors := (w_executors w)(e := map_option f (w_executors w e))\<rparr>)"

definition block_owner :: "nat \<Rightarrow> 'c world \<Rightarrow> addr" where
  "block_owner b w = (case w_blocks w b of None \<Rightarrow> nullptr | Some bl \<Rightarrow> bl_owner bl)"

definition block_alive :: "nat \<Rightarrow> 'c world \<Rightarrow> bool" where
  "block_alive b w = (case w_blocks w b of None \<Rightarrow> False | Some bl \<Rightarrow> bl_alive bl)"

text \<open>\<open>executor->eventLoop()\<close> is not null.\<close>

definition is_loop :: "addr \<Rightarrow> 'c world \<Rightarrow> bool" where
  "is_loop e w = (case w_executors w e of None \<Rightarrow> False | Some x \<Rightarrow> Executor_isLoop x)"

definition is_retired :: "addr \<Rightarrow> 'c world \<Rightarrow> bool" where
  "is_retired e w = (case w_executors w e of None \<Rightarrow> False | Some x \<Rightarrow> Executor_isRetired x)"


section \<open>Registries\<close>

definition NodeRegistry_registerNode :: "addr \<Rightarrow> nat \<Rightarrow> 'c world \<Rightarrow> 'c world" where
  "NodeRegistry_registerNode n b w = w\<lparr>w_registry := (w_registry w)(n \<mapsto> b)\<rparr>"

definition NodeRegistry_unregisterNode :: "addr \<Rightarrow> 'c world \<Rightarrow> 'c world" where
  "NodeRegistry_unregisterNode n w = w\<lparr>w_registry := (w_registry w)(n := None)\<rparr>"

definition NodeRegistry_lookup :: "addr \<Rightarrow> 'c world \<Rightarrow> nat option" where
  "NodeRegistry_lookup n w = w_registry w n"

definition Application_registerAliveNode :: "addr \<Rightarrow> u64 \<Rightarrow> 'c world \<Rightarrow> 'c world" where
  "Application_registerAliveNode n g w = w\<lparr>w_alive := (w_alive w)(n \<mapsto> (g, False))\<rparr>"

definition Application_markToDelete :: "addr \<Rightarrow> 'c world \<Rightarrow> fault + 'c world" where
  "Application_markToDelete n w =
     (case w_alive w n of
        None \<Rightarrow> Inl (RuntimeError ''Node not found in the alive nodes'')
      | Some (g, _) \<Rightarrow> Inr (w\<lparr>w_alive := (w_alive w)(n \<mapsto> (g, True))\<rparr>))"

definition Application_unregisterAliveNode :: "addr \<Rightarrow> 'c world \<Rightarrow> fault + 'c world" where
  "Application_unregisterAliveNode n w =
     (case w_alive w n of
        None \<Rightarrow> Inl (RuntimeError ''Node not found in the alive nodes'')
      | Some _ \<Rightarrow> Inr (w\<lparr>w_alive := (w_alive w)(n := None)\<rparr>))"

definition Application_isNodeAlive :: "addr \<Rightarrow> u64 \<Rightarrow> 'c world \<Rightarrow> bool" where
  "Application_isNodeAlive n g w = (case w_alive w n of None \<Rightarrow> False | Some (g', _) \<Rightarrow> g' = g)"

definition Application_isNodeMarkedToDelete :: "addr \<Rightarrow> u64 \<Rightarrow> 'c world \<Rightarrow> bool" where
  "Application_isNodeMarkedToDelete n g w =
     (case w_alive w n of None \<Rightarrow> True | Some (g', marked) \<Rightarrow> if g' \<noteq> g then True else marked)"


section \<open>Node pointers\<close>

record NodePtr =
  np_node :: addr
  np_block :: "nat option"

definition NodePtr_new :: "addr \<Rightarrow> 'c world \<Rightarrow> NodePtr" where
  "NodePtr_new n w = \<lparr>np_node = n, np_block = (if n = nullptr then None else NodeRegistry_lookup n w)\<rparr>"

definition NodePtr_isAlive :: "NodePtr \<Rightarrow> 'c world \<Rightarrow> bool" where
  "NodePtr_isAlive p w = (case np_block p of None \<Rightarrow> False | Some b \<Rightarrow> block_alive b w)"

definition NodePtr_isMarkedToDelete :: "NodePtr \<Rightarrow> 'c world \<Rightarrow> bool" where
  "NodePtr_isMarkedToDelete p w =
     (case np_block p of
        None \<Rightarrow> True
      | Some b \<Rightarrow> (case w_blocks w b of None \<Rightarrow> True | Some bl \<Rightarrow> \<not> bl_alive bl \<or> bl_marked bl))"

definition NodePtr_ownerExecutor :: "NodePtr \<Rightarrow> 'c world \<Rightarrow> addr" where
  "NodePtr_ownerExecutor p w = (case np_block p of None \<Rightarrow> nullptr | Some b \<Rightarrow> block_owner b w)"

text \<open>\<open>operator->\<close> and \<open>operator bool\<close>.\<close>

definition NodePtr_arrow :: "NodePtr \<Rightarrow> 'c world \<Rightarrow> addr" where
  "NodePtr_arrow p w = (if np_node p \<noteq> nullptr \<and> NodePtr_isAlive p w then np_node p else nullptr)"

definition NodePtr_bool :: "NodePtr \<Rightarrow> 'c world \<Rightarrow> bool" where
  "NodePtr_bool p w \<longleftrightarrow> np_node p \<noteq> nullptr \<and> NodePtr_isAlive p w"

definition NodePtr_star :: "NodePtr \<Rightarrow> 'c world \<Rightarrow> fault + addr" where
  "NodePtr_star p w =
     (if np_node p \<noteq> nullptr \<and> NodePtr_isAlive p w then Inr (np_node p) else Inl (RuntimeError ''Node is not alive''))"

definition NodePtr_reset :: "addr \<Rightarrow> 'c world \<Rightarrow> NodePtr" where
  "NodePtr_reset n w = \<lparr>np_node = n, np_block = (if n = nullptr then None else NodeRegistry_lookup n w)\<rparr>"


section \<open>Destruction\<close>

text \<open>\<open>~Node\<close> up to the loop over the children, and from it on to the release of the memory.\<close>

definition leave_parent :: "addr \<Rightarrow> addr \<Rightarrow> 'c world \<Rightarrow> fault + 'c world" where
  "leave_parent n p w =
     seq (deref p w) (\<lambda>_. Inr (at_node p (\<lambda>pd. pd\<lparr>nd_children := erase_all n (nd_children pd),
       nd_childrenToDelete := erase_all n (nd_childrenToDelete pd)\<rparr>) w))"

definition destroy_enter :: "addr \<Rightarrow> Node \<Rightarrow> 'c world \<Rightarrow> fault + 'c world" where
  "destroy_enter n nd w =
     (let w1 = NodeRegistry_unregisterNode n (at_block (nd_block nd) (\<lambda>b. b\<lparr>bl_alive := False\<rparr>) w);
          owner = block_owner (nd_block nd) w
      in seq (if nd_isRoot nd \<and> owner \<noteq> nullptr then Inr (at_executor owner (Executor_removeRootNode n) w1)
              else if nd_parent nd \<noteq> nullptr then leave_parent n (nd_parent nd) w1
              else Inr w1)
           (\<lambda>w2. Inr (at_node n (\<lambda>nd. nd\<lparr>nd_children := []\<rparr>) w2)))"

definition destroy_leave :: "addr \<Rightarrow> addr \<Rightarrow> 'c world \<Rightarrow> fault + 'c world" where
  "destroy_leave n owner w =
     seq (Application_unregisterAliveNode n (at_executor owner (Executor_removeNode n) w))
         (\<lambda>w1. Inr (w1\<lparr>w_nodes := (w_nodes w1)(n := None)\<rparr>))"

fun Node_destroy :: "nat \<Rightarrow> addr \<Rightarrow> 'c world \<Rightarrow> fault + 'c world"
  and destroy_children :: "nat \<Rightarrow> addr list \<Rightarrow> 'c world \<Rightarrow> fault + 'c world" where
  "Node_destroy 0 n w = Inl OutOfFuel"
| "Node_destroy (Suc k) n w =
     seq (deref n w) (\<lambda>nd.
     seq (destroy_enter n nd w) (\<lambda>w1.
     seq (destroy_children k (nd_children nd) w1) (\<lambda>w2.
     destroy_leave n (block_owner (nd_block nd) w) w2)))"
| "destroy_children k [] w = Inr w"
| "destroy_children k (c # cs) w = seq (Node_destroy k c w) (destroy_children k cs)"


section \<open>Building and changing the tree\<close>

definition Node_addChild :: "addr \<Rightarrow> addr \<Rightarrow> 'c world \<Rightarrow> fault + 'c world" where
  "Node_addChild p c w =
     (if c = nullptr then Inr w
      else seq (deref c w) (\<lambda>cd.
           seq (deref p w) (\<lambda>_.
           let w1 = (if nd_isRoot cd
                     then at_executor (block_owner (nd_block cd) w) (Executor_removeRootNode c)
                            (at_node c (\<lambda>cd. cd\<lparr>nd_isRoot := False\<rparr>) w)
                     else w)
           in Inr (at_node p (\<lambda>pd. pd\<lparr>nd_children := nd_children pd @ [c]\<rparr>)
                     (at_node c (\<lambda>cd. cd\<lparr>nd_parent := p\<rparr>) w1)))))"

definition Node_setParent :: "addr \<Rightarrow> addr \<Rightarrow> 'c world \<Rightarrow> fault + 'c world" where
  "Node_setParent n p w =
     seq (deref n w) (\<lambda>nd.
     let owner = block_owner (nd_block nd) w
     in seq (if nd_parent nd \<noteq> nullptr
             then seq (deref (nd_parent nd) w) (\<lambda>_.
                    Inr (at_node (nd_parent nd) (\<lambda>od. od\<lparr>nd_children := remove1 n (nd_children od)\<rparr>) w))
             else Inr (at_executor owner (Executor_removeRootNode n) w))
        (\<lambda>w1. if p = nullptr
              then Inr (at_executor owner (Executor_addRootNode n)
                     (at_node n (\<lambda>nd. nd\<lparr>nd_parent := nullptr, nd_isRoot := True\<rparr>) w1))
              else Node_addChild p n (at_node n (\<lambda>nd. nd\<lparr>nd_isRoot := False\<rparr>) w1)))"

text \<open>The calling thread: is it a worker of a \<open>TaskPool\<close>, which strand is it in, which event loop is its own
  (\<open>getOrCreateCurrentThreadEventLoop\<close>).\<close>

record thread_context =
  cx_worker :: bool
  cx_strand :: addr
  cx_loop :: addr

definition isCurrent :: "thread_context \<Rightarrow> addr \<Rightarrow> bool" where
  "isCurrent cx e \<longleftrightarrow> e \<noteq> nullptr \<and> (e = cx_strand cx \<or> e = cx_loop cx)"

text \<open>\<open>new Node(parent)\<close> at the fresh address \<open>n\<close>.\<close>

definition Node_new :: "thread_context \<Rightarrow> addr \<Rightarrow> addr \<Rightarrow> 'c world \<Rightarrow> fault + 'c world" where
  "Node_new cx n parent w =
     seq (if parent = nullptr then Inr nullptr
          else seq (deref parent w) (\<lambda>pd. Inr (block_owner (nd_block pd) w))) (\<lambda>parentOwner.
     let creatingStrand = (if cx_worker cx then cx_strand cx else nullptr)
     in if cx_worker cx \<and> \<not> (if parent \<noteq> nullptr then isCurrent cx parentOwner else creatingStrand \<noteq> nullptr)
        then Inl (LogicError ''snf::Node cannot be created on a TaskPool worker outside a strand'')
        else let b = w_nextBlock w;
                 g = w_nextGeneration w;
                 owner = (if parent \<noteq> nullptr then parentOwner
                          else if creatingStrand \<noteq> nullptr then creatingStrand else cx_loop cx);
                 nd = \<lparr>nd_parent = parent, nd_children = [], nd_childrenToDelete = [], nd_isRoot = False, nd_name = [],
                       nd_generation = g, nd_block = b\<rparr>;
                 w1 = NodeRegistry_registerNode n b
                        (w\<lparr>w_nextGeneration := g + 1, w_nextBlock := b + 1, w_nodes := (w_nodes w)(n \<mapsto> nd),
                           w_blocks := (w_blocks w)(b \<mapsto> \<lparr>bl_alive = True, bl_marked = False, bl_owner = owner\<rparr>)\<rparr>)
             in seq (if parent \<noteq> nullptr then Node_addChild parent n w1
                     else Inr (at_executor owner (Executor_addRootNode n) (at_node n (\<lambda>nd. nd\<lparr>nd_isRoot := True\<rparr>) w1)))
                (\<lambda>w2. Inr (Application_registerAliveNode n g (at_executor owner (Executor_addNode n) w2))))"

definition Node_getChild :: "addr \<Rightarrow> nat \<Rightarrow> 'c world \<Rightarrow> fault + addr" where
  "Node_getChild n i w =
     seq (deref n w) (\<lambda>nd. Inr (if length (nd_children nd) \<le> i then nullptr else nd_children nd ! i))"

definition Node_isChild :: "addr \<Rightarrow> addr \<Rightarrow> 'c world \<Rightarrow> fault + bool" where
  "Node_isChild n c w = seq (deref n w) (\<lambda>nd. Inr (c \<in> set (nd_children nd)))"


section \<open>Deferred deletion\<close>

definition Node_pushDeleteChild :: "addr \<Rightarrow> addr \<Rightarrow> 'c world \<Rightarrow> fault + 'c world" where
  "Node_pushDeleteChild p c w =
     seq (deref p w) (\<lambda>pd. Inr (if c \<in> set (nd_children pd)
       then at_node p (\<lambda>pd. pd\<lparr>nd_childrenToDelete := nd_childrenToDelete pd @ [c]\<rparr>) w else w))"

definition Node_deleteLater :: "thread_context \<Rightarrow> addr \<Rightarrow> 'c world \<Rightarrow> fault + 'c world" where
  "Node_deleteLater cx n w =
     seq (deref n w) (\<lambda>nd.
     let w1 = at_block (nd_block nd) (\<lambda>b. b\<lparr>bl_marked := True\<rparr>) w;
         owner = block_owner (nd_block nd) w
     in seq (Application_markToDelete n w1) (\<lambda>w2.
        if owner \<noteq> nullptr \<and> \<not> isCurrent cx owner
        then Inr (at_executor owner (Executor_post (DeleteTask n (nd_block nd) owner)) w2)
        else if owner \<noteq> nullptr \<and> \<not> is_loop owner w2 then Inr (at_executor owner (Executor_enqueueDelete n) w2)
        else if nd_parent nd \<noteq> nullptr then Node_pushDeleteChild (nd_parent nd) n w2
        else if owner \<noteq> nullptr then Inr (at_executor owner (Executor_enqueueDelete n) w2)
        else Inl (RuntimeError ''Node owner EventLoop does not exist'')))"

text \<open>The loop over pending deletes of an executor (\<open>EventLoop::runPendingWork\<close>,
  \<open>Strand::runPendingDeletes\<close>): each node that a \<open>NodePtr\<close> still finds alive is deleted.\<close>

fun delete_alive :: "nat \<Rightarrow> addr list \<Rightarrow> 'c world \<Rightarrow> fault + 'c world" where
  "delete_alive k [] w = Inr w"
| "delete_alive k (n # ns) w =
     (if NodePtr_bool (NodePtr_new n w) w then seq (Node_destroy k n w) (delete_alive k ns) else delete_alive k ns w)"


section \<open>Migration\<close>

text \<open>\<open>setOwnerExecutor\<close> and the two executors' books.\<close>

definition move_node :: "addr \<Rightarrow> addr \<Rightarrow> Node \<Rightarrow> 'c world \<Rightarrow> 'c world" where
  "move_node n target nd w =
     (let old = block_owner (nd_block nd) w;
          w1 = at_executor old (\<lambda>x. (if nd_isRoot nd then Executor_removeRootNode n else id) (Executor_removeNode n x)) w;
          w2 = at_block (nd_block nd) (\<lambda>b. b\<lparr>bl_owner := target\<rparr>) w1
      in at_executor target (\<lambda>x. (if nd_isRoot nd then Executor_addRootNode n else id) (Executor_addNode n x)) w2)"

fun Node_applyMoveTo :: "nat \<Rightarrow> addr \<Rightarrow> addr \<Rightarrow> 'c world \<Rightarrow> fault + 'c world"
  and move_children :: "nat \<Rightarrow> addr \<Rightarrow> addr list \<Rightarrow> 'c world \<Rightarrow> fault + 'c world" where
  "Node_applyMoveTo 0 target n w = Inl OutOfFuel"
| "Node_applyMoveTo (Suc k) target n w =
     seq (deref n w) (\<lambda>nd.
     if block_owner (nd_block nd) w = target then Inr w
     else move_children k target (nd_children nd) (move_node n target nd w))"
| "move_children k target [] w = Inr w"
| "move_children k target (c # cs) w = seq (Node_applyMoveTo k target c w) (move_children k target cs)"

text \<open>\<open>moveToThread\<close>: a thread is its event loop, \<open>nullptr\<close> when it has none.\<close>

definition Node_moveToThread :: "nat \<Rightarrow> thread_context \<Rightarrow> addr \<Rightarrow> addr \<Rightarrow> 'c world \<Rightarrow> fault + bool \<times> 'c world" where
  "Node_moveToThread k cx target n w =
     (if target = nullptr then Inr (False, w)
      else if is_retired target w then Inr (False, w)
      else seq (deref n w) (\<lambda>nd.
           let owner = block_owner (nd_block nd) w
           in if owner = nullptr then Inr (False, w)
              else seq (if nd_parent nd = nullptr then Inr True
                        else seq (deref (nd_parent nd) w) (\<lambda>pd. Inr (block_owner (nd_block pd) w = target)))
                   (\<lambda>fits. if \<not> fits then Inr (False, w)
                           else if isCurrent cx owner
                           then seq (Node_applyMoveTo k target n w) (\<lambda>w1. Inr (True, w1))
                           else Inr (True, at_executor owner (Executor_post (MoveTask n (nd_block nd) owner target)) w))))"

text \<open>The closures of \<open>postDeleteToOwner\<close> and \<open>postMoveToOwner\<close>, running in the executor they were posted to.\<close>

fun run_node_task :: "nat \<Rightarrow> node_task \<Rightarrow> 'c world \<Rightarrow> fault + 'c world" where
  "run_node_task k (DeleteTask n b e) w =
     (if \<not> block_alive b w then Inr w
      else let owner = block_owner b w
           in if owner \<noteq> nullptr \<and> owner \<noteq> e then Inr (at_executor owner (Executor_post (DeleteTask n b owner)) w)
              else Inr (at_executor e (Executor_enqueueDelete n) w))"
| "run_node_task k (MoveTask n b e target) w =
     (if \<not> block_alive b w then Inr w
      else let owner = block_owner b w
           in if owner \<noteq> nullptr \<and> owner \<noteq> e then Inr (at_executor owner (Executor_post (MoveTask n b owner target)) w)
              else seq (deref n w) (\<lambda>nd.
                   seq (if nd_parent nd = nullptr then Inr True
                        else seq (deref (nd_parent nd) w) (\<lambda>pd. Inr (block_owner (nd_block pd) w = target)))
                   (\<lambda>fits. if \<not> fits then Inr w
                           else if is_retired target w then Inr w
                           else Node_applyMoveTo k target n w)))"


section \<open>One tick\<close>

text \<open>
  \<open>Node::run\<close>. Its two loops iterate over the vectors \<open>m_childrenToDelete\<close> and \<open>m_children\<close> themselves. When
  the vector changes under the loop (the destructor of a child erases the child from both of its parent's
  vectors), the iterator is invalid and going on is undefined behaviour: the fault \<open>IteratorInvalidated\<close>.
  \<open>update\<close> is the node's own code.
\<close>

fun delete_pending :: "nat \<Rightarrow> addr \<Rightarrow> addr list \<Rightarrow> addr list \<Rightarrow> 'c world \<Rightarrow> fault + 'c world" where
  "delete_pending k n all [] w = Inr w"
| "delete_pending k n all (c # cs) w =
     (if NodePtr_bool (NodePtr_new c w) w
      then seq (Node_destroy k c w) (\<lambda>w1.
           seq (deref n w1) (\<lambda>nd.
           if nd_childrenToDelete nd \<noteq> all then Inl (IteratorInvalidated n) else delete_pending k n all cs w1))
      else delete_pending k n all cs w)"

definition clear_pending :: "addr \<Rightarrow> 'c world \<Rightarrow> fault + 'c world" where
  "clear_pending n w = seq (deref n w) (\<lambda>_. Inr (at_node n (\<lambda>nd. nd\<lparr>nd_childrenToDelete := []\<rparr>) w))"

fun Node_run :: "nat \<Rightarrow> (addr \<Rightarrow> 'c world \<Rightarrow> fault + 'c world) \<Rightarrow> addr \<Rightarrow> 'c world \<Rightarrow> fault + 'c world"
  and run_children :: "nat \<Rightarrow> (addr \<Rightarrow> 'c world \<Rightarrow> fault + 'c world) \<Rightarrow> addr \<Rightarrow> addr list \<Rightarrow> addr list \<Rightarrow> 'c world \<Rightarrow> fault + 'c world"
  where
  "Node_run 0 update n w = Inl OutOfFuel"
| "Node_run (Suc k) update n w =
     seq (deref n w) (\<lambda>nd.
     seq (delete_pending k n (nd_childrenToDelete nd) (nd_childrenToDelete nd) w) (\<lambda>w1.
     seq (clear_pending n w1) (\<lambda>w2.
     seq (deref n w2) (\<lambda>nd2.
     seq (run_children k update n (nd_children nd2) (nd_children nd2) w2) (\<lambda>w3.
     seq (update n w3) (clear_pending n))))))"
| "run_children k update n all [] w = Inr w"
| "run_children k update n all (c # cs) w =
     seq (Node_run k update c w) (\<lambda>w1.
     seq (deref n w1) (\<lambda>nd.
     if nd_children nd \<noteq> all then Inl (IteratorInvalidated n) else run_children k update n all cs w1))"

end
