(* ===== verification/NodeTreeSafety.thy ===== *)
theory NodeTreeSafety
  imports NodeTree
begin

text \<open>
  The invariant of the node tree and what follows from it: nodes, blocks, registries and the owners'
  books agree; building, re-parenting, migrating and destroying keep it; destroying a node frees
  exactly its subtree, touches no freed memory and needs no more fuel than there are nodes. Nodes whose
  destructor has begun are in the heap but not \<open>live\<close>; the invariant also holds between the steps
  of a destructor.
\<close>

section \<open>The invariant\<close>

text \<open>Addresses are numbers; a comparison with the null pointer stays one.\<close>

declare neq0_conv [iff del]

definition owner_of :: "'c world \<Rightarrow> addr \<Rightarrow> addr" where
  "owner_of w n = (case w_nodes w n of None \<Rightarrow> nullptr | Some nd \<Rightarrow> block_owner (nd_block nd) w)"

definition live :: "'c world \<Rightarrow> addr \<Rightarrow> bool" where
  "live w n = (case w_nodes w n of None \<Rightarrow> False | Some nd \<Rightarrow> block_alive (nd_block nd) w)"

definition parent_of :: "'c world \<Rightarrow> addr \<Rightarrow> addr" where
  "parent_of w n = (case w_nodes w n of None \<Rightarrow> nullptr | Some nd \<Rightarrow> nd_parent nd)"

definition children_of :: "'c world \<Rightarrow> addr \<Rightarrow> addr list" where
  "children_of w n = (case w_nodes w n of None \<Rightarrow> [] | Some nd \<Rightarrow> nd_children nd)"

definition root_node :: "'c world \<Rightarrow> addr \<Rightarrow> bool" where
  "root_node w n = (case w_nodes w n of None \<Rightarrow> False | Some nd \<Rightarrow> nd_isRoot nd)"

definition block_of :: "'c world \<Rightarrow> addr \<Rightarrow> nat option" where
  "block_of w n = map_option nd_block (w_nodes w n)"

abbreviation heap :: "'c world \<Rightarrow> addr set" where
  "heap w \<equiv> dom (w_nodes w)"

definition blocks_ok :: "'c world \<Rightarrow> bool" where
  "blocks_ok w \<longleftrightarrow> (\<forall>n b. block_of w n = Some b \<longrightarrow> b < w_nextBlock w \<and> b \<in> dom (w_blocks w))
     \<and> (\<forall>n m b. block_of w n = Some b \<and> block_of w m = Some b \<longrightarrow> n = m)"

definition registry_ok :: "'c world \<Rightarrow> bool" where
  "registry_ok w \<longleftrightarrow> (\<forall>n. w_registry w n = (if live w n then block_of w n else None))
     \<and> dom (w_alive w) = heap w"

definition tree_ok :: "'c world \<Rightarrow> bool" where
  "tree_ok w \<longleftrightarrow> (\<forall>n \<in> heap w. root_node w n \<longleftrightarrow> parent_of w n = nullptr)
     \<and> (\<forall>n \<in> heap w. parent_of w n \<noteq> nullptr \<longrightarrow> parent_of w n \<in> heap w)
     \<and> (\<forall>p. distinct (children_of w p))
     \<and> (\<forall>p c. c \<in> set (children_of w p) \<longrightarrow> live w c \<and> parent_of w c = p)
     \<and> (\<forall>n. live w n \<and> live w (parent_of w n) \<longrightarrow> n \<in> set (children_of w (parent_of w n)))"

text \<open>The books of the executor \<open>x\<close> at \<open>e\<close>.\<close>

definition books_ok :: "'c world \<Rightarrow> addr \<Rightarrow> (node_task, 'c) executor \<Rightarrow> bool" where
  "books_ok w e x \<longleftrightarrow> hosts x {n. owner_of w n = e} \<and> distinct (Executor_roots x)
     \<and> set (Executor_roots x) = {n. live w n \<and> root_node w n \<and> owner_of w n = e}"

definition hosting_ok :: "'c world \<Rightarrow> bool" where
  "hosting_ok w \<longleftrightarrow> w_executors w nullptr = None
     \<and> (\<forall>n. owner_of w n \<noteq> nullptr \<longrightarrow> owner_of w n \<in> dom (w_executors w))
     \<and> (\<forall>e x. w_executors w e = Some x \<longrightarrow> books_ok w e x)"

text \<open>Child and parent.\<close>

definition prel :: "'c world \<Rightarrow> (addr \<times> addr) set" where
  "prel w = {(c, p). c \<in> heap w \<and> parent_of w c = p \<and> p \<noteq> nullptr}"

definition node_inv :: "'c world \<Rightarrow> bool" where
  "node_inv w \<longleftrightarrow> finite (heap w) \<and> nullptr \<notin> heap w \<and> acyclic (prel w)
     \<and> blocks_ok w \<and> registry_ok w \<and> tree_ok w \<and> hosting_ok w"

lemmas views = owner_of_def live_def parent_of_def children_of_def root_node_def block_of_def

lemma node_views:
  "w_nodes w n = Some nd \<Longrightarrow> parent_of w n = nd_parent nd" "w_nodes w n = Some nd \<Longrightarrow> root_node w n = nd_isRoot nd"
  "w_nodes w n = Some nd \<Longrightarrow> children_of w n = nd_children nd" "w_nodes w n = Some nd \<Longrightarrow> block_of w n = Some (nd_block nd)"
  "w_nodes w n = Some nd \<Longrightarrow> owner_of w n = block_owner (nd_block nd) w"
  "w_nodes w n = Some nd \<Longrightarrow> live w n = block_alive (nd_block nd) w"
  by (simp_all add: views)

lemma node_facts:
  assumes "node_inv w" "w_nodes w n = Some nd"
  shows "nd_isRoot nd \<longleftrightarrow> nd_parent nd = nullptr" "nd_parent nd \<noteq> nullptr \<Longrightarrow> nd_parent nd \<in> heap w" "n \<noteq> nullptr"
proof -
  have "n \<in> heap w" using assms(2) by blast
  with assms node_views(1,2) [OF assms(2)] show "nd_isRoot nd \<longleftrightarrow> nd_parent nd = nullptr"
    "nd_parent nd \<noteq> nullptr \<Longrightarrow> nd_parent nd \<in> heap w" "n \<noteq> nullptr"
    unfolding node_inv_def tree_ok_def by metis+
qed

text \<open>The subtree under a node.\<close>

definition sub :: "'c world \<Rightarrow> addr \<Rightarrow> addr set" where
  "sub w n = {m. (m, n) \<in> (prel w)\<^sup>*}"

lemma live_heap: "live w n \<Longrightarrow> n \<in> heap w"
  by (auto simp: live_def split: option.splits)

lemma owner_heap: "owner_of w n \<noteq> nullptr \<Longrightarrow> n \<in> heap w"
  by (auto simp: owner_of_def split: option.splits)

lemma finite_hosted: "finite (heap w) \<Longrightarrow> e \<noteq> nullptr \<Longrightarrow> finite {n. owner_of w n = e}"
  by (rule finite_subset [of _ "heap w"]) (use owner_heap [of w] in blast)

lemma sub_self [simp]: "n \<in> sub w n"
  by (simp add: sub_def)

lemma prel_single: "(c, p) \<in> prel w \<Longrightarrow> (c, q) \<in> prel w \<Longrightarrow> p = q"
  by (auto simp: prel_def)

lemma sub_cases: "m \<in> sub w n \<Longrightarrow> m = n \<or> (\<exists>c. (c, n) \<in> prel w \<and> m \<in> sub w c)"
  unfolding sub_def by (auto elim: rtranclE)

lemma sub_child: "(c, n) \<in> prel w \<Longrightarrow> sub w c \<subseteq> sub w n"
  unfolding sub_def by (auto intro: rtrancl_into_rtrancl)

lemma sub_up: "m \<in> sub w n \<Longrightarrow> (m, q) \<in> prel w \<Longrightarrow> m \<noteq> n \<Longrightarrow> q \<in> sub w n"
proof -
  assume m: "m \<in> sub w n" "(m, q) \<in> prel w" "m \<noteq> n"
  then obtain r where "(m, r) \<in> prel w" "(r, n) \<in> (prel w)\<^sup>*"
    unfolding sub_def by (metis converse_rtranclE mem_Collect_eq)
  then show ?thesis using prel_single [OF m(2)] by (simp add: sub_def)
qed

lemma sub_not_parent: "acyclic (prel w) \<Longrightarrow> (c, n) \<in> prel w \<Longrightarrow> n \<notin> sub w c"
proof
  assume "acyclic (prel w)" "(c, n) \<in> prel w" "n \<in> sub w c"
  then have "(c, c) \<in> (prel w)\<^sup>+" unfolding sub_def by (simp add: rtrancl_into_trancl2)
  with \<open>acyclic (prel w)\<close> show False by (simp add: acyclic_def)
qed

lemma sub_disjoint:
  assumes "acyclic (prel w)" "(c, n) \<in> prel w" "(d, n) \<in> prel w" "c \<noteq> d"
  shows "sub w c \<inter> sub w d = {}"
proof -
  have "(m, d) \<notin> (prel w)\<^sup>*" if "(m, c) \<in> (prel w)\<^sup>*" for m
    using that
  proof (induction rule: converse_rtrancl_induct)
    case base
    show ?case
    proof
      assume "(c, d) \<in> (prel w)\<^sup>*"
      with assms(4) have "(c, d) \<in> (prel w)\<^sup>+" by (auto simp: rtrancl_eq_or_trancl)
      then obtain q where "(c, q) \<in> prel w" "(q, d) \<in> (prel w)\<^sup>*" by (meson tranclD)
      then have "n \<in> sub w d" using prel_single [OF assms(2)] by (simp add: sub_def)
      then show False using sub_not_parent [OF assms(1,3)] by simp
    qed
  next
    case (step y z)
    show ?case
    proof
      assume yd: "(y, d) \<in> (prel w)\<^sup>*"
      show False
      proof (cases "y = d")
        case True
        then have "z = n" using prel_single [OF step(1)] assms(3) by simp
        then show False using step(2) sub_not_parent [OF assms(1,2)] by (simp add: sub_def)
      next
        case False
        with yd obtain q where "(y, q) \<in> prel w" "(q, d) \<in> (prel w)\<^sup>*" by (meson converse_rtranclE)
        then show False using step.IH prel_single [OF step(1)] by simp
      qed
    qed
  qed
  then show ?thesis by (auto simp: sub_def)
qed

lemma sub_heap: "n \<in> heap w \<Longrightarrow> sub w n \<subseteq> heap w"
  unfolding sub_def by (auto elim: converse_rtranclE simp: prel_def)


section \<open>What the primitives change\<close>

lemma world_at_node [simp]:
  "w_nodes (at_node n f w) = (w_nodes w)(n := map_option f (w_nodes w n))" "w_blocks (at_node n f w) = w_blocks w"
  "w_registry (at_node n f w) = w_registry w" "w_alive (at_node n f w) = w_alive w"
  "w_executors (at_node n f w) = w_executors w" "w_nextBlock (at_node n f w) = w_nextBlock w"
  by (simp_all add: at_node_def)

lemma world_at_block [simp]:
  "w_nodes (at_block b f w) = w_nodes w" "w_blocks (at_block b f w) = (w_blocks w)(b := map_option f (w_blocks w b))"
  "w_registry (at_block b f w) = w_registry w" "w_alive (at_block b f w) = w_alive w"
  "w_executors (at_block b f w) = w_executors w" "w_nextBlock (at_block b f w) = w_nextBlock w"
  by (simp_all add: at_block_def)

lemma world_at_executor [simp]:
  "w_nodes (at_executor e f w) = w_nodes w" "w_blocks (at_executor e f w) = w_blocks w"
  "w_registry (at_executor e f w) = w_registry w" "w_alive (at_executor e f w) = w_alive w"
  "w_nextBlock (at_executor e f w) = w_nextBlock w"
  "w_executors (at_executor e f w) = (if e = nullptr then w_executors w else (w_executors w)(e := map_option f (w_executors w e)))"
  by (simp_all add: at_executor_def)

lemma world_registry [simp]:
  "w_nodes (NodeRegistry_unregisterNode n w) = w_nodes w" "w_blocks (NodeRegistry_unregisterNode n w) = w_blocks w"
  "w_registry (NodeRegistry_unregisterNode n w) = (w_registry w)(n := None)"
  "w_alive (NodeRegistry_unregisterNode n w) = w_alive w" "w_executors (NodeRegistry_unregisterNode n w) = w_executors w"
  "w_nextBlock (NodeRegistry_unregisterNode n w) = w_nextBlock w"
  by (simp_all add: NodeRegistry_unregisterNode_def)

lemma block_at [simp]:
  "block_owner b (at_node n f w) = block_owner b w" "block_alive b (at_node n f w) = block_alive b w"
  "block_owner b (at_executor e g w) = block_owner b w" "block_alive b (at_executor e g w) = block_alive b w"
  "block_owner b (NodeRegistry_unregisterNode n w) = block_owner b w"
  "block_alive b (NodeRegistry_unregisterNode n w) = block_alive b w"
  by (simp_all add: block_owner_def block_alive_def)

lemma deref_heap: "n \<in> heap w \<Longrightarrow> \<exists>nd. w_nodes w n = Some nd \<and> deref n w = Inr nd"
  by (auto simp: deref_def)

lemma deref_Some [simp]: "w_nodes w n = Some nd \<Longrightarrow> deref n w = Inr nd"
  by (simp add: deref_def)

text \<open>Views after a change of the heap.\<close>

text \<open>A world whose nodes, blocks and executors are those of another as far as the invariant looks.\<close>

lemma node_inv_cong:
  assumes "heap w' = heap w" "parent_of w' = parent_of w" "children_of w' = children_of w" "root_node w' = root_node w"
    "block_of w' = block_of w" "live w' = live w" "owner_of w' = owner_of w" "dom (w_blocks w') = dom (w_blocks w)"
    "w_registry w' = w_registry w" "dom (w_alive w') = dom (w_alive w)" "w_nextBlock w' = w_nextBlock w"
    "\<And>e. rel_option (\<lambda>x y. Executor_roots x = Executor_roots y \<and> hosts x = hosts y) (w_executors w' e) (w_executors w e)"
  shows "node_inv w' = node_inv w"
proof -
  have "prel w' = prel w" using assms(1,2) by (simp add: prel_def)
  moreover have "blocks_ok w' = blocks_ok w" using assms(5,8,11) by (simp add: blocks_ok_def)
  moreover have "registry_ok w' = registry_ok w" using assms(1,5,6,9,10) by (simp add: registry_ok_def)
  moreover have "tree_ok w' = tree_ok w" using assms(1-4,6) by (simp add: tree_ok_def)
  moreover have "hosting_ok w' = hosting_ok w"
  proof -
    have none: "w_executors w' e = None \<longleftrightarrow> w_executors w e = None" for e
      using assms(12) [of e] by (cases "w_executors w' e"; cases "w_executors w e") auto
    then have d: "dom (w_executors w') = dom (w_executors w)" by (simp add: dom_def)
    have books: "books_ok w' e x = books_ok w e y" if "Executor_roots x = Executor_roots y" "hosts x = hosts y" for e x y
      using that by (simp add: books_ok_def assms(4,6,7))
    have "(\<forall>x. w_executors w' e = Some x \<longrightarrow> books_ok w' e x) = (\<forall>x. w_executors w e = Some x \<longrightarrow> books_ok w e x)" for e
      using assms(12) [of e] books by (cases "w_executors w' e"; cases "w_executors w e") auto
    then show ?thesis unfolding hosting_ok_def assms(7) d none by simp
  qed
  ultimately show ?thesis using assms(1) by (simp add: node_inv_def)
qed


section \<open>The destructor up to the children\<close>

text \<open>What \<open>destroy_enter\<close> does to a live node \<open>n\<close>, seen through the invariant.\<close>

definition entered :: "addr \<Rightarrow> 'c world \<Rightarrow> 'c world \<Rightarrow> bool" where
  "entered n w w1 \<longleftrightarrow> heap w1 = heap w \<and> parent_of w1 = parent_of w \<and> root_node w1 = root_node w
     \<and> block_of w1 = block_of w \<and> owner_of w1 = owner_of w \<and> live w1 = (live w)(n := False)
     \<and> children_of w1 = (\<lambda>p. if p = n then [] else erase_all n (children_of w p))
     \<and> w_registry w1 = (w_registry w)(n := None) \<and> w_alive w1 = w_alive w \<and> w_nextBlock w1 = w_nextBlock w
     \<and> dom (w_blocks w1) = dom (w_blocks w)
     \<and> w_executors w1 = (\<lambda>e. if e = owner_of w n \<and> root_node w n \<and> e \<noteq> nullptr
          then map_option (Executor_removeRootNode n) (w_executors w e) else w_executors w e)"

lemma node_inv_entered:
  assumes inv: "node_inv w" and n: "live w n" and e: "entered n w w1"
  shows "node_inv w1"
proof -
  have v: "heap w1 = heap w" "parent_of w1 = parent_of w" "root_node w1 = root_node w" "block_of w1 = block_of w"
    "owner_of w1 = owner_of w" "live w1 = (live w)(n := False)"
    "children_of w1 = (\<lambda>p. if p = n then [] else erase_all n (children_of w p))"
    "w_registry w1 = (w_registry w)(n := None)" "w_alive w1 = w_alive w" "w_nextBlock w1 = w_nextBlock w"
    "dom (w_blocks w1) = dom (w_blocks w)"
    "w_executors w1 = (\<lambda>e. if e = owner_of w n \<and> root_node w n \<and> e \<noteq> nullptr
       then map_option (Executor_removeRootNode n) (w_executors w e) else w_executors w e)"
    using e by (simp_all add: entered_def)
  have "prel w1 = prel w" by (simp add: prel_def v)
  moreover have "blocks_ok w1" using inv by (simp add: node_inv_def blocks_ok_def v)
  moreover have "registry_ok w1" using inv by (auto simp: node_inv_def registry_ok_def v)
  moreover have "tree_ok w1"
    using inv by (auto simp: node_inv_def tree_ok_def v distinct_erase_all)
  moreover have "hosting_ok w1"
  proof -
    have h: "hosting_ok w" using inv by (simp add: node_inv_def)
    have "books_ok w1 e x" if x: "w_executors w1 e = Some x" for e x
    proof (cases "e = owner_of w n \<and> root_node w n \<and> e \<noteq> nullptr")
      case True
      then obtain y where "w_executors w e = Some y" "x = Executor_removeRootNode n y" using x by (auto simp: v)
      then show ?thesis using h True by (auto simp: hosting_ok_def books_ok_def v distinct_erase_all)
    next
      case False
      then have y: "w_executors w e = Some x" using x by (auto simp: v split: if_splits)
      then have "e \<noteq> nullptr" using h by (auto simp: hosting_ok_def)
      with False y show ?thesis using h by (auto simp: hosting_ok_def books_ok_def v)
    qed
    moreover have "dom (w_executors w1) = dom (w_executors w)" by (auto simp: v dom_def)
    moreover have "w_executors w1 nullptr = None" using h by (simp add: v hosting_ok_def)
    ultimately show ?thesis using h by (simp add: hosting_ok_def v)
  qed
  ultimately show ?thesis using inv by (simp add: node_inv_def v)
qed

lemma other_block:
  "node_inv w \<Longrightarrow> w_nodes w n = Some nd \<Longrightarrow> w_nodes w m = Some md \<Longrightarrow> m \<noteq> n \<Longrightarrow> nd_block md \<noteq> nd_block nd"
  using node_views(4) [of w n nd] node_views(4) [of w m md] unfolding node_inv_def blocks_ok_def by metis

lemma destroy_enter_ok:
  assumes inv: "node_inv w" and n: "live w n" "w_nodes w n = Some nd"
  shows "\<exists>w1. destroy_enter n nd w = Inr w1 \<and> entered n w w1
    \<and> w_blocks w1 = (w_blocks w)(nd_block nd := map_option (\<lambda>b. b\<lparr>bl_alive := False\<rparr>) (w_blocks w (nd_block nd)))
    \<and> (\<forall>m. m \<noteq> n \<and> m \<noteq> nd_parent nd \<longrightarrow> w_nodes w1 m = w_nodes w m)"
proof -
  let ?o = "block_owner (nd_block nd) w"
  let ?w0 = "NodeRegistry_unregisterNode n (at_block (nd_block nd) (\<lambda>b. b\<lparr>bl_alive := False\<rparr>) w)"
  have inHeap: "nd_parent nd \<noteq> nullptr \<Longrightarrow> nd_parent nd \<in> heap w" and root: "nd_isRoot nd \<longleftrightarrow> nd_parent nd = nullptr"
    using node_facts [OF inv n(2)] by simp_all
  have par: "nd_parent nd \<noteq> n"
  proof
    assume "nd_parent nd = n"
    then have "(n, n) \<in> prel w" using n(2) node_views(1) [OF n(2)] node_facts(3) [OF inv n(2)] by (auto simp: prel_def)
    then show False using inv by (auto simp: node_inv_def acyclic_def)
  qed
  define f where "f = (\<lambda>pd :: Node. pd\<lparr>nd_children := erase_all n (nd_children pd), nd_childrenToDelete := erase_all n (nd_childrenToDelete pd)\<rparr>)"
  define w2 where "w2 = (if nd_isRoot nd \<and> ?o \<noteq> nullptr then at_executor ?o (Executor_removeRootNode n) ?w0
      else if nd_parent nd \<noteq> nullptr then at_node (nd_parent nd) f ?w0 else ?w0)"
  define w1 where "w1 = at_node n (\<lambda>nd. nd\<lparr>nd_children := []\<rparr>) w2"
  have step: "destroy_enter n nd w = Inr w1"
    using inHeap by (auto simp: destroy_enter_def Let_def w1_def w2_def f_def leave_parent_def)
  have nodes: "w_nodes w1 = (\<lambda>m. if m = n then Some (nd\<lparr>nd_children := []\<rparr>)
      else if m = nd_parent nd \<and> m \<noteq> nullptr then map_option f (w_nodes w m) else w_nodes w m)"
    using n(2) par root by (auto simp: w1_def w2_def fun_eq_iff)
  have blocks: "w_blocks w1 = (w_blocks w)(nd_block nd := map_option (\<lambda>b. b\<lparr>bl_alive := False\<rparr>) (w_blocks w (nd_block nd)))"
    by (simp add: w1_def w2_def)
  have notmem: "p \<noteq> nd_parent nd \<Longrightarrow> n \<notin> set (children_of w p)" for p
    using inv node_views(1) [OF n(2)] unfolding node_inv_def tree_ok_def by metis
  have ne0: "w_nodes w nullptr = None" using inv by (auto simp: node_inv_def)
  have "live w1 = (live w)(n := False)"
  proof
    fix m
    show "live w1 m = ((live w)(n := False)) m"
    proof (cases "m = n")
      case True
      then show ?thesis by (simp add: live_def nodes block_alive_def blocks split: option.split)
    next
      case False
      have "nd_block md \<noteq> nd_block nd" if "w_nodes w m = Some md" for md using other_block [OF inv n(2) that False] .
      then show ?thesis using False
        by (auto simp: live_def nodes block_alive_def blocks f_def split: option.split)
    qed
  qed
  moreover have "owner_of w1 = owner_of w"
    using n(2) by (auto simp: fun_eq_iff owner_of_def nodes block_owner_def blocks f_def split: option.split)
  moreover have "children_of w1 = (\<lambda>p. if p = n then [] else erase_all n (children_of w p))"
  proof
    fix p
    have "erase_all n (children_of w p) = children_of w p" if "p \<noteq> nd_parent nd \<or> p = nullptr"
    proof (cases "p = nullptr")
      case True
      then show ?thesis using ne0 by (simp add: children_of_def)
    next
      case False
      then show ?thesis using that notmem [of p] by (simp add: removeAll_id)
    qed
    then show "children_of w1 p = (if p = n then [] else erase_all n (children_of w p))"
      by (auto simp: children_of_def nodes f_def split: option.split)
  qed
  moreover have "w_executors w1 = (\<lambda>e. if e = owner_of w n \<and> root_node w n \<and> e \<noteq> nullptr
       then map_option (Executor_removeRootNode n) (w_executors w e) else w_executors w e)"
    using n(2) by (auto simp: fun_eq_iff w1_def w2_def owner_of_def root_node_def)
  moreover have "heap w1 = heap w" using n(2) by (auto simp: nodes split: if_splits)
  moreover have "parent_of w1 = parent_of w" "root_node w1 = root_node w" "block_of w1 = block_of w"
    using n(2) by (auto simp: fun_eq_iff views nodes f_def option.map_comp comp_def split: option.split)
  moreover have "w_registry w1 = (w_registry w)(n := None)" "w_alive w1 = w_alive w" "w_nextBlock w1 = w_nextBlock w"
    "dom (w_blocks w1) = dom (w_blocks w)"
    by (auto simp: w1_def w2_def blocks)
  ultimately have "entered n w w1" by (simp add: entered_def)
  then show ?thesis using step blocks nodes by (intro exI [of _ w1]) simp
qed


section \<open>The end of the destructor\<close>

lemma destroy_leave_ok:
  assumes inv: "node_inv w" and n: "n \<in> heap w" "\<not> live w n" and kids: "\<forall>m \<in> heap w. parent_of w m \<noteq> n"
  shows "\<exists>w1. destroy_leave n (owner_of w n) w = Inr w1 \<and> node_inv w1 \<and> w_nodes w1 = (w_nodes w)(n := None)
    \<and> w_blocks w1 = w_blocks w"
proof -
  let ?o = "owner_of w n"
  have "dom (w_alive w) = heap w" using inv by (simp add: node_inv_def registry_ok_def)
  then obtain a where "w_alive w n = Some a" using n(1) by blast
  define w0 where "w0 = at_executor ?o (Executor_removeNode n) w"
  define w1 where "w1 = w0\<lparr>w_alive := (w_alive w)(n := None), w_nodes := (w_nodes w)(n := None)\<rparr>"
  have step: "destroy_leave n ?o w = Inr w1"
    using \<open>w_alive w n = Some a\<close> by (simp add: destroy_leave_def Application_unregisterAliveNode_def w1_def w0_def)
  have nodes: "w_nodes w1 = (w_nodes w)(n := None)" and blocks: "w_blocks w1 = w_blocks w"
    and registry: "w_registry w1 = w_registry w" and alive: "w_alive w1 = (w_alive w)(n := None)"
    and nextBlock: "w_nextBlock w1 = w_nextBlock w"
    and execs: "w_executors w1 = (if ?o = nullptr then w_executors w else (w_executors w)(?o := map_option (Executor_removeNode n) (w_executors w ?o)))"
    by (simp_all add: w1_def w0_def)
  have heap: "heap w1 = heap w - {n}" by (simp add: nodes)
  have parent: "parent_of w1 = (parent_of w)(n := nullptr)" and root: "root_node w1 = (root_node w)(n := False)"
    and children: "children_of w1 = (children_of w)(n := [])" and block: "block_of w1 = (block_of w)(n := None)"
    and owner: "owner_of w1 = (owner_of w)(n := nullptr)"
    by (auto simp: fun_eq_iff views nodes block_owner_def blocks split: option.split)
  have live: "live w1 = live w" using n(2) by (auto simp: fun_eq_iff live_def nodes block_alive_def blocks split: option.splits)
  have "prel w1 \<subseteq> prel w" by (auto simp: prel_def heap parent)
  then have "acyclic (prel w1)" using inv by (auto simp: node_inv_def intro: acyclic_subset)
  moreover have "blocks_ok w1" using inv by (auto simp: node_inv_def blocks_ok_def block nextBlock blocks)
  moreover have "registry_ok w1" using inv n(2) by (auto simp: node_inv_def registry_ok_def block live registry alive heap)
  moreover have "tree_ok w1"
  proof -
    have t: "tree_ok w" using inv by (simp add: node_inv_def)
    have up: "m \<noteq> n" "parent_of w m \<noteq> n" if "live w m" for m using kids live_heap [OF that] that n(2) by auto
    show ?thesis unfolding tree_ok_def heap parent root children live
    proof (intro conjI ballI allI impI)
      fix p c assume "c \<in> set (((children_of w)(n := [])) p)"
      then have "live w c" "parent_of w c = p" using t by (auto simp: tree_ok_def split: if_splits)
      then show "live w c" "((parent_of w)(n := nullptr)) c = p" using up by auto
    next
      fix m assume m: "live w m \<and> live w (((parent_of w)(n := nullptr)) m)"
      then have "m \<in> set (children_of w (parent_of w m))" using t up [of m] by (simp add: tree_ok_def)
      then show "m \<in> set (((children_of w)(n := [])) (((parent_of w)(n := nullptr)) m))" using m up [of m] by simp
    qed (use t kids in \<open>auto simp: tree_ok_def\<close>)
  qed
  moreover have "hosting_ok w1"
  proof -
    have h: "hosting_ok w" using inv by (simp add: node_inv_def)
    have "books_ok w1 e x" if x: "w_executors w1 e = Some x" for e x
    proof -
      have e: "e \<noteq> nullptr" using x h by (auto simp: execs hosting_ok_def split: if_splits)
      have set: "{m. owner_of w1 m = e} = {m. owner_of w m = e} - {n}" using e by (auto simp: owner)
      have roots: "{m. live w1 m \<and> root_node w1 m \<and> owner_of w1 m = e} = {m. live w m \<and> root_node w m \<and> owner_of w m = e}"
        using n(2) by (auto simp: live root owner)
      show ?thesis
      proof (cases "e = ?o")
        case True
        then obtain y where y: "w_executors w e = Some y" "x = Executor_removeNode n y" using x e by (auto simp: execs)
        then have "books_ok w e y" using h by (simp add: hosting_ok_def)
        moreover have "finite {m. owner_of w m = e}" using inv e by (intro finite_hosted) (simp_all add: node_inv_def)
        ultimately show ?thesis using True y(2) unfolding books_ok_def roots set by (auto intro: ex.hosts_remove)
      next
        case False
        then have "{m. owner_of w m = e} - {n} = {m. owner_of w m = e}" by auto
        moreover have "w_executors w e = Some x" using x False by (auto simp: execs split: if_splits)
        then have "books_ok w e x" using h by (simp add: hosting_ok_def)
        ultimately show ?thesis unfolding books_ok_def roots set by simp
      qed
    qed
    moreover have "dom (w_executors w1) = dom (w_executors w)" by (auto simp: execs)
    moreover have "w_executors w1 nullptr = None" using h by (auto simp: execs hosting_ok_def)
    ultimately show ?thesis using h by (auto simp: hosting_ok_def owner)
  qed
  ultimately have "node_inv w1" using inv by (simp add: node_inv_def heap)
  then show ?thesis using step nodes blocks by blast
qed


section \<open>Removing whole subtrees\<close>

text \<open>\<open>w'\<close> is \<open>w\<close> without the nodes of \<open>D\<close>; the nodes of \<open>C\<close> have left their parents' lists.\<close>

definition removed :: "addr set \<Rightarrow> addr set \<Rightarrow> 'c world \<Rightarrow> 'c world \<Rightarrow> bool" where
  "removed D C w w' \<longleftrightarrow> node_inv w' \<and> heap w' = heap w - D
     \<and> (\<forall>m \<in> heap w'. parent_of w' m = parent_of w m \<and> root_node w' m = root_node w m \<and> block_of w' m = block_of w m
          \<and> owner_of w' m = owner_of w m \<and> live w' m = live w m)
     \<and> (\<forall>p \<in> heap w'. children_of w' p = filter (\<lambda>c. c \<notin> C) (children_of w p))
     \<and> (\<forall>m \<in> heap w'. (\<forall>c \<in> C. parent_of w c \<noteq> m) \<longrightarrow> w_nodes w' m = w_nodes w m)
     \<and> (\<forall>b. (\<exists>m \<in> D. block_of w m = Some b) \<longrightarrow> \<not> block_alive b w')
     \<and> (\<forall>b. (\<forall>m \<in> D. block_of w m \<noteq> Some b) \<longrightarrow> w_blocks w' b = w_blocks w b)"

lemma removedD:
  assumes "removed D C w w'"
  shows "node_inv w'" "heap w' = heap w - D"
    "\<And>m. m \<in> heap w' \<Longrightarrow> parent_of w' m = parent_of w m" "\<And>m. m \<in> heap w' \<Longrightarrow> root_node w' m = root_node w m"
    "\<And>m. m \<in> heap w' \<Longrightarrow> block_of w' m = block_of w m" "\<And>m. m \<in> heap w' \<Longrightarrow> owner_of w' m = owner_of w m"
    "\<And>m. m \<in> heap w' \<Longrightarrow> live w' m = live w m"
    "\<And>p. p \<in> heap w' \<Longrightarrow> children_of w' p = filter (\<lambda>c. c \<notin> C) (children_of w p)"
    "\<And>m. m \<in> heap w' \<Longrightarrow> \<forall>c \<in> C. parent_of w c \<noteq> m \<Longrightarrow> w_nodes w' m = w_nodes w m"
    "\<And>b m. m \<in> D \<Longrightarrow> block_of w m = Some b \<Longrightarrow> \<not> block_alive b w'"
    "\<And>b. \<forall>m \<in> D. block_of w m \<noteq> Some b \<Longrightarrow> w_blocks w' b = w_blocks w b"
  using assms unfolding removed_def by blast+

lemma removed_none: "node_inv w \<Longrightarrow> removed {} {} w w"
  by (simp add: removed_def)

lemma removed_trans:
  assumes one: "removed D1 C1 w w1" and two: "removed D2 C2 w1 w2" and D2: "D2 \<subseteq> heap w1" and C2: "C2 \<subseteq> heap w1"
  shows "removed (D1 \<union> D2) (C1 \<union> C2) w w2"
proof -
  note r1 = removedD [OF one] and r2 = removedD [OF two]
  have sub: "m \<in> heap w1" if "m \<in> heap w2" for m using that r2(2) by blast
  have blk: "block_of w1 m = block_of w m" if "m \<in> D2" for m using r1(5) D2 that by blast
  have "\<forall>p \<in> heap w2. children_of w2 p = filter (\<lambda>c. c \<notin> C1 \<union> C2) (children_of w p)"
    using r2(8) r1(8) sub by (auto intro!: filter_cong)
  moreover have "w_nodes w2 m = w_nodes w m" if "m \<in> heap w2" "\<forall>c \<in> C1 \<union> C2. parent_of w c \<noteq> m" for m
    using r2(9) [OF that(1)] r1(9) [OF sub [OF that(1)]] r1(3) C2 that(2) by (metis UnCI subsetD)
  moreover have "\<not> block_alive b w2" if "m \<in> D1 \<union> D2" "block_of w m = Some b" for m b
  proof (cases "\<exists>m2 \<in> D2. block_of w1 m2 = Some b")
    case True
    then show ?thesis using r2(10) by blast
  next
    case False
    then have "w_blocks w2 b = w_blocks w1 b" and "m \<in> D1" using r2(11) blk that by auto
    then show ?thesis using r1(10) [OF _ that(2)] by (simp add: block_alive_def)
  qed
  moreover have "w_blocks w2 b = w_blocks w b" if "\<forall>m \<in> D1 \<union> D2. block_of w m \<noteq> Some b" for b
    using r2(11) [of b] r1(11) [of b] blk that by simp
  moreover have "heap w2 = heap w - (D1 \<union> D2)" using r1(2) r2(2) by blast
  moreover have "\<forall>m \<in> heap w2. parent_of w2 m = parent_of w m \<and> root_node w2 m = root_node w m \<and> block_of w2 m = block_of w m
      \<and> owner_of w2 m = owner_of w m \<and> live w2 m = live w m"
    using r2(3-7) r1(3-7) sub by simp
  ultimately show ?thesis using r2(1) unfolding removed_def by blast
qed

lemma sub_removed:
  assumes r: "removed D C w w'" and d: "sub w d \<inter> D = {}"
  shows "sub w' d = sub w d"
proof -
  note v = removedD(2,3) [OF r]
  have edge: "(a, b) \<in> prel w' \<longleftrightarrow> (a, b) \<in> prel w \<and> a \<notin> D" for a b
    using v(1) v(2) [of a] unfolding prel_def mem_Collect_eq split_conv by (metis DiffD1 DiffD2 DiffI)
  then have "prel w' \<subseteq> prel w" by auto
  then have "sub w' d \<subseteq> sub w d" unfolding sub_def using rtrancl_mono by blast
  moreover have "(m, d) \<in> (prel w')\<^sup>*" if "(m, d) \<in> (prel w)\<^sup>*" for m
    using that
  proof (induction rule: converse_rtrancl_induct)
    case (step y z)
    have "(y, d) \<in> (prel w)\<^sup>*" using step(1,2) by (rule converse_rtrancl_into_rtrancl)
    then have "y \<notin> D" using d by (auto simp: sub_def)
    then have "(y, z) \<in> prel w'" using step(1) edge by simp
    then show ?case using step(3) by (rule converse_rtrancl_into_rtrancl)
  qed simp
  ultimately show ?thesis unfolding sub_def by blast
qed


text \<open>A live child is in its live parent's list and nowhere else.\<close>

lemma children_iff:
  assumes "node_inv w" "live w n" "\<forall>m \<in> sub w n. live w m"
  shows "set (children_of w n) = {c. (c, n) \<in> prel w}"
proof -
  have t: "tree_ok w" and n0: "n \<noteq> nullptr" using assms(1) live_heap [OF assms(2)] by (auto simp: node_inv_def)
  show ?thesis
  proof (intro set_eqI iffI)
    fix c assume "c \<in> set (children_of w n)"
    then have "live w c" "parent_of w c = n" using t unfolding tree_ok_def by blast+
    then show "c \<in> {c. (c, n) \<in> prel w}" using live_heap n0 by (simp add: prel_def) blast
  next
    fix c assume "c \<in> {c. (c, n) \<in> prel w}"
    then have c: "(c, n) \<in> prel w" by simp
    then have "live w c" using assms(3) sub_child [OF c] sub_self [of c w] by blast
    moreover have "parent_of w c = n" using c by (simp add: prel_def)
    ultimately show "c \<in> set (children_of w n)" using t assms(2) unfolding tree_ok_def by metis
  qed
qed

lemma sub_children:
  assumes "node_inv w" "live w n" "\<forall>m \<in> sub w n. live w m"
  shows "sub w n = insert n (\<Union>c \<in> set (children_of w n). sub w c)"
  unfolding children_iff [OF assms] using sub_cases [of _ w n] sub_child [of _ n w] sub_self [of n w] by blast

lemma finite_sub: "node_inv w \<Longrightarrow> n \<in> heap w \<Longrightarrow> finite (sub w n)"
  using finite_subset [OF sub_heap [of n w]] by (simp add: node_inv_def)

lemma card_sub_child:
  assumes "node_inv w" "n \<in> heap w" "(c, n) \<in> prel w"
  shows "card (sub w c) < card (sub w n)"
proof (rule psubset_card_mono [OF finite_sub [OF assms(1,2)]])
  have "acyclic (prel w)" using assms(1) by (simp add: node_inv_def)
  then show "sub w c \<subset> sub w n"
    using sub_child [OF assms(3)] sub_not_parent [OF _ assms(3)] sub_self [of n w] by blast
qed

text \<open>The children one after the other, given that each can be destroyed.\<close>

lemma destroy_children_ok:
  assumes each: "\<And>c (v :: 'c world). node_inv v \<Longrightarrow> live v c \<Longrightarrow> \<forall>m \<in> sub v c. live v m \<Longrightarrow> card (sub v c) \<le> k \<Longrightarrow>
      \<exists>v'. Node_destroy k c v = Inr v' \<and> removed (sub v c) {c} v v'"
  shows "node_inv (v :: 'c world) \<Longrightarrow> distinct cs \<Longrightarrow>
    \<forall>c \<in> set cs. (c, n) \<in> prel v \<and> (\<forall>m \<in> sub v c. live v m) \<and> card (sub v c) \<le> k \<Longrightarrow>
    \<exists>v'. destroy_children k cs v = Inr v' \<and> removed (\<Union>c \<in> set cs. sub v c) (set cs) v v'"
proof (induction cs arbitrary: v)
  case Nil
  then show ?case by (simp add: removed_none)
next
  case (Cons c cs)
  have c: "(c, n) \<in> prel v" "\<forall>m \<in> sub v c. live v m" "card (sub v c) \<le> k" using Cons.prems(3) by auto
  have "live v c" using c(2) sub_self by blast
  with each [OF Cons.prems(1) _ c(2,3)] obtain v1
    where v1: "Node_destroy k c v = Inr v1" "removed (sub v c) {c} v v1" by blast
  note r = removedD [OF v1(2)]
  have acy: "acyclic (prel v)" using Cons.prems(1) by (simp add: node_inv_def)
  have rest: "(d, n) \<in> prel v1 \<and> sub v1 d = sub v d \<and> (\<forall>m \<in> sub v1 d. live v1 m) \<and> sub v d \<subseteq> heap v1" if "d \<in> set cs" for d
  proof -
    have d: "(d, n) \<in> prel v" "\<forall>m \<in> sub v d. live v m" and ne: "d \<noteq> c" using Cons.prems(2,3) that by auto
    have dis: "sub v d \<inter> sub v c = {}" using sub_disjoint [OF acy d(1) c(1) ne] .
    have same: "sub v1 d = sub v d" by (rule sub_removed [OF v1(2) dis])
    have inh: "sub v d \<subseteq> heap v1" using d(2) live_heap [of v] dis r(2) by blast
    then have "d \<in> heap v1" using sub_self by blast
    then have "(d, n) \<in> prel v1" using d(1) r(3) [of d] by (simp add: prel_def)
    moreover have "\<forall>m \<in> sub v1 d. live v1 m" using same inh d(2) r(7) by blast
    ultimately show ?thesis using same inh by blast
  qed
  have "\<forall>d \<in> set cs. (d, n) \<in> prel v1 \<and> (\<forall>m \<in> sub v1 d. live v1 m) \<and> card (sub v1 d) \<le> k"
    using rest Cons.prems(3) by simp
  then obtain v2 where v2: "destroy_children k cs v1 = Inr v2" "removed (\<Union>d \<in> set cs. sub v1 d) (set cs) v1 v2"
    using Cons.IH [OF r(1)] Cons.prems(2) by auto
  have "(\<Union>d \<in> set cs. sub v1 d) = (\<Union>d \<in> set cs. sub v d)" using rest by simp
  then have "removed (sub v c \<union> (\<Union>d \<in> set cs. sub v d)) ({c} \<union> set cs) v v2"
    using removed_trans [OF v1(2) v2(2)] rest sub_self by (simp add: UN_least subset_iff) blast
  then show ?case using v1(1) v2(1) by simp
qed


text \<open>From the three parts of a destructor to the whole.\<close>

lemma removed_whole:
  assumes inv: "node_inv w" and n: "live w n" "\<forall>m \<in> sub w n. live w m"
    and e: "entered n w w1" "w_blocks w1 = (w_blocks w)(b := map_option (\<lambda>b. b\<lparr>bl_alive := False\<rparr>) (w_blocks w b))"
      "block_of w n = Some b" "\<forall>m. m \<noteq> n \<and> m \<noteq> parent_of w n \<longrightarrow> w_nodes w1 m = w_nodes w m"
    and c: "removed (\<Union>c \<in> set (children_of w n). sub w c) (set (children_of w n)) w1 w2"
    and l: "node_inv w3" "w_nodes w3 = (w_nodes w2)(n := None)" "w_blocks w3 = w_blocks w2"
  shows "removed (sub w n) {n} w w3"
proof -
  note r = removedD [OF c]
  let ?D = "\<Union>c \<in> set (children_of w n). sub w c"
  have v: "heap w1 = heap w" "parent_of w1 = parent_of w" "root_node w1 = root_node w" "block_of w1 = block_of w"
    "owner_of w1 = owner_of w" "live w1 = (live w)(n := False)"
    "children_of w1 = (\<lambda>p. if p = n then [] else erase_all n (children_of w p))" using e(1) by (simp_all add: entered_def)
  have sub: "sub w n = insert n ?D" by (rule sub_children [OF inv n])
  have heap: "heap w3 = heap w - sub w n" using r(2) v(1) l(2) sub by auto
  have in2: "m \<in> heap w2" "m \<noteq> n" if "m \<in> heap w3" for m using that l(2) by auto
  have keep: "parent_of w3 m = parent_of w2 m" "root_node w3 m = root_node w2 m" "block_of w3 m = block_of w2 m"
    "owner_of w3 m = owner_of w2 m" "live w3 m = live w2 m" "children_of w3 m = children_of w2 m" "w_nodes w3 m = w_nodes w2 m"
    if "m \<noteq> n" for m
    using that by (simp_all add: views l(2,3) block_owner_def block_alive_def split: option.split)
  have kids: "parent_of w c = n" if "c \<in> set (children_of w n)" for c
    using inv that unfolding node_inv_def tree_ok_def by blast
  have "children_of w3 p = filter (\<lambda>c. c \<notin> {n}) (children_of w p)" if p: "p \<in> heap w3" for p
  proof -
    have "\<forall>c \<in> set (children_of w p). c \<notin> set (children_of w n)"
      using inv in2(2) [OF p] kids unfolding node_inv_def tree_ok_def by metis
    then show ?thesis using keep(6) [OF in2(2) [OF p]] r(8) [OF in2(1) [OF p]] v(7) in2(2) [OF p]
      by (simp add: removeAll_filter_not_eq filter_id_conv) (rule filter_cong, auto)
  qed
  moreover have "w_nodes w3 m = w_nodes w m" if "m \<in> heap w3" "\<forall>c \<in> {n}. parent_of w c \<noteq> m" for m
    using keep(7) [OF in2(2) [OF that(1)]] r(9) [OF in2(1) [OF that(1)]] e(4) in2(2) [OF that(1)] that(2) kids v(2) by auto
  moreover have "\<not> block_alive a w3" if "m \<in> sub w n" "block_of w m = Some a" for m a
  proof (cases "\<exists>d \<in> ?D. block_of w1 d = Some a")
    case True
    then have "\<not> block_alive a w2" using r(10) by blast
    then show ?thesis by (simp add: block_alive_def l(3))
  next
    case False
    then have "m = n" using that sub v(4) by auto
    then have "a = b" using that(2) e(3) by simp
    moreover have "w_blocks w2 a = w_blocks w1 a" using False r(11) by blast
    ultimately show ?thesis using e(2) l(3) by (simp add: block_alive_def split: option.split)
  qed
  moreover have "w_blocks w3 a = w_blocks w a" if a: "\<forall>m \<in> sub w n. block_of w m \<noteq> Some a" for a
  proof -
    have "a \<noteq> b" using a e(3) sub by auto
    moreover have "w_blocks w2 a = w_blocks w1 a" using r(11) [of a] a sub v(4) by simp
    ultimately show ?thesis using l(3) e(2) by simp
  qed
  moreover have "\<forall>m \<in> heap w3. parent_of w3 m = parent_of w m \<and> root_node w3 m = root_node w m \<and> block_of w3 m = block_of w m
      \<and> owner_of w3 m = owner_of w m \<and> live w3 m = live w m"
    using keep in2 r(3-7) v by simp
  ultimately show ?thesis using l(1) heap unfolding removed_def by blast
qed

lemma Node_destroy_ok:
  "node_inv w \<Longrightarrow> live w n \<Longrightarrow> \<forall>m \<in> sub w n. live w m \<Longrightarrow> card (sub w n) \<le> k \<Longrightarrow>
   \<exists>w'. Node_destroy k n w = Inr w' \<and> removed (sub w n) {n} w w'"
proof (induction k arbitrary: n w)
  case 0
  have "card (sub w n) \<noteq> 0" using finite_sub [OF 0(1) live_heap [OF 0(2)]] sub_self [of n w] by (metis card_eq_0_iff empty_iff)
  then show ?case using 0(4) by simp
next
  case (Suc k)
  note inv = Suc.prems(1) and n = Suc.prems(2,3)
  obtain nd where nd: "w_nodes w n = Some nd" using live_heap [OF n(1)] by blast
  obtain w1 where w1: "destroy_enter n nd w = Inr w1" and e: "entered n w w1"
    "w_blocks w1 = (w_blocks w)(nd_block nd := map_option (\<lambda>b. b\<lparr>bl_alive := False\<rparr>) (w_blocks w (nd_block nd)))"
    "\<forall>m. m \<noteq> n \<and> m \<noteq> nd_parent nd \<longrightarrow> w_nodes w1 m = w_nodes w m"
    using destroy_enter_ok [OF inv n(1) nd] by blast
  have inv1: "node_inv w1" by (rule node_inv_entered [OF inv n(1) e(1)])
  have pr: "prel w1 = prel w" and lv: "live w1 = (live w)(n := False)" and ow: "owner_of w1 = owner_of w"
    and hp: "heap w1 = heap w" using e(1) by (simp_all add: entered_def prel_def)
  then have sb: "sub w1 = sub w" by (simp add: sub_def fun_eq_iff)
  have acy: "acyclic (prel w)" and t: "tree_ok w" using inv by (simp_all add: node_inv_def)
  have kids: "set (nd_children nd) = {c. (c, n) \<in> prel w}" and dist: "distinct (nd_children nd)"
    using children_iff [OF inv n] node_views(3) [OF nd] t unfolding tree_ok_def by metis+
  have "\<forall>c \<in> set (nd_children nd). (c, n) \<in> prel w1 \<and> (\<forall>m \<in> sub w1 c. live w1 m) \<and> card (sub w1 c) \<le> k"
  proof
    fix c assume "c \<in> set (nd_children nd)"
    then have c: "(c, n) \<in> prel w" using kids by simp
    have "card (sub w c) \<le> k" using card_sub_child [OF inv live_heap [OF n(1)] c] Suc.prems(4) by simp
    moreover have "\<forall>m \<in> sub w c. live w1 m" using sub_child [OF c] n(2) sub_not_parent [OF acy c] lv by auto
    ultimately show "(c, n) \<in> prel w1 \<and> (\<forall>m \<in> sub w1 c. live w1 m) \<and> card (sub w1 c) \<le> k" using c pr sb by simp
  qed
  from destroy_children_ok [OF Suc.IH inv1 dist this] obtain w2 where w2: "destroy_children k (nd_children nd) w1 = Inr w2"
    and r: "removed (\<Union>c \<in> set (nd_children nd). sub w1 c) (set (nd_children nd)) w1 w2" by blast
  note rd = removedD [OF r]
  have gone: "n \<notin> (\<Union>c \<in> set (nd_children nd). sub w1 c)" using kids sub_not_parent [OF acy] sb by simp
  then have n2: "n \<in> heap w2" unfolding rd(2) hp using live_heap [OF n(1)] by (rule DiffI [rotated])
  have "\<not> live w2 n" using rd(7) [OF n2] lv by simp
  moreover have "\<forall>m \<in> heap w2. parent_of w2 m \<noteq> n"
  proof (intro ballI notI)
    fix m assume m: "m \<in> heap w2" and "parent_of w2 m = n"
    then have "parent_of w1 m = n" "m \<in> heap w1" using rd(2) rd(3) [OF m] by simp_all
    moreover have "n \<noteq> nullptr" using inv live_heap [OF n(1)] by (metis node_inv_def)
    ultimately have "(m, n) \<in> prel w1" by (simp add: prel_def)
    then have "m \<in> set (nd_children nd)" using kids pr by simp
    then have "m \<in> (\<Union>c \<in> set (nd_children nd). sub w1 c)" using sub_self [of m w1] by blast
    then show False using m rd(2) by simp
  qed
  ultimately obtain w3 where w3: "destroy_leave n (owner_of w2 n) w2 = Inr w3" "node_inv w3"
    "w_nodes w3 = (w_nodes w2)(n := None)" "w_blocks w3 = w_blocks w2"
    using destroy_leave_ok [OF rd(1) n2] by blast
  have "owner_of w2 n = block_owner (nd_block nd) w" using rd(6) [OF n2] ow node_views(5) [OF nd] by simp
  then have "Node_destroy (Suc k) n w = Inr w3" using nd w1 w2 w3(1) by simp
  moreover have "removed (sub w n) {n} w w3"
    using removed_whole [OF inv n e(1,2) node_views(4) [OF nd] _ _ w3(2-4)] e(3) r sb node_views(1,3) [OF nd] by simp
  ultimately show ?case by blast
qed

end
