(* ===== verification/NodeTreeOps.thy ===== *)
theory NodeTreeOps
  imports NodeTreeSafety
begin

text \<open>
  Every operation on the tree keeps the invariant of \<open>NodeTreeSafety\<close>, and none touches freed memory:
  construction, adoption, re-parenting, destruction, deferred deletion, migration, and the tasks that
  deferred deletion and migration post to other executors.
\<close>

section \<open>Adoption\<close>

lemma at_node_views:
  assumes "w_nodes w n = Some nd" "nd_block (f nd) = nd_block nd"
  shows "heap (at_node n f w) = heap w" "block_of (at_node n f w) = block_of w" "live (at_node n f w) = live w"
    "owner_of (at_node n f w) = owner_of w" "parent_of (at_node n f w) = (parent_of w)(n := nd_parent (f nd))"
    "children_of (at_node n f w) = (children_of w)(n := nd_children (f nd))"
    "root_node (at_node n f w) = (root_node w)(n := nd_isRoot (f nd))"
  using assms by (auto simp: fun_eq_iff views split: option.split)

lemma heap_at: "heap (at_node n f w) = heap w" "heap (at_executor e g w) = heap w"
  by auto

lemma at_executor_views [simp]:
  "block_of (at_executor e f w) = block_of w" "live (at_executor e f w) = live w" "owner_of (at_executor e f w) = owner_of w"
  "parent_of (at_executor e f w) = parent_of w" "children_of (at_executor e f w) = children_of w"
  "root_node (at_executor e f w) = root_node w"
  by (simp_all add: fun_eq_iff views split: option.split)

text \<open>Taking a node from where it is in the tree and putting it under another one, or among the roots.\<close>

definition relinked :: "addr \<Rightarrow> addr \<Rightarrow> 'c world \<Rightarrow> 'c world \<Rightarrow> bool" where
  "relinked n p w w' \<longleftrightarrow> heap w' = heap w \<and> block_of w' = block_of w \<and> live w' = live w \<and> owner_of w' = owner_of w
     \<and> parent_of w' = (parent_of w)(n := p) \<and> root_node w' = (root_node w)(n := (p = nullptr))
     \<and> children_of w' = (\<lambda>q. erase_all n (children_of w q) @ (if q = p \<and> p \<noteq> nullptr then [n] else []))
     \<and> w_blocks w' = w_blocks w \<and> w_registry w' = w_registry w \<and> w_alive w' = w_alive w \<and> w_nextBlock w' = w_nextBlock w
     \<and> (\<forall>e. rel_option (\<lambda>x y. hosts x = hosts y \<and> Executor_tasks x = Executor_tasks y \<and> Executor_roots x = erase_all n (Executor_roots y) @
          (if p = nullptr \<and> e = owner_of w n then [n] else [])) (w_executors w' e) (w_executors w e))"

lemma node_inv_relinked:
  assumes inv: "node_inv w" and n: "live w n" and p: "p = nullptr \<or> live w p \<and> p \<notin> sub w n" and r: "relinked n p w w'"
  shows "node_inv w'"
proof -
  have v: "heap w' = heap w" "block_of w' = block_of w" "live w' = live w" "owner_of w' = owner_of w"
    "parent_of w' = (parent_of w)(n := p)" "root_node w' = (root_node w)(n := (p = nullptr))"
    "children_of w' = (\<lambda>q. erase_all n (children_of w q) @ (if q = p \<and> p \<noteq> nullptr then [n] else []))"
    "w_blocks w' = w_blocks w" "w_registry w' = w_registry w" "w_alive w' = w_alive w" "w_nextBlock w' = w_nextBlock w"
    using r by (simp_all add: relinked_def)
  have x: "rel_option (\<lambda>x y. hosts x = hosts y \<and> Executor_tasks x = Executor_tasks y \<and> Executor_roots x = erase_all n (Executor_roots y) @
      (if p = nullptr \<and> e = owner_of w n then [n] else [])) (w_executors w' e) (w_executors w e)" for e
    using r by (simp add: relinked_def)
  have t: "tree_ok w" and h: "hosting_ok w" and nh: "n \<in> heap w" using inv live_heap [OF n] by (simp_all add: node_inv_def)
  have "acyclic (prel w')"
  proof (cases "p = nullptr")
    case True
    then have "prel w' \<subseteq> prel w" by (auto simp: prel_def v)
    then show ?thesis using inv acyclic_subset by (auto simp: node_inv_def)
  next
    case False
    have "prel w' \<subseteq> insert (n, p) (prel w - {n} \<times> UNIV)" by (auto simp: prel_def v)
    moreover have "(p, n) \<notin> (prel w)\<^sup>*" using p False by (auto simp: sub_def)
    then have "(p, n) \<notin> (prel w - {n} \<times> UNIV)\<^sup>*" using rtrancl_mono [of "prel w - {n} \<times> UNIV" "prel w"] by blast
    moreover have "acyclic (prel w - {n} \<times> UNIV)" using inv acyclic_subset [of "prel w"] by (auto simp: node_inv_def)
    ultimately show ?thesis using acyclic_subset by (auto simp: acyclic_insert)
  qed
  moreover have "blocks_ok w'" "registry_ok w'" using inv by (simp_all add: node_inv_def blocks_ok_def registry_ok_def v)
  moreover have "tree_ok w'" unfolding tree_ok_def v
  proof (intro conjI ballI allI impI)
    fix q c assume c: "c \<in> set (erase_all n (children_of w q) @ (if q = p \<and> p \<noteq> nullptr then [n] else []))"
    show "live w c" "((parent_of w)(n := p)) c = q" using c t n unfolding tree_ok_def by (auto split: if_splits)
  next
    fix m assume m: "live w m \<and> live w (((parent_of w)(n := p)) m)"
    then have "((parent_of w)(n := p)) m \<noteq> nullptr" using inv live_heap [of w nullptr] unfolding node_inv_def by metis
    then show "m \<in> set (erase_all n (children_of w (((parent_of w)(n := p)) m)) @
        (if ((parent_of w)(n := p)) m = p \<and> p \<noteq> nullptr then [n] else []))"
      using m t unfolding tree_ok_def by (cases "m = n") auto
  qed (use t p live_heap [of w p] in \<open>auto simp: tree_ok_def distinct_erase_all\<close>)
  moreover have "hosting_ok w'"
  proof -
    have none: "w_executors w' e = None \<longleftrightarrow> w_executors w e = None" for e
      using x [of e] by (cases "w_executors w' e"; cases "w_executors w e") auto
    then have d: "dom (w_executors w') = dom (w_executors w)" by (simp add: dom_def)
    have "books_ok w' e y'" if y: "w_executors w' e = Some y'" for e y'
    proof -
      obtain y where "w_executors w e = Some y" "hosts y' = hosts y"
        "Executor_roots y' = erase_all n (Executor_roots y) @ (if p = nullptr \<and> e = owner_of w n then [n] else [])"
        using x [of e] y by (cases "w_executors w e") auto
      then show ?thesis using h n by (auto simp: hosting_ok_def books_ok_def v distinct_erase_all)
    qed
    then show ?thesis using h by (auto simp: hosting_ok_def v d none)
  qed
  ultimately show ?thesis using inv by (simp add: node_inv_def v)
qed


text \<open>Where a node is listed: in the children of its parent, or among the roots of its owner.\<close>

lemma unlisted:
  assumes "node_inv w"
  shows "parent_of w n \<noteq> q \<Longrightarrow> erase_all n (children_of w q) = children_of w q"
    "w_executors w e = Some x \<Longrightarrow> \<not> root_node w n \<or> owner_of w n \<noteq> e \<Longrightarrow> erase_all n (Executor_roots x) = Executor_roots x"
    "remove1 n (children_of w q) = erase_all n (children_of w q)" "children_of w nullptr = []"
proof -
  have t: "tree_ok w" and h: "hosting_ok w" and z: "nullptr \<notin> heap w" using assms by (simp_all add: node_inv_def)
  show "erase_all n (children_of w q) = children_of w q" if "parent_of w n \<noteq> q"
    using t that by (intro removeAll_id) (auto simp: tree_ok_def)
  show "erase_all n (Executor_roots x) = Executor_roots x" if "w_executors w e = Some x" "\<not> root_node w n \<or> owner_of w n \<noteq> e"
    using h that by (intro removeAll_id) (auto simp: hosting_ok_def books_ok_def)
  show "remove1 n (children_of w q) = erase_all n (children_of w q)"
    using t by (simp add: tree_ok_def distinct_remove1_removeAll)
  show "children_of w nullptr = []" using z by (auto simp: children_of_def split: option.split)
qed

lemma no_executor_null: "node_inv w \<Longrightarrow> w_executors w e = Some x \<Longrightarrow> e \<noteq> nullptr"
  by (auto simp: node_inv_def hosting_ok_def)

lemma parent_not_self: "node_inv w \<Longrightarrow> n \<in> heap w \<Longrightarrow> parent_of w n \<noteq> n"
proof
  assume i: "node_inv w" "n \<in> heap w" "parent_of w n = n"
  then have "(n, n) \<in> prel w" by (auto simp: node_inv_def prel_def)
  then show False using i(1) by (auto simp: node_inv_def acyclic_def)
qed

lemma same_blocks: "w_blocks w' = w_blocks w \<Longrightarrow> block_owner b w' = block_owner b w" "w_blocks w' = w_blocks w \<Longrightarrow> block_alive b w' = block_alive b w"
  by (simp_all add: block_owner_def block_alive_def)

lemma Node_addChild_ok:
  assumes inv: "node_inv w" and c: "live w c" "root_node w c" and p: "live w p" "p \<notin> sub w c"
  shows "\<exists>w'. Node_addChild p c w = Inr w' \<and> relinked c p w w'"
proof -
  obtain cd pd where cd: "w_nodes w c = Some cd" and pd: "w_nodes w p = Some pd"
    using live_heap [OF c(1)] live_heap [OF p(1)] by blast
  have ne: "c \<noteq> nullptr" "p \<noteq> nullptr" "p \<noteq> c" "nd_isRoot cd" and par: "parent_of w c = nullptr"
    using node_facts(3) [OF inv cd] node_facts(3) [OF inv pd] p(2) sub_self [of c w] c(2) node_views(1,2) [OF cd]
      node_facts(1) [OF inv cd] by auto
  define w1 where "w1 = at_executor (block_owner (nd_block cd) w) (Executor_removeRootNode c)
    (at_node c (\<lambda>cd. cd\<lparr>nd_isRoot := False\<rparr>) w)"
  define w' where "w' = at_node p (\<lambda>pd. pd\<lparr>nd_children := nd_children pd @ [c]\<rparr>) (at_node c (\<lambda>cd. cd\<lparr>nd_parent := p\<rparr>) w1)"
  have step: "Node_addChild p c w = Inr w'" using ne cd pd by (simp add: Node_addChild_def w'_def w1_def)
  have nodes: "w_nodes w' = (w_nodes w)(c \<mapsto> cd\<lparr>nd_isRoot := False, nd_parent := p\<rparr>, p \<mapsto> pd\<lparr>nd_children := nd_children pd @ [c]\<rparr>)"
    using ne cd pd by (auto simp: w'_def w1_def fun_eq_iff)
  have rest: "w_blocks w' = w_blocks w" "w_registry w' = w_registry w" "w_alive w' = w_alive w" "w_nextBlock w' = w_nextBlock w"
    by (simp_all add: w'_def w1_def)
  note blk = same_blocks [OF rest(1)]
  have "children_of w' = (\<lambda>q. erase_all c (children_of w q) @ (if q = p \<and> p \<noteq> nullptr then [c] else []))"
  proof
    fix q
    have "erase_all c (children_of w q) = children_of w q"
      using unlisted(1) [OF inv, of c q] unlisted(4) [OF inv] par by (cases "q = nullptr") auto
    then show "children_of w' q = erase_all c (children_of w q) @ (if q = p \<and> p \<noteq> nullptr then [c] else [])"
      using ne cd pd by (simp add: children_of_def nodes)
  qed
  moreover have "heap w' = heap w" "block_of w' = block_of w" "live w' = live w" "owner_of w' = owner_of w"
    "parent_of w' = (parent_of w)(c := p)" "root_node w' = (root_node w)(c := (p = nullptr))"
    using ne cd pd by (auto simp: fun_eq_iff views nodes blk split: option.split)
  moreover have "rel_option (\<lambda>x y. hosts x = hosts y \<and> Executor_tasks x = Executor_tasks y
      \<and> Executor_roots x = erase_all c (Executor_roots y) @ (if p = nullptr \<and> e = owner_of w c then [c] else []))
      (w_executors w' e) (w_executors w e)" for e
    using ne unlisted(2) [OF inv, of e _ c] no_executor_null [OF inv, of e] node_views(5) [OF cd]
    by (cases "w_executors w e") (auto simp: w'_def w1_def fun_eq_iff tasks_books)
  ultimately have "relinked c p w w'" using rest by (simp add: relinked_def)
  then show ?thesis using step by blast
qed


section \<open>Re-parenting\<close>

text \<open>\<open>setParent\<close> in three steps: leave the old place, take the new flags, enter the new place.\<close>

lemma Node_setParent_ok:
  assumes inv: "node_inv w" and n: "live w n" and p: "p = nullptr \<or> live w p \<and> p \<notin> sub w n"
  shows "\<exists>w'. Node_setParent n p w = Inr w' \<and> relinked n p w w'"
proof -
  obtain nd where nd: "w_nodes w n = Some nd" using live_heap [OF n] by blast
  let ?o = "block_owner (nd_block nd) w" and ?q = "nd_parent nd"
  have ne: "n \<noteq> nullptr" "?q \<noteq> n" "p \<noteq> n" and root: "nd_isRoot nd \<longleftrightarrow> ?q = nullptr"
    using node_facts [OF inv nd] parent_not_self [OF inv live_heap [OF n]] node_views(1) [OF nd] p sub_self [of n w] by auto
  have heap0: "w_nodes w nullptr = None" using inv by (auto simp: node_inv_def)
  have q: "?q \<noteq> nullptr \<Longrightarrow> ?q \<in> heap w" using node_facts(2) [OF inv nd] .
  have ph: "p \<noteq> nullptr \<Longrightarrow> p \<in> heap w" using p live_heap [of w p] by blast
  define w1 where "w1 = (if ?q \<noteq> nullptr then at_node ?q (\<lambda>od. od\<lparr>nd_children := remove1 n (nd_children od)\<rparr>) w
    else at_executor ?o (Executor_removeRootNode n) w)"
  define w' where "w' = (if p = nullptr
    then at_executor ?o (Executor_addRootNode n) (at_node n (\<lambda>nd. nd\<lparr>nd_parent := nullptr, nd_isRoot := True\<rparr>) w1)
    else at_node p (\<lambda>pd. pd\<lparr>nd_children := nd_children pd @ [n]\<rparr>) (at_node n (\<lambda>cd. cd\<lparr>nd_parent := p\<rparr>)
      (at_node n (\<lambda>nd. nd\<lparr>nd_isRoot := False\<rparr>) w1)))"
  have "seq (if ?q \<noteq> nullptr then seq (deref ?q w) (\<lambda>_. Inr (at_node ?q (\<lambda>od. od\<lparr>nd_children := remove1 n (nd_children od)\<rparr>) w))
      else Inr (at_executor ?o (Executor_removeRootNode n) w)) f = f w1" for f :: "_ \<Rightarrow> fault + 'a world"
    using q by (auto simp: w1_def)
  moreover have "w_nodes (at_node n (\<lambda>nd. nd\<lparr>nd_isRoot := False\<rparr>) w1) n = Some (nd\<lparr>nd_isRoot := False\<rparr>)"
    using nd ne by (simp add: w1_def)
  moreover have "\<exists>pd. deref p (at_node n (\<lambda>nd. nd\<lparr>nd_isRoot := False\<rparr>) w1) = Inr pd" if "p \<noteq> nullptr"
  proof -
    have "heap (at_node n (\<lambda>nd. nd\<lparr>nd_isRoot := False\<rparr>) w1) = heap w" by (simp only: w1_def heap_at if_distrib if_cancel split: if_splits)
    then show ?thesis using deref_heap ph [OF that] by metis
  qed
  ultimately have step: "Node_setParent n p w = Inr w'"
    using nd ne by (auto simp: Node_setParent_def Node_addChild_def Let_def w'_def)
  have nodes: "w_nodes w' m = (if m = n then Some (nd\<lparr>nd_parent := p, nd_isRoot := (p = nullptr)\<rparr>) else
      map_option (\<lambda>od. od\<lparr>nd_children := (if m = ?q then remove1 n (nd_children od) else nd_children od) @
        (if m = p then [n] else [])\<rparr>) (w_nodes w m))" for m
    using ne nd heap0 by (cases "w_nodes w m") (auto simp: w'_def w1_def)
  have rest: "w_blocks w' = w_blocks w" "w_registry w' = w_registry w" "w_alive w' = w_alive w" "w_nextBlock w' = w_nextBlock w"
    by (simp_all add: w'_def w1_def)
  note blk = same_blocks [OF rest(1)]
  have "children_of w' m = erase_all n (children_of w m) @ (if m = p \<and> p \<noteq> nullptr then [n] else [])" for m
  proof (cases "w_nodes w m")
    case None
    then show ?thesis using ph ne nd by (auto simp: children_of_def nodes)
  next
    case (Some md)
    have kids: "children_of w m = nd_children md" and z: "m \<noteq> nullptr" using Some heap0 by (auto simp: children_of_def)
    have "(if m = ?q then remove1 n (nd_children md) else nd_children md) = erase_all n (nd_children md)"
      using unlisted(1,3) [OF inv, of n m] node_views(1) [OF nd] unfolding kids by simp
    then show ?thesis using Some ne z nd kids unlisted(1) [OF inv, of n m] node_views(1) [OF nd]
      by (auto simp: children_of_def nodes)
  qed
  moreover have "heap w' = heap w" using nd by (auto simp: nodes dom_def split: if_splits)
  moreover have "block_of w' = block_of w" "live w' = live w" "owner_of w' = owner_of w"
    "parent_of w' = (parent_of w)(n := p)" "root_node w' = (root_node w)(n := (p = nullptr))"
    using nd by (auto simp: fun_eq_iff views nodes blk option.map_comp comp_def split: option.split)
  moreover have "rel_option (\<lambda>x y. hosts x = hosts y \<and> Executor_tasks x = Executor_tasks y
      \<and> Executor_roots x = erase_all n (Executor_roots y) @ (if p = nullptr \<and> e = owner_of w n then [n] else []))
      (w_executors w' e) (w_executors w e)" for e
    using root unlisted(2) [OF inv, of e _ n] no_executor_null [OF inv, of e] node_views(2,5) [OF nd]
    by (cases "w_executors w e") (auto simp: w'_def w1_def fun_eq_iff)
  ultimately have "relinked n p w w'" using rest by (simp add: relinked_def fun_eq_iff)
  then show ?thesis using step by blast
qed


section \<open>Construction\<close>

definition created :: "addr \<Rightarrow> addr \<Rightarrow> addr \<Rightarrow> 'c world \<Rightarrow> 'c world \<Rightarrow> bool" where
  "created n p o' w w' \<longleftrightarrow> heap w' = insert n (heap w) \<and> block_of w' = (block_of w)(n \<mapsto> w_nextBlock w)
     \<and> live w' = (live w)(n := True) \<and> owner_of w' = (owner_of w)(n := o') \<and> parent_of w' = (parent_of w)(n := p)
     \<and> root_node w' = (root_node w)(n := (p = nullptr))
     \<and> children_of w' = (\<lambda>q. children_of w q @ (if q = p \<and> p \<noteq> nullptr then [n] else []))
     \<and> dom (w_blocks w') = insert (w_nextBlock w) (dom (w_blocks w)) \<and> w_nextBlock w' = Suc (w_nextBlock w)
     \<and> (\<forall>b. b \<noteq> w_nextBlock w \<longrightarrow> w_blocks w' b = w_blocks w b)
     \<and> w_registry w' = (w_registry w)(n \<mapsto> w_nextBlock w) \<and> dom (w_alive w') = insert n (dom (w_alive w))
     \<and> w_executors w' = (\<lambda>e. if e = o' \<and> o' \<noteq> nullptr
          then map_option (\<lambda>x. Executor_addNode n (if p = nullptr then Executor_addRootNode n x else x)) (w_executors w e)
          else w_executors w e)"

lemma node_inv_created:
  assumes inv: "node_inv w" and n: "n \<notin> heap w" "n \<noteq> nullptr" and p: "p = nullptr \<or> live w p"
    and o': "o' \<noteq> nullptr \<longrightarrow> o' \<in> dom (w_executors w)" and c: "created n p o' w w'"
  shows "node_inv w'"
proof -
  have v: "heap w' = insert n (heap w)" "block_of w' = (block_of w)(n \<mapsto> w_nextBlock w)"
    "live w' = (live w)(n := True)" "owner_of w' = (owner_of w)(n := o')" "parent_of w' = (parent_of w)(n := p)"
    "root_node w' = (root_node w)(n := (p = nullptr))"
    "children_of w' = (\<lambda>q. children_of w q @ (if q = p \<and> p \<noteq> nullptr then [n] else []))"
    "dom (w_blocks w') = insert (w_nextBlock w) (dom (w_blocks w))" "w_nextBlock w' = Suc (w_nextBlock w)"
    "w_registry w' = (w_registry w)(n \<mapsto> w_nextBlock w)" "dom (w_alive w') = insert n (dom (w_alive w))"
    "w_executors w' = (\<lambda>e. if e = o' \<and> o' \<noteq> nullptr
      then map_option (\<lambda>x. Executor_addNode n (if p = nullptr then Executor_addRootNode n x else x)) (w_executors w e)
      else w_executors w e)"
    using c by (simp_all add: created_def)
  have t: "tree_ok w" and h: "hosting_ok w" and nl: "\<not> live w n" and nc: "children_of w n = []" and no: "owner_of w n = nullptr"
    using inv n(1) live_heap [of w n] owner_heap [of w n] by (auto simp: node_inv_def children_of_def split: option.split)
  have pn: "p \<noteq> n" "p \<noteq> nullptr \<Longrightarrow> p \<in> heap w" using p n live_heap [of w p] by auto
  have "acyclic (prel w')"
  proof -
    have "prel w' \<subseteq> insert (n, p) (prel w)" using n(1) by (auto simp: prel_def v)
    moreover have "(p, n) \<notin> (prel w)\<^sup>*"
    proof
      assume "(p, n) \<in> (prel w)\<^sup>*"
      then obtain q where "(q, n) \<in> prel w" using pn(1) by (auto elim: rtranclE)
      then have "parent_of w q = n" "q \<in> heap w" by (simp_all add: prel_def)
      then show False using t n by (auto simp: tree_ok_def)
    qed
    then have "acyclic (insert (n, p) (prel w))" using inv by (simp add: node_inv_def acyclic_insert)
    ultimately show ?thesis by (rule acyclic_subset [rotated])
  qed
  moreover have "blocks_ok w'" unfolding blocks_ok_def v
  proof (intro conjI allI impI)
    fix m b assume m: "((block_of w)(n \<mapsto> w_nextBlock w)) m = Some b"
    show "b < Suc (w_nextBlock w)" "b \<in> insert (w_nextBlock w) (dom (w_blocks w))"
      using m inv by (auto simp: node_inv_def blocks_ok_def less_Suc_eq split: if_splits)
  next
    fix m k b assume "((block_of w)(n \<mapsto> w_nextBlock w)) m = Some b \<and> ((block_of w)(n \<mapsto> w_nextBlock w)) k = Some b"
    then show "m = k" using inv by (auto simp: node_inv_def blocks_ok_def split: if_splits)
  qed
  moreover have "registry_ok w'" using inv by (auto simp: node_inv_def registry_ok_def v)
  moreover have "tree_ok w'" unfolding tree_ok_def v
  proof (intro conjI ballI allI impI)
    fix q assume q: "q \<in> insert n (heap w)"
    show "((root_node w)(n := p = nullptr)) q = (((parent_of w)(n := p)) q = nullptr)" using q t by (auto simp: tree_ok_def)
    show "((parent_of w)(n := p)) q \<in> insert n (heap w)" if "((parent_of w)(n := p)) q \<noteq> nullptr"
      using q t that pn(2) by (auto simp: tree_ok_def split: if_splits)
  next
    fix q show "distinct (children_of w q @ (if q = p \<and> p \<noteq> nullptr then [n] else []))"
      using t nl by (auto simp: tree_ok_def)
  next
    fix q m assume m: "m \<in> set (children_of w q @ (if q = p \<and> p \<noteq> nullptr then [n] else []))"
    show "((live w)(n := True)) m" "((parent_of w)(n := p)) m = q" using m t nl by (auto simp: tree_ok_def split: if_splits)
  next
    fix m assume m: "((live w)(n := True)) m \<and> ((live w)(n := True)) (((parent_of w)(n := p)) m)"
    show "m \<in> set (children_of w (((parent_of w)(n := p)) m) @ (if ((parent_of w)(n := p)) m = p \<and> p \<noteq> nullptr then [n] else []))"
    proof (cases "m = n")
      case True
      then show ?thesis using m pn(1) inv live_heap [of w p] by (auto simp: node_inv_def)
    next
      case False
      have "m \<in> heap w" using m False live_heap [of w m] by auto
      then have "parent_of w m \<noteq> n" using t n by (auto simp: tree_ok_def)
      then show ?thesis using m False t by (auto simp: tree_ok_def)
    qed
  qed
  moreover have "hosting_ok w'"
  proof -
    have "books_ok w' e x" if x: "w_executors w' e = Some x" for e x
    proof -
      have e: "e \<noteq> nullptr" using x h by (auto simp: v hosting_ok_def split: if_splits)
      have fin: "finite {m. owner_of w m = e}" using inv e by (intro finite_hosted) (simp_all add: node_inv_def)
      obtain y where y: "w_executors w e = Some y" using x by (auto simp: v split: if_splits)
      then have b: "books_ok w e y" using h by (simp add: hosting_ok_def)
      have new: "{m. owner_of w' m = e} = (if e = o' then insert n {m. owner_of w m = e} else {m. owner_of w m = e})"
        using no e by (auto simp: v)
      have roots: "{m. live w' m \<and> root_node w' m \<and> owner_of w' m = e} =
          {m. live w m \<and> root_node w m \<and> owner_of w m = e} \<union> (if e = o' \<and> p = nullptr then {n} else {})"
        using nl by (auto simp: v)
      have nin: "n \<notin> {m. owner_of w m = e}" using no e by simp
      show ?thesis
      proof (cases "e = o'")
        case True
        then have xy: "x = Executor_addNode n (if p = nullptr then Executor_addRootNode n y else y)" using x y e by (simp add: v)
        have "hosts x (insert n {m. owner_of w m = e})"
          unfolding xy using b fin nin by (intro ex.hosts_add) (auto simp: books_ok_def)
        then show ?thesis unfolding books_ok_def new roots using True b nl by (auto simp: xy books_ok_def)
      next
        case False
        then show ?thesis using x y b unfolding books_ok_def new roots by (simp add: v)
      qed
    qed
    moreover have "dom (w_executors w') = dom (w_executors w)" by (auto simp: v split: if_splits)
    moreover have "w_executors w' nullptr = None" using h by (auto simp: v hosting_ok_def)
    ultimately show ?thesis using h o' by (auto simp: hosting_ok_def v)
  qed
  ultimately show ?thesis using inv n(2) by (simp add: node_inv_def v)
qed


text \<open>The thread may create a node there: it is not a worker of a task pool outside the strand that would own the node.\<close>

definition may_create :: "thread_context \<Rightarrow> addr \<Rightarrow> 'c world \<Rightarrow> bool" where
  "may_create cx p w \<longleftrightarrow> (cx_worker cx \<longrightarrow> (if p \<noteq> nullptr then isCurrent cx (owner_of w p) else cx_strand cx \<noteq> nullptr))"

definition new_owner :: "thread_context \<Rightarrow> addr \<Rightarrow> 'c world \<Rightarrow> addr" where
  "new_owner cx p w = (if p \<noteq> nullptr then owner_of w p else if cx_worker cx then cx_strand cx else cx_loop cx)"

lemma Node_new_ok:
  assumes inv: "node_inv w" and n: "n \<notin> heap w" and p: "p = nullptr \<or> live w p" and may: "may_create cx p w"
    and n0: "n \<noteq> nullptr"
  shows "\<exists>w'. Node_new cx n p w = Inr w' \<and> created n p (new_owner cx p w) w w'"
proof -
  let ?b = "w_nextBlock w" and ?o = "new_owner cx p w" and ?g = "w_nextGeneration w"
  have ph: "p \<noteq> nullptr \<Longrightarrow> \<exists>pd. w_nodes w p = Some pd \<and> owner_of w p = block_owner (nd_block pd) w \<and> p \<noteq> n"
    using p live_heap [of w p] n node_views(5) [of w p] by blast
  define nd where "nd = \<lparr>nd_parent = p, nd_children = [], nd_childrenToDelete = [], nd_isRoot = False, nd_name = [],
    nd_generation = ?g, nd_block = ?b\<rparr>"
  define w1 where "w1 = NodeRegistry_registerNode n ?b
    (w\<lparr>w_nextGeneration := ?g + 1, w_nextBlock := ?b + 1, w_nodes := (w_nodes w)(n \<mapsto> nd),
       w_blocks := (w_blocks w)(?b \<mapsto> \<lparr>bl_alive = True, bl_marked = False, bl_owner = ?o\<rparr>)\<rparr>)"
  define w2 where "w2 = (if p \<noteq> nullptr then at_node p (\<lambda>pd. pd\<lparr>nd_children := nd_children pd @ [n]\<rparr>) (at_node n (\<lambda>nd. nd\<lparr>nd_parent := p\<rparr>) w1)
    else at_executor ?o (Executor_addRootNode n) (at_node n (\<lambda>nd. nd\<lparr>nd_isRoot := True\<rparr>) w1))"
  define w' where "w' = Application_registerAliveNode n ?g (at_executor ?o (Executor_addNode n) w2)"
  have "(if p \<noteq> nullptr then Node_addChild p n w1
      else Inr (at_executor ?o (Executor_addRootNode n) (at_node n (\<lambda>nd. nd\<lparr>nd_isRoot := True\<rparr>) w1))) = Inr w2"
    using ph n0 by (auto simp: Node_addChild_def w2_def w1_def NodeRegistry_registerNode_def nd_def)
  then have step: "Node_new cx n p w = Inr w'"
    using ph may by (auto simp: Node_new_def Let_def may_create_def new_owner_def w'_def w1_def nd_def)
  have nodes: "w_nodes w' m = (if m = n then Some (nd\<lparr>nd_isRoot := (p = nullptr)\<rparr>)
      else if m = p \<and> p \<noteq> nullptr then map_option (\<lambda>pd. pd\<lparr>nd_children := nd_children pd @ [n]\<rparr>) (w_nodes w m) else w_nodes w m)" for m
    using ph by (auto simp: w'_def w2_def w1_def Application_registerAliveNode_def NodeRegistry_registerNode_def nd_def)
  have rest: "w_blocks w' = (w_blocks w)(?b \<mapsto> \<lparr>bl_alive = True, bl_marked = False, bl_owner = ?o\<rparr>)"
    "w_registry w' = (w_registry w)(n \<mapsto> ?b)" "w_alive w' = (w_alive w)(n \<mapsto> (?g, False))" "w_nextBlock w' = Suc ?b"
    by (simp_all add: w'_def w2_def w1_def Application_registerAliveNode_def NodeRegistry_registerNode_def)
  have old: "nd_block md \<noteq> ?b" if "w_nodes w m = Some md" for m md
    using inv node_views(4) [OF that] unfolding node_inv_def blocks_ok_def by (metis less_irrefl)
  have gone: "w_nodes w n = None" using n by blast
  have "live w' m = ((live w)(n := True)) m" "owner_of w' m = ((owner_of w)(n := ?o)) m" for m
    using old [of m] gone
    by (auto simp: live_def owner_of_def nodes block_alive_def block_owner_def rest nd_def split: option.split)
  moreover have "block_of w' m = ((block_of w)(n \<mapsto> ?b)) m" "parent_of w' m = ((parent_of w)(n := p)) m"
    "root_node w' m = ((root_node w)(n := (p = nullptr))) m"
    "children_of w' m = children_of w m @ (if m = p \<and> p \<noteq> nullptr then [n] else [])" for m
    using ph gone by (cases "p = nullptr"; auto simp: views nodes nd_def split: option.split)+
  moreover have "heap w' = insert n (heap w)" using ph by (auto simp: nodes dom_def split: if_splits)
  moreover have "w_executors w' e = (if e = ?o \<and> ?o \<noteq> nullptr
      then map_option (\<lambda>x. Executor_addNode n (if p = nullptr then Executor_addRootNode n x else x)) (w_executors w e)
      else w_executors w e)" for e
    by (cases "w_executors w e")
      (auto simp: w'_def w2_def w1_def Application_registerAliveNode_def NodeRegistry_registerNode_def)
  moreover have "dom (w_blocks w') = insert ?b (dom (w_blocks w))" "dom (w_alive w') = insert n (dom (w_alive w))"
    by (simp_all add: rest)
  moreover have "\<forall>b. b \<noteq> ?b \<longrightarrow> w_blocks w' b = w_blocks w b" by (simp add: rest)
  ultimately have "created n p ?o w w'" using rest(2,4) by (simp add: created_def fun_eq_iff)
  then show ?thesis using step by blast
qed


section \<open>Migration\<close>

text \<open>The nodes of \<open>S\<close> have the owner \<open>t\<close>; nothing else about the nodes has changed.\<close>

definition moved :: "addr set \<Rightarrow> addr \<Rightarrow> 'c world \<Rightarrow> 'c world \<Rightarrow> bool" where
  "moved S t w w' \<longleftrightarrow> node_inv w' \<and> w_nodes w' = w_nodes w \<and> live w' = live w
     \<and> owner_of w' = (\<lambda>m. if m \<in> S then t else owner_of w m) \<and> dom (w_executors w') = dom (w_executors w)"

lemma moved_none: "node_inv w \<Longrightarrow> moved {} t w w"
  by (simp add: moved_def)

lemma moved_trans: "moved S t w w1 \<Longrightarrow> moved T t w1 w2 \<Longrightarrow> moved (S \<union> T) t w w2"
  by (auto simp: moved_def)

lemma moved_views:
  assumes "moved S t w w'"
  shows "parent_of w' = parent_of w" "children_of w' = children_of w" "root_node w' = root_node w" "block_of w' = block_of w"
    "sub w' = sub w" "prel w' = prel w"
proof -
  have n: "w_nodes w' = w_nodes w" using assms by (simp add: moved_def)
  then show v: "parent_of w' = parent_of w" "children_of w' = children_of w" "root_node w' = root_node w" "block_of w' = block_of w"
    by (simp_all add: fun_eq_iff views)
  show "prel w' = prel w" using n v by (simp add: prel_def)
  then show "sub w' = sub w" by (simp add: sub_def fun_eq_iff)
qed

lemma move_node_ok:
  assumes inv: "node_inv w" and n: "live w n" "w_nodes w n = Some nd" and t: "t \<in> dom (w_executors w)" "owner_of w n \<noteq> t"
  shows "moved {n} t w (move_node n t nd w)"
proof -
  let ?o = "owner_of w n" and ?w = "move_node n t nd w" and ?rt = "root_node w n"
  have t0: "t \<noteq> nullptr" using t(1) no_executor_null [OF inv] by blast
  have nul: "w_executors w nullptr = None" using inv by (simp add: node_inv_def hosting_ok_def)
  have o: "block_owner (nd_block nd) w = ?o" and rt: "nd_isRoot nd = ?rt" using node_views [OF n(2)] by simp_all
  have w: "w_nodes ?w = w_nodes w" "w_registry ?w = w_registry w" "w_alive ?w = w_alive w" "w_nextBlock ?w = w_nextBlock w"
    "w_blocks ?w = (w_blocks w)(nd_block nd := map_option (\<lambda>b. b\<lparr>bl_owner := t\<rparr>) (w_blocks w (nd_block nd)))"
    "w_executors ?w e = (if e = t then map_option (\<lambda>x. (if ?rt then Executor_addRootNode n else id) (Executor_addNode n x)) (w_executors w e)
       else if e = ?o then map_option (\<lambda>x. (if ?rt then Executor_removeRootNode n else id) (Executor_removeNode n x)) (w_executors w e)
       else w_executors w e)" for e
    using t t0 nul o rt by (auto simp: move_node_def Let_def)
  have other: "nd_block md \<noteq> nd_block nd" if "w_nodes w m = Some md" "m \<noteq> n" for m md
    using other_block [OF inv n(2) that] .
  have blk: "w_blocks w (nd_block nd) \<noteq> None"
    using inv node_views(4) [OF n(2)] unfolding node_inv_def blocks_ok_def by blast
  have v: "parent_of ?w = parent_of w" "children_of ?w = children_of w" "root_node ?w = root_node w" "block_of ?w = block_of w"
    by (simp_all add: fun_eq_iff views w)
  have ow: "owner_of ?w m = (if m = n then t else owner_of w m)" "live ?w m = live w m" for m
    using other [of m] n(2) blk
    by (auto simp: owner_of_def live_def w(1,5) block_owner_def block_alive_def split: option.split)
  have lv: "live ?w = live w" using ow(2) by blast
  have h: "hosting_ok w" using inv by (simp add: node_inv_def)
  have "books_ok ?w e x" if x: "w_executors ?w e = Some x" for e x
  proof -
    obtain y where y: "w_executors w e = Some y" using x by (auto simp: w(6) split: if_splits)
    then have e: "e \<noteq> nullptr" and b: "books_ok w e y" using no_executor_null [OF inv] h by (auto simp: hosting_ok_def)
    have fin: "finite {m. owner_of w m = e}" using inv e by (intro finite_hosted) (simp_all add: node_inv_def)
    consider "e = t" | "e = ?o" "e \<noteq> t" | "e \<noteq> t" "e \<noteq> ?o" by blast
    then show ?thesis
    proof cases
      case 1
      then have set: "{m. owner_of ?w m = e} = insert n {m. owner_of w m = e}" by (auto simp: ow)
      have "hosts (Executor_addNode n y) (insert n {m. owner_of w m = e})"
        using b fin t(2) 1 by (intro ex.hosts_add) (auto simp: books_ok_def)
      moreover have "{m. live ?w m \<and> root_node ?w m \<and> owner_of ?w m = e} =
          {m. live w m \<and> root_node w m \<and> owner_of w m = e} \<union> (if ?rt then {n} else {})" using n(1) 1 by (auto simp: ow v)
      moreover have "x = (if ?rt then Executor_addRootNode n else id) (Executor_addNode n y)" using x y 1 by (simp add: w(6))
      moreover have "n \<notin> set (Executor_roots y)" using b 1 t(2) by (simp add: books_ok_def)
      ultimately show ?thesis unfolding books_ok_def set using b by (simp add: books_ok_def)
    next
      case 2
      then have set: "{m. owner_of ?w m = e} = {m. owner_of w m = e} - {n}" by (auto simp: ow)
      have "hosts (Executor_removeNode n y) ({m. owner_of w m = e} - {n})"
        using b fin 2 by (intro ex.hosts_remove) (auto simp: books_ok_def)
      moreover have "{m. live ?w m \<and> root_node ?w m \<and> owner_of ?w m = e} =
          {m. live w m \<and> root_node w m \<and> owner_of w m = e} - (if ?rt then {n} else {})" using 2 by (auto simp: ow v)
      moreover have "x = (if ?rt then Executor_removeRootNode n else id) (Executor_removeNode n y)" using x y 2 by (simp add: w(6))
      ultimately show ?thesis unfolding books_ok_def set using b by (simp add: books_ok_def distinct_erase_all)
    next
      case 3
      then have "{m. owner_of ?w m = e} = {m. owner_of w m = e}"
        "{m. live ?w m \<and> root_node ?w m \<and> owner_of ?w m = e} = {m. live w m \<and> root_node w m \<and> owner_of w m = e}"
        by (auto simp: ow v)
      then show ?thesis using x y b 3 by (simp add: books_ok_def w(6))
    qed
  qed
  moreover have none: "w_executors ?w e = None \<longleftrightarrow> w_executors w e = None" for e by (simp add: w(6))
  then have dom: "dom (w_executors ?w) = dom (w_executors w)" by (simp add: dom_def)
  ultimately have "hosting_ok ?w" using h t(1) none [of nullptr] by (simp add: hosting_ok_def ow)
  moreover have "prel ?w = prel w" "blocks_ok ?w = blocks_ok w" "registry_ok ?w = registry_ok w" "tree_ok ?w = tree_ok w"
    using blk by (auto simp: prel_def blocks_ok_def registry_ok_def tree_ok_def v w lv)
  ultimately have "node_inv ?w" using inv by (simp add: node_inv_def w)
  then show ?thesis using dom lv by (simp add: moved_def w ow fun_eq_iff)
qed

text \<open>
  The move stops at nodes that already are where they should go, so the nodes that have changed owner
  are some set \<open>S\<close> of nodes of the subtree; it is all of the subtree when that has one owner.
\<close>

definition one_owner :: "'c world \<Rightarrow> addr \<Rightarrow> bool" where
  "one_owner w n \<longleftrightarrow> (\<forall>m \<in> sub w n. owner_of w m = owner_of w n)"

definition arrived :: "addr \<Rightarrow> addr \<Rightarrow> 'c world \<Rightarrow> 'c world \<Rightarrow> bool" where
  "arrived n t w w' \<longleftrightarrow> (\<exists>S. moved S t w w' \<and> n \<in> S \<and> S \<subseteq> sub w n \<and> (one_owner w n \<longrightarrow> S = sub w n))"

lemma one_owner_child: "one_owner w n \<Longrightarrow> (c, n) \<in> prel w \<Longrightarrow> one_owner w c"
proof -
  assume a: "one_owner w n" "(c, n) \<in> prel w"
  have "owner_of w m = owner_of w n" if "m \<in> sub w c" for m using a(1) sub_child [OF a(2)] that unfolding one_owner_def by blast
  then show ?thesis using sub_self [of c w] unfolding one_owner_def by metis
qed

lemma one_owner_moved:
  assumes "moved S t w v" "sub w c \<inter> S = {}"
  shows "one_owner v c \<longleftrightarrow> one_owner w c"
proof -
  have o: "owner_of v = (\<lambda>m. if m \<in> S then t else owner_of w m)" using assms(1) by (simp add: moved_def)
  have "owner_of v m = owner_of w m" if "m \<in> sub w c" for m using assms(2) that o by auto
  then show ?thesis unfolding one_owner_def moved_views(5) [OF assms(1)] using sub_self [of c w] by metis
qed

text \<open>The children one after the other, given that each subtree can be moved; \<open>S\<close> has been moved already.\<close>

lemma move_children_ok:
  assumes each: "\<And>c (v :: 'c world). node_inv v \<Longrightarrow> live v c \<Longrightarrow> \<forall>m \<in> sub v c. live v m \<Longrightarrow> card (sub v c) \<le> k \<Longrightarrow>
      t \<in> dom (w_executors v) \<Longrightarrow> \<exists>v'. Node_applyMoveTo k t c v = Inr v' \<and> arrived c t v v'"
    and w: "acyclic (prel w)" "t \<in> dom (w_executors w)" "\<forall>m \<in> sub w n. live w m"
  shows "moved S t w v \<Longrightarrow> \<forall>c \<in> set cs. (c, n) \<in> prel w \<and> card (sub w c) \<le> k \<and> sub w c \<inter> S = {} \<Longrightarrow> distinct cs \<Longrightarrow>
    \<exists>v' T. move_children k t cs (v :: 'c world) = Inr v' \<and> moved T t v v' \<and> T \<subseteq> (\<Union>c \<in> set cs. sub w c)
      \<and> (one_owner w n \<longrightarrow> T = (\<Union>c \<in> set cs. sub w c))"
proof (induction cs arbitrary: v S)
  case Nil
  then have "node_inv v" by (simp add: moved_def)
  then show ?case using moved_none [of v t] by auto
next
  case (Cons c cs)
  have c: "(c, n) \<in> prel w" "card (sub w c) \<le> k" "sub w c \<inter> S = {}" using Cons.prems(2) by auto
  have v: "node_inv v" "live v = live w" "dom (w_executors v) = dom (w_executors w)" "sub v = sub w"
    using Cons.prems(1) moved_views(5) [OF Cons.prems(1)] by (simp_all add: moved_def)
  have "\<forall>m \<in> sub w c. live v m" using w(3) sub_child [OF c(1)] v(2) by auto
  then obtain v1 where v1: "Node_applyMoveTo k t c v = Inr v1" "arrived c t v v1"
    using each [of v c] v c(2) w(2) sub_self [of c w] by metis
  then obtain R where R: "moved R t v v1" "R \<subseteq> sub w c" "one_owner w n \<longrightarrow> R = sub w c"
    using one_owner_moved [OF Cons.prems(1) c(3)] one_owner_child [OF _ c(1)] v(4) unfolding arrived_def by metis
  have "(d, n) \<in> prel w \<and> card (sub w d) \<le> k \<and> sub w d \<inter> (S \<union> R) = {}" if "d \<in> set cs" for d
    using Cons.prems(2,3) that sub_disjoint [OF w(1) _ c(1), of d] R(2) by auto
  then obtain v2 T where v2: "move_children k t cs v1 = Inr v2" "moved T t v1 v2" "T \<subseteq> (\<Union>d \<in> set cs. sub w d)"
    "one_owner w n \<longrightarrow> T = (\<Union>d \<in> set cs. sub w d)"
    using Cons.IH [OF moved_trans [OF Cons.prems(1) R(1)]] Cons.prems(3) by auto
  have "move_children k t (c # cs) v = Inr v2" using v1(1) v2(1) by simp
  moreover have "R \<union> T \<subseteq> (\<Union>d \<in> set (c # cs). sub w d)" "one_owner w n \<longrightarrow> R \<union> T = (\<Union>d \<in> set (c # cs). sub w d)"
    using R(2,3) v2(3,4) by auto
  ultimately show ?case using moved_trans [OF R(1) v2(2)] by blast
qed

text \<open>Fuel for the size of the subtree is enough.\<close>

lemma Node_applyMoveTo_ok:
  "node_inv w \<Longrightarrow> live w n \<Longrightarrow> \<forall>m \<in> sub w n. live w m \<Longrightarrow> card (sub w n) \<le> k \<Longrightarrow>
   t \<in> dom (w_executors w) \<Longrightarrow> \<exists>w'. Node_applyMoveTo k t n w = Inr w' \<and> arrived n t w w'"
proof (induction k arbitrary: n w)
  case 0
  have "card (sub w n) \<noteq> 0" using finite_sub [OF 0(1) live_heap [OF 0(2)]] sub_self [of n w] by (metis card_eq_0_iff empty_iff)
  then show ?case using 0(4) by simp
next
  case (Suc k)
  note inv = Suc.prems(1) and n = Suc.prems(2,3)
  obtain nd where nd: "w_nodes w n = Some nd" using live_heap [OF n(1)] by blast
  show ?case
  proof (cases "owner_of w n = t")
    case True
    define S where "S = (if one_owner w n then sub w n else {n})"
    have "\<forall>m \<in> S. owner_of w m = t" using True unfolding S_def one_owner_def by auto
    then have "moved S t w w" using inv by (auto simp: moved_def)
    then have "arrived n t w w" unfolding arrived_def by (intro exI [of _ S]) (simp add: S_def)
    then show ?thesis using nd True node_views(5) [OF nd] by simp
  next
    case False
    have one: "moved {n} t w (move_node n t nd w)" by (rule move_node_ok [OF inv n(1) nd Suc.prems(5) False])
    have kids: "set (children_of w n) = {c. (c, n) \<in> prel w}" by (rule children_iff [OF inv n])
    have acy: "acyclic (prel w)" and dist: "distinct (children_of w n)" using inv by (simp_all add: node_inv_def tree_ok_def)
    have "(c, n) \<in> prel w \<and> card (sub w c) \<le> k \<and> sub w c \<inter> {n} = {}" if "c \<in> set (children_of w n)" for c
    proof -
      have c: "(c, n) \<in> prel w" using kids that by blast
      then show ?thesis using card_sub_child [OF inv live_heap [OF n(1)] c] Suc.prems(4) sub_not_parent [OF acy c] by simp
    qed
    then obtain w' T where w': "move_children k t (children_of w n) (move_node n t nd w) = Inr w'"
      "moved T t (move_node n t nd w) w'" "T \<subseteq> (\<Union>c \<in> set (children_of w n). sub w c)"
      "one_owner w n \<longrightarrow> T = (\<Union>c \<in> set (children_of w n). sub w c)"
      using move_children_ok [OF Suc.IH acy Suc.prems(5) n(2) one _ dist] by blast
    have "arrived n t w w'" unfolding arrived_def
      using moved_trans [OF one w'(2)] w'(3,4) sub_children [OF inv n] by (intro exI [of _ "{n} \<union> T"]) auto
    then show ?thesis using nd False node_views(3,5) [OF nd] w'(1) by simp
  qed
qed


section \<open>Deferred deletion\<close>

text \<open>Requests change no node's place, owner or life.\<close>

definition same_tree :: "'c world \<Rightarrow> 'c world \<Rightarrow> bool" where
  "same_tree w w' \<longleftrightarrow> heap w' = heap w \<and> parent_of w' = parent_of w \<and> children_of w' = children_of w \<and> root_node w' = root_node w
     \<and> block_of w' = block_of w \<and> live w' = live w \<and> owner_of w' = owner_of w \<and> dom (w_blocks w') = dom (w_blocks w)
     \<and> w_registry w' = w_registry w \<and> dom (w_alive w') = dom (w_alive w) \<and> w_nextBlock w' = w_nextBlock w
     \<and> (\<forall>b. block_alive b w' = block_alive b w)
     \<and> (\<forall>e. rel_option (\<lambda>x y. Executor_roots x = Executor_roots y \<and> hosts x = hosts y) (w_executors w' e) (w_executors w e))"

lemma same_tree_inv: "same_tree w w' \<Longrightarrow> node_inv w' = node_inv w"
  by (rule node_inv_cong) (simp_all add: same_tree_def)

lemma rel_option_refl_books:
  "rel_option (\<lambda>x y. Executor_roots x = Executor_roots y \<and> hosts x = hosts y) e e"
  by (rule option.rel_refl) simp

lemma same_tree_refl: "same_tree w w"
  by (simp add: same_tree_def rel_option_refl_books)

lemma same_tree_trans: "same_tree w w1 \<Longrightarrow> same_tree w1 w2 \<Longrightarrow> same_tree w w2"
proof -
  assume a: "same_tree w w1" "same_tree w1 w2"
  have "rel_option (\<lambda>x y. Executor_roots x = Executor_roots y \<and> hosts x = hosts y) (w_executors w2 e) (w_executors w e)" for e
  proof -
    have "rel_option (\<lambda>x y. Executor_roots x = Executor_roots y \<and> hosts x = hosts y) (w_executors w2 e) (w_executors w1 e)"
      "rel_option (\<lambda>x y. Executor_roots x = Executor_roots y \<and> hosts x = hosts y) (w_executors w1 e) (w_executors w e)"
      using a by (simp_all add: same_tree_def)
    then show ?thesis by (cases "w_executors w2 e"; cases "w_executors w1 e"; cases "w_executors w e") simp_all
  qed
  then show ?thesis using a unfolding same_tree_def by presburger
qed

lemma same_tree_executor:
  assumes "\<And>x. Executor_roots (f x) = Executor_roots x" "\<And>x. hosts (f x) = hosts x"
  shows "same_tree w (at_executor e f w)"
proof -
  have "rel_option (\<lambda>x y. Executor_roots x = Executor_roots y \<and> hosts x = hosts y) (w_executors (at_executor e f w) d) (w_executors w d)" for d
    by (cases "w_executors w d") (auto simp: assms)
  then show ?thesis by (simp add: same_tree_def heap_at)
qed

lemma same_tree_post: "same_tree w (at_executor e (Executor_post t) w)"
  by (rule same_tree_executor) (simp_all add: fun_eq_iff)

lemma same_tree_enqueue: "same_tree w (at_executor e (Executor_enqueueDelete n) w)"
  by (rule same_tree_executor) (simp_all add: fun_eq_iff)

lemma same_tree_pending: "same_tree w (at_node n (\<lambda>nd. nd\<lparr>nd_childrenToDelete := f nd\<rparr>) w)"
proof (cases "w_nodes w n")
  case None
  then have "at_node n (\<lambda>nd. nd\<lparr>nd_childrenToDelete := f nd\<rparr>) w = w" by (simp add: at_node_def fun_upd_idem)
  then show ?thesis by (simp add: same_tree_refl)
next
  case (Some nd)
  note v = at_node_views [OF Some, of "\<lambda>nd. nd\<lparr>nd_childrenToDelete := f nd\<rparr>"]
  show ?thesis using node_views(1-3) [OF Some] by (auto simp: same_tree_def heap_at v rel_option_refl_books fun_upd_idem_iff)
qed

lemma same_tree_mark: "same_tree w (at_block b (\<lambda>b. b\<lparr>bl_marked := True\<rparr>) w)"
  by (auto simp: same_tree_def fun_eq_iff views block_owner_def block_alive_def split: option.split intro!: option.rel_refl)

lemma same_tree_marked: "Application_markToDelete n w = Inr w' \<Longrightarrow> same_tree w w'"
  by (auto simp: Application_markToDelete_def same_tree_def fun_eq_iff views block_owner_def block_alive_def
      split: option.splits if_splits intro!: option.rel_refl)

lemma Node_pushDeleteChild_ok:
  "p \<in> heap w \<Longrightarrow> \<exists>w'. Node_pushDeleteChild p c w = Inr w' \<and> same_tree w w'"
  using deref_heap [of p w] by (auto simp: Node_pushDeleteChild_def same_tree_pending same_tree_refl)

lemma Node_deleteLater_ok:
  assumes inv: "node_inv w" and n: "n \<in> heap w" "owner_of w n \<noteq> nullptr"
  shows "\<exists>w'. Node_deleteLater cx n w = Inr w' \<and> same_tree w w'"
proof -
  obtain nd where nd: "w_nodes w n = Some nd" using n(1) by blast
  let ?w1 = "at_block (nd_block nd) (\<lambda>b. b\<lparr>bl_marked := True\<rparr>) w"
  have "n \<in> dom (w_alive w)" using inv n(1) unfolding node_inv_def registry_ok_def by metis
  then obtain w2 where w2: "Application_markToDelete n ?w1 = Inr w2" by (auto simp: Application_markToDelete_def)
  have s: "same_tree w w2" using same_tree_trans [OF same_tree_mark same_tree_marked [OF w2]] .
  have o: "block_owner (nd_block nd) w \<noteq> nullptr" using n(2) node_views(5) [OF nd] by simp
  have "nd_parent nd \<in> heap w2" if "nd_parent nd \<noteq> nullptr"
    using node_facts(2) [OF inv nd that] s unfolding same_tree_def by blast
  then have push: "nd_parent nd \<noteq> nullptr \<Longrightarrow> \<exists>w'. Node_pushDeleteChild (nd_parent nd) n w2 = Inr w' \<and> same_tree w w'"
    using Node_pushDeleteChild_ok [of "nd_parent nd" w2 n] same_tree_trans [OF s] by metis
  have "same_tree w (at_executor e (Executor_post t) w2)" "same_tree w (at_executor e (Executor_enqueueDelete n) w2)" for e t
    using same_tree_trans [OF s] same_tree_post same_tree_enqueue by blast+
  then show ?thesis using nd w2 o push by (simp add: Node_deleteLater_def Let_def)
qed

end
