(* ===== verification/NodeLifecycle.thy ===== *)
theory NodeLifecycle
  imports NodeTreeOps
begin

text \<open>
  The tree of nodes as a state machine: whatever the program does with its nodes, in whatever order, no
  operation touches freed memory, the books stay consistent, and a handle (the block a \<open>NodePtr\<close>, a
  posted deletion or a posted move holds) never takes a new node at a reused address for the old one.
\<close>

section \<open>Handles\<close>

text \<open>The block \<open>b\<close> taken from the node at \<open>n\<close>: as long as it is alive, the node at \<open>n\<close> is the one it was taken from.\<close>

definition handle_ok :: "addr \<Rightarrow> nat \<Rightarrow> 'c world \<Rightarrow> bool" where
  "handle_ok n b w \<longleftrightarrow> b < w_nextBlock w \<and> (block_alive b w \<longrightarrow> block_of w n = Some b)"

fun task_ok :: "'c world \<Rightarrow> node_task \<Rightarrow> bool" where
  "task_ok w (DeleteTask n b e) = handle_ok n b w"
| "task_ok w (MoveTask n b e t) = (handle_ok n b w \<and> t \<in> dom (w_executors w))"

definition tasks_of :: "'c world \<Rightarrow> addr \<Rightarrow> node_task list" where
  "tasks_of w e = (case w_executors w e of None \<Rightarrow> [] | Some x \<Rightarrow> Executor_tasks x)"

definition world_ok :: "'c world \<Rightarrow> bool" where
  "world_ok w \<longleftrightarrow> node_inv w \<and> (\<forall>n \<in> heap w. live w n) \<and> (\<forall>n \<in> heap w. owner_of w n \<noteq> nullptr)
     \<and> (\<forall>e. \<forall>t \<in> set (tasks_of w e). task_ok w t)"

text \<open>What an operation has to keep so that handles and queues stay right.\<close>

definition kept :: "'c world \<Rightarrow> 'c world \<Rightarrow> bool" where
  "kept w w' \<longleftrightarrow> w_nextBlock w \<le> w_nextBlock w' \<and> dom (w_executors w') = dom (w_executors w)
     \<and> (\<forall>n b. handle_ok n b w \<longrightarrow> handle_ok n b w')"

lemma kept_refl [simp]: "kept w w"
  by (simp add: kept_def)

lemma kept_trans: "kept w w1 \<Longrightarrow> kept w1 w2 \<Longrightarrow> kept w w2"
  by (auto simp: kept_def)

lemma kept_task: "kept w w' \<Longrightarrow> task_ok w t \<Longrightarrow> task_ok w' t"
  by (cases t) (simp_all add: kept_def)

lemma world_ok_step:
  assumes "world_ok w" "kept w w'" "node_inv w'" "\<forall>n \<in> heap w'. live w' n"
    "\<And>e t. t \<in> set (tasks_of w' e) \<Longrightarrow> t \<in> set (tasks_of w e) \<or> task_ok w t"
    "\<forall>n \<in> heap w'. owner_of w' n \<noteq> nullptr"
  shows "world_ok w'"
  using assms kept_task [OF assms(2)] unfolding world_ok_def by metis

lemma handle_live: "node_inv w \<Longrightarrow> w_nodes w n = Some nd \<Longrightarrow> handle_ok n (nd_block nd) w"
  using node_views(4) [of w n nd] by (auto simp: handle_ok_def node_inv_def blocks_ok_def)

lemma handle_node:
  assumes "handle_ok n b w" "block_alive b w"
  obtains nd where "w_nodes w n = Some nd" "nd_block nd = b"
  using assms by (auto simp: handle_ok_def block_of_def)

lemma tasks_at_executor:
  "tasks_of (at_executor e f w) d =
     (if d = e \<and> e \<noteq> nullptr then (case w_executors w d of None \<Rightarrow> [] | Some x \<Rightarrow> Executor_tasks (f x)) else tasks_of w d)"
  by (auto simp: tasks_of_def split: option.split)

lemma Executor_post_tasks: "set (Executor_tasks (Executor_post t x)) \<subseteq> insert t (set (Executor_tasks x))"
  by (cases x) (auto simp: EventLoop_post_def Strand_push_def Let_def)

lemma tasks_post: "s \<in> set (tasks_of (at_executor e (Executor_post t) w) d) \<Longrightarrow> s = t \<or> s \<in> set (tasks_of w d)"
  using Executor_post_tasks [of t] by (cases "w_executors w d") (auto simp: tasks_at_executor tasks_of_def split: if_splits)

lemma tasks_enqueue [simp]: "tasks_of (at_executor e (Executor_enqueueDelete n) w) d = tasks_of w d"
  by (auto simp: tasks_at_executor tasks_of_def split: option.splits)

lemma tasks_at_node [simp]: "tasks_of (at_node n f w) = tasks_of w"
  by (simp add: tasks_of_def fun_eq_iff)

lemma tasks_same_executors: "w_executors w' = w_executors w \<Longrightarrow> tasks_of w' = tasks_of w"
  by (simp add: tasks_of_def fun_eq_iff)


section \<open>What each operation keeps\<close>

lemma kept_relinked:
  assumes "relinked n p w w'"
  shows "kept w w'" "tasks_of w' = tasks_of w"
proof -
  have v: "w_blocks w' = w_blocks w" "w_nextBlock w' = w_nextBlock w" "block_of w' = block_of w"
    and x: "\<And>e. rel_option (\<lambda>x y. hosts x = hosts y \<and> Executor_tasks x = Executor_tasks y \<and> Executor_roots x = erase_all n (Executor_roots y) @
          (if p = nullptr \<and> e = owner_of w n then [n] else [])) (w_executors w' e) (w_executors w e)"
    using assms by (simp_all add: relinked_def)
  have e: "(w_executors w' e = None \<longleftrightarrow> w_executors w e = None) \<and> tasks_of w' e = tasks_of w e" for e
    using x [of e] by (cases "w_executors w' e"; cases "w_executors w e") (auto simp: tasks_of_def)
  then have "dom (w_executors w') = dom (w_executors w)" by (simp add: dom_def)
  then show "kept w w'" using same_blocks [OF v(1)] v by (simp add: kept_def handle_ok_def)
  show "tasks_of w' = tasks_of w" using e by (simp add: fun_eq_iff)
qed

lemma kept_created:
  assumes inv: "node_inv w" and c: "created n p o' w w'" and n: "n \<notin> heap w"
  shows "kept w w'" "tasks_of w' = tasks_of w"
proof -
  have v: "w_nextBlock w' = Suc (w_nextBlock w)" "block_of w' = (block_of w)(n \<mapsto> w_nextBlock w)"
    "\<And>b. b \<noteq> w_nextBlock w \<Longrightarrow> w_blocks w' b = w_blocks w b"
    "w_executors w' = (\<lambda>e. if e = o' \<and> o' \<noteq> nullptr
          then map_option (\<lambda>x. Executor_addNode n (if p = nullptr then Executor_addRootNode n x else x)) (w_executors w e)
          else w_executors w e)"
    using c by (simp_all add: created_def)
  have "dom (w_executors w') = dom (w_executors w)" by (auto simp: v split: if_splits)
  moreover have "handle_ok m b w'" if h: "handle_ok m b w" for m b
  proof -
    have "block_alive b w' = block_alive b w" using h v(3) [of b] by (simp add: handle_ok_def block_alive_def)
    moreover have "block_of w n = None" using n by (auto simp: block_of_def)
    ultimately show ?thesis using h by (auto simp: handle_ok_def v)
  qed
  ultimately show "kept w w'" by (simp add: kept_def v)
  show "tasks_of w' = tasks_of w" by (auto simp: fun_eq_iff tasks_of_def v split: option.split)
qed

lemma kept_same_tree: "same_tree w w' \<Longrightarrow> kept w w'"
proof -
  assume s: "same_tree w w'"
  have "w_executors w' e = None \<longleftrightarrow> w_executors w e = None" for e
  proof -
    have "rel_option (\<lambda>x y. Executor_roots x = Executor_roots y \<and> hosts x = hosts y) (w_executors w' e) (w_executors w e)"
      using s by (simp add: same_tree_def)
    then show ?thesis by (cases "w_executors w' e"; cases "w_executors w e") auto
  qed
  then have "dom (w_executors w') = dom (w_executors w)" by (simp add: dom_def)
  then show ?thesis using s by (simp add: kept_def handle_ok_def same_tree_def)
qed

text \<open>Destroying and moving post nothing and create no block.\<close>

definition quiet :: "'c world \<Rightarrow> 'c world \<Rightarrow> bool" where
  "quiet w w' \<longleftrightarrow> w_nextBlock w' = w_nextBlock w \<and> dom (w_executors w') = dom (w_executors w) \<and> tasks_of w' = tasks_of w"

lemma quiet_refl [simp]: "quiet w w"
  by (simp add: quiet_def)

lemma quiet_trans: "quiet w w1 \<Longrightarrow> quiet w1 w2 \<Longrightarrow> quiet w w2"
  by (simp add: quiet_def)

lemma quiet_same: "w_nextBlock w' = w_nextBlock w \<Longrightarrow> w_executors w' = w_executors w \<Longrightarrow> quiet w w'"
  using tasks_same_executors [of w' w] by (simp add: quiet_def)

lemma quiet_executor:
  assumes "\<And>x. Executor_tasks (f x) = Executor_tasks x"
  shows "quiet w (at_executor e f w)"
proof -
  have "dom (w_executors (at_executor e f w)) = dom (w_executors w)" by auto
  moreover have "tasks_of (at_executor e f w) d = tasks_of w d" for d
    by (auto simp: tasks_at_executor tasks_of_def assms split: option.split)
  ultimately show ?thesis by (simp add: quiet_def fun_eq_iff)
qed

lemma quiet_at [simp]:
  "quiet w (at_node n f w)" "quiet w (at_block b g w)" "quiet w (NodeRegistry_unregisterNode n w)"
  by (simp_all add: quiet_def tasks_of_def fun_eq_iff)

lemma seq_Inr: "seq r f = Inr y \<longleftrightarrow> (\<exists>x. r = Inr x \<and> f x = Inr y)"
  by (cases r) simp_all

lemma quiet_enter: "destroy_enter n nd w = Inr w' \<Longrightarrow> quiet w w'"
proof -
  let ?w0 = "NodeRegistry_unregisterNode n (at_block (nd_block nd) (\<lambda>b. b\<lparr>bl_alive := False\<rparr>) w)"
  let ?r = "if nd_isRoot nd \<and> block_owner (nd_block nd) w \<noteq> nullptr
    then Inr (at_executor (block_owner (nd_block nd) w) (Executor_removeRootNode n) ?w0)
    else if nd_parent nd \<noteq> nullptr then leave_parent n (nd_parent nd) ?w0 else Inr ?w0"
  assume "destroy_enter n nd w = Inr w'"
  then obtain w2 where w2: "?r = Inr w2" "w' = at_node n (\<lambda>nd. nd\<lparr>nd_children := []\<rparr>) w2"
    unfolding destroy_enter_def Let_def seq_Inr by blast
  have "quiet ?w0 w2"
    using w2(1) quiet_executor [of "Executor_removeRootNode n" ?w0] by (auto simp: leave_parent_def seq_Inr split: if_splits)
  then have "quiet w w2" using quiet_trans [OF quiet_trans [OF quiet_at(2) quiet_at(3)]] by blast
  then show ?thesis unfolding w2(2) using quiet_trans quiet_at(1) by blast
qed

lemma quiet_leave: "destroy_leave n e w = Inr w' \<Longrightarrow> quiet w w'"
proof -
  assume "destroy_leave n e w = Inr w'"
  then have "w_nextBlock w' = w_nextBlock (at_executor e (Executor_removeNode n) w)"
    "w_executors w' = w_executors (at_executor e (Executor_removeNode n) w)"
    by (auto simp: destroy_leave_def Application_unregisterAliveNode_def seq_Inr split: option.splits)
  then have "quiet (at_executor e (Executor_removeNode n) w) w'" by (rule quiet_same)
  then show ?thesis using quiet_executor [of "Executor_removeNode n"] quiet_trans by (metis tasks_books(2))
qed

lemma quiet_destroy:
  "Node_destroy k n w = Inr w' \<Longrightarrow> quiet w w'" "destroy_children k cs w = Inr w' \<Longrightarrow> quiet w w'"
proof (induction k n w and k cs w arbitrary: w' and w' rule: Node_destroy_destroy_children.induct)
  case (2 k n w)
  then obtain nd w1 w2 where "destroy_enter n nd w = Inr w1" "destroy_children k (nd_children nd) w1 = Inr w2"
    "destroy_leave n (block_owner (nd_block nd) w) w2 = Inr w'" "quiet w1 w2" by (auto simp: seq_Inr)
  then show ?case using quiet_enter quiet_leave quiet_trans by metis
next
  case (4 k c cs w)
  then show ?case by (auto simp: seq_Inr intro: quiet_trans)
qed simp_all

lemma block_alive_move [simp]: "block_alive b (move_node n t nd w) = block_alive b w"
  by (auto simp: move_node_def Let_def block_alive_def split: option.split)

lemma quiet_move_node: "quiet w (move_node n t nd w)"
  unfolding move_node_def Let_def
  by (rule quiet_trans [OF quiet_trans [OF quiet_executor quiet_at(2)] quiet_executor]) simp_all

lemma quiet_applyMoveTo:
  "Node_applyMoveTo k t n w = Inr w' \<Longrightarrow> quiet w w' \<and> (\<forall>b. block_alive b w' = block_alive b w)"
  "move_children k t cs w = Inr w' \<Longrightarrow> quiet w w' \<and> (\<forall>b. block_alive b w' = block_alive b w)"
proof (induction k t n w and k t cs w arbitrary: w' and w' rule: Node_applyMoveTo_move_children.induct)
  case (2 k t n w)
  then obtain nd where nd: "deref n w = Inr nd" "(if block_owner (nd_block nd) w = t then Inr w
      else move_children k t (nd_children nd) (move_node n t nd w)) = Inr w'" by (auto simp: seq_Inr)
  show ?case
  proof (cases "block_owner (nd_block nd) w = t")
    case False
    then have "quiet (move_node n t nd w) w' \<and> (\<forall>b. block_alive b w' = block_alive b (move_node n t nd w))"
      using 2(1) [OF False, of w'] nd by simp
    then show ?thesis using quiet_trans [OF quiet_move_node] by simp blast
  qed (use nd in simp)
next
  case (4 k t c cs w)
  then show ?case by (auto simp: seq_Inr intro: quiet_trans)
qed simp_all


section \<open>Operations on a consistent world\<close>

text \<open>The result of an operation: no fault, and a world that is consistent again and keeps every handle.\<close>

definition good :: "'c world \<Rightarrow> fault + 'c world \<Rightarrow> bool" where
  "good w r \<longleftrightarrow> (\<exists>w'. r = Inr w' \<and> world_ok w' \<and> kept w w')"

lemma goodI: "r = Inr w' \<Longrightarrow> world_ok w' \<Longrightarrow> kept w w' \<Longrightarrow> good w r"
  by (simp add: good_def)

lemma good_Inr [simp]: "good w (Inr w') \<longleftrightarrow> world_ok w' \<and> kept w w'"
  by (simp add: good_def)

lemma world_okD: "world_ok w \<Longrightarrow> node_inv w" "world_ok w \<Longrightarrow> n \<in> heap w \<Longrightarrow> live w n"
  "world_ok w \<Longrightarrow> t \<in> set (tasks_of w e) \<Longrightarrow> task_ok w t" "world_ok w \<Longrightarrow> n \<in> heap w \<Longrightarrow> owner_of w n \<noteq> nullptr"
  by (auto simp: world_ok_def)

lemma all_live: "world_ok w \<Longrightarrow> n \<in> heap w \<Longrightarrow> \<forall>m \<in> sub w n. live w m"
  using sub_heap [of n w] world_okD(2) [of w] by blast

lemma fuel_enough: "world_ok w \<Longrightarrow> n \<in> heap w \<Longrightarrow> card (heap w) \<le> k \<Longrightarrow> card (sub w n) \<le> k"
  using card_mono [OF _ sub_heap [of n w]] by (auto simp: world_ok_def node_inv_def intro: order_trans)

lemma good_relinked:
  assumes w: "world_ok w" and n: "n \<in> heap w" and p: "p = nullptr \<or> p \<in> heap w \<and> p \<notin> sub w n" and r: "relinked n p w w'"
  shows "world_ok w' \<and> kept w w'"
proof -
  have "p = nullptr \<or> live w p \<and> p \<notin> sub w n" using p world_okD(2) [OF w] by blast
  then have "node_inv w'" using node_inv_relinked [OF world_okD(1) [OF w] world_okD(2) [OF w n] _ r] by blast
  moreover have "heap w' = heap w" "live w' = live w" "owner_of w' = owner_of w" using r by (simp_all add: relinked_def)
  then have "\<forall>m \<in> heap w'. live w' m" "\<forall>m \<in> heap w'. owner_of w' m \<noteq> nullptr" using world_okD(2,4) [OF w] by simp_all
  ultimately show ?thesis using world_ok_step [OF w kept_relinked(1) [OF r]] kept_relinked [OF r] by simp
qed

lemma good_addChild:
  assumes w: "world_ok w" and c: "c \<in> heap w" "root_node w c" and p: "p \<in> heap w" "p \<notin> sub w c"
  shows "good w (Node_addChild p c w)"
proof -
  obtain w' where "Node_addChild p c w = Inr w'" "relinked c p w w'"
    using Node_addChild_ok [OF world_okD(1) [OF w] world_okD(2) [OF w c(1)] c(2) world_okD(2) [OF w p(1)] p(2)] by blast
  then show ?thesis using good_relinked [OF w c(1), of p w'] p by (auto intro: goodI)
qed

lemma good_setParent:
  assumes w: "world_ok w" and n: "n \<in> heap w" and p: "p = nullptr \<or> p \<in> heap w \<and> p \<notin> sub w n"
  shows "good w (Node_setParent n p w)"
proof -
  have "p = nullptr \<or> live w p \<and> p \<notin> sub w n" using p world_okD(2) [OF w] by blast
  then obtain w' where "Node_setParent n p w = Inr w'" "relinked n p w w'"
    using Node_setParent_ok [OF world_okD(1) [OF w] world_okD(2) [OF w n]] by blast
  then show ?thesis using good_relinked [OF w n p] by (auto intro: goodI)
qed

lemma good_new:
  assumes w: "world_ok w" and n: "n \<notin> heap w" "n \<noteq> nullptr" and p: "p = nullptr \<or> p \<in> heap w"
    and cx: "may_create cx p w" "p = nullptr \<longrightarrow> new_owner cx p w \<in> dom (w_executors w)"
  shows "good w (Node_new cx n p w)"
proof -
  note inv = world_okD(1) [OF w]
  have lp: "p = nullptr \<or> live w p" using p world_okD(2) [OF w] by blast
  obtain w' where w': "Node_new cx n p w = Inr w'" "created n p (new_owner cx p w) w w'"
    using Node_new_ok [OF inv n(1) lp cx(1) n(2)] by blast
  have o: "new_owner cx p w \<noteq> nullptr \<longrightarrow> new_owner cx p w \<in> dom (w_executors w)"
    using cx(2) inv by (cases "p = nullptr") (auto simp: new_owner_def node_inv_def hosting_ok_def)
  have "w_executors w nullptr = None" using inv by (simp add: node_inv_def hosting_ok_def)
  then have o0: "new_owner cx p w \<noteq> nullptr"
    using cx(2) p world_okD(4) [OF w, of p] by (cases "p = nullptr") (auto simp: new_owner_def)
  have "node_inv w'" using node_inv_created [OF inv n lp o w'(2)] by blast
  moreover have "heap w' = insert n (heap w)" "live w' = (live w)(n := True)"
    "owner_of w' = (owner_of w)(n := new_owner cx p w)" using w'(2) by (simp_all add: created_def)
  then have "\<forall>m \<in> heap w'. live w' m" "\<forall>m \<in> heap w'. owner_of w' m \<noteq> nullptr" using world_okD(2,4) [OF w] o0 by simp_all
  ultimately show ?thesis
    using world_ok_step [OF w kept_created(1) [OF inv w'(2) n(1)]] kept_created [OF inv w'(2) n(1)] goodI [OF w'(1)] by simp
qed

lemma good_same_tree:
  assumes w: "world_ok w" and s: "same_tree w w'"
    and t: "\<And>e t. t \<in> set (tasks_of w' e) \<Longrightarrow> t \<in> set (tasks_of w e) \<or> task_ok w t"
  shows "world_ok w' \<and> kept w w'"
proof -
  have "heap w' = heap w" "live w' = live w" "owner_of w' = owner_of w" using s by (simp_all add: same_tree_def)
  then have "\<forall>m \<in> heap w'. live w' m" "\<forall>m \<in> heap w'. owner_of w' m \<noteq> nullptr" using world_okD(2,4) [OF w] by simp_all
  moreover have "node_inv w'" using same_tree_inv [OF s] world_okD(1) [OF w] by simp
  ultimately show ?thesis using world_ok_step [OF w kept_same_tree [OF s] _ _ t] kept_same_tree [OF s] by blast
qed

text \<open>Destruction kills exactly the handles of the subtree.\<close>

lemma destroy_whole:
  assumes w: "world_ok w" and n: "n \<in> heap w" and k: "card (heap w) \<le> k"
  obtains w' where "Node_destroy k n w = Inr w'" "removed (sub w n) {n} w w'" "world_ok w'" "kept w w'" "quiet w w'"
proof -
  note inv = world_okD(1) [OF w]
  obtain w' where w': "Node_destroy k n w = Inr w'" "removed (sub w n) {n} w w'"
    using Node_destroy_ok [OF inv world_okD(2) [OF w n] all_live [OF w n] fuel_enough [OF w n k]] by blast
  note r = removedD [OF w'(2)]
  have q: "quiet w w'" by (rule quiet_destroy(1) [OF w'(1)])
  have "handle_ok m b w'" if h: "handle_ok m b w" for m b
  proof (cases "\<exists>d \<in> sub w n. block_of w d = Some b")
    case True
    then show ?thesis using r(10) h q by (auto simp: handle_ok_def quiet_def)
  next
    case False
    then have same: "w_blocks w' b = w_blocks w b" using r(11) by blast
    have "block_of w' m = Some b" if "block_of w m = Some b"
    proof -
      have "m \<in> heap w" using that by (auto simp: block_of_def)
      then have "m \<in> heap w'" using False that r(2) by blast
      then show ?thesis using r(5) that by simp
    qed
    then show ?thesis using h q same by (auto simp: handle_ok_def quiet_def block_alive_def)
  qed
  then have kp: "kept w w'" using q by (simp add: kept_def quiet_def)
  have "\<forall>m \<in> heap w'. live w' m" "\<forall>m \<in> heap w'. owner_of w' m \<noteq> nullptr" using r(2,6,7) world_okD(2,4) [OF w] by simp_all
  then have "world_ok w'" using world_ok_step [OF w kp r(1)] q by (simp add: quiet_def)
  then show thesis using that w' kp q by blast
qed

lemma good_destroy: "world_ok w \<Longrightarrow> n \<in> heap w \<Longrightarrow> card (heap w) \<le> k \<Longrightarrow> good w (Node_destroy k n w)"
  by (erule destroy_whole) (auto intro: goodI)

lemma good_delete_alive: "world_ok w \<Longrightarrow> card (heap w) \<le> k \<Longrightarrow> good w (delete_alive k ns w)"
proof (induction ns arbitrary: w)
  case Nil
  then show ?case using kept_refl [of w] by (auto intro: goodI)
next
  case (Cons n ns)
  note w = Cons.prems(1)
  show ?case
  proof (cases "NodePtr_bool (NodePtr_new n w) w")
    case True
    then have "w_registry w n \<noteq> None"
      by (auto simp: NodePtr_bool_def NodePtr_new_def NodePtr_isAlive_def NodeRegistry_lookup_def split: option.splits if_splits)
    then have "live w n" using world_okD(1) [OF w] unfolding node_inv_def registry_ok_def by metis
    then obtain w1 where w1: "Node_destroy k n w = Inr w1" "removed (sub w n) {n} w w1" "world_ok w1" "kept w w1"
      using destroy_whole [OF w live_heap Cons.prems(2)] by blast
    have "finite (heap w)" using world_okD(1) [OF w] by (simp add: node_inv_def)
    then have "card (heap w1) \<le> k" using card_mono [of "heap w" "heap w1"] removedD(2) [OF w1(2)] Cons.prems(2) by auto
    then show ?thesis using Cons.IH [OF w1(3)] True w1(1,4) kept_trans [OF w1(4)] by (auto simp: good_def)
  next
    case False
    then show ?thesis using Cons by simp
  qed
qed


text \<open>Posting and requesting.\<close>

lemma good_post: "world_ok w \<Longrightarrow> task_ok w t \<Longrightarrow> world_ok (at_executor e (Executor_post t) w) \<and> kept w (at_executor e (Executor_post t) w)"
  by (rule good_same_tree [OF _ same_tree_post]) (auto dest: tasks_post)

lemma good_enqueue: "world_ok w \<Longrightarrow> world_ok (at_executor e (Executor_enqueueDelete n) w) \<and> kept w (at_executor e (Executor_enqueueDelete n) w)"
  by (rule good_same_tree [OF _ same_tree_enqueue]) simp_all

lemma quiet_mark: "Application_markToDelete n w = Inr w' \<Longrightarrow> quiet w w'"
  by (auto simp: Application_markToDelete_def quiet_def tasks_of_def fun_eq_iff split: option.splits)

lemma good_pushDeleteChild: "world_ok w \<Longrightarrow> p \<in> heap w \<Longrightarrow> good w (Node_pushDeleteChild p c w)"
proof -
  assume w: "world_ok w" and "p \<in> heap w"
  then obtain pd where "deref p w = Inr pd" using deref_heap by blast
  moreover have "world_ok (at_node p (\<lambda>pd. pd\<lparr>nd_childrenToDelete := nd_childrenToDelete pd @ [c]\<rparr>) w)
      \<and> kept w (at_node p (\<lambda>pd. pd\<lparr>nd_childrenToDelete := nd_childrenToDelete pd @ [c]\<rparr>) w)"
    by (rule good_same_tree [OF w same_tree_pending]) simp
  ultimately show ?thesis using w kept_refl [of w] by (simp add: Node_pushDeleteChild_def good_def)
qed

lemma good_clear_pending: "world_ok w \<Longrightarrow> n \<in> heap w \<Longrightarrow> good w (clear_pending n w)"
proof -
  assume w: "world_ok w" and "n \<in> heap w"
  then obtain nd where "deref n w = Inr nd" using deref_heap by blast
  moreover have "world_ok (at_node n (\<lambda>nd. nd\<lparr>nd_childrenToDelete := []\<rparr>) w) \<and> kept w (at_node n (\<lambda>nd. nd\<lparr>nd_childrenToDelete := []\<rparr>) w)"
    by (rule good_same_tree [OF w same_tree_pending]) simp
  ultimately show ?thesis by (simp add: clear_pending_def)
qed

lemma good_deleteLater:
  assumes w: "world_ok w" and n: "n \<in> heap w"
  shows "good w (Node_deleteLater cx n w)"
proof -
  note inv = world_okD(1) [OF w]
  obtain nd where nd: "w_nodes w n = Some nd" using n by blast
  let ?w1 = "at_block (nd_block nd) (\<lambda>b. b\<lparr>bl_marked := True\<rparr>) w" and ?o = "block_owner (nd_block nd) w"
  have "n \<in> dom (w_alive w)" using inv n unfolding node_inv_def registry_ok_def by metis
  then obtain w2 where w2: "Application_markToDelete n ?w1 = Inr w2" by (auto simp: Application_markToDelete_def)
  have s: "same_tree w w2" using same_tree_trans [OF same_tree_mark same_tree_marked [OF w2]] .
  have "quiet w w2" using quiet_trans [OF quiet_at(2) quiet_mark [OF w2]] .
  then have ok: "world_ok w2" and kp: "kept w w2" using good_same_tree [OF w s] by (auto simp: quiet_def)
  have o: "?o \<noteq> nullptr" using world_okD(4) [OF w n] node_views(5) [OF nd] by simp
  have "task_ok w (DeleteTask n (nd_block nd) ?o)" using handle_live [OF inv nd] by simp
  then have "task_ok w2 (DeleteTask n (nd_block nd) ?o)" by (rule kept_task [OF kp])
  then have post: "good w (Inr (at_executor ?o (Executor_post (DeleteTask n (nd_block nd) ?o)) w2))"
    using good_post [OF ok] kept_trans [OF kp] by (auto intro: goodI)
  have enqueue: "good w (Inr (at_executor ?o (Executor_enqueueDelete n) w2))"
    using good_enqueue [OF ok] kept_trans [OF kp] by (auto intro: goodI)
  have push: "good w (Node_pushDeleteChild (nd_parent nd) n w2)" if "nd_parent nd \<noteq> nullptr"
  proof -
    have "nd_parent nd \<in> heap w2" using node_facts(2) [OF inv nd that] s unfolding same_tree_def by blast
    then show ?thesis using good_pushDeleteChild [OF ok] kept_trans [OF kp] unfolding good_def by blast
  qed
  show ?thesis using nd w2 o post enqueue push by (simp add: Node_deleteLater_def Let_def)
qed

lemma kept_move: "Node_applyMoveTo k t n w = Inr w' \<Longrightarrow> arrived n t w w' \<Longrightarrow> kept w w'"
proof -
  assume m: "Node_applyMoveTo k t n w = Inr w'" and "arrived n t w w'"
  then obtain S where "moved S t w w'" unfolding arrived_def by blast
  then have "block_of w' = block_of w" by (rule moved_views(4))
  then show ?thesis using quiet_applyMoveTo(1) [OF m] by (simp add: kept_def handle_ok_def quiet_def)
qed

lemma move_whole:
  assumes w: "world_ok w" and n: "n \<in> heap w" and k: "card (heap w) \<le> k" and t: "t \<in> dom (w_executors w)"
  obtains w' where "Node_applyMoveTo k t n w = Inr w'" "arrived n t w w'" "world_ok w'" "kept w w'"
proof -
  obtain w' where w': "Node_applyMoveTo k t n w = Inr w'" "arrived n t w w'"
    using Node_applyMoveTo_ok [OF world_okD(1) [OF w] world_okD(2) [OF w n] all_live [OF w n] fuel_enough [OF w n k] t] by blast
  then obtain S where S: "moved S t w w'" unfolding arrived_def by blast
  have "w_executors w nullptr = None" using world_okD(1) [OF w] by (simp add: node_inv_def hosting_ok_def)
  then have "t \<noteq> nullptr" using t by auto
  moreover have "heap w' = heap w" "owner_of w' = (\<lambda>m. if m \<in> S then t else owner_of w m)" using S by (simp_all add: moved_def)
  ultimately have "\<forall>m \<in> heap w'. owner_of w' m \<noteq> nullptr" using world_okD(4) [OF w] by simp
  moreover have "\<forall>m \<in> heap w'. live w' m" using S world_okD(2) [OF w] by (simp add: moved_def)
  moreover have "tasks_of w' = tasks_of w" using quiet_applyMoveTo(1) [OF w'(1)] by (simp add: quiet_def)
  moreover have "node_inv w'" using S by (simp add: moved_def)
  ultimately have "world_ok w'" using world_ok_step [OF w kept_move [OF w']] by simp
  then show thesis using that w' kept_move [OF w'] by blast
qed

definition world_of :: "fault + bool \<times> 'c world \<Rightarrow> fault + 'c world" where
  "world_of r = map_sum id snd r"

lemma good_moveToThread:
  assumes w: "world_ok w" and n: "n \<in> heap w" and k: "card (heap w) \<le> k" and t: "t = nullptr \<or> t \<in> dom (w_executors w)"
  shows "good w (world_of (Node_moveToThread k cx t n w))"
proof -
  note inv = world_okD(1) [OF w]
  obtain nd where nd: "w_nodes w n = Some nd" using n by blast
  let ?o = "block_owner (nd_block nd) w"
  have stay: "good w (Inr w)" using w kept_refl [of w] by (auto intro: goodI)
  have fits: "\<exists>f. (if nd_parent nd = nullptr then Inr True
      else seq (deref (nd_parent nd) w) (\<lambda>pd. Inr (block_owner (nd_block pd) w = t))) = Inr f"
    using node_facts(2) [OF inv nd] deref_heap [of "nd_parent nd" w] by auto
  show ?thesis
  proof (cases "t = nullptr")
    case False
    then have td: "t \<in> dom (w_executors w)" using t by simp
    obtain w' where "Node_applyMoveTo k t n w = Inr w'" "world_ok w'" "kept w w'" using move_whole [OF w n k td] by blast
    moreover have "task_ok w (MoveTask n (nd_block nd) ?o t)" using handle_live [OF inv nd] td by simp
    then have "good w (Inr (at_executor ?o (Executor_post (MoveTask n (nd_block nd) ?o t)) w))"
      using good_post [OF w] unfolding good_def by blast
    ultimately show ?thesis using False nd fits stay
      by (auto simp: Node_moveToThread_def Let_def world_of_def intro: goodI)
  qed (use stay in \<open>simp add: Node_moveToThread_def world_of_def\<close>)
qed

text \<open>Work that other threads posted; it may run long after the node is gone or has moved.\<close>

lemma good_task:
  assumes w: "world_ok w" and t: "task_ok w t" and k: "card (heap w) \<le> k"
  shows "good w (run_node_task k t w)"
proof (cases t)
  case (DeleteTask n b e)
  have "task_ok w (DeleteTask n b (block_owner b w))" using t DeleteTask by simp
  then show ?thesis using DeleteTask w kept_refl [of w] good_post [OF w] good_enqueue [OF w]
    by (auto simp: Let_def intro: goodI)
next
  case (MoveTask n b e u)
  note inv = world_okD(1) [OF w]
  have h: "handle_ok n b w" "u \<in> dom (w_executors w)" using t MoveTask by simp_all
  show ?thesis
  proof (cases "block_alive b w")
    case True
    obtain nd where nd: "w_nodes w n = Some nd" using handle_node [OF h(1) True] by blast
    then have n: "n \<in> heap w" by blast
    have fits: "\<exists>f. (if nd_parent nd = nullptr then Inr True
        else seq (deref (nd_parent nd) w) (\<lambda>pd. Inr (block_owner (nd_block pd) w = u))) = Inr f"
      using node_facts(2) [OF inv nd] deref_heap [of "nd_parent nd" w] by auto
    obtain w' where "Node_applyMoveTo k u n w = Inr w'" "world_ok w'" "kept w w'" using move_whole [OF w n k h(2)] by blast
    moreover have "task_ok w (MoveTask n b (block_owner b w) u)" using h by simp
    then have "good w (Inr (at_executor (block_owner b w) (Executor_post (MoveTask n b (block_owner b w) u)) w))"
      using good_post [OF w] unfolding good_def by blast
    ultimately show ?thesis using True MoveTask nd fits w kept_refl [of w] by (auto simp: Let_def intro: goodI)
  qed (use MoveTask w kept_refl [of w] in \<open>auto intro: goodI\<close>)
qed


section \<open>All histories\<close>

text \<open>The world when the application starts: executors without nodes and without work.\<close>

definition world_start :: "(addr \<Rightarrow> (node_task, 'c) executor option) \<Rightarrow> 'c world" where
  "world_start es = \<lparr>w_nodes = Map.empty, w_blocks = Map.empty, w_registry = Map.empty, w_alive = Map.empty,
     w_executors = es, w_nextBlock = 0, w_nextGeneration = 1\<rparr>"

definition idle :: "(node_task, 'c) executor \<Rightarrow> bool" where
  "idle x \<longleftrightarrow> hosts x {} \<and> Executor_roots x = [] \<and> Executor_tasks x = []"

text \<open>
  One operation. Addresses come from the allocator (fresh, not null), a parent or a node passed in is
  allocated, and nobody makes a node a child of its own descendant. The thread that creates a node may
  be any thread; one that may create a root has an executor for it. \<open>addChild\<close> is called with a root:
  a child of another node has to go through \<open>setParent\<close> (\<open>adopting_a_child_leaves_a_stale_entry\<close> in
  \<open>NodeProperties\<close> shows why). A posted task may run at any time and more than once; an executor may be created, and
  may change its own state in any way that leaves its books alone and invents no task. A loop over
  pending deletes may find any addresses in its list. A tick (\<open>Node::run\<close>) is made of such steps: it deletes
  pending children, clears the list and runs code of the nodes (\<open>tick_steps\<close>).
\<close>

inductive node_step :: "'c world \<Rightarrow> fault + 'c world \<Rightarrow> bool" where
  new: "n \<notin> heap w \<Longrightarrow> n \<noteq> nullptr \<Longrightarrow> p = nullptr \<or> p \<in> heap w \<Longrightarrow>
    p = nullptr \<and> may_create cx p w \<longrightarrow> new_owner cx p w \<in> dom (w_executors w) \<Longrightarrow> node_step w (Node_new cx n p w)"
| addChild: "c \<in> heap w \<Longrightarrow> root_node w c \<Longrightarrow> p \<in> heap w \<Longrightarrow> p \<notin> sub w c \<Longrightarrow> node_step w (Node_addChild p c w)"
| setParent: "n \<in> heap w \<Longrightarrow> p = nullptr \<or> p \<in> heap w \<and> p \<notin> sub w n \<Longrightarrow> node_step w (Node_setParent n p w)"
| delete: "n \<in> heap w \<Longrightarrow> card (heap w) \<le> k \<Longrightarrow> node_step w (Node_destroy k n w)"
| deleteLater: "n \<in> heap w \<Longrightarrow> node_step w (Node_deleteLater cx n w)"
| clear: "n \<in> heap w \<Longrightarrow> node_step w (clear_pending n w)"
| move: "n \<in> heap w \<Longrightarrow> t = nullptr \<or> t \<in> dom (w_executors w) \<Longrightarrow> card (heap w) \<le> k \<Longrightarrow>
    node_step w (world_of (Node_moveToThread k cx t n w))"
| task: "t \<in> set (tasks_of w e) \<Longrightarrow> card (heap w) \<le> k \<Longrightarrow> node_step w (run_node_task k t w)"
| deletes: "card (heap w) \<le> k \<Longrightarrow> node_step w (delete_alive k ns w)"
| executor: "w_executors w e = None \<Longrightarrow> e \<noteq> nullptr \<Longrightarrow> idle x \<Longrightarrow> node_step w (Inr (w\<lparr>w_executors := (w_executors w)(e \<mapsto> x)\<rparr>))"
| internal: "w_executors w e = Some x \<Longrightarrow> hosts y = hosts x \<Longrightarrow> Executor_roots y = Executor_roots x \<Longrightarrow>
    set (Executor_tasks y) \<subseteq> set (Executor_tasks x) \<Longrightarrow> node_step w (Inr (w\<lparr>w_executors := (w_executors w)(e \<mapsto> y)\<rparr>))"

text \<open>The one operation that throws: \<open>new Node(p)\<close> by a worker that is not in the strand the node would belong to.\<close>

definition refused :: "'c world \<Rightarrow> fault + 'c world \<Rightarrow> bool" where
  "refused w r \<longleftrightarrow> (\<exists>cx n p. \<not> may_create cx p w \<and> r = Node_new cx n p w
     \<and> r = Inl (LogicError ''snf::Node cannot be created on a TaskPool worker outside a strand''))"

lemma Node_new_refused:
  assumes "p = nullptr \<or> p \<in> heap w" "\<not> may_create cx p w"
  shows "refused w (Node_new cx n p w)"
proof -
  have "Node_new cx n p w = Inl (LogicError ''snf::Node cannot be created on a TaskPool worker outside a strand'')"
  proof (cases "p = nullptr")
    case True
    then show ?thesis using assms(2) by (simp add: Node_new_def may_create_def Let_def)
  next
    case False
    then obtain pd where "w_nodes w p = Some pd" using assms(1) by blast
    then show ?thesis using False assms(2) node_views(5) [of w p pd] by (simp add: Node_new_def may_create_def Let_def)
  qed
  then show ?thesis using assms(2) unfolding refused_def by blast
qed

inductive node_steps :: "'c world \<Rightarrow> 'c world \<Rightarrow> bool" where
  refl: "node_steps w w"
| step: "node_steps w w1 \<Longrightarrow> node_step w1 (Inr w2) \<Longrightarrow> node_steps w w2"

definition reachable :: "'c world \<Rightarrow> bool" where
  "reachable w \<longleftrightarrow> (\<exists>es. es nullptr = None \<and> (\<forall>e x. es e = Some x \<longrightarrow> idle x) \<and> node_steps (world_start es) w)"

text \<open>Steps keep handles; executors may appear.\<close>

definition handles_kept :: "'c world \<Rightarrow> 'c world \<Rightarrow> bool" where
  "handles_kept w w' \<longleftrightarrow> (\<forall>n b. handle_ok n b w \<longrightarrow> handle_ok n b w')"

lemma kept_handles: "kept w w' \<Longrightarrow> handles_kept w w'"
  by (simp add: kept_def handles_kept_def)

lemma views_executors:
  "block_alive b (w\<lparr>w_executors := es\<rparr>) = block_alive b w" "block_owner b (w\<lparr>w_executors := es\<rparr>) = block_owner b w"
  by (simp_all add: block_alive_def block_owner_def)

lemma views_new_executor [simp]:
  "heap (w\<lparr>w_executors := es\<rparr>) = heap w" "owner_of (w\<lparr>w_executors := es\<rparr>) = owner_of w" "live (w\<lparr>w_executors := es\<rparr>) = live w"
  "parent_of (w\<lparr>w_executors := es\<rparr>) = parent_of w" "children_of (w\<lparr>w_executors := es\<rparr>) = children_of w"
  "root_node (w\<lparr>w_executors := es\<rparr>) = root_node w" "block_of (w\<lparr>w_executors := es\<rparr>) = block_of w"
  "prel (w\<lparr>w_executors := es\<rparr>) = prel w" "handle_ok n b (w\<lparr>w_executors := es\<rparr>) = handle_ok n b w"
  by (simp_all add: fun_eq_iff views prel_def handle_ok_def views_executors split: option.split)

lemma world_ok_executors:
  assumes w: "world_ok w" and books: "hosting_ok (w\<lparr>w_executors := es\<rparr>)" and d: "dom (w_executors w) \<subseteq> dom es"
    and t: "\<And>e x. es e = Some x \<Longrightarrow> set (Executor_tasks x) \<subseteq> set (tasks_of w e)"
  shows "world_ok (w\<lparr>w_executors := es\<rparr>)"
proof -
  have "node_inv (w\<lparr>w_executors := es\<rparr>)"
    using world_okD(1) [OF w] books by (simp add: node_inv_def blocks_ok_def registry_ok_def tree_ok_def)
  moreover have "task_ok (w\<lparr>w_executors := es\<rparr>) s" if "s \<in> set (tasks_of (w\<lparr>w_executors := es\<rparr>) e)" for s e
  proof -
    have "s \<in> set (tasks_of w e)" using that t [of e] by (cases "es e") (auto simp: tasks_of_def [of "w\<lparr>w_executors := es\<rparr>"])
    then have "task_ok w s" using world_okD(3) [OF w] by blast
    then show ?thesis using d by (cases s) auto
  qed
  ultimately show ?thesis using w by (simp add: world_ok_def)
qed

lemma good_result: "good w r \<Longrightarrow> \<exists>w'. r = Inr w' \<and> world_ok w' \<and> handles_kept w w'"
  by (auto simp: good_def kept_handles)

lemma step_result:
  assumes "node_step w r" "world_ok w"
  shows "(\<exists>w'. r = Inr w' \<and> world_ok w' \<and> handles_kept w w') \<or> refused w r"
  using assms
proof (induction rule: node_step.induct)
  case (new n w p cx)
  then show ?case using Node_new_refused [OF new.hyps(3)] good_result [OF good_new [OF new.prems new.hyps(1-3)]] by blast
next
  case (executor w e x)
  let ?w = "w\<lparr>w_executors := (w_executors w)(e \<mapsto> x)\<rparr>"
  have h: "hosting_ok w" using executor.prems by (simp add: world_ok_def node_inv_def)
  have none: "owner_of w n \<noteq> e" for n using h executor.hyps(1,2) by (auto simp: hosting_ok_def)
  then have "hosting_ok ?w" using h executor.hyps by (auto simp: hosting_ok_def books_ok_def idle_def)
  then have "world_ok ?w" using executor.hyps
    by (intro world_ok_executors [OF executor.prems]) (auto simp: idle_def tasks_of_def split: if_splits)
  then show ?case by (simp add: handles_kept_def)
next
  case (internal w e x y)
  let ?w = "w\<lparr>w_executors := (w_executors w)(e \<mapsto> y)\<rparr>"
  have h: "hosting_ok w" using internal.prems by (simp add: world_ok_def node_inv_def)
  then have "hosting_ok ?w" using internal.hyps by (auto simp: hosting_ok_def books_ok_def)
  then have "world_ok ?w" using internal.hyps
    by (intro world_ok_executors [OF internal.prems]) (auto simp: tasks_of_def split: if_splits)
  then show ?case by (simp add: handles_kept_def)
qed (rule disjI1, rule good_result, (rule good_addChild good_setParent good_destroy good_deleteLater good_clear_pending good_moveToThread
    good_delete_alive | rule good_task [OF _ world_okD(3)]), assumption+)+

lemma step_ok: "node_step w (Inr w') \<Longrightarrow> world_ok w \<Longrightarrow> world_ok w' \<and> handles_kept w w'"
  using step_result [of w "Inr w'"] by (auto simp: refused_def)

lemma steps_ok: "node_steps w w' \<Longrightarrow> world_ok w \<Longrightarrow> world_ok w' \<and> handles_kept w w'"
proof (induction rule: node_steps.induct)
  case (step w w1 w2)
  then show ?case using step_ok [OF step.hyps(2)] by (auto simp: handles_kept_def)
qed (simp add: handles_kept_def)

lemma world_ok_start:
  assumes "es nullptr = None" "\<And>e x. es e = Some x \<Longrightarrow> idle x"
  shows "world_ok (world_start es)"
proof -
  have v: "heap (world_start es) = {}" "live (world_start es) n = False" "owner_of (world_start es) n = nullptr"
    "block_of (world_start es) n = None" "children_of (world_start es) n = []" "w_executors (world_start es) = es"
    "tasks_of (world_start es) e = []" for n e
    using assms(2) [of e] by (auto simp: views world_start_def tasks_of_def idle_def split: option.split)
  have "books_ok (world_start es) e x" if "es e = Some x" for e x
  proof -
    have "e \<noteq> nullptr" using assms(1) that by auto
    then show ?thesis using assms(2) [OF that] by (auto simp: books_ok_def v idle_def)
  qed
  then have "hosting_ok (world_start es)" using assms(1) by (simp add: hosting_ok_def v)
  moreover have "prel (world_start es) = {}" by (simp add: prel_def v)
  then have "acyclic (prel (world_start es))" by (simp add: acyclic_def)
  ultimately show ?thesis
    by (simp add: world_ok_def node_inv_def blocks_ok_def registry_ok_def tree_ok_def v) (simp add: world_start_def)
qed

lemma reachable_ok: "reachable w \<Longrightarrow> world_ok w"
  unfolding reachable_def using steps_ok world_ok_start by metis

lemma idle_init [simp]: "idle (LoopExecutor EventLoop_init)" "idle (StrandExecutor Strand_init)"
  by (simp_all add: idle_def loop_hosts_def EventLoop_init_def strand_hosts_def Strand_init_def)

end
