(* ===== verification/NodeProperties.thy ===== *)
theory NodeProperties
  imports NodeLifecycle
begin

text \<open>
  What the node tree promises its users, on every history of operations: no fault, consistent
  books, pointers that notice the death of their node, destruction and migration of whole
  subtrees, and deferred deletion.
\<close>

section \<open>A family of nodes\<close>

text \<open>A loop at 5, a strand at 6, and on the loop a root 10 with the child 11 and the grandchild 12.\<close>

definition main_thread :: thread_context where
  "main_thread = \<lparr>cx_worker = False, cx_strand = nullptr, cx_loop = 5\<rparr>"

definition two_executors :: "addr \<Rightarrow> (node_task, unit) executor option" where
  "two_executors = [5 \<mapsto> LoopExecutor EventLoop_init, 6 \<mapsto> StrandExecutor Strand_init]"

fun new_nodes :: "(addr \<times> addr) list \<Rightarrow> 'c world \<Rightarrow> fault + 'c world" where
  "new_nodes [] w = Inr w"
| "new_nodes ((n, p) # ns) w = seq (Node_new main_thread n p w) (new_nodes ns)"

definition family :: "unit world" where
  "family = (case new_nodes [(10, nullptr), (11, 10), (12, 11)] (world_start two_executors) of Inr w \<Rightarrow> w | Inl _ \<Rightarrow> world_start two_executors)"

lemma reachable_step: "reachable w \<Longrightarrow> node_step w (Inr w') \<Longrightarrow> reachable w'"
  using node_steps.step unfolding reachable_def by metis

lemma steps_trans: "node_steps w1 w2 \<Longrightarrow> node_steps w w1 \<Longrightarrow> node_steps w w2"
  by (induction rule: node_steps.induct) (auto intro: node_steps.step)

lemma step_steps: "node_step w (Inr w') \<Longrightarrow> node_steps w w'"
  using node_steps.step [OF node_steps.refl] .

lemma reachable_steps: "reachable w \<Longrightarrow> node_steps w w' \<Longrightarrow> reachable w'"
  using steps_trans unfolding reachable_def by metis

lemma reachable_start: "reachable (world_start two_executors)"
  unfolding reachable_def by (intro exI [of _ two_executors]) (auto simp: two_executors_def intro: node_steps.refl split: if_splits)

definition loop_there :: "'c world \<Rightarrow> bool" where
  "loop_there w \<longleftrightarrow> 5 \<in> dom (w_executors w)"

lemma new_world:
  assumes "reachable w" "n \<notin> heap w" "n \<noteq> nullptr" "p = nullptr \<or> p \<in> heap w" "loop_there w"
  shows "\<exists>w'. Node_new main_thread n p w = Inr w' \<and> reachable w' \<and> heap w' = insert n (heap w) \<and> loop_there w'
    \<and> parent_of w' = (parent_of w)(n := p) \<and> owner_of w' = (owner_of w)(n := if p = nullptr then 5 else owner_of w p)"
proof -
  have ok: "world_ok w" by (rule reachable_ok [OF assms(1)])
  have may: "may_create main_thread p w" and own: "new_owner main_thread p w = (if p = nullptr then 5 else owner_of w p)"
    by (simp_all add: may_create_def main_thread_def new_owner_def)
  obtain w' where w': "Node_new main_thread n p w = Inr w'" "created n p (new_owner main_thread p w) w w'"
    using Node_new_ok [OF world_okD(1) [OF ok] assms(2) _ may assms(3)] assms(4) world_okD(2) [OF ok] by blast
  have "node_step w (Node_new main_thread n p w)" using assms own may by (intro node_step.new) (auto simp: loop_there_def)
  then have "reachable w'" using reachable_step [OF assms(1), of w'] w'(1) by simp
  moreover have "dom (w_executors w') = dom (w_executors w)"
    using kept_created(1) [OF world_okD(1) [OF ok] w'(2) assms(2)] by (simp add: kept_def)
  ultimately show ?thesis using w' assms(5) own by (simp add: created_def loop_there_def)
qed

lemma family_facts: "reachable family" "heap family = {10, 11, 12}"
  "parent_of family 10 = nullptr" "parent_of family 11 = 10" "parent_of family 12 = 11"
  "owner_of family 10 = 5" "owner_of family 11 = 5" "owner_of family 12 = 5" "loop_there family"
proof -
  let ?w0 = "world_start two_executors"
  have h0: "heap ?w0 = {}" "loop_there ?w0" by (auto simp: world_start_def two_executors_def loop_there_def)
  obtain w1 where w1: "Node_new main_thread 10 nullptr ?w0 = Inr w1" "reachable w1" "heap w1 = {10}" "loop_there w1"
    "parent_of w1 10 = nullptr" "owner_of w1 10 = 5"
    using new_world [OF reachable_start, of 10 nullptr] h0 by auto
  obtain w2 where w2: "Node_new main_thread 11 10 w1 = Inr w2" "reachable w2" "heap w2 = {11, 10}" "loop_there w2"
    "parent_of w2 10 = nullptr" "parent_of w2 11 = 10" "owner_of w2 10 = 5" "owner_of w2 11 = 5"
    using new_world [OF w1(2), of 11 10] w1 by auto
  obtain w3 where w3: "Node_new main_thread 12 11 w2 = Inr w3" "reachable w3" "heap w3 = {12, 11, 10}" "loop_there w3"
    "parent_of w3 10 = nullptr" "parent_of w3 11 = 10" "parent_of w3 12 = 11" "owner_of w3 10 = 5" "owner_of w3 11 = 5" "owner_of w3 12 = 5"
    using new_world [OF w2(2), of 12 11] w2 by auto
  have "family = w3" by (simp add: family_def w1(1) w2(1) w3(1))
  then show "reachable family" "heap family = {10, 11, 12}"
    "parent_of family 10 = nullptr" "parent_of family 11 = 10" "parent_of family 12 = 11"
    "owner_of family 10 = 5" "owner_of family 11 = 5" "owner_of family 12 = 5" "loop_there family"
    using w3 by auto
qed


section \<open>Safety\<close>

text \<open>C16. The next operation of any history made of the operations of \<open>node_step\<close> neither touches freed memory nor runs
  forever, and leaves nodes, lifetime blocks, the two registries and the owners' books in agreement, every node alive
  and with an owner. The operations: construct a node in any thread, adopt a root (\<open>addChild\<close>), re-parent any node,
  delete, \<open>deleteLater\<close>, move, run a posted task, run the pending deletes of an executor, clear the pending children;
  nobody makes a node a child of its own descendant, and the \<open>Application\<close> exists. Only one call throws: constructing
  a node on a pool worker outside the strand it would belong to, the documented \<open>logic_error\<close>; then nothing has
  changed. Not among the operations are \<open>addChild\<close> of a node that has another parent, which leaves a freed
  pointer (\<open>adopting_a_child_leaves_a_stale_entry\<close>), and the loops of \<open>Node::run\<close>, which run into an invalid iterator
  when a child is deleted (theory \<open>NodeTicks\<close>; a tick that gets through is made of these operations).\<close>

theorem node_operations_safe:
  "reachable w \<Longrightarrow> node_step w r \<Longrightarrow>
   (\<exists>w'. r = Inr w' \<and> node_inv w' \<and> (\<forall>n \<in> heap w'. live w' n \<and> owner_of w' n \<noteq> nullptr)) \<or> refused w r"
  using step_result [OF _ reachable_ok] unfolding world_ok_def by metis

theorem node_operations_safe_witness:
  "\<exists>w'. Node_destroy 3 11 family = Inr w' \<and> node_inv w'"
proof -
  have "node_step family (Node_destroy 3 11 family)" by (rule node_step.delete) (simp_all add: family_facts(2))
  moreover obtain v where "Node_destroy 3 11 family = Inr v"
    using destroy_whole [OF reachable_ok [OF family_facts(1)], of 11 3] by (auto simp: family_facts(2))
  then have "\<not> refused family (Node_destroy 3 11 family)" by (simp add: refused_def)
  ultimately show ?thesis using node_operations_safe [OF family_facts(1)] by blast
qed

text \<open>C17. A \<open>NodePtr\<close> taken from a live node knows whether that node still exists: after any further operations, even when
  the address has been given to another node. As long as it exists, \<open>isAlive\<close> is true, \<open>->\<close> and \<open>*\<close> give the node's
  address, \<open>ownerExecutor\<close> is its owner, and \<open>operator bool\<close> is true if it is not marked for deletion; once it is gone, \<open>isAlive\<close> and
  \<open>operator bool\<close> are false, \<open>->\<close> gives the null pointer and \<open>*\<close> throws, so nobody is led to freed memory or to a different
  node. (\<open>operator bool\<close> of a node that exists and is marked is left open here: code and comment differ.)\<close>

theorem node_ptr_tracks_node:
  assumes "reachable w" "n \<in> heap w" "node_steps w w'"
  shows "if block_of w' n = block_of w n
    then NodePtr_isAlive (NodePtr_new n w) w' \<and> NodePtr_arrow (NodePtr_new n w) w' = n \<and> NodePtr_star (NodePtr_new n w) w' = Inr n
      \<and> NodePtr_ownerExecutor (NodePtr_new n w) w' = owner_of w' n
      \<and> (NodePtr_isMarkedToDelete (NodePtr_new n w) w' \<or> NodePtr_bool (NodePtr_new n w) w')
    else \<not> NodePtr_isAlive (NodePtr_new n w) w' \<and> NodePtr_isMarkedToDelete (NodePtr_new n w) w'
      \<and> NodePtr_arrow (NodePtr_new n w) w' = nullptr \<and> NodePtr_star (NodePtr_new n w) w' = Inl (RuntimeError ''Node is not alive'')
      \<and> \<not> NodePtr_bool (NodePtr_new n w) w'"
proof -
  have w: "world_ok w" by (rule reachable_ok [OF assms(1)])
  have w': "world_ok w'" "handles_kept w w'" using steps_ok [OF assms(3) w] by simp_all
  obtain nd where nd: "w_nodes w n = Some nd" using assms(2) by blast
  have n0: "n \<noteq> nullptr" using node_facts(3) [OF world_okD(1) [OF w] nd] .
  have "w_registry w n = Some (nd_block nd)"
    using world_okD(1) [OF w] world_okD(2) [OF w assms(2)] node_views(4) [OF nd] by (simp add: node_inv_def registry_ok_def)
  then have p: "np_block (NodePtr_new n w) = Some (nd_block nd)" "np_node (NodePtr_new n w) = n"
    using n0 by (simp_all add: NodePtr_new_def NodeRegistry_lookup_def)
  have "handle_ok n (nd_block nd) w'" using w'(2) handle_live [OF world_okD(1) [OF w] nd] by (simp add: handles_kept_def)
  then have "block_alive (nd_block nd) w' \<longrightarrow> block_of w' n = Some (nd_block nd)" by (simp add: handle_ok_def)
  moreover have "block_alive (nd_block nd) w'" if b: "block_of w' n = Some (nd_block nd)"
  proof -
    obtain md where md: "w_nodes w' n = Some md" "nd_block md = nd_block nd" using b by (auto simp: block_of_def)
    then have "live w' n" using world_okD(2) [OF w'(1)] by blast
    then show ?thesis using md node_views(6) [OF md(1)] by simp
  qed
  ultimately have alive: "block_alive (nd_block nd) w' \<longleftrightarrow> block_of w' n = block_of w n" using node_views(4) [OF nd] by auto
  have owner: "block_of w' n = block_of w n \<Longrightarrow> block_owner (nd_block nd) w' = owner_of w' n"
    using node_views(4) [OF nd] by (auto simp: block_of_def owner_of_def)
  have "\<not> block_alive (nd_block nd) w' \<Longrightarrow> (case w_blocks w' (nd_block nd) of None \<Rightarrow> True | Some bl \<Rightarrow> \<not> bl_alive bl \<or> bl_marked bl)"
    by (simp add: block_alive_def split: option.splits)
  then show ?thesis using p n0 alive owner
    by (cases "block_of w' n = block_of w n")
      (simp_all add: NodePtr_bool_def NodePtr_arrow_def NodePtr_star_def NodePtr_isAlive_def NodePtr_ownerExecutor_def NodePtr_isMarkedToDelete_def)
qed

theorem node_ptr_tracks_node_witness:
  "NodePtr_arrow (NodePtr_new 11 family) family = 11 \<and> NodePtr_ownerExecutor (NodePtr_new 11 family) family = 5"
  using node_ptr_tracks_node [OF family_facts(1) _ node_steps.refl, of 11] by (simp add: family_facts(2,7))


text \<open>
  Why \<open>addChild\<close> is for roots: of a child it does not take it out of the list of its former parent, and the destructor only
  looks at the new one. When the child is gone, the former parent still lists it.
\<close>

lemma adopting_a_child_leaves_a_stale_entry:
  assumes w: "reachable w" and c: "c \<in> heap w" "parent_of w c = q" "q \<noteq> nullptr" "children_of w c = []"
    and p: "p \<in> heap w" "p \<noteq> q" "p \<noteq> c"
  shows "\<exists>w1 w2. Node_addChild p c w = Inr w1 \<and> Node_destroy (Suc k) c w1 = Inr w2 \<and> c \<notin> heap w2 \<and> c \<in> set (children_of w2 q)"
proof -
  have ok: "world_ok w" by (rule reachable_ok [OF w])
  note inv = world_okD(1) [OF ok]
  obtain cd pd where cd: "w_nodes w c = Some cd" and pd: "w_nodes w p = Some pd" using c(1) p(1) by blast
  have cd': "nd_parent cd = q" "\<not> nd_isRoot cd" "nd_children cd = []"
    using c node_views(1,3) [OF cd] node_facts(1) [OF inv cd] by simp_all
  obtain qd where qd: "w_nodes w q = Some qd" using node_facts(2) [OF inv cd] cd'(1) c(3) by blast
  have "c \<in> set (children_of w q)"
    using inv world_okD(2) [OF ok] c qd unfolding node_inv_def tree_ok_def by (metis domI)
  then have listed: "c \<in> set (nd_children qd)" using node_views(3) [OF qd] by simp
  have nn: "c \<noteq> nullptr" "p \<noteq> nullptr" "q \<noteq> c"
    using node_facts(3) [OF inv] cd pd parent_not_self [OF inv c(1)] c(2) by auto
  obtain g where al: "w_alive w c = Some g" using inv c(1) unfolding node_inv_def registry_ok_def by blast
  define w1 where "w1 = at_node p (\<lambda>pd. pd\<lparr>nd_children := nd_children pd @ [c]\<rparr>) (at_node c (\<lambda>cd. cd\<lparr>nd_parent := p\<rparr>) w)"
  have add: "Node_addChild p c w = Inr w1" using cd pd cd' nn by (simp add: Node_addChild_def w1_def)
  have w1: "w_nodes w1 c = Some (cd\<lparr>nd_parent := p\<rparr>)" "\<exists>x. w_nodes w1 p = Some x" "w_nodes w1 q = Some qd" "w_alive w1 c = Some g"
    using cd pd qd p nn al by (simp_all add: w1_def)
  obtain x where x: "w_nodes w1 p = Some x" using w1(2) by blast
  define w2 where "w2 = (case Node_destroy (Suc k) c w1 of Inr v \<Rightarrow> v | Inl _ \<Rightarrow> w1)"
  have "Node_destroy (Suc k) c w1 = Inr w2 \<and> w_nodes w2 c = None \<and> w_nodes w2 q = Some qd"
    using w1 x cd' p nn unfolding w2_def
    by (simp add: destroy_enter_def destroy_leave_def leave_parent_def deref_def Application_unregisterAliveNode_def Let_def)
  then show ?thesis using add listed node_views(3) [of w2 q qd] by (intro exI conjI) auto
qed


section \<open>Destruction\<close>

text \<open>C18. Deleting a node returns, given one unit of fuel per existing node, and frees exactly its subtree: all other
  nodes stay, with their parent, owner and lifetime block, the parent of the deleted node loses it from its list, and
  every pointer into the subtree is dead.\<close>

theorem node_destroy_frees_subtree:
  assumes "reachable w" "n \<in> heap w" "card (heap w) \<le> k"
  shows "\<exists>w'. Node_destroy k n w = Inr w' \<and> heap w' = heap w - sub w n
    \<and> (\<forall>m \<in> heap w'. parent_of w' m = parent_of w m \<and> owner_of w' m = owner_of w m \<and> block_of w' m = block_of w m
         \<and> children_of w' m = erase_all n (children_of w m))
    \<and> (\<forall>m \<in> sub w n. \<not> NodePtr_isAlive (NodePtr_new m w) w')"
proof -
  have w: "world_ok w" by (rule reachable_ok [OF assms(1)])
  obtain w' where w': "Node_destroy k n w = Inr w'" "removed (sub w n) {n} w w'" using destroy_whole [OF w assms(2,3)] by blast
  note r = removedD [OF w'(2)]
  have "\<not> NodePtr_isAlive (NodePtr_new m w) w'" if "m \<in> sub w n" for m
  proof -
    have "m \<in> heap w" using that sub_heap [OF assms(2)] by blast
    then obtain nd where nd: "w_nodes w m = Some nd" by blast
    have "w_registry w m = (if live w m then block_of w m else None)"
      using world_okD(1) [OF w] by (simp add: node_inv_def registry_ok_def)
    then have "w_registry w m = Some (nd_block nd)" using world_okD(2) [OF w \<open>m \<in> heap w\<close>] node_views(4) [OF nd] by simp
    moreover have "\<not> block_alive (nd_block nd) w'" by (rule r(10) [OF that node_views(4) [OF nd]])
    ultimately show ?thesis by (simp add: NodePtr_isAlive_def NodePtr_new_def NodeRegistry_lookup_def)
  qed
  moreover have "children_of w' m = erase_all n (children_of w m)" if "m \<in> heap w'" for m
    using r(8) [OF that] by (simp add: removeAll_filter_not_eq) (rule filter_cong, auto)
  ultimately show ?thesis using w'(1) r(2,3,5,6) by blast
qed

theorem node_destroy_frees_subtree_witness:
  "\<exists>w'. Node_destroy 3 11 family = Inr w' \<and> heap w' = {10, 11, 12} - sub family 11"
proof -
  have "11 \<in> heap family" "card (heap family) \<le> 3" by (simp_all add: family_facts(2))
  from node_destroy_frees_subtree [OF family_facts(1) this] obtain w' where
    "Node_destroy 3 11 family = Inr w'" "heap w' = heap family - sub family 11" by (elim exE conjE)
  then show ?thesis unfolding family_facts(2) by blast
qed

text \<open>Subtrees shrink when others are removed.\<close>

lemma sub_after_removed:
  assumes r: "removed (sub w n) C w w'" and m: "m \<notin> sub w n"
  shows "sub w' m = sub w m - sub w n"
proof -
  note v = removedD(2,3) [OF r]
  have edge: "(a, b) \<in> prel w' \<longleftrightarrow> (a, b) \<in> prel w \<and> a \<notin> sub w n" for a b
    using v(1) v(2) [of a] unfolding prel_def mem_Collect_eq split_conv by (metis DiffD1 DiffD2 DiffI)
  have down: "a \<in> sub w n" if "(a, b) \<in> prel w" "b \<in> sub w n" for a b
    using that unfolding sub_def by (auto intro: converse_rtrancl_into_rtrancl)
  have "x \<in> sub w m - sub w n" if "(x, m) \<in> (prel w')\<^sup>*" for x
    using that
  proof (induction rule: converse_rtrancl_induct)
    case (step y z)
    then show ?case using edge unfolding sub_def by (auto intro: converse_rtrancl_into_rtrancl)
  qed (use m in simp)
  moreover have "x \<notin> sub w n \<longrightarrow> (x, m) \<in> (prel w')\<^sup>*" if "(x, m) \<in> (prel w)\<^sup>*" for x
    using that
  proof (induction rule: converse_rtrancl_induct)
    case (step y z)
    then show ?case using edge [of y z] down [of y z] by (auto intro: converse_rtrancl_into_rtrancl)
  qed simp
  ultimately show ?thesis unfolding sub_def by blast
qed

lemma peel:
  assumes n: "n \<in> A" and down: "\<And>m. m \<in> S n \<Longrightarrow> S m \<subseteq> S n"
  shows "A - S n - (\<Union>m \<in> N \<inter> (A - S n). S m - S n) = A - (\<Union>m \<in> insert n N \<inter> A. S m)"
proof (intro set_eqI iffI)
  fix x assume x: "x \<in> A - S n - (\<Union>m \<in> N \<inter> (A - S n). S m - S n)"
  have "x \<notin> S m" if "m \<in> insert n N \<inter> A" for m using x that down [of m] by (cases "m \<in> S n") auto
  then show "x \<in> A - (\<Union>m \<in> insert n N \<inter> A. S m)" using x by blast
qed (use n in auto)

lemma ptr_finds:
  assumes w: "world_ok w"
  shows "NodePtr_bool (NodePtr_new n w) w \<longleftrightarrow> n \<in> heap w"
proof -
  have reg: "w_registry w n = (if live w n then block_of w n else None)" and n0: "n \<in> heap w \<longrightarrow> n \<noteq> nullptr"
    using world_okD(1) [OF w] by (auto simp: node_inv_def registry_ok_def)
  show ?thesis
  proof (cases "w_nodes w n")
    case None
    then show ?thesis using reg by (auto simp: NodePtr_bool_def NodePtr_new_def NodePtr_isAlive_def NodeRegistry_lookup_def live_def)
  next
    case (Some nd)
    then have "n \<in> heap w" by blast
    then show ?thesis using reg n0 world_okD(2) [OF w] node_views(4,6) [OF Some]
      by (simp add: NodePtr_bool_def NodePtr_new_def NodePtr_isAlive_def NodeRegistry_lookup_def)
  qed
qed

lemma delete_alive_frees:
  "world_ok w \<Longrightarrow> card (heap w) \<le> k \<Longrightarrow>
   \<exists>w'. delete_alive k ns w = Inr w' \<and> heap w' = heap w - (\<Union>n \<in> set ns \<inter> heap w. sub w n)"
proof (induction ns arbitrary: w)
  case (Cons n ns)
  note w = Cons.prems(1)
  note ptr = ptr_finds [OF w, of n]
  show ?case
  proof (cases "n \<in> heap w")
    case True
    obtain w1 where w1: "Node_destroy k n w = Inr w1" "removed (sub w n) {n} w w1" "world_ok w1"
      using destroy_whole [OF w True Cons.prems(2)] by blast
    have h1: "heap w1 = heap w - sub w n" by (rule removedD(2) [OF w1(2)])
    have "finite (heap w)" using world_okD(1) [OF w] by (simp add: node_inv_def)
    then have "card (heap w1) \<le> k" using card_mono [of "heap w" "heap w1"] h1 Cons.prems(2) by auto
    then obtain w' where w': "delete_alive k ns w1 = Inr w'" "heap w' = heap w1 - (\<Union>m \<in> set ns \<inter> heap w1. sub w1 m)"
      using Cons.IH [OF w1(3)] by blast
    have "(\<Union>m \<in> set ns \<inter> heap w1. sub w1 m) = (\<Union>m \<in> set ns \<inter> heap w1. sub w m - sub w n)"
      using sub_after_removed [OF w1(2)] h1 by simp
    moreover have "sub w m \<subseteq> sub w n" if "m \<in> sub w n" for m
      using that unfolding sub_def by (auto intro: rtrancl_trans)
    ultimately have "heap w' = heap w - (\<Union>m \<in> set (n # ns) \<inter> heap w. sub w m)"
      unfolding w'(2) h1 list.set using peel [OF True, of "sub w" "set ns"] by metis
    moreover have "delete_alive k (n # ns) w = Inr w'" using ptr True w1(1) w'(1) by simp
    ultimately show ?thesis by blast
  next
    case False
    then show ?thesis using Cons.IH [OF Cons.prems] ptr by simp
  qed
qed simp

text \<open>The loop over an owner's pending deletes frees the subtrees of exactly those listed nodes that still exist;
  entries whose node has died meanwhile, also as part of a subtree deleted earlier in the same loop, are skipped.\<close>

theorem pending_deletes_free_subtrees:
  "reachable w \<Longrightarrow> card (heap w) \<le> k \<Longrightarrow>
   \<exists>w'. delete_alive k ns w = Inr w' \<and> heap w' = heap w - (\<Union>n \<in> set ns \<inter> heap w. sub w n)"
  by (rule delete_alive_frees [OF reachable_ok])

theorem pending_deletes_free_subtrees_witness:
  "\<exists>w'. delete_alive 3 [10, 11, 99] family = Inr w' \<and> heap w' = {10, 11, 12} - (sub family 10 \<union> sub family 11)"
  using pending_deletes_free_subtrees [OF family_facts(1), of 3 "[10, 11, 99]"] by (simp add: family_facts(2))


section \<open>Migration\<close>

definition together :: "'c world \<Rightarrow> bool" where
  "together w \<longleftrightarrow> (\<forall>n \<in> heap w. parent_of w n \<noteq> nullptr \<longrightarrow> owner_of w n = owner_of w (parent_of w n))"

lemma together_one_owner: "together w \<Longrightarrow> one_owner w n"
proof -
  assume t: "together w"
  have "owner_of w m = owner_of w n" if "(m, n) \<in> (prel w)\<^sup>*" for m
    using that
  proof (induction rule: converse_rtrancl_induct)
    case (step y z)
    then have "y \<in> heap w" "parent_of w y = z" "z \<noteq> nullptr" by (simp_all add: prel_def)
    then show ?case using t step.IH unfolding together_def by metis
  qed simp
  then show ?thesis unfolding one_owner_def sub_def by blast
qed

lemma together_arrived:
  assumes w: "world_ok w" and t: "together w" and n: "n \<in> heap w" and a: "arrived n u w w'"
    and fits: "parent_of w n = nullptr \<or> owner_of w (parent_of w n) = u"
  shows "together w'" "owner_of w' = (\<lambda>m. if m \<in> sub w n then u else owner_of w m)"
proof -
  have m: "moved (sub w n) u w w'" using a together_one_owner [OF t, of n] unfolding arrived_def by metis
  then show o: "owner_of w' = (\<lambda>m. if m \<in> sub w n then u else owner_of w m)" by (simp add: moved_def)
  have v: "parent_of w' = parent_of w" "heap w' = heap w" using moved_views(1) [OF m] m by (simp_all add: moved_def)
  show "together w'" unfolding together_def v
  proof (intro ballI impI)
    fix m assume m: "m \<in> heap w" "parent_of w m \<noteq> nullptr"
    let ?q = "parent_of w m"
    have e: "(m, ?q) \<in> prel w" using m by (simp add: prel_def)
    have down: "?q \<in> sub w n \<Longrightarrow> m \<in> sub w n" using e unfolding sub_def by (auto intro: converse_rtrancl_into_rtrancl)
    have same: "owner_of w m = owner_of w ?q" using t m unfolding together_def by blast
    consider "m = n" | "m \<in> sub w n" "m \<noteq> n" | "m \<notin> sub w n" by blast
    then show "owner_of w' m = owner_of w' ?q"
    proof cases
      case 1
      then show ?thesis using fits m(2) sub_self [of n w] by (simp add: o)
    next
      case 2
      then show ?thesis using sub_up [OF 2(1) e 2(2)] by (simp add: o)
    next
      case 3
      then show ?thesis using down same by (auto simp: o)
    qed
  qed
qed

lemma fits_parent:
  assumes "node_inv w" "w_nodes w n = Some nd"
  shows "(if nd_parent nd = nullptr then Inr True
      else seq (deref (nd_parent nd) w) (\<lambda>pd. Inr (block_owner (nd_block pd) w = u)))
    = Inr (parent_of w n = nullptr \<or> owner_of w (parent_of w n) = u)"
proof (cases "nd_parent nd = nullptr")
  case False
  then obtain pd where "w_nodes w (nd_parent nd) = Some pd" using node_facts(2) [OF assms] by blast
  then show ?thesis using False node_views(1) [OF assms(2)] node_views(5) [of w "nd_parent nd" pd] by simp
qed (use node_views(1) [OF assms(2)] in simp)

text \<open>C19. \<open>moveToThread\<close> never splits a child from its parent. On a world where every child has its parent's owner, it
  either refuses and changes nothing, or posts a request and leaves every node where it is, or hands the
  whole subtree over at once; every child still has its parent's owner.\<close>

theorem move_to_thread_keeps_families:
  assumes "reachable w" "together w" "n \<in> heap w" "u = nullptr \<or> u \<in> dom (w_executors w)" "card (heap w) \<le> k"
  shows "\<exists>b w'. Node_moveToThread k cx u n w = Inr (b, w') \<and> together w' \<and> w_nodes w' = w_nodes w
    \<and> owner_of w' = (if b \<and> isCurrent cx (owner_of w n) then (\<lambda>m. if m \<in> sub w n then u else owner_of w m) else owner_of w)
    \<and> (b \<or> w' = w)"
proof -
  have w: "world_ok w" by (rule reachable_ok [OF assms(1)])
  note inv = world_okD(1) [OF w]
  obtain nd where nd: "w_nodes w n = Some nd" using assms(3) by blast
  let ?o = "block_owner (nd_block nd) w"
  have o: "owner_of w n = ?o" by (rule node_views(5) [OF nd])
  let ?fits = "parent_of w n = nullptr \<or> owner_of w (parent_of w n) = u"
  have step: "Node_moveToThread k cx u n w = (if u = nullptr \<or> is_retired u w \<or> ?o = nullptr \<or> \<not> ?fits then Inr (False, w)
      else if isCurrent cx ?o then seq (Node_applyMoveTo k u n w) (\<lambda>w1. Inr (True, w1))
      else Inr (True, at_executor ?o (Executor_post (MoveTask n (nd_block nd) ?o u)) w))"
    using nd by (simp add: Node_moveToThread_def Let_def fits_parent [OF inv nd])
  consider "u = nullptr \<or> is_retired u w \<or> ?o = nullptr \<or> \<not> ?fits"
    | "u \<noteq> nullptr" "\<not> is_retired u w" "?o \<noteq> nullptr" ?fits "isCurrent cx ?o"
    | "u \<noteq> nullptr" "\<not> is_retired u w" "?o \<noteq> nullptr" ?fits "\<not> isCurrent cx ?o" by blast
  then show ?thesis
  proof cases
    case 1
    then show ?thesis using step assms(2) by auto
  next
    case 2
    then have "u \<in> dom (w_executors w)" using assms(4) by simp
    then obtain w' where w': "Node_applyMoveTo k u n w = Inr w'" "arrived n u w w'" using move_whole [OF w assms(3,5)] by blast
    then have "w_nodes w' = w_nodes w" unfolding arrived_def moved_def by blast
    then show ?thesis using step 2 w'(1) together_arrived [OF w assms(2,3) w'(2) 2(4)] o by auto
  next
    case 3
    have "together (at_executor ?o (Executor_post (MoveTask n (nd_block nd) ?o u)) w)"
      using assms(2) by (simp add: together_def heap_at)
    then show ?thesis using step 3 o by auto
  qed
qed

lemma family_together: "together family"
  unfolding together_def using family_facts by simp

theorem move_to_thread_keeps_families_witness:
  "\<exists>b w'. Node_moveToThread 3 main_thread 5 11 family = Inr (b, w') \<and> together w'"
proof -
  have a: "11 \<in> heap family" "card (heap family) \<le> 3" by (simp_all add: family_facts(2))
  have "(5::addr) = nullptr \<or> 5 \<in> dom (w_executors family)" using family_facts(9) by (simp add: loop_there_def)
  from move_to_thread_keeps_families [OF family_facts(1) family_together a(1) this a(2), of main_thread] show ?thesis
    by (elim exE conjE) blast
qed


section \<open>Deferred deletion\<close>

definition pending_delete :: "addr \<Rightarrow> 'c world \<Rightarrow> bool" where
  "pending_delete n w \<longleftrightarrow> (\<exists>b. DeleteTask n b (owner_of w n) \<in> set (tasks_of w (owner_of w n)))
     \<or> (\<exists>x. w_executors w (owner_of w n) = Some x \<and> n \<in> set (Executor_deletes x))
     \<or> (\<exists>pd. w_nodes w (parent_of w n) = Some pd \<and> n \<in> set (nd_childrenToDelete pd))"

lemma Executor_post_queued: "\<not> Executor_isRetired x \<Longrightarrow> t \<in> set (Executor_tasks (Executor_post t x))"
  by (cases x) (simp_all add: EventLoop_post_def Strand_push_def Let_def)

text \<open>\<open>deleteLater\<close> takes effect at once for everyone who asks (the pointers and the application report the node
  as marked), destroys nothing itself, and the request is on record with an owner that is not retired: as a task
  posted to it when the call comes from elsewhere, in its list of deletes, or with the parent.\<close>

theorem delete_later_is_recorded:
  assumes "reachable w" "n \<in> heap w" "owner_of w n \<noteq> nullptr" "\<not> is_retired (owner_of w n) w"
  shows "\<exists>w'. Node_deleteLater cx n w = Inr w' \<and> heap w' = heap w \<and> pending_delete n w'
    \<and> NodePtr_isMarkedToDelete (NodePtr_new n w) w' \<and> Application_isNodeMarkedToDelete n g w'"
proof -
  have w: "world_ok w" by (rule reachable_ok [OF assms(1)])
  note inv = world_okD(1) [OF w]
  obtain nd where nd: "w_nodes w n = Some nd" using assms(2) by blast
  let ?b = "nd_block nd" and ?o = "block_owner (nd_block nd) w" and ?p = "nd_parent nd"
  have o: "owner_of w n = ?o" "?o \<noteq> nullptr" using node_views(5) [OF nd] assms(3) by simp_all
  obtain x where x: "w_executors w ?o = Some x" "\<not> Executor_isRetired x"
    using inv o assms(3,4) unfolding node_inv_def hosting_ok_def by (metis domD is_retired_def option.simps(5))
  have "n \<in> dom (w_alive w)" using inv assms(2) unfolding node_inv_def registry_ok_def by metis
  then obtain gen mk where al: "w_alive w n = Some (gen, mk)" by auto
  define w2 where "w2 = (at_block ?b (\<lambda>b. b\<lparr>bl_marked := True\<rparr>) w)\<lparr>w_alive := (w_alive w)(n \<mapsto> (gen, True))\<rparr>"
  have mark: "Application_markToDelete n (at_block ?b (\<lambda>b. b\<lparr>bl_marked := True\<rparr>) w) = Inr w2"
    using al by (simp add: Application_markToDelete_def w2_def)
  define w3 where "w3 = (if \<not> isCurrent cx ?o then at_executor ?o (Executor_post (DeleteTask n ?b ?o)) w2
    else if \<not> is_loop ?o w2 then at_executor ?o (Executor_enqueueDelete n) w2
    else if ?p \<noteq> nullptr then at_node ?p (\<lambda>pd. pd\<lparr>nd_childrenToDelete := nd_childrenToDelete pd @ [n]\<rparr>) w2
    else at_executor ?o (Executor_enqueueDelete n) w2)"
  have push: "Node_pushDeleteChild ?p n w2 = Inr (at_node ?p (\<lambda>pd. pd\<lparr>nd_childrenToDelete := nd_childrenToDelete pd @ [n]\<rparr>) w2)
      \<and> ?p \<in> heap w" if p: "?p \<noteq> nullptr"
  proof -
    obtain pd where pd: "w_nodes w ?p = Some pd" using node_facts(2) [OF inv nd p] by blast
    then have "n \<in> set (children_of w ?p)"
      using inv world_okD(2) [OF w] assms(2) node_views(1) [OF nd] unfolding node_inv_def tree_ok_def by (metis domI)
    then show ?thesis using pd node_views(3) [OF pd] by (auto simp: Node_pushDeleteChild_def w2_def)
  qed
  have step: "Node_deleteLater cx n w = Inr w3"
    using nd mark push o(2) by (simp add: Node_deleteLater_def Let_def w3_def)
  have s: "same_tree w w3" using Node_deleteLater_ok [OF inv assms(2,3), of cx] step by auto
  have pend: "pending_delete n w3"
  proof -
    have v: "owner_of w3 n = ?o" "parent_of w3 n = ?p" using s o(1) node_views(1) [OF nd] by (simp_all add: same_tree_def)
    show ?thesis unfolding pending_delete_def v
      using x o(2) push Executor_post_queued [OF x(2), of "DeleteTask n ?b ?o"] ex.deletes_enqueue(1) [of n x]
      by (auto simp: w3_def w2_def tasks_of_def)
  qed
  have reg: "w_registry w n = Some ?b"
    using inv world_okD(2) [OF w assms(2)] node_views(4) [OF nd] by (simp add: node_inv_def registry_ok_def)
  have "w_blocks w3 ?b = map_option (\<lambda>b. b\<lparr>bl_marked := True\<rparr>) (w_blocks w ?b)" "w_alive w3 n = Some (gen, True)"
    by (simp_all add: w3_def w2_def)
  then have "NodePtr_isMarkedToDelete (NodePtr_new n w) w3" "Application_isNodeMarkedToDelete n g w3"
    using reg by (auto simp: NodePtr_isMarkedToDelete_def NodePtr_new_def NodeRegistry_lookup_def Application_isNodeMarkedToDelete_def
        split: option.split)
  then show ?thesis using step pend s by (auto simp: same_tree_def)
qed

text \<open>Definitions that compute a concrete world.\<close>

lemmas node_eval = new_nodes.simps Node_new_def Node_deleteLater_def Node_addChild_def Node_pushDeleteChild_def Node_isChild_def
  Application_markToDelete_def Application_registerAliveNode_def Application_unregisterAliveNode_def NodeRegistry_registerNode_def
  NodeRegistry_unregisterNode_def NodeRegistry_lookup_def NodePtr_new_def NodePtr_bool_def NodePtr_isAlive_def
  NodePtr_isMarkedToDelete_def destroy_enter_def destroy_leave_def leave_parent_def clear_pending_def deref_def at_node_def
  at_block_def at_executor_def block_owner_def block_alive_def is_loop_def isCurrent_def main_thread_def two_executors_def
  world_start_def EventLoop_init_def Strand_init_def EventLoop_addNode_def EventLoop_addRootNode_def EventLoop_removeNode_def
  EventLoop_removeRootNode_def Let_def

theorem delete_later_is_recorded_witness:
  "\<exists>w'. Node_deleteLater main_thread 12 family = Inr w' \<and> pending_delete 12 w'"
proof -
  have a: "12 \<in> heap family" "owner_of family 12 \<noteq> nullptr" using family_facts(2,8) by simp_all
  have "\<not> is_retired (owner_of family 12) family"
    unfolding family_facts(8) by (simp add: family_def is_retired_def node_eval)
  from delete_later_is_recorded [OF family_facts(1) a this, of main_thread 1] show ?thesis by blast
qed


end
