(* ===== verification/NodeTicks.thy ===== *)
theory NodeTicks
  imports NodeProperties
begin

text \<open>
  The tick of a node (\<open>Node::run\<close>): a tick that gets through is made of the operations of
  \<open>NodeLifecycle\<close>; without pending deletions it calls \<open>update()\<close> of every node of the subtree once, children before
  parents; with one it iterates over a vector that changes under it.
\<close>

section \<open>A tick is made of node operations\<close>

lemma destroy_more_fuel:
  "Node_destroy k n w = Inr w' \<Longrightarrow> Node_destroy (k + j) n w = Inr w'"
  "destroy_children k cs w = Inr w' \<Longrightarrow> destroy_children (k + j) cs w = Inr w'"
proof (induction k n w and k cs w arbitrary: w' and w' rule: Node_destroy_destroy_children.induct)
  case (2 k n w)
  then show ?case by (auto simp: seq_Inr)
next
  case (4 k c cs w)
  then show ?case by (auto simp: seq_Inr)
qed simp_all

lemma deref_in_heap: "deref n w = Inr nd \<longleftrightarrow> w_nodes w n = Some nd"
  by (simp add: deref_def split: option.split)

lemma clear_steps: "clear_pending n w = Inr w' \<Longrightarrow> node_steps w w'"
proof -
  assume c: "clear_pending n w = Inr w'"
  then have "n \<in> heap w" by (auto simp: clear_pending_def seq_Inr deref_in_heap)
  from node_step.clear [OF this] show ?thesis by (intro step_steps) (simp add: c)
qed

lemma deletes_steps: "reachable w \<Longrightarrow> delete_pending k n all cs w = Inr w' \<Longrightarrow> node_steps w w'"
proof (induction cs arbitrary: w)
  case (Cons c cs)
  show ?case
  proof (cases "c \<in> heap w")
    case True
    then have "NodePtr_bool (NodePtr_new c w) w" using ptr_finds [OF reachable_ok [OF Cons.prems(1)]] by simp
    then obtain w1 where w1: "Node_destroy k c w = Inr w1" "delete_pending k n all cs w1 = Inr w'"
      using Cons.prems(2) by (auto simp: seq_Inr split: if_splits)
    have "Node_destroy (k + card (heap w)) c w = Inr w1" by (rule destroy_more_fuel(1) [OF w1(1)])
    then have s: "node_steps w w1" using node_step.delete [OF True, of "k + card (heap w)"] step_steps by simp
    show ?thesis using steps_trans [OF Cons.IH [OF reachable_steps [OF Cons.prems(1) s] w1(2)] s] .
  next
    case False
    then have "\<not> NodePtr_bool (NodePtr_new c w) w" using ptr_finds [OF reachable_ok [OF Cons.prems(1)]] by simp
    then show ?thesis using Cons by simp
  qed
qed (auto intro: node_steps.refl)

text \<open>If the nodes' own code only uses the operations, so does a tick.\<close>

definition steps_only :: "(addr \<Rightarrow> 'c world \<Rightarrow> fault + 'c world) \<Rightarrow> bool" where
  "steps_only update \<longleftrightarrow> (\<forall>m v v'. reachable v \<longrightarrow> update m v = Inr v' \<longrightarrow> node_steps v v')"

lemma tick_steps:
  "steps_only update \<Longrightarrow> reachable w \<Longrightarrow> Node_run k update n w = Inr w' \<Longrightarrow> node_steps w w'"
  "steps_only update \<Longrightarrow> reachable w \<Longrightarrow> run_children k update n all cs w = Inr w' \<Longrightarrow> node_steps w w'"
proof (induction k update n w and k update n all cs w arbitrary: w' and w' rule: Node_run_run_children.induct)
  case (2 k update n w)
  from "2.prems"(3) obtain nd w1 w2 nd2 w3 w4 where d: "deref n w = Inr nd" "deref n w2 = Inr nd2"
    and r: "delete_pending k n (nd_childrenToDelete nd) (nd_childrenToDelete nd) w = Inr w1" "clear_pending n w1 = Inr w2"
    "run_children k update n (nd_children nd2) (nd_children nd2) w2 = Inr w3" "update n w3 = Inr w4" "clear_pending n w4 = Inr w'"
    by (auto simp: seq_Inr)
  note up = steps_trans and reach = reachable_steps [OF "2.prems"(2)]
  have s2: "node_steps w w2" using up [OF clear_steps [OF r(2)] deletes_steps [OF "2.prems"(2) r(1)]] .
  have s3: "node_steps w w3"
    using up [OF "2.IH" [OF "2.prems"(1) reach [OF s2] r(3)] s2] .
  have "node_steps w3 w4" using "2.prems"(1) reach [OF s3] r(4) unfolding steps_only_def by blast
  then show ?case using up [OF clear_steps [OF r(5)] up [OF _ s3]] by blast
next
  case (4 k update n all c cs w)
  from "4.prems"(3) obtain w1 nd where r: "Node_run k update c w = Inr w1" "deref n w1 = Inr nd" "nd_children nd = all"
    "run_children k update n all cs w1 = Inr w'"
    by (auto simp: seq_Inr split: if_splits)
  have s: "node_steps w w1" using "4.IH"(1) [OF "4.prems"(1,2) r(1)] .
  have "node_steps w1 w'" using "4.IH"(2) [OF _ "4.prems"(1) reachable_steps [OF "4.prems"(2) s] r(4), of nd] r(3) by simp
  then show ?case using steps_trans [OF _ s] by blast
qed (auto intro: node_steps.refl)


section \<open>Pending lists under destruction\<close>

definition pending_of :: "'c world \<Rightarrow> addr \<Rightarrow> addr list" where
  "pending_of w n = (case w_nodes w n of None \<Rightarrow> [] | Some nd \<Rightarrow> nd_childrenToDelete nd)"

lemma pending_at [simp]:
  "pending_of (at_executor e g w) = pending_of w" "pending_of (at_block b h w) = pending_of w"
  "pending_of (NodeRegistry_unregisterNode n w) = pending_of w"
  by (simp_all add: pending_of_def fun_eq_iff)

lemma pending_at_node: "w_nodes w n = Some nd \<Longrightarrow> pending_of (at_node n f w) = (pending_of w)(n := nd_childrenToDelete (f nd))"
  by (simp add: pending_of_def fun_eq_iff)

lemma pending_at_other: "m \<noteq> n \<Longrightarrow> pending_of (at_node n f w) m = pending_of w m"
  by (simp add: pending_of_def)

lemma pending_cleared_children [simp]: "pending_of (at_node n (\<lambda>nd. nd\<lparr>nd_children := []\<rparr>) w) = pending_of w"
  by (auto simp: pending_of_def fun_eq_iff split: option.split)

lemma pending_leave_parent:
  assumes "leave_parent n p w = Inr w'"
  shows "set (pending_of w' m) \<subseteq> set (pending_of w m)" "n \<notin> set (pending_of w' p)"
proof -
  obtain pd where pd: "w_nodes w p = Some pd"
    and w': "w' = at_node p (\<lambda>pd. pd\<lparr>nd_children := erase_all n (nd_children pd),
       nd_childrenToDelete := erase_all n (nd_childrenToDelete pd)\<rparr>) w"
    using assms by (auto simp: leave_parent_def seq_Inr deref_in_heap)
  have "pending_of w p = nd_childrenToDelete pd" using pd by (simp add: pending_of_def)
  then show "set (pending_of w' m) \<subseteq> set (pending_of w m)" "n \<notin> set (pending_of w' p)"
    by (auto simp: w' pending_at_node [OF pd])
qed

lemma pending_enter:
  assumes "destroy_enter n nd w = Inr w'"
  shows "set (pending_of w' m) \<subseteq> set (pending_of w m)"
    and "\<not> nd_isRoot nd \<Longrightarrow> nd_parent nd \<noteq> nullptr \<Longrightarrow> n \<notin> set (pending_of w' (nd_parent nd))"
  using assms by (auto simp: destroy_enter_def Let_def seq_Inr dest: pending_leave_parent(2) subsetD [OF pending_leave_parent(1)] split: if_splits)

lemma pending_leave: "destroy_leave n e w = Inr w' \<Longrightarrow> set (pending_of w' m) \<subseteq> set (pending_of w m)"
  by (auto simp: destroy_leave_def seq_Inr Application_unregisterAliveNode_def pending_of_def split: if_splits option.splits)

lemma pending_destroy:
  "Node_destroy k n w = Inr w' \<Longrightarrow> set (pending_of w' m) \<subseteq> set (pending_of w m)"
  "destroy_children k cs w = Inr w' \<Longrightarrow> set (pending_of w' m) \<subseteq> set (pending_of w m)"
proof (induction k n w and k cs w arbitrary: w' and w' rule: Node_destroy_destroy_children.induct)
  case (2 k n w)
  then obtain nd w1 w2 where "destroy_enter n nd w = Inr w1" "destroy_leave n (block_owner (nd_block nd) w) w2 = Inr w'"
    "set (pending_of w2 m) \<subseteq> set (pending_of w1 m)" by (auto simp: seq_Inr)
  then show ?case using pending_enter(1) pending_leave by blast
next
  case (4 k c cs w)
  then show ?case by (auto simp: seq_Inr) blast
qed simp_all

lemma destroy_unlists:
  assumes "node_inv w" "w_nodes w c = Some cd" "nd_parent cd \<noteq> nullptr" "Node_destroy k c w = Inr w'"
  shows "c \<notin> set (pending_of w' (nd_parent cd))"
proof -
  obtain j where "k = Suc j" using assms(4) by (cases k) auto
  then obtain w1 w2 where "destroy_enter c cd w = Inr w1" "destroy_children j (nd_children cd) w1 = Inr w2"
    "destroy_leave c (block_owner (nd_block cd) w) w2 = Inr w'" using assms(2,4) by (auto simp: seq_Inr)
  then show ?thesis
    using pending_enter(2) node_facts(1) [OF assms(1,2)] assms(3) pending_destroy(2) pending_leave by blast
qed

lemma deletes_invalid:
  assumes n: "n \<noteq> nullptr"
  shows "world_ok w \<Longrightarrow> card (heap w) \<le> k \<Longrightarrow> set cs \<subseteq> set (pending_of w n) \<Longrightarrow> n \<in> heap w \<Longrightarrow>
    \<forall>c \<in> set cs. c \<in> heap w \<longrightarrow> parent_of w c = n \<Longrightarrow> \<exists>c \<in> set cs. c \<in> heap w \<Longrightarrow>
    delete_pending k n (pending_of w n) cs w = Inl (IteratorInvalidated n)"
proof (induction cs)
  case (Cons c cs)
  note w = Cons.prems(1)
  show ?case
  proof (cases "c \<in> heap w")
    case True
    then obtain cd where cd: "w_nodes w c = Some cd" by blast
    have pc: "nd_parent cd = n" using Cons.prems(5) True node_views(1) [OF cd] by simp
    obtain w1 where w1: "Node_destroy k c w = Inr w1" "removed (sub w c) {c} w w1"
      using destroy_whole [OF w True Cons.prems(2)] by blast
    have "(c, n) \<in> prel w" using True pc n node_views(1) [OF cd] by (simp add: prel_def)
    then have "n \<notin> sub w c" using sub_not_parent [of w c n] world_okD(1) [OF w] by (simp add: node_inv_def)
    then have "n \<in> heap w1" using removedD(2) [OF w1(2)] Cons.prems(4) by simp
    then obtain nd where nd: "w_nodes w1 n = Some nd" by blast
    have "c \<notin> set (pending_of w1 n)" using destroy_unlists [OF world_okD(1) [OF w] cd _ w1(1)] pc n by simp
    then have "nd_childrenToDelete nd \<noteq> pending_of w n" using nd Cons.prems(3) by (auto simp: pending_of_def)
    then show ?thesis using ptr_finds [OF w] True w1(1) nd by simp
  next
    case False
    then show ?thesis using Cons ptr_finds [OF w, of c] by simp
  qed
qed simp


section \<open>A tick without pending deletions\<close>

text \<open>The order in which the nodes of the subtree get their \<open>update()\<close>.\<close>

fun tick_order :: "nat \<Rightarrow> 'c world \<Rightarrow> addr \<Rightarrow> addr list" where
  "tick_order 0 w n = []"
| "tick_order (Suc k) w n = concat (map (tick_order k w) (children_of w n)) @ [n]"

lemma distinct_concat_map:
  "distinct cs \<Longrightarrow> \<forall>c \<in> set cs. distinct (g c) \<Longrightarrow> \<forall>c \<in> set cs. \<forall>d \<in> set cs. c \<noteq> d \<longrightarrow> set (g c) \<inter> set (g d) = {} \<Longrightarrow>
   distinct (concat (map g cs))"
  by (induction cs) auto

lemma sorted_wrt_concat_map:
  "distinct cs \<Longrightarrow> \<forall>c \<in> set cs. sorted_wrt P (g c) \<Longrightarrow>
   \<forall>c \<in> set cs. \<forall>d \<in> set cs. c \<noteq> d \<longrightarrow> (\<forall>x \<in> set (g c). \<forall>y \<in> set (g d). P x y) \<Longrightarrow> sorted_wrt P (concat (map g cs))"
  by (induction cs) (auto simp: sorted_wrt_append)

lemma tick_order_ok:
  assumes w: "world_ok w"
  shows "n \<in> heap w \<Longrightarrow> card (sub w n) \<le> k \<Longrightarrow>
    distinct (tick_order k w n) \<and> set (tick_order k w n) = sub w n \<and> sorted_wrt (\<lambda>a b. (b, a) \<notin> (prel w)\<^sup>+) (tick_order k w n)"
proof (induction k arbitrary: n)
  case 0
  then show ?case using finite_sub [OF world_okD(1) [OF w] 0(1)] sub_self [of n w] by auto
next
  case (Suc k)
  note inv = world_okD(1) [OF w]
  have acy: "acyclic (prel w)" using inv by (simp add: node_inv_def)
  note live = world_okD(2) [OF w Suc.prems(1)] all_live [OF w Suc.prems(1)]
  let ?cs = "children_of w n" and ?g = "tick_order k w"
  have kids: "(c, n) \<in> prel w" if "c \<in> set ?cs" for c using children_iff [OF inv live] that by blast
  have each: "distinct (?g c) \<and> set (?g c) = sub w c \<and> sorted_wrt (\<lambda>a b. (b, a) \<notin> (prel w)\<^sup>+) (?g c)" if c: "c \<in> set ?cs" for c
  proof (rule Suc.IH)
    show "c \<in> heap w" using kids [OF c] by (simp add: prel_def)
    show "card (sub w c) \<le> k" using card_sub_child [OF inv Suc.prems(1) kids [OF c]] Suc.prems(2) by simp
  qed
  have dis: "distinct ?cs" using inv by (simp add: node_inv_def tree_ok_def)
  have apart: "sub w c \<inter> sub w d = {}" if "c \<in> set ?cs" "d \<in> set ?cs" "c \<noteq> d" for c d
    using sub_disjoint [OF acy kids [OF that(1)] kids [OF that(2)] that(3)] .
  have down: "b \<in> sub w c" if "(b, a) \<in> (prel w)\<^sup>+" "a \<in> sub w c" for a b c
    using that trancl_into_rtrancl rtrancl_trans unfolding sub_def by fastforce
  have n: "n \<notin> sub w c" if "c \<in> set ?cs" for c using sub_not_parent [OF acy kids [OF that]] .
  have all: "set (concat (map ?g ?cs)) = (\<Union>c \<in> set ?cs. sub w c)" using each by simp
  have "distinct (concat (map ?g ?cs))" using distinct_concat_map [OF dis, of ?g] each apart by simp
  moreover have "sorted_wrt (\<lambda>a b. (b, a) \<notin> (prel w)\<^sup>+) (concat (map ?g ?cs))"
  proof (rule sorted_wrt_concat_map [OF dis])
    show "\<forall>c \<in> set ?cs. \<forall>d \<in> set ?cs. c \<noteq> d \<longrightarrow> (\<forall>x \<in> set (?g c). \<forall>y \<in> set (?g d). (y, x) \<notin> (prel w)\<^sup>+)"
    proof (intro ballI impI notI)
      fix c d x y assume a: "c \<in> set ?cs" "d \<in> set ?cs" "c \<noteq> d" "x \<in> set (?g c)" "y \<in> set (?g d)" "(y, x) \<in> (prel w)\<^sup>+"
      then have "y \<in> sub w c" using down [OF a(6), of c] each [OF a(1)] by simp
      then show False using a each [OF a(2)] apart [OF a(1-3)] by blast
    qed
  qed (use each in blast)
  moreover have "(n, a) \<notin> (prel w)\<^sup>+" if "a \<in> sub w c" "c \<in> set ?cs" for a c using down [of n a c] n that by blast
  ultimately show ?case using n all sub_children [OF inv live] by (auto simp: sorted_wrt_append)
qed

lemma fold_nodes:
  "(\<And>m v. m \<in> set ms \<Longrightarrow> w_nodes v = w_nodes w \<Longrightarrow> w_nodes (f m v) = w_nodes w) \<Longrightarrow> w_nodes v = w_nodes w \<Longrightarrow>
   w_nodes (fold f ms v) = w_nodes w"
  by (induction ms arbitrary: v) auto

lemma quiet_tick:
  assumes w: "world_ok w"
    and up: "\<And>m v. w_nodes v = w_nodes w \<Longrightarrow> update m v = Inr (f m v) \<and> w_nodes (f m v) = w_nodes w"
  shows "n \<in> heap w \<Longrightarrow> card (sub w n) \<le> k \<Longrightarrow> \<forall>m \<in> sub w n. pending_of w m = [] \<Longrightarrow> w_nodes v = w_nodes w \<Longrightarrow>
    Node_run k update n v = Inr (fold f (tick_order k w n) v)"
proof (induction k arbitrary: n v)
  case 0
  then show ?case using finite_sub [OF world_okD(1) [OF w] 0(1)] sub_self [of n w] by auto
next
  case (Suc k)
  note inv = world_okD(1) [OF w]
  obtain nd where nd: "w_nodes w n = Some nd" using Suc.prems(1) by blast
  have np: "nd_childrenToDelete nd = []" using bspec [OF Suc.prems(3) sub_self] nd by (simp add: pending_of_def)
  have clear: "clear_pending n u = Inr u" if "w_nodes u = w_nodes w" for u
    using that nd np by (simp add: clear_pending_def at_node_def fun_upd_idem)
  have "set (nd_children nd) = {c. (c, n) \<in> prel w}"
    using children_iff [OF inv world_okD(2) [OF w Suc.prems(1)] all_live [OF w Suc.prems(1)]] node_views(3) [OF nd] by simp
  then have kids: "(c, n) \<in> prel w" if "c \<in> set (nd_children nd)" for c using that by simp
  have keep: "w_nodes (fold f ms u) = w_nodes w" if "w_nodes u = w_nodes w" for ms u
    by (rule fold_nodes [OF _ that]) (simp add: up)
  have each: "Node_run k update c u = Inr (fold f (tick_order k w c) u)" if c: "c \<in> set (nd_children nd)" and u: "w_nodes u = w_nodes w" for c u
  proof (rule Suc.IH)
    show "c \<in> heap w" using kids [OF c] by (simp add: prel_def)
    show "card (sub w c) \<le> k" using card_sub_child [OF inv Suc.prems(1) kids [OF c]] Suc.prems(2) by simp
    show "\<forall>m \<in> sub w c. pending_of w m = []" using sub_child [OF kids [OF c]] Suc.prems(3) by blast
  qed (rule u)
  have "run_children k update n (nd_children nd) cs u = Inr (fold f (concat (map (tick_order k w) cs)) u)"
    if "set cs \<subseteq> set (nd_children nd)" "w_nodes u = w_nodes w" for cs u
    using that
  proof (induction cs arbitrary: u)
    case (Cons c cs)
    then show ?case using each [of c u] keep [of u] nd by simp
  qed simp
  note all = this [OF subset_refl Suc.prems(4)]
  let ?v = "fold f (concat (map (tick_order k w) (nd_children nd))) v"
  have v: "w_nodes ?v = w_nodes w" by (rule keep [OF Suc.prems(4)])
  have "deref n v = Inr nd" using Suc.prems(4) nd by simp
  then show ?case using np clear [OF Suc.prems(4)] all up [OF v, of n] clear [of "f n ?v"] node_views(3) [OF nd] by simp
qed

definition nothing_pending :: "'c world \<Rightarrow> addr \<Rightarrow> bool" where
  "nothing_pending w n \<longleftrightarrow> (\<forall>m \<in> sub w n. pending_of w m = [])"

definition keeps_nodes :: "(addr \<Rightarrow> 'c world \<Rightarrow> fault + 'c world) \<Rightarrow> (addr \<Rightarrow> 'c world \<Rightarrow> 'c world) \<Rightarrow> 'c world \<Rightarrow> bool" where
  "keeps_nodes update f w \<longleftrightarrow>
     (\<forall>m v. w_nodes v = w_nodes w \<longrightarrow> update m v = Inr (f m v) \<and> w_nodes (f m v) = w_nodes w)"

definition child_pending :: "'c world \<Rightarrow> addr \<Rightarrow> bool" where
  "child_pending w n \<longleftrightarrow>
     (\<forall>c \<in> set (pending_of w n). c \<in> heap w \<longrightarrow> parent_of w c = n) \<and> (\<exists>c \<in> set (pending_of w n). c \<in> heap w)"

text \<open>C20. A tick (\<open>Node::run\<close>) of any node, in any world that node operations can lead to. When nothing is pending in its
  subtree and the nodes' own \<open>update()\<close> succeeds and leaves the nodes as they are, it calls \<open>update()\<close> of every node of the
  subtree exactly once, of every node before its ancestors, and does nothing else. When children of it are pending and
  at least one of them still exists, it does not get that far: the destructor of the first such child erases it from
  \<open>m_childrenToDelete\<close>, the vector the loop is iterating over, and the loop goes on with an invalid iterator.\<close>

theorem node_run_ticks:
  assumes "reachable w" "n \<in> heap w" "card (heap w) \<le> k"
  shows "(nothing_pending w n \<and> keeps_nodes update f w \<longrightarrow>
      (\<exists>order. distinct order \<and> set order = sub w n \<and> sorted_wrt (\<lambda>a b. (b, a) \<notin> (prel w)\<^sup>+) order \<and>
         Node_run (Suc k) update n w = Inr (fold f order w))) \<and>
    (child_pending w n \<longrightarrow> Node_run (Suc k) update n w = Inl (IteratorInvalidated n))"
proof (intro conjI impI)
  have w: "world_ok w" by (rule reachable_ok [OF assms(1)])
  obtain nd where nd: "w_nodes w n = Some nd" using assms(2) by blast
  have k: "card (sub w n) \<le> Suc k" using fuel_enough [OF w assms(2,3)] by simp
  show "\<exists>order. distinct order \<and> set order = sub w n \<and> sorted_wrt (\<lambda>a b. (b, a) \<notin> (prel w)\<^sup>+) order \<and>
      Node_run (Suc k) update n w = Inr (fold f order w)" if quiet: "nothing_pending w n \<and> keeps_nodes update f w"
  proof (intro exI conjI)
    show "Node_run (Suc k) update n w = Inr (fold f (tick_order (Suc k) w n) w)"
      by (rule quiet_tick [OF w _ assms(2) k]) (use quiet in \<open>auto simp: nothing_pending_def keeps_nodes_def\<close>)
  qed (use tick_order_ok [OF w assms(2) k] in blast)+
  have "n \<noteq> nullptr" using node_facts(3) [OF world_okD(1) [OF w] nd] .
  then show "Node_run (Suc k) update n w = Inl (IteratorInvalidated n)" if "child_pending w n"
    using deletes_invalid [OF _ w assms(3) subset_refl assms(2)] that nd by (simp add: child_pending_def pending_of_def)
qed

text \<open>A tick of the family that counts its updates, and one after the grandchild has called \<open>deleteLater\<close>.\<close>

definition leaving :: "unit world" where
  "leaving = (case Node_deleteLater main_thread 12 family of Inr w \<Rightarrow> w | Inl _ \<Rightarrow> family)"

lemma leaving_facts: "reachable leaving" "heap leaving = {10, 11, 12}" "child_pending leaving 11"
  "nothing_pending family 10"
proof -
  have n: "12 \<in> heap family" by (simp add: family_facts(2))
  obtain w' where w': "Node_deleteLater main_thread 12 family = Inr w'"
    using good_deleteLater [OF reachable_ok [OF family_facts(1)] n] by (auto simp: good_def)
  then have l: "leaving = w'" by (simp add: leaving_def)
  show "reachable leaving"
    using reachable_step [OF family_facts(1), of w'] node_step.deleteLater [OF n, of main_thread] w' by (simp add: l)
  have pend: "pending_of leaving 11 = [12]" "parent_of leaving 12 = 11" and h: "heap leaving = {10, 11, 12}"
    by (auto simp: leaving_def family_def node_eval pending_of_def parent_of_def)
  show "heap leaving = {10, 11, 12}" by (rule h)
  show "child_pending leaving 11" unfolding child_pending_def pend h by (simp add: pend)
  have "pending_of family m = []" for m by (simp add: family_def node_eval pending_of_def)
  then show "nothing_pending family 10" by (simp add: nothing_pending_def)
qed

theorem node_run_ticks_witness:
  "(\<exists>order. distinct order \<and> set order = sub family 10 \<and> Node_run 4 (\<lambda>m v. Inr (v\<lparr>w_nextGeneration := w_nextGeneration v + 1\<rparr>)) 10 family
      = Inr (fold (\<lambda>m v. v\<lparr>w_nextGeneration := w_nextGeneration v + 1\<rparr>) order family))
   \<and> Node_run 4 (\<lambda>m v. Inr v) 11 leaving = Inl (IteratorInvalidated 11)"
proof
  let ?f = "\<lambda>(m :: addr) (v :: unit world). v\<lparr>w_nextGeneration := w_nextGeneration v + 1\<rparr>"
  have "10 \<in> heap family" "card (heap family) \<le> 3" "keeps_nodes (\<lambda>m v. Inr (?f m v)) ?f family"
    by (simp_all add: family_facts(2) keeps_nodes_def)
  then show "\<exists>order. distinct order \<and> set order = sub family 10 \<and> Node_run 4 (\<lambda>m v. Inr (?f m v)) 10 family = Inr (fold ?f order family)"
    using node_run_ticks [OF family_facts(1), of 10 3 "\<lambda>m v. Inr (?f m v)" ?f] leaving_facts(4)
    unfolding eval_nat_numeral(3) [of "num.Bit1 num.One", symmetric] by auto
  have "11 \<in> heap leaving" "card (heap leaving) \<le> 3" by (simp_all add: leaving_facts(2))
  then show "Node_run 4 (\<lambda>m v. Inr v) 11 leaving = Inl (IteratorInvalidated 11)"
    using node_run_ticks [OF leaving_facts(1), of 11 3 "\<lambda>m v. Inr v" "\<lambda>m v. v"] leaving_facts(3) by (simp add: eval_nat_numeral)
qed

end
