(* ===== verification/Signals.thy ===== *)
theory Signals
  imports NodeProperties "HOL-Library.Multiset"
begin

text \<open>
  Signals and slots (\<open>Core/src/SNFCore/Connection.h\<close>). A connection has a shared flag, a slot has a callable
  and, unless it is a free function, a \<open>NodePtr\<close> to its receiver. An emission works on a snapshot of the slots;
  each slot is called at once, posted to the receiver's owner, or dropped. A posted call that
  finds its receiver elsewhere is forwarded. Emissions of any number of threads, posted calls,
  disconnections and everything that happens to the nodes (\<open>node_step\<close>) interleave freely, slot by slot;
  what a slot does to nodes and connections is part of that. Arguments are values of the type \<open>'a\<close>.
\<close>

section \<open>Connections and slots\<close>

datatype ConnectionType = Direct | Queued | Auto

text \<open>\<open>ConnectionState\<close> is shared between the handle, the slot and posted calls: a number that looks up its flag.\<close>

type_synonym ConnectionState = nat

record 'f SlotEntry =
  se_state :: ConnectionState
  se_receiver :: "NodePtr option"
  se_callable :: 'f
  se_type :: ConnectionType

type_synonym 'f Signal = "'f SlotEntry list"

definition Signal_connect :: "ConnectionState \<Rightarrow> 'f \<Rightarrow> 'f Signal \<Rightarrow> 'f Signal" where
  "Signal_connect s f slots = slots @ [\<lparr>se_state = s, se_receiver = None, se_callable = f, se_type = Direct\<rparr>]"

definition Signal_connect_receiver :: "ConnectionState \<Rightarrow> NodePtr \<Rightarrow> 'f \<Rightarrow> ConnectionType \<Rightarrow> 'f Signal \<Rightarrow> 'f Signal" where
  "Signal_connect_receiver s r f t slots = slots @ [\<lparr>se_state = s, se_receiver = Some r, se_callable = f, se_type = t\<rparr>]"

definition pruneDisconnected :: "(ConnectionState \<Rightarrow> bool) \<Rightarrow> 'f Signal \<Rightarrow> 'f Signal" where
  "pruneDisconnected conn slots = filter (\<lambda>e. conn (se_state e)) slots"

definition canInvokeReceiver :: "NodePtr \<Rightarrow> 'c world \<Rightarrow> bool" where
  "canInvokeReceiver r w \<longleftrightarrow> NodePtr_bool r w \<and> \<not> NodePtr_isMarkedToDelete r w"


section \<open>Delivery\<close>

datatype delivery = Invoke | Post addr | Drop | Disconnect

text \<open>\<open>entry->invoke\<close> on the emitting thread.\<close>

definition invokeNow :: "(ConnectionState \<Rightarrow> bool) \<Rightarrow> ConnectionState \<Rightarrow> NodePtr \<Rightarrow> 'c world \<Rightarrow> delivery" where
  "invokeNow conn s r w = (if \<not> conn s \<or> \<not> canInvokeReceiver r w then Drop else Invoke)"

definition SlotEntry_invoke :: "thread_context \<Rightarrow> (ConnectionState \<Rightarrow> bool) \<Rightarrow> 'f SlotEntry \<Rightarrow> 'c world \<Rightarrow> delivery" where
  "SlotEntry_invoke cx conn e w =
     (case se_receiver e of
        None \<Rightarrow> Invoke
      | Some r \<Rightarrow>
          if \<not> conn (se_state e) then Drop
          else if \<not> canInvokeReceiver r w then Disconnect
          else let owner = (if se_type e = Direct then nullptr else NodePtr_ownerExecutor r w);
                   queue = (se_type e = Queued \<or> se_type e = Auto \<and> owner \<noteq> nullptr \<and> \<not> isCurrent cx owner)
               in if queue then (if owner = nullptr then Disconnect else Post owner)
                  else invokeNow conn (se_state e) r w)"

text \<open>The closure of \<open>postToReceiverOwner\<close>, running in the executor it was posted to.\<close>

record ('f, 'a) SlotTask =
  sk_entry :: "'f SlotEntry"
  sk_args :: 'a

definition run_posted :: "addr \<Rightarrow> (ConnectionState \<Rightarrow> bool) \<Rightarrow> ('f, 'a) SlotTask \<Rightarrow> 'c world \<Rightarrow> delivery" where
  "run_posted executor conn k w =
     (case se_receiver (sk_entry k) of
        None \<Rightarrow> Drop
      | Some r \<Rightarrow>
          if \<not> canInvokeReceiver r w then Drop
          else let owner = NodePtr_ownerExecutor r w
               in if owner \<noteq> nullptr \<and> owner \<noteq> executor then Post owner
                  else invokeNow conn (se_state (sk_entry k)) r w)"


section \<open>Everything that goes on\<close>

text \<open>
  \<open>hb_emitting\<close> holds the emissions under way: the thread, the slots of the snapshot that are still to be
  visited, the arguments. \<open>hb_posted\<close> lists the posted calls with their executors, oldest first.
  The rest is history: all deliveries begun, those given up, and the calls made, each with the place (the thread that
  emits, or the executor that runs a posted call), the connection flags and the nodes at that moment.
\<close>

record ('f, 'a, 'c) slot_call =
  ca_entry :: "'f SlotEntry"
  ca_args :: 'a
  ca_place :: "thread_context + addr"
  ca_connected :: "ConnectionState \<Rightarrow> bool"
  ca_world :: "'c world"

record ('f, 'a, 'c) hub =
  hb_world :: "'c world"
  hb_signals :: "nat \<Rightarrow> 'f Signal"
  hb_connected :: "ConnectionState \<Rightarrow> bool"
  hb_nextState :: ConnectionState
  hb_emitting :: "(thread_context \<times> 'f SlotEntry list \<times> 'a) list"
  hb_posted :: "(addr \<times> ('f, 'a) SlotTask) list"
  hb_begun :: "('f SlotEntry \<times> 'a) multiset"
  hb_dropped :: "('f SlotEntry \<times> 'a) multiset"
  hb_calls :: "('f, 'a, 'c) slot_call list"

text \<open>\<open>executor->post\<close>: a strand that is retired throws the call away.\<close>

definition accepts_posts :: "addr \<Rightarrow> 'c world \<Rightarrow> bool" where
  "accepts_posts x w \<longleftrightarrow> is_loop x w \<or> \<not> is_retired x w"

text \<open>What becomes of a delivery.\<close>

definition deliver :: "thread_context + addr \<Rightarrow> delivery \<Rightarrow> 'f SlotEntry \<Rightarrow> 'a \<Rightarrow> ('f, 'a, 'c) hub \<Rightarrow> ('f, 'a, 'c) hub" where
  "deliver place d e a h =
     (case d of
        Invoke \<Rightarrow> h\<lparr>hb_calls := hb_calls h @
          [\<lparr>ca_entry = e, ca_args = a, ca_place = place, ca_connected = hb_connected h, ca_world = hb_world h\<rparr>]\<rparr>
      | Post owner \<Rightarrow>
          if accepts_posts owner (hb_world h) then h\<lparr>hb_posted := hb_posted h @ [(owner, \<lparr>sk_entry = e, sk_args = a\<rparr>)]\<rparr>
          else h\<lparr>hb_dropped := add_mset (e, a) (hb_dropped h)\<rparr>
      | Drop \<Rightarrow> h\<lparr>hb_dropped := add_mset (e, a) (hb_dropped h)\<rparr>
      | Disconnect \<Rightarrow> h\<lparr>hb_connected := (hb_connected h)(se_state e := False),
                         hb_dropped := add_mset (e, a) (hb_dropped h)\<rparr>)"

text \<open>\<open>emit\<close>: pruning and the snapshot, then one round of its loop.\<close>

definition emit_begin :: "thread_context \<Rightarrow> nat \<Rightarrow> 'a \<Rightarrow> ('f, 'a, 'c) hub \<Rightarrow> ('f, 'a, 'c) hub" where
  "emit_begin cx s a h =
     (let snapshot = pruneDisconnected (hb_connected h) (hb_signals h s)
      in h\<lparr>hb_signals := (hb_signals h)(s := snapshot), hb_emitting := hb_emitting h @ [(cx, snapshot, a)],
           hb_begun := hb_begun h + mset (map (\<lambda>e. (e, a)) snapshot)\<rparr>)"

definition emit_visit :: "nat \<Rightarrow> ('f, 'a, 'c) hub \<Rightarrow> ('f, 'a, 'c) hub" where
  "emit_visit i h =
     (case hb_emitting h ! i of
        (cx, [], a) \<Rightarrow> h\<lparr>hb_emitting := take i (hb_emitting h) @ drop (Suc i) (hb_emitting h)\<rparr>
      | (cx, e # es, a) \<Rightarrow>
          deliver (Inl cx) (if \<not> hb_connected h (se_state e) then Drop else SlotEntry_invoke cx (hb_connected h) e (hb_world h)) e a
            (h\<lparr>hb_emitting := (hb_emitting h)[i := (cx, es, a)]\<rparr>))"

text \<open>The executor \<open>x\<close> runs the next call posted to it.\<close>

definition run_next :: "addr \<Rightarrow> ('f, 'a, 'c) hub \<Rightarrow> ('f, 'a, 'c) hub" where
  "run_next x h =
     (case List.extract (\<lambda>(y, k). y = x) (hb_posted h) of
        None \<Rightarrow> h
      | Some (before, (_, k), later) \<Rightarrow>
          deliver (Inr x) (run_posted x (hb_connected h) k (hb_world h)) (sk_entry k) (sk_args k)
            (h\<lparr>hb_posted := before @ later\<rparr>))"

definition Connection_disconnect :: "ConnectionState \<Rightarrow> ('f, 'a, 'c) hub \<Rightarrow> ('f, 'a, 'c) hub" where
  "Connection_disconnect s h = h\<lparr>hb_connected := (hb_connected h)(s := False)\<rparr>"

text \<open>\<open>connect\<close> with the shared state it makes.\<close>

definition hub_connect :: "nat \<Rightarrow> (ConnectionState \<Rightarrow> 'f Signal \<Rightarrow> 'f Signal) \<Rightarrow> ('f, 'a, 'c) hub \<Rightarrow> ('f, 'a, 'c) hub" where
  "hub_connect s f h = h\<lparr>hb_signals := (hb_signals h)(s := f (hb_nextState h) (hb_signals h s)),
     hb_connected := (hb_connected h)(hb_nextState h := True), hb_nextState := hb_nextState h + 1\<rparr>"

definition hub_start :: "'c world \<Rightarrow> ('f, 'a, 'c) hub" where
  "hub_start w = \<lparr>hb_world = w, hb_signals = \<lambda>_. [], hb_connected = \<lambda>_. False, hb_nextState = 0, hb_emitting = [],
     hb_posted = [], hb_begun = {#}, hb_dropped = {#}, hb_calls = []\<rparr>"

inductive hub_step :: "('f, 'a, 'c) hub \<Rightarrow> ('f, 'a, 'c) hub \<Rightarrow> bool" where
  connect: "hub_step h (hub_connect s (\<lambda>c. Signal_connect c f) h)"
| connect_receiver: "hub_step h (hub_connect s (\<lambda>c. Signal_connect_receiver c (NodePtr_new n (hb_world h)) f t) h)"
| disconnect: "hub_step h (Connection_disconnect c h)"
| emit: "hub_step h (emit_begin cx s a h)"
| visit: "i < length (hb_emitting h) \<Longrightarrow> hub_step h (emit_visit i h)"
| run: "hub_step h (run_next x h)"
| nodes: "node_step (hb_world h) (Inr w) \<Longrightarrow> hub_step h (h\<lparr>hb_world := w\<rparr>)"

inductive hub_reachable :: "('f, 'a, 'c) hub \<Rightarrow> bool" where
  start: "reachable w \<Longrightarrow> hub_reachable (hub_start w)"
| step: "hub_reachable h \<Longrightarrow> hub_step h h' \<Longrightarrow> hub_reachable h'"


section \<open>Deliveries are conserved, calls find their receiver\<close>

definition receiver_ok :: "'c world \<Rightarrow> 'f SlotEntry \<Rightarrow> bool" where
  "receiver_ok w e \<longleftrightarrow> (case se_receiver e of None \<Rightarrow> True
     | Some r \<Rightarrow> (case np_block r of None \<Rightarrow> True | Some b \<Rightarrow> handle_ok (np_node r) b w))"

text \<open>A call found its connection open and its receiver, the node the connection was made with, in place and not
  about to be deleted; a queued or automatic call ran inside the receiver's owner, if it has one.\<close>

definition call_ok :: "('f, 'a, 'c) slot_call \<Rightarrow> bool" where
  "call_ok c \<longleftrightarrow> ca_connected c (se_state (ca_entry c)) \<and>
     (case se_receiver (ca_entry c) of None \<Rightarrow> True
      | Some r \<Rightarrow> np_node r \<in> heap (ca_world c) \<and> block_of (ca_world c) (np_node r) = np_block r
          \<and> \<not> NodePtr_isMarkedToDelete r (ca_world c)
          \<and> (se_type (ca_entry c) = Direct \<or> owner_of (ca_world c) (np_node r) = nullptr
             \<or> (case ca_place c of Inl cx \<Rightarrow> isCurrent cx (owner_of (ca_world c) (np_node r))
                | Inr x \<Rightarrow> x = owner_of (ca_world c) (np_node r))))"

definition being_emitted :: "('f, 'a, 'c) hub \<Rightarrow> ('f SlotEntry \<times> 'a) multiset" where
  "being_emitted h = (\<Sum>(cx, es, a) \<leftarrow> hb_emitting h. mset (map (\<lambda>e. (e, a)) es))"

definition posted_calls :: "('f, 'a, 'c) hub \<Rightarrow> ('f SlotEntry \<times> 'a) multiset" where
  "posted_calls h = mset (map (\<lambda>(x, k). (sk_entry k, sk_args k)) (hb_posted h))"

definition calls_made :: "('f, 'a, 'c) hub \<Rightarrow> ('f SlotEntry \<times> 'a) multiset" where
  "calls_made h = mset (map (\<lambda>c. (ca_entry c, ca_args c)) (hb_calls h))"

definition conserved :: "('f, 'a, 'c) hub \<Rightarrow> bool" where
  "conserved h \<longleftrightarrow> hb_begun h = calls_made h + hb_dropped h + being_emitted h + posted_calls h"

definition all_slots :: "('f, 'a, 'c) hub \<Rightarrow> 'f SlotEntry set" where
  "all_slots h = (\<Union>s. set (hb_signals h s)) \<union> (\<Union>(cx, es, a) \<in> set (hb_emitting h). set es) \<union> sk_entry ` snd ` set (hb_posted h)"

definition hub_ok :: "('f, 'a, 'c) hub \<Rightarrow> bool" where
  "hub_ok h \<longleftrightarrow> world_ok (hb_world h) \<and> (\<forall>e \<in> all_slots h. receiver_ok (hb_world h) e) \<and> conserved h
     \<and> (\<forall>(x, k) \<in> set (hb_posted h). se_receiver (sk_entry k) \<noteq> None) \<and> (\<forall>c \<in> set (hb_calls h). call_ok c)"

lemma invokable_receiver:
  assumes w: "world_ok w" and e: "receiver_ok w e" "se_receiver e = Some r" and c: "canInvokeReceiver r w"
  shows "np_node r \<in> heap w \<and> block_of w (np_node r) = np_block r \<and> \<not> NodePtr_isMarkedToDelete r w
    \<and> NodePtr_ownerExecutor r w = owner_of w (np_node r)"
proof -
  obtain b where b: "np_block r = Some b" "block_alive b w" "\<not> NodePtr_isMarkedToDelete r w"
    using c by (auto simp: canInvokeReceiver_def NodePtr_bool_def NodePtr_isAlive_def split: option.splits)
  then have "handle_ok (np_node r) b w" using e by (simp add: receiver_ok_def)
  then obtain nd where "w_nodes w (np_node r) = Some nd" "nd_block nd = b" using b(2) handle_node by metis
  then show ?thesis using b node_views(4,5) [of w "np_node r" nd] by (auto simp: NodePtr_ownerExecutor_def)
qed

lemma direct_call_ok:
  assumes w: "world_ok w" and e: "receiver_ok w e" "conn (se_state e)" and d: "SlotEntry_invoke cx conn e w = Invoke"
  shows "call_ok \<lparr>ca_entry = e, ca_args = a, ca_place = Inl cx, ca_connected = conn, ca_world = w\<rparr>"
proof (cases "se_receiver e")
  case (Some r)
  then have c: "canInvokeReceiver r w" and t: "se_type e = Direct \<or> NodePtr_ownerExecutor r w = nullptr \<or> isCurrent cx (NodePtr_ownerExecutor r w)"
    using d by (auto simp: SlotEntry_invoke_def invokeNow_def Let_def split: if_splits)
      (cases "se_type e"; simp)+
  then show ?thesis using invokable_receiver [OF w e(1) Some c] Some e(2) by (auto simp: call_ok_def)
qed (use e(2) in \<open>simp add: call_ok_def\<close>)

lemma posted_call_ok:
  assumes w: "world_ok w" and e: "receiver_ok w (sk_entry k)" and d: "run_posted x conn k w = Invoke"
  shows "call_ok \<lparr>ca_entry = sk_entry k, ca_args = a, ca_place = Inr x, ca_connected = conn, ca_world = w\<rparr>"
proof -
  obtain r where r: "se_receiver (sk_entry k) = Some r" using d by (auto simp: run_posted_def split: option.splits)
  then have c: "canInvokeReceiver r w" "conn (se_state (sk_entry k))"
    and t: "NodePtr_ownerExecutor r w = nullptr \<or> NodePtr_ownerExecutor r w = x"
    using d by (auto simp: run_posted_def invokeNow_def Let_def split: if_splits)
  then show ?thesis using invokable_receiver [OF w e r c(1)] r by (auto simp: call_ok_def)
qed

text \<open>A delivery ends in exactly one place.\<close>

lemma deliver_ok:
  assumes h: "world_ok (hb_world h)" "\<forall>e \<in> insert e (all_slots h). receiver_ok (hb_world h) e"
    "hb_begun h = add_mset (e, a) (calls_made h + hb_dropped h + being_emitted h + posted_calls h)"
    "\<forall>(x, k) \<in> set (hb_posted h). se_receiver (sk_entry k) \<noteq> None" "\<forall>c \<in> set (hb_calls h). call_ok c"
    and i: "d = Invoke \<Longrightarrow> call_ok \<lparr>ca_entry = e, ca_args = a, ca_place = place, ca_connected = hb_connected h, ca_world = hb_world h\<rparr>"
    and p: "\<And>x. d = Post x \<Longrightarrow> se_receiver e \<noteq> None"
  shows "hub_ok (deliver place d e a h)"
proof (cases d)
  case (Post x)
  then show ?thesis using h p by (auto simp: deliver_def hub_ok_def all_slots_def conserved_def calls_made_def being_emitted_def posted_calls_def)
qed (use h i in \<open>auto simp: deliver_def hub_ok_def all_slots_def conserved_def calls_made_def being_emitted_def posted_calls_def\<close>)


text \<open>Every step keeps the invariant.\<close>

lemma receiver_ok_new: "world_ok w \<Longrightarrow> se_receiver e = Some (NodePtr_new n w) \<Longrightarrow> receiver_ok w e"
proof -
  assume w: "world_ok w" and e: "se_receiver e = Some (NodePtr_new n w)"
  show ?thesis
  proof (cases "np_block (NodePtr_new n w)")
    case (Some b)
    then have "w_registry w n = Some b" by (auto simp: NodePtr_new_def NodeRegistry_lookup_def split: if_splits)
    then have b: "live w n" "block_of w n = Some b"
      using world_okD(1) [OF w] unfolding node_inv_def registry_ok_def by (metis option.distinct(1))+
    then obtain nd where "w_nodes w n = Some nd" "nd_block nd = b" by (auto simp: block_of_def)
    then have "handle_ok n b w" using handle_live [OF world_okD(1) [OF w]] by blast
    then show ?thesis using e Some by (simp add: receiver_ok_def) (simp add: NodePtr_new_def)
  qed (simp add: receiver_ok_def e)
qed

lemma receiver_ok_kept: "handles_kept w w' \<Longrightarrow> receiver_ok w e \<Longrightarrow> receiver_ok w' e"
  by (auto simp: receiver_ok_def handles_kept_def split: option.splits)

lemma emissions_at:
  "i < length xs \<Longrightarrow> \<exists>us x vs. xs = us @ x # vs \<and> length us = i"
  using id_take_nth_drop [of i xs] by (intro exI [of _ "take i xs"] exI [of _ "xs ! i"] exI [of _ "drop (Suc i) xs"]) simp

lemma hub_ok_slots:
  assumes "hub_ok h" "hb_world h' = hb_world h" "all_slots h' \<subseteq> all_slots h \<union> N" "\<forall>e \<in> N. receiver_ok (hb_world h) e"
    "hb_posted h' = hb_posted h" "hb_calls h' = hb_calls h" "conserved h'"
  shows "hub_ok h'"
proof -
  have "\<forall>e \<in> all_slots h'. receiver_ok (hb_world h) e" using assms(1,3,4) unfolding hub_ok_def by blast
  then show ?thesis using assms(1,2,5-7) by (simp add: hub_ok_def)
qed

lemma visit_ok:
  assumes h: "hub_ok h" and i: "i < length (hb_emitting h)"
  shows "hub_ok (emit_visit i h)"
proof -
  obtain us cx es a vs where em: "hb_emitting h = us @ (cx, es, a) # vs" "length us = i"
    using emissions_at [OF i] by (metis prod_cases3)
  then have at: "hb_emitting h ! i = (cx, es, a)" "take i (hb_emitting h) = us" "drop (Suc i) (hb_emitting h) = vs" by auto
  show ?thesis
  proof (cases es)
    case Nil
    have step: "emit_visit i h = h\<lparr>hb_emitting := us @ vs\<rparr>" using Nil at by (simp add: emit_visit_def)
    have "all_slots (h\<lparr>hb_emitting := us @ vs\<rparr>) \<subseteq> all_slots h \<union> {}" using em by (auto simp: all_slots_def)
    moreover have "conserved (h\<lparr>hb_emitting := us @ vs\<rparr>)" using h em Nil
      by (simp add: hub_ok_def conserved_def being_emitted_def posted_calls_def calls_made_def)
    ultimately show ?thesis unfolding step by (intro hub_ok_slots [OF h, of _ "{}"]) auto
  next
    case (Cons e es')
    let ?d = "if \<not> hb_connected h (se_state e) then Drop else SlotEntry_invoke cx (hb_connected h) e (hb_world h)"
    let ?h = "h\<lparr>hb_emitting := us @ (cx, es', a) # vs\<rparr>"
    have step: "emit_visit i h = deliver (Inl cx) ?d e a ?h"
      using at(1) em Cons by (auto simp: emit_visit_def list_update_append)
    have slots: "insert e (all_slots ?h) \<subseteq> all_slots h" using em Cons by (auto simp: all_slots_def)
    have "?d = Invoke \<Longrightarrow> call_ok \<lparr>ca_entry = e, ca_args = a, ca_place = Inl cx, ca_connected = hb_connected ?h, ca_world = hb_world ?h\<rparr>"
      using direct_call_ok [of "hb_world h" e "hb_connected h" cx a] h slots by (auto simp: hub_ok_def split: if_splits)
    moreover have "?d = Post x \<Longrightarrow> se_receiver e \<noteq> None" for x
      by (auto simp: SlotEntry_invoke_def split: if_splits option.splits)
    moreover have "hb_begun ?h = add_mset (e, a) (calls_made ?h + hb_dropped ?h + being_emitted ?h + posted_calls ?h)"
      using h em Cons by (simp add: hub_ok_def conserved_def being_emitted_def posted_calls_def calls_made_def)
    ultimately show ?thesis unfolding step using h slots by (intro deliver_ok) (auto simp: hub_ok_def)
  qed
qed

lemma run_ok:
  assumes h: "hub_ok h"
  shows "hub_ok (run_next x h)"
proof (cases "List.extract (\<lambda>(y, k). y = x) (hb_posted h)")
  case None
  then show ?thesis using h by (simp add: run_next_def)
next
  case (Some r)
  then obtain before y k later where r: "r = (before, (y, k), later)" and ps: "hb_posted h = before @ (y, k) # later"
    by (cases r) (auto simp: extract_Some_iff)
  let ?d = "run_posted x (hb_connected h) k (hb_world h)" and ?h = "h\<lparr>hb_posted := before @ later\<rparr>"
  have step: "run_next x h = deliver (Inr x) ?d (sk_entry k) (sk_args k) ?h" using Some r by (simp add: run_next_def)
  have slots: "insert (sk_entry k) (all_slots ?h) \<subseteq> all_slots h" using ps by (auto simp: all_slots_def image_iff)
  have "?d = Invoke \<Longrightarrow> call_ok \<lparr>ca_entry = sk_entry k, ca_args = sk_args k, ca_place = Inr x, ca_connected = hb_connected ?h, ca_world = hb_world ?h\<rparr>"
    using posted_call_ok [of "hb_world h" k x "hb_connected h" "sk_args k"] h slots by (auto simp: hub_ok_def)
  moreover have "?d = Post u \<Longrightarrow> se_receiver (sk_entry k) \<noteq> None" for u
    by (auto simp: run_posted_def split: option.splits)
  moreover have "hb_begun ?h = add_mset (sk_entry k, sk_args k) (calls_made ?h + hb_dropped ?h + being_emitted ?h + posted_calls ?h)"
    using h ps by (simp add: hub_ok_def conserved_def being_emitted_def posted_calls_def calls_made_def)
  ultimately show ?thesis unfolding step using h slots ps by (intro deliver_ok) (auto simp: hub_ok_def)
qed

lemma hub_step_ok: "hub_step h h' \<Longrightarrow> hub_ok h \<Longrightarrow> hub_ok h'"
proof (induction rule: hub_step.induct)
  case (connect h s f)
  let ?e = "\<lparr>se_state = hb_nextState h, se_receiver = None, se_callable = f, se_type = Direct\<rparr>"
  have "all_slots (hub_connect s (\<lambda>c. Signal_connect c f) h) \<subseteq> all_slots h \<union> {?e}"
    by (auto simp: all_slots_def hub_connect_def Signal_connect_def split: if_splits)
  then show ?case using connect
    by (intro hub_ok_slots [OF connect])
      (auto simp: hub_ok_def hub_connect_def receiver_ok_def conserved_def being_emitted_def posted_calls_def calls_made_def)
next
  case (connect_receiver h s n f t)
  let ?e = "\<lparr>se_state = hb_nextState h, se_receiver = Some (NodePtr_new n (hb_world h)), se_callable = f, se_type = t\<rparr>"
  have "world_ok (hb_world h)" using connect_receiver by (simp add: hub_ok_def)
  then have "receiver_ok (hb_world h) ?e" by (rule receiver_ok_new) simp
  moreover have "all_slots (hub_connect s (\<lambda>c. Signal_connect_receiver c (NodePtr_new n (hb_world h)) f t) h) \<subseteq> all_slots h \<union> {?e}"
    by (auto simp: all_slots_def hub_connect_def Signal_connect_receiver_def split: if_splits)
  ultimately show ?case using connect_receiver
    by (intro hub_ok_slots [OF connect_receiver])
      (auto simp: hub_ok_def hub_connect_def conserved_def being_emitted_def posted_calls_def calls_made_def)
next
  case (disconnect h c)
  then show ?case
    by (intro hub_ok_slots [OF disconnect, of _ "{}"])
      (auto simp: hub_ok_def Connection_disconnect_def all_slots_def conserved_def being_emitted_def posted_calls_def calls_made_def)
next
  case (emit h cx s a)
  have "all_slots (emit_begin cx s a h) \<subseteq> all_slots h \<union> {}"
    by (auto simp: all_slots_def emit_begin_def pruneDisconnected_def Let_def split: if_splits)
  then show ?case using emit
    by (intro hub_ok_slots [OF emit])
      (auto simp: hub_ok_def emit_begin_def Let_def conserved_def being_emitted_def posted_calls_def calls_made_def)
next
  case (visit i h)
  then show ?case by (rule visit_ok [rotated])
next
  case (run h x)
  then show ?case by (rule run_ok)
next
  case (nodes h w)
  then have "world_ok w" "handles_kept (hb_world h) w" using step_ok [OF nodes.hyps] by (auto simp: hub_ok_def)
  moreover have "all_slots (h\<lparr>hb_world := w\<rparr>) = all_slots h" by (simp add: all_slots_def)
  moreover have "conserved (h\<lparr>hb_world := w\<rparr>) = conserved h"
    by (simp add: conserved_def being_emitted_def posted_calls_def calls_made_def)
  moreover have "\<forall>e \<in> all_slots h. receiver_ok w e"
    using nodes.prems receiver_ok_kept [OF \<open>handles_kept (hb_world h) w\<close>] unfolding hub_ok_def by blast
  ultimately show ?case using nodes.prems by (simp add: hub_ok_def)
qed

lemma hub_reachable_ok: "hub_reachable h \<Longrightarrow> hub_ok h"
proof (induction rule: hub_reachable.induct)
  case (start w)
  then show ?case using reachable_ok [OF start]
    by (simp add: hub_ok_def hub_start_def all_slots_def conserved_def being_emitted_def posted_calls_def calls_made_def)
next
  case (step h h')
  then show ?case using hub_step_ok by blast
qed


text \<open>C21. However emissions, posted calls, disconnections and the life of the nodes interleave: no delivery is
  duplicated or lost (each one begun was called, given up, or is still waiting in exactly one place), and every call
  finds its connection open and its receiver allocated, the very node the slot was connected to, and not marked for
  deletion; unless the connection is direct, it runs inside the receiver's owner at that moment, also
  after the receiver has moved.\<close>

theorem slots_called_once_in_their_owner:
  "hub_reachable h \<Longrightarrow> hb_begun h = calls_made h + hb_dropped h + being_emitted h + posted_calls h
     \<and> (\<forall>c \<in> set (hb_calls h). call_ok c)"
  using hub_reachable_ok unfolding hub_ok_def conserved_def by blast

text \<open>A queued slot of node 11 of the family, emitted with the argument 7, ends up being called on loop 5.\<close>

definition queued_slot :: "string SlotEntry" where
  "queued_slot = \<lparr>se_state = 0, se_receiver = Some (NodePtr_new 11 family), se_callable = ''slot'', se_type = Queued\<rparr>"

definition queued_call :: "(string, nat, unit) hub" where
  "queued_call = run_next 5 (emit_visit 0 (emit_begin main_thread 0 7
     (hub_connect 0 (\<lambda>c. Signal_connect_receiver c (NodePtr_new 11 family) ''slot'' Queued) (hub_start family))))"

lemma family_receiver: "canInvokeReceiver (NodePtr_new 11 family) family" "NodePtr_ownerExecutor (NodePtr_new 11 family) family = 5"
  "accepts_posts 5 family"
  by (simp_all add: canInvokeReceiver_def NodePtr_ownerExecutor_def accepts_posts_def family_def is_retired_def node_eval)

lemma queued_call_steps: "hub_reachable queued_call"
proof -
  define h :: "(string, nat, unit) hub" where "h = hub_start family"
  have "hb_world h = family" by (simp add: h_def hub_start_def)
  then have "hub_step h (hub_connect 0 (\<lambda>c. Signal_connect_receiver c (NodePtr_new 11 family) ''slot'' Queued) h)"
    using hub_step.connect_receiver [of h 0 11 "''slot''" Queued] by simp
  moreover have "hub_reachable h" unfolding h_def by (rule hub_reachable.start [OF family_facts(1)])
  ultimately show ?thesis unfolding queued_call_def h_def [symmetric]
    by (intro hub_reachable.step [OF _ hub_step.run] hub_reachable.step [OF _ hub_step.visit] hub_reachable.step [OF _ hub_step.emit])
      (auto simp: emit_begin_def Let_def intro: hub_reachable.step)
qed

lemma queued_call_made: "calls_made queued_call = {#(queued_slot, 7)#}" "hb_dropped queued_call = {#}"
  "being_emitted queued_call = {#}" "posted_calls queued_call = {#}"
  by (simp_all add: queued_call_def hub_connect_def hub_start_def Signal_connect_receiver_def emit_begin_def pruneDisconnected_def Let_def
      emit_visit_def SlotEntry_invoke_def run_next_def run_posted_def invokeNow_def deliver_def family_receiver extract_def
      calls_made_def being_emitted_def posted_calls_def queued_slot_def)

theorem slots_called_once_in_their_owner_witness:
  "hb_begun queued_call = {#(queued_slot, 7)#}"
  using slots_called_once_in_their_owner [OF queued_call_steps] by (simp add: queued_call_made)

end
