(* ===== verification/IoEvents.thy ===== *)
theory IoEvents
  imports EventLoop
begin

text \<open>
  \<open>snf::IOEvent\<close> (\<open>Network/src/SNFNetwork/IOEvent.h\<close>, \<open>IOEvent.cpp\<close>), the base class of all sockets: a
  node with a file descriptor that is watched by its owner, here an event loop. Every member is modelled as it runs
  inside the owner; called from elsewhere it posts itself there. A callback registered with the owner is the triple of
  the node, the descriptor and the generation it was made for (\<open>makeDispatchCallback\<close>). Closing a descriptor is
  recorded in \<open>io_closed\<close>.
\<close>

section \<open>Flags\<close>

abbreviation EPOLLIN :: u32 where "EPOLLIN \<equiv> 1"
abbreviation EPOLLOUT :: u32 where "EPOLLOUT \<equiv> 4"
abbreviation EPOLLERR :: u32 where "EPOLLERR \<equiv> 8"
abbreviation EPOLLHUP :: u32 where "EPOLLHUP \<equiv> 16"
abbreviation EPOLLRDHUP :: u32 where "EPOLLRDHUP \<equiv> 0x2000"

datatype IOEventFlag = FlagRead | FlagWrite | FlagError | FlagHangUp

fun flag_bit :: "IOEventFlag \<Rightarrow> u32" where
  "flag_bit FlagRead = 1"
| "flag_bit FlagWrite = 2"
| "flag_bit FlagError = 4"
| "flag_bit FlagHangUp = 8"

definition flags_or :: "IOEventFlag list \<Rightarrow> u32" where
  "flags_or fs = fold (\<lambda>f x. x OR flag_bit f) fs 0"

definition hasAny :: "u32 \<Rightarrow> IOEventFlag \<Rightarrow> bool" where
  "hasAny flags f \<longleftrightarrow> flags AND flag_bit f \<noteq> 0"

definition interestToNative :: "u32 \<Rightarrow> u32" where
  "interestToNative flags =
     (let native = EPOLLERR OR EPOLLHUP;
          native = (if hasAny flags FlagRead then native OR EPOLLIN else native)
      in if hasAny flags FlagWrite then native OR EPOLLOUT else native)"

definition nativeToInterest :: "u32 \<Rightarrow> u32" where
  "nativeToInterest native =
     (let flags = 0;
          flags = (if native AND EPOLLIN \<noteq> 0 then flags OR flag_bit FlagRead else flags);
          flags = (if native AND EPOLLOUT \<noteq> 0 then flags OR flag_bit FlagWrite else flags);
          flags = (if native AND EPOLLERR \<noteq> 0 then flags OR flag_bit FlagError else flags)
      in if native AND EPOLLHUP \<noteq> 0 \<or> native AND EPOLLRDHUP \<noteq> 0 then flags OR flag_bit FlagHangUp else flags)"


section \<open>State and operations\<close>

record IOEvent =
  io_fd :: int
  io_interest :: u32
  io_active :: bool
  io_generation :: u64
  io_closed :: "int list"

definition IOEvent_init :: IOEvent where
  "IOEvent_init = \<lparr>io_fd = - 1, io_interest = flag_bit FlagRead, io_active = False, io_generation = 0, io_closed = []\<rparr>"

type_synonym io_callback = "addr \<times> int \<times> u64"
type_synonym 't io_loop = "('t, io_callback) EventLoop"

definition makeDispatchCallback :: "addr \<Rightarrow> int \<Rightarrow> u64 \<Rightarrow> io_callback option" where
  "makeDispatchCallback n fd g = Some (n, fd, g)"

definition IOEvent_setDescriptor :: "addr \<Rightarrow> int \<Rightarrow> 'z IOEvent_scheme \<times> 't io_loop \<Rightarrow> 'z IOEvent_scheme \<times> 't io_loop" where
  "IOEvent_setDescriptor n fd = (\<lambda>(e, l).
     if io_fd e = fd then (e, l)
     else let previous = io_fd e;
              e1 = e\<lparr>io_fd := fd, io_generation := io_generation e + 1\<rparr>;
              l1 = (if io_active e \<and> 0 \<le> previous then EventLoop_unregisterIO previous l else l);
              l2 = (if io_active e \<and> 0 \<le> fd
                    then EventLoop_registerIO fd (interestToNative (io_interest e1)) (makeDispatchCallback n fd (io_generation e1)) l1
                    else l1)
          in (if 0 \<le> previous then e1\<lparr>io_closed := io_closed e1 @ [previous]\<rparr> else e1, l2))"

definition IOEvent_syncRegistration :: "addr \<Rightarrow> bool \<Rightarrow> 'z IOEvent_scheme \<times> 't io_loop \<Rightarrow> 'z IOEvent_scheme \<times> 't io_loop" where
  "IOEvent_syncRegistration n wasActive = (\<lambda>(e, l).
     if io_fd e < 0 then (e, l)
     else if wasActive \<and> EventLoop_hasIOWatch (io_fd e) l then (e, EventLoop_modifyIO (io_fd e) (interestToNative (io_interest e)) l)
     else if io_active e
     then (e, EventLoop_registerIO (io_fd e) (interestToNative (io_interest e)) (makeDispatchCallback n (io_fd e) (io_generation e)) l)
     else (e, l))"

definition IOEvent_setInterest :: "addr \<Rightarrow> u32 \<Rightarrow> 'z IOEvent_scheme \<times> 't io_loop \<Rightarrow> 'z IOEvent_scheme \<times> 't io_loop" where
  "IOEvent_setInterest n flags = (\<lambda>(e, l).
     if io_interest e = flags then (e, l)
     else IOEvent_syncRegistration n (io_active e) (e\<lparr>io_interest := flags\<rparr>, l))"

definition IOEvent_start :: "addr \<Rightarrow> 'z IOEvent_scheme \<times> 't io_loop \<Rightarrow> 'z IOEvent_scheme \<times> 't io_loop" where
  "IOEvent_start n = (\<lambda>(e, l).
     if \<not> io_active e then IOEvent_syncRegistration n True (e\<lparr>io_active := True, io_generation := io_generation e + 1\<rparr>, l)
     else IOEvent_syncRegistration n False (e, l))"

definition IOEvent_start_flags :: "addr \<Rightarrow> u32 \<Rightarrow> 'z IOEvent_scheme \<times> 't io_loop \<Rightarrow> 'z IOEvent_scheme \<times> 't io_loop" where
  "IOEvent_start_flags n flags s = IOEvent_start n (IOEvent_setInterest n flags s)"

definition IOEvent_stop :: "addr \<Rightarrow> 'z IOEvent_scheme \<times> 't io_loop \<Rightarrow> 'z IOEvent_scheme \<times> 't io_loop" where
  "IOEvent_stop n = (\<lambda>(e, l).
     (if io_active e then e\<lparr>io_active := False, io_generation := io_generation e + 1\<rparr> else e,
      if io_active e \<and> 0 \<le> io_fd e then EventLoop_unregisterIO (io_fd e) l else l))"

definition IOEvent_destroy :: "addr \<Rightarrow> 'z IOEvent_scheme \<times> 't io_loop \<Rightarrow> 'z IOEvent_scheme \<times> 't io_loop" where
  "IOEvent_destroy n s =
     (case IOEvent_stop n s of (e, l) \<Rightarrow> (if 0 \<le> io_fd e then e\<lparr>io_closed := io_closed e @ [io_fd e]\<rparr> else e, l))"

text \<open>The hooks of migration, on the old and on the new owner.\<close>

definition IOEvent_onAboutToMoveToThread :: "addr \<Rightarrow> 'z IOEvent_scheme \<times> 't io_loop \<Rightarrow> 'z IOEvent_scheme \<times> 't io_loop" where
  "IOEvent_onAboutToMoveToThread n = (\<lambda>(e, l).
     (e, if io_active e \<and> 0 \<le> io_fd e then EventLoop_unregisterIO (io_fd e) l else l))"

definition IOEvent_onMovedToThread :: "addr \<Rightarrow> 'z IOEvent_scheme \<times> 't io_loop \<Rightarrow> 'z IOEvent_scheme \<times> 't io_loop" where
  "IOEvent_onMovedToThread n = (\<lambda>(e, l).
     let e1 = e\<lparr>io_generation := io_generation e + 1\<rparr>
     in (e1, if io_active e \<and> 0 \<le> io_fd e
             then EventLoop_registerIO (io_fd e) (interestToNative (io_interest e)) (makeDispatchCallback n (io_fd e) (io_generation e1)) l
             else l))"

text \<open>The registered callback: \<open>there\<close> says that it runs inside the owner of a node that still exists.\<close>

definition isRegistrationCurrent :: "int \<Rightarrow> u64 \<Rightarrow> 'z IOEvent_scheme \<Rightarrow> bool" where
  "isRegistrationCurrent fd g e \<longleftrightarrow> io_fd e = fd \<and> io_generation e = g \<and> io_active e"

definition IOEvent_dispatch :: "bool \<Rightarrow> io_callback \<Rightarrow> ('z IOEvent_scheme \<Rightarrow> 'r) \<Rightarrow> 'z IOEvent_scheme \<Rightarrow> 'r option" where
  "IOEvent_dispatch there cb handle e =
     (case cb of (n, fd, g) \<Rightarrow> if \<not> there then None else if isRegistrationCurrent fd g e then Some (handle e) else None)"

text \<open>\<open>handleEvents\<close> of \<open>IOEvent\<close> itself: the signals it emits, in order.\<close>

definition IOEvent_handleEvents :: "u32 \<Rightarrow> IOEventFlag list" where
  "IOEvent_handleEvents native =
     (let flags = nativeToInterest native in filter (hasAny flags) [FlagError, FlagHangUp, FlagRead, FlagWrite])"


section \<open>The watch follows the node\<close>

definition watches :: "'t io_loop \<Rightarrow> int \<Rightarrow> io_callback IOWatchEntry option" where
  "watches l = smap_get (el_ioWatches l)"

text \<open>The watches of the node \<open>n\<close> in its loop are exactly one for its descriptor, with its interest and its current
  generation, while it is active, and none otherwise.\<close>

definition table_ok :: "'t io_loop \<Rightarrow> bool" where
  "table_ok l \<longleftrightarrow> smap_ok (el_ioWatches l) \<and> (\<forall>fd < 0. watches l fd = None)"

definition no_watch_of :: "addr \<Rightarrow> int \<Rightarrow> 't io_loop \<Rightarrow> bool" where
  "no_watch_of n except l \<longleftrightarrow> (\<forall>fd w f g. fd \<noteq> except \<and> watches l fd = Some w \<longrightarrow> iw_callback w \<noteq> Some (n, f, g))"

definition own_watch :: "addr \<Rightarrow> 'z IOEvent_scheme \<Rightarrow> (u32 \<times> io_callback option) option" where
  "own_watch n e = (if io_active e \<and> 0 \<le> io_fd e
     then Some (interestToNative (io_interest e), makeDispatchCallback n (io_fd e) (io_generation e)) else None)"

definition watch_view :: "io_callback IOWatchEntry option \<Rightarrow> (u32 \<times> io_callback option) option" where
  "watch_view = map_option (\<lambda>w. (iw_events w, iw_callback w))"

definition in_sync :: "addr \<Rightarrow> 'z IOEvent_scheme \<times> 't io_loop \<Rightarrow> bool" where
  "in_sync n = (\<lambda>(e, l). table_ok l \<and> no_watch_of n (io_fd e) l \<and> watch_view (watches l (io_fd e)) = own_watch n e)"

lemma watches_ops:
  assumes "table_ok l"
  shows "watches (EventLoop_registerIO fd ev cb l) =
      (if fd < 0 then watches l else (watches l)(fd \<mapsto> \<lparr>iw_events = ev, iw_callback = cb, iw_queued = False\<rparr>))"
    "watches (EventLoop_unregisterIO fd l) = (watches l)(fd := None)"
    "watches (EventLoop_modifyIO fd ev l) = (watches l)(fd := map_option (\<lambda>w. w\<lparr>iw_events := ev\<rparr>) (watches l fd))"
    "table_ok (EventLoop_registerIO fd ev cb l)" "table_ok (EventLoop_unregisterIO fd l)" "table_ok (EventLoop_modifyIO fd ev l)"
  using assms
  by (auto simp: table_ok_def watches_def EventLoop_registerIO_def EventLoop_unregisterIO_def EventLoop_modifyIO_def
      fun_eq_iff split: option.split)

lemma hasIOWatch_watches: "EventLoop_hasIOWatch fd l \<longleftrightarrow> watches l fd \<noteq> None"
  by (simp add: EventLoop_hasIOWatch_def watches_def)

text \<open>Where a descriptor may come from: the kernel does not hand out one that is being watched.\<close>

definition unwatched :: "int \<Rightarrow> 't io_loop \<Rightarrow> bool" where
  "unwatched fd l \<longleftrightarrow> watches l fd = None"

lemma no_watch_any:
  assumes "no_watch_of n x l" "watches l x = None"
  shows "no_watch_of n y l"
proof -
  have "iw_callback w \<noteq> Some (n, f, g)" if "watches l fd = Some w" for fd w f g
    using assms that by (cases "fd = x") (simp_all add: no_watch_of_def)
  then show ?thesis unfolding no_watch_of_def by blast
qed

lemma in_sync_setDescriptor:
  assumes "in_sync n (e, l)" "fd = io_fd e \<or> unwatched fd l"
  shows "in_sync n (IOEvent_setDescriptor n fd (e, l))"
proof (cases "fd = io_fd e")
  case True
  then show ?thesis using assms(1) by (simp add: IOEvent_setDescriptor_def)
next
  case False
  define l1 where "l1 = (if io_active e \<and> 0 \<le> io_fd e then EventLoop_unregisterIO (io_fd e) l else l)"
  have s: "table_ok l" "no_watch_of n (io_fd e) l" "watch_view (watches l (io_fd e)) = own_watch n e"
    using assms(1) by (simp_all add: in_sync_def)
  have t1: "table_ok l1" using s(1) by (simp add: l1_def watches_ops)
  have o1: "watches l1 (io_fd e) = None" using s by (auto simp: l1_def watches_ops own_watch_def watch_view_def)
  have "no_watch_of n (io_fd e) l1" using s by (auto simp: l1_def watches_ops no_watch_of_def)
  then have n1: "no_watch_of n fd l1" using no_watch_any o1 by metis
  have w1: "watches l1 fd = None" using assms(2) False s(1) by (simp add: l1_def watches_ops unwatched_def)
  let ?e = "e\<lparr>io_fd := fd, io_generation := io_generation e + 1\<rparr>"
  let ?cb = "makeDispatchCallback n fd (io_generation e + 1)"
  obtain cs where "IOEvent_setDescriptor n fd (e, l) = (?e\<lparr>io_closed := cs\<rparr>,
      if io_active e \<and> 0 \<le> fd then EventLoop_registerIO fd (interestToNative (io_interest e)) ?cb l1 else l1)"
  proof (cases "0 \<le> io_fd e")
    case True
    then show ?thesis using False that [of "io_closed e @ [io_fd e]"] by (simp add: IOEvent_setDescriptor_def Let_def l1_def)
  next
    case neg: False
    then show ?thesis using False that [of "io_closed e"] by (simp add: IOEvent_setDescriptor_def Let_def l1_def)
  qed
  then show ?thesis
    using t1 n1 w1 by (simp add: in_sync_def watches_ops no_watch_of_def own_watch_def watch_view_def)
qed

lemma in_sync_setInterest: "in_sync n (e, l) \<Longrightarrow> in_sync n (IOEvent_setInterest n flags (e, l))"
  by (auto simp: IOEvent_setInterest_def IOEvent_syncRegistration_def in_sync_def watches_ops no_watch_of_def own_watch_def
      watch_view_def makeDispatchCallback_def hasIOWatch_watches split: if_splits)

lemma in_sync_start: "in_sync n (e, l) \<Longrightarrow> in_sync n (IOEvent_start n (e, l))"
  by (auto simp: IOEvent_start_def IOEvent_syncRegistration_def in_sync_def watches_ops no_watch_of_def own_watch_def
      watch_view_def makeDispatchCallback_def hasIOWatch_watches split: if_splits)

lemma in_sync_stop: "in_sync n (e, l) \<Longrightarrow> in_sync n (IOEvent_stop n (e, l))"
  by (auto simp: IOEvent_stop_def in_sync_def watches_ops no_watch_of_def own_watch_def
      watch_view_def makeDispatchCallback_def split: if_splits)

text \<open>Migration to the loop \<open>k\<close>, which does not know the node and its descriptor yet; the loop left behind forgets it.\<close>

definition migrate :: "addr \<Rightarrow> 't io_loop \<Rightarrow> 'z IOEvent_scheme \<times> 't io_loop \<Rightarrow> 'z IOEvent_scheme \<times> 't io_loop" where
  "migrate n k s = IOEvent_onMovedToThread n (fst (IOEvent_onAboutToMoveToThread n s), k)"

lemma in_sync_migrate:
  assumes "in_sync n (e, l)" "table_ok k" "no_watch_of n (io_fd e) k" "unwatched (io_fd e) k"
  shows "in_sync n (migrate n k (e, l))"
  using assms
  by (auto simp: migrate_def IOEvent_onMovedToThread_def IOEvent_onAboutToMoveToThread_def Let_def in_sync_def watches_ops
      no_watch_of_def own_watch_def watch_view_def makeDispatchCallback_def unwatched_def split: if_splits)

lemma left_behind:
  assumes "in_sync n (e, l)"
  shows "no_watch_of n (- 1) (snd (IOEvent_onAboutToMoveToThread n (e, l)))"
proof (rule no_watch_any)
  show "no_watch_of n (io_fd e) (snd (IOEvent_onAboutToMoveToThread n (e, l)))"
    using assms by (auto simp: IOEvent_onAboutToMoveToThread_def in_sync_def watches_ops no_watch_of_def)
  show "watches (snd (IOEvent_onAboutToMoveToThread n (e, l))) (io_fd e) = None"
    using assms by (auto simp: IOEvent_onAboutToMoveToThread_def in_sync_def watches_ops own_watch_def watch_view_def)
qed

text \<open>What others do with the loop: they leave the watch of this descriptor alone, except for the flag of a queued callback.\<close>

definition by_others :: "addr \<Rightarrow> int \<Rightarrow> 't io_loop \<Rightarrow> 't io_loop \<Rightarrow> bool" where
  "by_others n fd l k \<longleftrightarrow> table_ok k \<and> no_watch_of n fd k \<and> watch_view (watches k fd) = watch_view (watches l fd)"

inductive io_reachable :: "addr \<Rightarrow> IOEvent \<Rightarrow> 't io_loop \<Rightarrow> bool" for n where
  start: "table_ok l \<Longrightarrow> no_watch_of n (- 1) l \<Longrightarrow> io_reachable n IOEvent_init l"
| descriptor: "io_reachable n e l \<Longrightarrow> fd = io_fd e \<or> unwatched fd l \<Longrightarrow> IOEvent_setDescriptor n fd (e, l) = (e', l') \<Longrightarrow> io_reachable n e' l'"
| interest: "io_reachable n e l \<Longrightarrow> IOEvent_setInterest n flags (e, l) = (e', l') \<Longrightarrow> io_reachable n e' l'"
| started: "io_reachable n e l \<Longrightarrow> IOEvent_start n (e, l) = (e', l') \<Longrightarrow> io_reachable n e' l'"
| stopped: "io_reachable n e l \<Longrightarrow> IOEvent_stop n (e, l) = (e', l') \<Longrightarrow> io_reachable n e' l'"
| moved: "io_reachable n e l \<Longrightarrow> table_ok k \<Longrightarrow> no_watch_of n (io_fd e) k \<Longrightarrow> unwatched (io_fd e) k \<Longrightarrow>
    migrate n k (e, l) = (e', l') \<Longrightarrow> io_reachable n e' l'"
| others: "io_reachable n e l \<Longrightarrow> by_others n (io_fd e) l k \<Longrightarrow> io_reachable n e k"

lemma io_reachable_sync: "io_reachable n e l \<Longrightarrow> in_sync n (e, l)"
proof (induction rule: io_reachable.induct)
  case (start l)
  then show ?case by (simp add: in_sync_def IOEvent_init_def own_watch_def watch_view_def table_ok_def)
next
  case (descriptor e l fd e' l')
  then show ?case using in_sync_setDescriptor by metis
next
  case (interest e l flags e' l')
  then show ?case using in_sync_setInterest by metis
next
  case (started e l e' l')
  then show ?case using in_sync_start by metis
next
  case (stopped e l e' l')
  then show ?case using in_sync_stop by metis
next
  case (moved e l k e' l')
  then show ?case using in_sync_migrate by metis
next
  case (others e l k)
  then show ?case by (simp add: in_sync_def by_others_def)
qed

text \<open>C22. Through any sequence of descriptor changes, interest changes, starts, stops and migrations, interleaved with
  whatever other nodes do to the loops: an event reported for a descriptor reaches the node exactly when the node's own
  loop watches that descriptor for it, for the events of the current interest and with the callback of the current
  registration; a callback of an earlier registration is never dispatched.\<close>

theorem io_watch_in_sync:
  "io_reachable n e l \<Longrightarrow> 0 \<le> fd \<Longrightarrow>
   IOEvent_dispatch True (n, fd, g) h e = Some (h e) \<longleftrightarrow>
   watch_view (smap_get (el_ioWatches l) fd) = Some (interestToNative (io_interest e), Some (n, fd, g))"
proof -
  assume r: "io_reachable n e l" and fd: "0 \<le> fd"
  have s: "no_watch_of n (io_fd e) l" "watch_view (watches l (io_fd e)) = own_watch n e"
    using io_reachable_sync [OF r] by (simp_all add: in_sync_def)
  show ?thesis
  proof (cases "fd = io_fd e")
    case True
    then show ?thesis using s(2) fd
      by (auto simp: IOEvent_dispatch_def isRegistrationCurrent_def own_watch_def makeDispatchCallback_def watches_def)
  next
    case False
    have "watch_view (watches l fd) \<noteq> Some (x, Some (n, fd, g))" for x
      using s(1) False by (auto simp: no_watch_of_def watch_view_def)
    then show ?thesis using False by (simp add: IOEvent_dispatch_def isRegistrationCurrent_def watches_def)
  qed
qed

text \<open>A socket on descriptor 7, started and then interested in writing.\<close>

definition socket_steps :: "IOEvent \<times> unit io_loop" where
  "socket_steps = IOEvent_setInterest 3 3 (IOEvent_start 3 (IOEvent_setDescriptor 3 7 (IOEvent_init, EventLoop_init)))"

lemma socket_steps_reachable: "io_reachable 3 (fst socket_steps) (snd socket_steps)"
proof -
  have init: "io_reachable 3 IOEvent_init (EventLoop_init :: unit io_loop)"
    by (rule io_reachable.start) (simp_all add: table_ok_def no_watch_of_def watches_def EventLoop_init_def)
  obtain e1 l1 where 1: "IOEvent_setDescriptor 3 7 (IOEvent_init, EventLoop_init :: unit io_loop) = (e1, l1)" by fastforce
  obtain e2 l2 where 2: "IOEvent_start 3 (e1, l1) = (e2, l2)" by fastforce
  obtain e3 l3 where 3: "IOEvent_setInterest 3 3 (e2, l2) = (e3, l3)" by fastforce
  have "io_reachable 3 e1 l1" using io_reachable.descriptor [OF init _ 1]
    by (simp add: unwatched_def watches_def EventLoop_init_def)
  then have "io_reachable 3 e3 l3" using io_reachable.started [OF _ 2] io_reachable.interest [OF _ 3] by blast
  then show ?thesis by (simp add: socket_steps_def 1 2 3)
qed

theorem io_watch_in_sync_witness:
  "watch_view (smap_get (el_ioWatches (snd socket_steps)) 7) = Some (29, Some (3, 7, 2))"
proof -
  have "IOEvent_dispatch True (3, 7, 2) io_fd (fst socket_steps) = Some (io_fd (fst socket_steps))"
    "interestToNative (io_interest (fst socket_steps)) = 29"
    by (simp_all add: socket_steps_def IOEvent_setDescriptor_def IOEvent_start_def IOEvent_setInterest_def IOEvent_syncRegistration_def
        IOEvent_init_def EventLoop_init_def EventLoop_hasIOWatch_def EventLoop_registerIO_def EventLoop_modifyIO_def Let_def
        IOEvent_dispatch_def isRegistrationCurrent_def interestToNative_def hasAny_def)
  then show ?thesis using io_watch_in_sync [OF socket_steps_reachable, of 7 2 io_fd] by simp
qed

end
