(* ===== verification/TcpSockets.thy ===== *)
theory TcpSockets
  imports IoEvents "HOL-Library.Sublist"
begin

text \<open>
  \<open>snf::ByteArray\<close> (\<open>Core/src/SNFCore/ByteArray.h\<close>) and \<open>snf::TcpSocket\<close>
  (\<open>Network/src/SNFNetwork/TcpSocket.h\<close>, \<open>TcpSocket.cpp\<close>). The record extends that of \<open>IOEvent\<close>; every member
  runs inside the owner. What the kernel answers to the next calls of \<open>send\<close> and \<open>recv\<close> is part of the
  environment, together with the bytes it took and gave so far; when the answers are used up it would block. The
  results of other system calls are arguments. Signals are posted to the owner, so they queue up in the environment.
\<close>

section \<open>Byte arrays\<close>

record 'b ByteArray =
  ba_bytes :: "'b list"
  ba_offset :: nat

definition ByteArray_new :: "'b list \<Rightarrow> 'b ByteArray" where
  "ByteArray_new bs = \<lparr>ba_bytes = bs, ba_offset = 0\<rparr>"

definition ByteArray_size :: "'b ByteArray \<Rightarrow> nat" where "ByteArray_size a = length (ba_bytes a)"

definition remainingView :: "'b ByteArray \<Rightarrow> 'b list" where "remainingView a = drop (ba_offset a) (ba_bytes a)"

definition remainingSize :: "'b ByteArray \<Rightarrow> nat" where "remainingSize a = length (remainingView a)"

definition fullyConsumed :: "'b ByteArray \<Rightarrow> bool" where "fullyConsumed a \<longleftrightarrow> remainingSize a = 0"

definition ByteArray_append :: "'b list \<Rightarrow> 'b ByteArray \<Rightarrow> 'b ByteArray" where
  "ByteArray_append bs a = a\<lparr>ba_bytes := ba_bytes a @ bs\<rparr>"

definition ByteArray_advance :: "nat \<Rightarrow> 'b ByteArray \<Rightarrow> 'b ByteArray" where
  "ByteArray_advance k a = a\<lparr>ba_offset := ba_offset a + min k (remainingSize a)\<rparr>"

definition ByteArray_reset :: "'b ByteArray \<Rightarrow> 'b ByteArray" where "ByteArray_reset a = a\<lparr>ba_offset := 0\<rparr>"

definition ByteArray_clear :: "'b ByteArray \<Rightarrow> 'b ByteArray" where "ByteArray_clear a = a\<lparr>ba_bytes := [], ba_offset := 0\<rparr>"

lemma remaining_new [simp]: "remainingView (ByteArray_new bs) = bs"
  by (simp add: ByteArray_new_def remainingView_def)

lemma remaining_advance: "remainingView (ByteArray_advance k a) = drop k (remainingView a)"
  by (simp add: ByteArray_advance_def remainingView_def remainingSize_def min_def add.commute)

lemma fullyConsumed_remaining: "fullyConsumed a \<longleftrightarrow> remainingView a = []"
  by (simp add: fullyConsumed_def remainingSize_def)


section \<open>State\<close>

datatype TcpSocketState = Disconnected | Connecting | Connected | Failed

record 'b TcpSocket = IOEvent +
  m_blocking :: bool
  m_state :: TcpSocketState
  m_readBuffer :: "'b list"
  m_writeQueue :: "'b ByteArray list"

datatype tcp_signal = SigConnected | SigDisconnected | SigReadyRead | SigBytesWritten nat | SigErrorOccurred string

text \<open>\<open>send\<close> takes up to so many more bytes than one, or fails with an error number; \<open>recv\<close> gives bytes (none when the
  peer has closed its side) or fails.\<close>

datatype send_answer = Takes nat | SendFails int
datatype 'b recv_answer = Gives "'b list" | RecvFails int

abbreviation EAGAIN :: int where "EAGAIN \<equiv> 11"
abbreviation EINTR :: int where "EINTR \<equiv> 4"
abbreviation EINVAL :: int where "EINVAL \<equiv> 22"
abbreviation EHOSTUNREACH :: int where "EHOSTUNREACH \<equiv> 113"
abbreviation EINPROGRESS :: int where "EINPROGRESS \<equiv> 115"

record ('b, 't) tcp_env =
  te_loop :: "'t io_loop"
  te_posted :: "tcp_signal list"
  te_sends :: "send_answer list"
  te_recvs :: "'b recv_answer list"
  te_sent :: "'b list"
  te_received :: "'b list"
  te_baseSignals :: "IOEventFlag list"
  te_strerror :: "int \<Rightarrow> string"

type_synonym ('b, 't) tcp = "'b TcpSocket \<times> ('b, 't) tcp_env"

definition on_io :: "('b TcpSocket \<times> 't io_loop \<Rightarrow> 'b TcpSocket \<times> 't io_loop) \<Rightarrow> ('b, 't) tcp \<Rightarrow> ('b, 't) tcp" where
  "on_io f = (\<lambda>(s, w). case f (s, te_loop w) of (s', l) \<Rightarrow> (s', w\<lparr>te_loop := l\<rparr>))"

definition emit_signal :: "tcp_signal \<Rightarrow> ('b, 't) tcp \<Rightarrow> ('b, 't) tcp" where
  "emit_signal x = (\<lambda>(s, w). (s, w\<lparr>te_posted := te_posted w @ [x]\<rparr>))"

definition is_live :: "'b TcpSocket \<Rightarrow> bool" where
  "is_live s \<longleftrightarrow> m_state s = Connected \<or> m_state s = Connecting"


section \<open>Operations\<close>

definition failWithErrno :: "string \<Rightarrow> int \<Rightarrow> ('b, 't) tcp \<Rightarrow> ('b, 't) tcp" where
  "failWithErrno what code = (\<lambda>(s, w). emit_signal (SigErrorOccurred (what @ '': '' @ te_strerror w code)) (s\<lparr>m_state := Failed\<rparr>, w))"

definition transitionToDisconnected :: "bool \<Rightarrow> 'b TcpSocket \<Rightarrow> bool \<times> 'b TcpSocket" where
  "transitionToDisconnected emitSignal s =
     (emitSignal \<and> is_live s, s\<lparr>m_state := Disconnected, m_readBuffer := [], m_writeQueue := []\<rparr>)"

definition applyDisconnectedState :: "addr \<Rightarrow> bool \<Rightarrow> ('b, 't) tcp \<Rightarrow> ('b, 't) tcp" where
  "applyDisconnectedState n emitSignal = (\<lambda>(s, w).
     case transitionToDisconnected emitSignal s of (shouldEmit, s1) \<Rightarrow>
       let p = on_io (IOEvent_setDescriptor n (- 1)) (on_io (IOEvent_stop n) (s1, w))
       in if shouldEmit then emit_signal SigDisconnected p else p)"

definition TcpSocket_close :: "addr \<Rightarrow> ('b, 't) tcp \<Rightarrow> ('b, 't) tcp" where
  "TcpSocket_close n = applyDisconnectedState n True"

definition interestForState :: "'b TcpSocket \<Rightarrow> u32" where
  "interestForState s =
     (let flags = flag_bit FlagError OR flag_bit FlagHangUp;
          flags = (if m_state s = Connecting then flags OR flag_bit FlagWrite else flags)
      in if m_state s = Connected
         then (let flags = flags OR flag_bit FlagRead in if m_writeQueue s \<noteq> [] then flags OR flag_bit FlagWrite else flags)
         else flags)"

definition updateInterestForState :: "addr \<Rightarrow> ('b, 't) tcp \<Rightarrow> ('b, 't) tcp" where
  "updateInterestForState n p = on_io (IOEvent_setInterest n (interestForState (fst p))) p"

function flush_loop :: "addr \<Rightarrow> ('b, 't) tcp \<Rightarrow> bool \<times> ('b, 't) tcp" where
  "flush_loop n (s, w) =
     (let q = dropWhile fullyConsumed (m_writeQueue s); s1 = s\<lparr>m_writeQueue := q\<rparr>
      in case q of [] \<Rightarrow> (True, (s1, w))
         | a # rest \<Rightarrow>
             (case te_sends w of [] \<Rightarrow> (False, (s1, w))
              | Takes k # as \<Rightarrow>
                  let written = min (Suc k) (remainingSize a); a1 = ByteArray_advance written a
                  in flush_loop n (s1\<lparr>m_writeQueue := (if fullyConsumed a1 then rest else a1 # rest)\<rparr>,
                       w\<lparr>te_sends := as, te_sent := te_sent w @ take written (remainingView a),
                         te_posted := te_posted w @ [SigBytesWritten written]\<rparr>)
              | SendFails e # as \<Rightarrow>
                  let p = (s1, w\<lparr>te_sends := as\<rparr>)
                  in if e = EAGAIN then (False, p)
                     else if e = EINTR then flush_loop n p
                     else (False, applyDisconnectedState n True (failWithErrno ''send() failed'' e p))))"
  by pat_completeness auto
termination by (relation "measure (\<lambda>(n, s, w). length (te_sends w))") auto

declare flush_loop.simps [simp del]

definition flushPendingWrites :: "addr \<Rightarrow> ('b, 't) tcp \<Rightarrow> bool \<times> ('b, 't) tcp" where
  "flushPendingWrites n p = (if io_fd (fst p) < 0 then (False, p) else flush_loop n p)"

function read_loop :: "addr \<Rightarrow> bool \<Rightarrow> ('b, 't) tcp \<Rightarrow> ('b, 't) tcp" where
  "read_loop n appended (s, w) =
     (let finish = (\<lambda>p. if appended then emit_signal SigReadyRead p else p)
      in case te_recvs w of [] \<Rightarrow> finish (s, w)
         | Gives bs # as \<Rightarrow>
             let w1 = w\<lparr>te_recvs := as, te_received := te_received w @ bs\<rparr>
             in if bs \<noteq> [] then read_loop n True (s\<lparr>m_readBuffer := m_readBuffer s @ bs\<rparr>, w1)
                else applyDisconnectedState n True (s, w1)
         | RecvFails e # as \<Rightarrow>
             let p = (s, w\<lparr>te_recvs := as\<rparr>)
             in if e = EAGAIN then finish p
                else if e = EINTR then read_loop n appended p
                else applyDisconnectedState n True (failWithErrno ''recv() failed'' e p))"
  by pat_completeness auto
termination by (relation "measure (\<lambda>(n, appended, s, w). length (te_recvs w))") auto

declare read_loop.simps [simp del]

definition handleReadable :: "addr \<Rightarrow> ('b, 't) tcp \<Rightarrow> ('b, 't) tcp" where
  "handleReadable n p = (if io_fd (fst p) < 0 then p else read_loop n False p)"

definition handleWritable :: "addr \<Rightarrow> ('b, 't) tcp \<Rightarrow> ('b, 't) tcp" where
  "handleWritable n p = updateInterestForState n (snd (flushPendingWrites n p))"

definition set_state :: "TcpSocketState \<Rightarrow> ('b, 't) tcp \<Rightarrow> ('b, 't) tcp" where
  "set_state st = (\<lambda>(s, w). (s\<lparr>m_state := st\<rparr>, w))"

definition applyConnectedState :: "addr \<Rightarrow> ('b, 't) tcp \<Rightarrow> ('b, 't) tcp" where
  "applyConnectedState n p = handleWritable n (emit_signal SigConnected (on_io (IOEvent_start n)
     (updateInterestForState n (set_state Connected p))))"

text \<open>\<open>getsockopt(SO_ERROR)\<close>: the returned code, \<open>errno\<close> after it, and the pending error of the socket.\<close>

definition handle_ready :: "addr \<Rightarrow> u32 \<Rightarrow> ('b, 't) tcp \<Rightarrow> ('b, 't) tcp" where
  "handle_ready n native p =
     (let p1 = (if native AND EPOLLIN \<noteq> 0 \<and> m_state (fst p) = Connected then handleReadable n p else p)
      in if native AND EPOLLOUT \<noteq> 0 \<and> m_state (fst p1) = Connected then handleWritable n p1 else p1)"

definition TcpSocket_react :: "addr \<Rightarrow> u32 \<Rightarrow> int \<times> int \<times> int \<Rightarrow> ('b, 't) tcp \<Rightarrow> ('b, 't) tcp" where
  "TcpSocket_react n native sockopt p =
     (case sockopt of (rc, errno, socketError) \<Rightarrow>
        if native AND (EPOLLERR OR EPOLLHUP OR EPOLLRDHUP) \<noteq> 0
        then if m_state (fst p) = Connecting \<and> 0 \<le> io_fd (fst p) \<and> rc = 0 \<and> socketError = 0
             then applyConnectedState n p else applyDisconnectedState n True p
        else if m_state (fst p) = Connecting \<and> native AND EPOLLOUT \<noteq> 0
        then if io_fd (fst p) < 0 \<or> rc < 0
             then applyDisconnectedState n True (failWithErrno ''getsockopt(SO_ERROR) failed'' errno p)
             else if socketError \<noteq> 0
             then applyDisconnectedState n True (failWithErrno ''connect() async completion failed'' socketError p)
             else handle_ready n native (applyConnectedState n p)
        else handle_ready n native p)"

text \<open>First the base class emits its own signals, then the socket reacts.\<close>

definition base_events :: "u32 \<Rightarrow> ('b, 't) tcp \<Rightarrow> ('b, 't) tcp" where
  "base_events native = (\<lambda>(s, w). (s, w\<lparr>te_baseSignals := te_baseSignals w @ IOEvent_handleEvents native\<rparr>))"

definition TcpSocket_handleEvents :: "addr \<Rightarrow> u32 \<Rightarrow> int \<times> int \<times> int \<Rightarrow> ('b, 't) tcp \<Rightarrow> ('b, 't) tcp" where
  "TcpSocket_handleEvents n native sockopt p = TcpSocket_react n native sockopt (base_events native p)"

lemma base_events_simps [simp]:
  "fst (base_events native p) = fst p" "te_loop (snd (base_events native p)) = te_loop (snd p)"
  "te_posted (snd (base_events native p)) = te_posted (snd p)" "te_sends (snd (base_events native p)) = te_sends (snd p)"
  "te_recvs (snd (base_events native p)) = te_recvs (snd p)" "te_sent (snd (base_events native p)) = te_sent (snd p)"
  "te_received (snd (base_events native p)) = te_received (snd p)"
  by (cases p; simp add: base_events_def)+

definition TcpSocket_write :: "addr \<Rightarrow> 'b ByteArray \<Rightarrow> ('b, 't) tcp \<Rightarrow> nat \<times> ('b, 't) tcp" where
  "TcpSocket_write n data = (\<lambda>(s, w).
     if remainingSize data = 0 then (0, (s, w))
     else if \<not> is_live s then (0, (s, w))
     else (remainingSize data, handleWritable n (s\<lparr>m_writeQueue := m_writeQueue s @ [data]\<rparr>, w)))"

text \<open>From outside the owner: the number returned at once, and the data of the call that is posted.\<close>

definition TcpSocket_write_outside :: "'b ByteArray \<Rightarrow> 'b TcpSocket \<Rightarrow> nat \<times> 'b ByteArray option" where
  "TcpSocket_write_outside data s =
     (if remainingSize data = 0 then (0, None) else if is_live s then (remainingSize data, Some data) else (0, None))"

definition TcpSocket_readAll :: "('b, 't) tcp \<Rightarrow> 'b ByteArray \<times> ('b, 't) tcp" where
  "TcpSocket_readAll = (\<lambda>(s, w). (ByteArray_new (m_readBuffer s), (s\<lparr>m_readBuffer := []\<rparr>, w)))"

text \<open>\<open>fcntl\<close>: the returned code and \<open>errno\<close>.\<close>

definition TcpSocket_setBlocking :: "bool \<Rightarrow> int \<times> int \<Rightarrow> ('b, 't) tcp \<Rightarrow> ('b, 't) tcp" where
  "TcpSocket_setBlocking blocking mode = (\<lambda>(s, w).
     let p = (s\<lparr>m_blocking := blocking\<rparr>, w)
     in if 0 \<le> io_fd s \<and> fst mode < 0 then failWithErrno ''Failed to set socket mode'' (snd mode) p else p)"

definition close_fd :: "int \<Rightarrow> ('b, 't) tcp \<Rightarrow> ('b, 't) tcp" where
  "close_fd fd = (\<lambda>(s, w). (s\<lparr>io_closed := io_closed s @ [fd]\<rparr>, w))"

definition adoptConnectedDescriptor :: "addr \<Rightarrow> int \<Rightarrow> int \<times> int \<Rightarrow> ('b, 't) tcp \<Rightarrow> ('b, 't) tcp" where
  "adoptConnectedDescriptor n fd mode p =
     (if fd < 0 then failWithErrno ''Invalid adopted descriptor'' EINVAL p
      else if fst mode < 0 then failWithErrno ''Failed to configure adopted socket mode'' (snd mode) (close_fd fd p)
      else on_io (IOEvent_start n) (updateInterestForState n (set_state Connected (on_io (IOEvent_setDescriptor n fd) p))))"

text \<open>One address after the other: \<open>socket\<close> fails with an error number; the descriptor cannot be configured; or \<open>connect\<close>
  returns a code and \<open>errno\<close>.\<close>

datatype attempt = SocketFails int | ModeFails int int | Connects int int int

fun connect_candidates :: "addr \<Rightarrow> int \<Rightarrow> attempt list \<Rightarrow> ('b, 't) tcp \<Rightarrow> ('b, 't) tcp" where
  "connect_candidates n lastError [] p = TcpSocket_close n (failWithErrno ''connect() failed'' lastError p)"
| "connect_candidates n lastError (SocketFails e # as) p = connect_candidates n e as p"
| "connect_candidates n lastError (ModeFails fd e # as) p = connect_candidates n e as (close_fd fd p)"
| "connect_candidates n lastError (Connects fd rc e # as) p =
     (let p1 = on_io (IOEvent_setDescriptor n fd) p
      in if rc = 0 then applyConnectedState n p1
         else if e = EINPROGRESS \<and> \<not> m_blocking (fst p1)
         then on_io (IOEvent_start n) (updateInterestForState n (set_state Connecting p1))
         else connect_candidates n e as (on_io (IOEvent_setDescriptor n (- 1)) p1))"

text \<open>The outcome of resolving the host is an argument.\<close>

definition TcpSocket_connectToHost :: "addr \<Rightarrow> string \<Rightarrow> string + attempt list \<Rightarrow> ('b, 't) tcp \<Rightarrow> ('b, 't) tcp" where
  "TcpSocket_connectToHost n host resolved p =
     (case resolved of
        Inl err \<Rightarrow> emit_signal (SigErrorOccurred (''Failed to resolve host '' @ [CHR 0x27] @ host @ [CHR 0x27] @ '': '' @ err))
                    (set_state Failed (TcpSocket_close n p))
      | Inr as \<Rightarrow> connect_candidates n EHOSTUNREACH as (TcpSocket_close n p))"

definition TcpSocket_init :: "bool \<Rightarrow> 'b TcpSocket" where
  "TcpSocket_init blocking = IOEvent.extend (IOEvent_init\<lparr>io_interest := flags_or [FlagRead, FlagError, FlagHangUp]\<rparr>)
     (TcpSocket.fields blocking Disconnected [] [])"

definition TcpSocket_destroy :: "addr \<Rightarrow> ('b, 't) tcp \<Rightarrow> ('b, 't) tcp" where
  "TcpSocket_destroy n p = on_io (IOEvent_destroy n) (TcpSocket_close n p)"


section \<open>The stream of one connection\<close>

definition pending :: "'b TcpSocket \<Rightarrow> 'b list" where
  "pending s = concat (map remainingView (m_writeQueue s))"

fun written_of :: "tcp_signal list \<Rightarrow> nat" where
  "written_of [] = 0"
| "written_of (SigBytesWritten k # xs) = k + written_of xs"
| "written_of (x # xs) = written_of xs"

lemma written_of_append [simp]: "written_of (xs @ ys) = written_of xs + written_of ys"
  by (induction xs rule: written_of.induct) auto

text \<open>The life of a connection, with the bytes accepted by \<open>write\<close>, the bytes \<open>readAll\<close> returned and the signals delivered.\<close>

record ('b, 't) tcp_run =
  tr_tcp :: "('b, 't) tcp"
  tr_accepted :: "'b list"
  tr_taken :: "'b list"
  tr_delivered :: "tcp_signal list"

definition set_env :: "(('b, 't) tcp_env \<Rightarrow> ('b, 't) tcp_env) \<Rightarrow> ('b, 't) tcp \<Rightarrow> ('b, 't) tcp" where
  "set_env f = (\<lambda>(s, w). (s, f w))"

definition fresh_env :: "addr \<Rightarrow> ('b, 't) tcp_env \<Rightarrow> bool" where
  "fresh_env n w \<longleftrightarrow> table_ok (te_loop w) \<and> no_watch_of n (- 1) (te_loop w) \<and> te_posted w = [] \<and> te_sent w = [] \<and> te_received w = []"

definition attempt_ok :: "'t io_loop \<Rightarrow> attempt \<Rightarrow> bool" where
  "attempt_ok l a = (case a of Connects fd rc e \<Rightarrow> 0 \<le> fd \<and> unwatched fd l | _ \<Rightarrow> True)"

inductive tcp_step :: "addr \<Rightarrow> ('b, 't) tcp_run \<Rightarrow> ('b, 't) tcp_run \<Rightarrow> bool" for n where
  written: "TcpSocket_write n data (tr_tcp r) = (k, p) \<Longrightarrow>
    tcp_step n r (r\<lparr>tr_tcp := p, tr_accepted := tr_accepted r @ take k (remainingView data)\<rparr>)"
| read: "TcpSocket_readAll (tr_tcp r) = (a, p) \<Longrightarrow> tcp_step n r (r\<lparr>tr_tcp := p, tr_taken := tr_taken r @ remainingView a\<rparr>)"
| close: "tcp_step n r (r\<lparr>tr_tcp := TcpSocket_close n (tr_tcp r)\<rparr>)"
| events: "tcp_step n r (r\<lparr>tr_tcp := TcpSocket_handleEvents n native sockopt (tr_tcp r)\<rparr>)"
| blocking: "tcp_step n r (r\<lparr>tr_tcp := TcpSocket_setBlocking b mode (tr_tcp r)\<rparr>)"
| signal: "te_posted (snd (tr_tcp r)) = x # xs \<Longrightarrow>
    tcp_step n r (r\<lparr>tr_tcp := set_env (\<lambda>w. w\<lparr>te_posted := xs\<rparr>) (tr_tcp r), tr_delivered := tr_delivered r @ [x]\<rparr>)"
| kernel: "tcp_step n r (r\<lparr>tr_tcp := set_env (\<lambda>w. w\<lparr>te_sends := as, te_recvs := bs\<rparr>) (tr_tcp r)\<rparr>)"
| others: "by_others n (io_fd (fst (tr_tcp r))) (te_loop (snd (tr_tcp r))) k \<Longrightarrow>
    tcp_step n r (r\<lparr>tr_tcp := set_env (\<lambda>w. w\<lparr>te_loop := k\<rparr>) (tr_tcp r)\<rparr>)"

inductive tcp_reachable :: "addr \<Rightarrow> ('b, 't) tcp_run \<Rightarrow> bool" for n where
  adopted: "fresh_env n w \<Longrightarrow> unwatched fd (te_loop w) \<Longrightarrow>
    tcp_reachable n \<lparr>tr_tcp = adoptConnectedDescriptor n fd mode (TcpSocket_init blocking, w),
      tr_accepted = [], tr_taken = [], tr_delivered = []\<rparr>"
| connected: "fresh_env n w \<Longrightarrow> (\<And>as. resolved = Inr as \<Longrightarrow> \<forall>a \<in> set as. attempt_ok (te_loop w) a) \<Longrightarrow>
    tcp_reachable n \<lparr>tr_tcp = TcpSocket_connectToHost n host resolved (TcpSocket_init blocking, w),
      tr_accepted = [], tr_taken = [], tr_delivered = []\<rparr>"
| step: "tcp_reachable n r \<Longrightarrow> tcp_step n r r' \<Longrightarrow> tcp_reachable n r'"

text \<open>The invariant: what holds always, and what holds in addition while the connection lives.\<close>

definition tcp_hist :: "addr \<Rightarrow> 'b list \<Rightarrow> 'b list \<Rightarrow> nat \<Rightarrow> ('b, 't) tcp \<Rightarrow> bool" where
  "tcp_hist n acc tak k = (\<lambda>(s, w). in_sync n (s, te_loop w) \<and> prefix (te_sent w) acc
     \<and> prefix (tak @ m_readBuffer s) (te_received w) \<and> k + written_of (te_posted w) = length (te_sent w))"

definition tcp_flow :: "'b list \<Rightarrow> 'b list \<Rightarrow> ('b, 't) tcp \<Rightarrow> bool" where
  "tcp_flow acc tak = (\<lambda>(s, w). 0 \<le> io_fd s \<and> io_active s \<and> te_sent w @ pending s = acc \<and> tak @ m_readBuffer s = te_received w)"

definition tcp_core :: "addr \<Rightarrow> 'b list \<Rightarrow> 'b list \<Rightarrow> nat \<Rightarrow> ('b, 't) tcp \<Rightarrow> bool" where
  "tcp_core n acc tak k p \<longleftrightarrow> tcp_hist n acc tak k p \<and> (is_live (fst p) \<longrightarrow> tcp_flow acc tak p)"

definition settled :: "'b TcpSocket \<Rightarrow> bool" where
  "settled s \<longleftrightarrow> is_live s \<longrightarrow> io_interest s = interestForState s \<and> (\<forall>a \<in> set (m_writeQueue s). \<not> fullyConsumed a)"

lemma in_sync_frame [simp]:
  "in_sync n (s\<lparr>m_state := x\<rparr>, l) = in_sync n (s, l)"
  "in_sync n (s\<lparr>m_blocking := b\<rparr>, l) = in_sync n (s, l)"
  "in_sync n (s\<lparr>m_readBuffer := bs\<rparr>, l) = in_sync n (s, l)"
  "in_sync n (s\<lparr>m_writeQueue := q\<rparr>, l) = in_sync n (s, l)"
  "in_sync n (s\<lparr>io_closed := cs\<rparr>, l) = in_sync n (s, l)"
  by (simp_all add: in_sync_def own_watch_def)

text \<open>The operations of \<open>IOEvent\<close> leave the state of the socket alone.\<close>

definition same_socket :: "'b TcpSocket \<Rightarrow> 'b TcpSocket \<Rightarrow> bool" where
  "same_socket s t \<longleftrightarrow> m_state s = m_state t \<and> m_readBuffer s = m_readBuffer t \<and> m_writeQueue s = m_writeQueue t"

definition same_history :: "('b, 't) tcp_env \<Rightarrow> ('b, 't) tcp_env \<Rightarrow> bool" where
  "same_history w v \<longleftrightarrow> te_posted w = te_posted v \<and> te_sent w = te_sent v \<and> te_received w = te_received v
     \<and> te_sends w = te_sends v \<and> te_recvs w = te_recvs v"

lemma io_ops_frame:
  "same_socket (fst (IOEvent_stop n p)) (fst p)" "same_socket (fst (IOEvent_start n p)) (fst p)"
  "same_socket (fst (IOEvent_setInterest n flags p)) (fst p)" "same_socket (fst (IOEvent_setDescriptor n fd p)) (fst p)"
  by (cases p; simp add: same_socket_def IOEvent_stop_def IOEvent_start_def IOEvent_setInterest_def IOEvent_setDescriptor_def
      IOEvent_syncRegistration_def Let_def)+

lemma io_ops_io:
  "io_fd (fst (IOEvent_stop n p)) = io_fd (fst p)" "\<not> io_active (fst (IOEvent_stop n p))"
  "io_fd (fst (IOEvent_start n p)) = io_fd (fst p)" "io_active (fst (IOEvent_start n p))"
  "io_interest (fst (IOEvent_start n p)) = io_interest (fst p)"
  "io_fd (fst (IOEvent_setInterest n flags p)) = io_fd (fst p)"
  "io_active (fst (IOEvent_setInterest n flags p)) = io_active (fst p)"
  "io_interest (fst (IOEvent_setInterest n flags p)) = flags"
  "io_fd (fst (IOEvent_setDescriptor n fd p)) = fd" "io_active (fst (IOEvent_setDescriptor n fd p)) = io_active (fst p)"
  by (cases p; simp add: IOEvent_stop_def IOEvent_start_def IOEvent_setInterest_def IOEvent_setDescriptor_def
      IOEvent_syncRegistration_def Let_def)+

lemmas io_frame = io_ops_frame [unfolded same_socket_def] io_ops_io

lemma hist_on_io:
  assumes "tcp_hist n acc tak k (s, w)" "in_sync n (f (s, te_loop w))" "same_socket (fst (f (s, te_loop w))) s"
  shows "tcp_hist n acc tak k (on_io f (s, w))"
  using assms by (cases "f (s, te_loop w)") (simp add: tcp_hist_def on_io_def same_socket_def)

lemma hist_sync: "tcp_hist n acc tak k (s, w) \<Longrightarrow> in_sync n (s, te_loop w)"
  by (simp add: tcp_hist_def)

lemma hist_stop: "tcp_hist n acc tak k p \<Longrightarrow> tcp_hist n acc tak k (on_io (IOEvent_stop n) p)"
  by (cases p) (metis fst_conv hist_on_io hist_sync in_sync_stop io_ops_frame(1))

lemma hist_start: "tcp_hist n acc tak k p \<Longrightarrow> tcp_hist n acc tak k (on_io (IOEvent_start n) p)"
  by (cases p) (metis fst_conv hist_on_io hist_sync in_sync_start io_ops_frame(2))

lemma hist_setInterest: "tcp_hist n acc tak k p \<Longrightarrow> tcp_hist n acc tak k (on_io (IOEvent_setInterest n flags) p)"
  by (cases p) (metis fst_conv hist_on_io hist_sync in_sync_setInterest io_ops_frame(3))

lemma hist_setDescriptor:
  assumes "tcp_hist n acc tak k p" "unwatched fd (te_loop (snd p))"
  shows "tcp_hist n acc tak k (on_io (IOEvent_setDescriptor n fd) p)"
proof (cases p)
  case (Pair s w)
  have "in_sync n (IOEvent_setDescriptor n fd (s, te_loop w))"
    using assms by (intro in_sync_setDescriptor) (simp_all add: Pair tcp_hist_def)
  then show ?thesis using assms(1) by (simp add: Pair hist_on_io io_ops_frame(4) [of n fd "(s, te_loop w)", simplified])
qed

lemma hist_table: "tcp_hist n acc tak k p \<Longrightarrow> unwatched (- 1) (te_loop (snd p))"
  by (cases p) (simp add: tcp_hist_def in_sync_def table_ok_def unwatched_def)

lemma hist_emit:
  "tcp_hist n acc tak k p \<Longrightarrow> written_of [x] = 0 \<Longrightarrow> tcp_hist n acc tak k (emit_signal x p)"
  by (cases p) (simp add: tcp_hist_def emit_signal_def)

lemma fst_emit [simp]: "fst (emit_signal x p) = fst p"
  by (cases p) (simp add: emit_signal_def)

lemma loop_emit [simp]: "te_loop (snd (emit_signal x p)) = te_loop (snd p)"
  by (cases p) (simp add: emit_signal_def)

lemma fst_on_io [simp]: "fst (on_io f p) = fst (f (fst p, te_loop (snd p)))"
  by (cases p) (simp add: on_io_def split: prod.split)

lemma loop_on_io [simp]: "te_loop (snd (on_io f p)) = snd (f (fst p, te_loop (snd p)))"
  by (cases p) (simp add: on_io_def split: prod.split)

lemma env_on_io [simp]:
  "te_posted (snd (on_io f p)) = te_posted (snd p)" "te_sent (snd (on_io f p)) = te_sent (snd p)"
  "te_received (snd (on_io f p)) = te_received (snd p)" "te_sends (snd (on_io f p)) = te_sends (snd p)"
  by (cases p; simp add: on_io_def split: prod.split)+

lemma env_emit [simp]:
  "te_posted (snd (emit_signal x p)) = te_posted (snd p) @ [x]" "te_received (snd (emit_signal x p)) = te_received (snd p)"
  by (cases p; simp add: emit_signal_def)+

lemma hist_disconnect:
  assumes "tcp_hist n acc tak k p"
  shows "tcp_hist n acc tak k (applyDisconnectedState n em p)"
proof -
  obtain s w where p: "p = (s, w)" by fastforce
  let ?s = "s\<lparr>m_state := Disconnected, m_readBuffer := [], m_writeQueue := []\<rparr>"
  have "tcp_hist n acc tak k (?s, w)" using assms append_prefixD by (auto simp: p tcp_hist_def)
  then have "tcp_hist n acc tak k (on_io (IOEvent_setDescriptor n (- 1)) (on_io (IOEvent_stop n) (?s, w)))"
    by (meson hist_setDescriptor hist_stop hist_table)
  then show ?thesis by (simp add: p applyDisconnectedState_def transitionToDisconnected_def Let_def hist_emit)
qed

lemma state_disconnect [simp]: "m_state (fst (applyDisconnectedState n em p)) = Disconnected"
  by (cases p) (simp add: applyDisconnectedState_def transitionToDisconnected_def Let_def io_frame)

lemma hist_fail: "tcp_hist n acc tak k p \<Longrightarrow> tcp_hist n acc tak k (failWithErrno what e p)"
  by (cases p) (simp add: failWithErrno_def tcp_hist_def emit_signal_def)

lemma state_fail [simp]: "m_state (fst (failWithErrno what e p)) = Failed"
  by (cases p) (simp add: failWithErrno_def)

lemma not_live:
  "m_state s = Disconnected \<Longrightarrow> \<not> is_live s" "m_state s = Failed \<Longrightarrow> \<not> is_live s"
  by (simp_all add: is_live_def)

lemma live_frame [simp]:
  "is_live (s\<lparr>m_writeQueue := q\<rparr>) = is_live s" "is_live (s\<lparr>m_readBuffer := b\<rparr>) = is_live s"
  "is_live (s\<lparr>m_blocking := c\<rparr>) = is_live s" "is_live (s\<lparr>m_state := Connected\<rparr>)" "is_live (s\<lparr>m_state := Connecting\<rparr>)"
  by (simp_all add: is_live_def)

text \<open>Writing out the queue: the connection goes on with a shorter queue and nothing lost, or it is closed.\<close>

definition keeps_flowing :: "addr \<Rightarrow> 'b list \<Rightarrow> 'b list \<Rightarrow> nat \<Rightarrow> ('b, 't) tcp \<Rightarrow> ('b, 't) tcp \<Rightarrow> bool" where
  "keeps_flowing n acc tak k p p' \<longleftrightarrow> tcp_hist n acc tak k p' \<and> (is_live (fst p') \<longrightarrow> tcp_flow acc tak p'
     \<and> m_state (fst p') = m_state (fst p) \<and> (\<forall>a \<in> set (m_writeQueue (fst p')). \<not> fullyConsumed a))"

lemma keeps_flowing_closed: "tcp_hist n acc tak k p' \<Longrightarrow> keeps_flowing n acc tak k p (applyDisconnectedState n em p')"
  by (simp add: keeps_flowing_def hist_disconnect not_live(1))

lemma keeps_flowing_from:
  "keeps_flowing n acc tak k (s, w) q \<Longrightarrow> m_state s = m_state t \<Longrightarrow> keeps_flowing n acc tak k (t, v) q"
  by (simp add: keeps_flowing_def)

lemma flush_loop_Nil: "m_writeQueue s = [] \<Longrightarrow> flush_loop n (s, w) = (True, (s, w))"
  by (cases s, subst flush_loop.simps) simp

lemma flush_loop_Cons:
  assumes "m_writeQueue s = a # rest" "\<not> fullyConsumed a"
  shows "te_sends w = [] \<Longrightarrow> flush_loop n (s, w) = (False, (s, w))"
    "te_sends w = Takes j # as \<Longrightarrow> written = min (Suc j) (remainingSize a) \<Longrightarrow> a1 = ByteArray_advance written a \<Longrightarrow>
       flush_loop n (s, w) = flush_loop n (s\<lparr>m_writeQueue := (if fullyConsumed a1 then rest else a1 # rest)\<rparr>,
         w\<lparr>te_sends := as, te_sent := te_sent w @ take written (remainingView a),
           te_posted := te_posted w @ [SigBytesWritten written]\<rparr>)"
    "te_sends w = SendFails EAGAIN # as \<Longrightarrow> flush_loop n (s, w) = (False, (s, w\<lparr>te_sends := as\<rparr>))"
    "te_sends w = SendFails EINTR # as \<Longrightarrow> flush_loop n (s, w) = flush_loop n (s, w\<lparr>te_sends := as\<rparr>)"
    "te_sends w = SendFails e # as \<Longrightarrow> e \<noteq> EAGAIN \<Longrightarrow> e \<noteq> EINTR \<Longrightarrow> flush_loop n (s, w) =
       (False, applyDisconnectedState n True (failWithErrno ''send() failed'' e (s, w\<lparr>te_sends := as\<rparr>)))"
  using assms by (cases s; subst flush_loop.simps; simp add: Let_def)+

lemma hist_flow_answers:
  assumes "tcp_hist n acc tak k (s, w)" "tcp_flow acc tak (s, w)"
  shows "tcp_hist n acc tak k (s, w\<lparr>te_sends := xs\<rparr>)" "tcp_flow acc tak (s, w\<lparr>te_sends := xs\<rparr>)"
    "tcp_hist n acc tak k (s, w\<lparr>te_recvs := bs\<rparr>)" "tcp_flow acc tak (s, w\<lparr>te_recvs := bs\<rparr>)"
  using assms by (simp_all add: tcp_hist_def tcp_flow_def)

lemma hist_flow_written:
  assumes "tcp_hist n acc tak k (s, w)" "tcp_flow acc tak (s, w)" "m_writeQueue s = a # rest"
    "written = min (Suc j) (remainingSize a)" "a1 = ByteArray_advance written a"
    "s1 = s\<lparr>m_writeQueue := (if fullyConsumed a1 then rest else a1 # rest)\<rparr>"
    "w1 = w\<lparr>te_sends := as, te_sent := te_sent w @ take written (remainingView a), te_posted := te_posted w @ [SigBytesWritten written]\<rparr>"
  shows "tcp_hist n acc tak k (s1, w1)" "tcp_flow acc tak (s1, w1)"
proof -
  have "pending s1 = drop written (remainingView a) @ concat (map remainingView rest)"
    by (simp add: assms(5,6) pending_def remaining_advance fullyConsumed_remaining)
  then have flow: "te_sent w @ take written (remainingView a) @ pending s1 = acc"
    using assms(2) by (simp add: assms(3) tcp_flow_def pending_def) (simp flip: append_assoc)
  show "tcp_flow acc tak (s1, w1)"
    using assms(2) flow by (simp add: tcp_flow_def assms(6,7))
  show "tcp_hist n acc tak k (s1, w1)"
    using assms(1) flow by (auto simp: tcp_hist_def assms(4,6,7) remainingSize_def)
qed

lemma flush_loop_flow:
  assumes "tcp_hist n acc tak k (s, w)" "tcp_flow acc tak (s, w)" "\<forall>a \<in> set (m_writeQueue s). \<not> fullyConsumed a"
  shows "keeps_flowing n acc tak k (s, w) (snd (flush_loop n (s, w)))"
  using assms
proof (induction "te_sends w" arbitrary: s w)
  case Nil
  then show ?case by (cases "m_writeQueue s") (simp_all add: flush_loop_Nil flush_loop_Cons(1) keeps_flowing_def)
next
  case (Cons ans as)
  show ?case
  proof (cases "m_writeQueue s")
    case Nil
    then show ?thesis using Cons.prems by (simp add: flush_loop_Nil keeps_flowing_def)
  next
    case q: (Cons a rest)
    then have a: "\<not> fullyConsumed a" using Cons.prems by simp
    note blocked = hist_flow_answers(1,2) [OF Cons.prems(1,2), where xs = as]
    show ?thesis
    proof (cases ans)
      case (Takes j)
      then have answers: "te_sends w = Takes j # as" using Cons.hyps(2) by argo
      define written where "written = min (Suc j) (remainingSize a)"
      define a1 where "a1 = ByteArray_advance written a"
      define s1 where "s1 = s\<lparr>m_writeQueue := (if fullyConsumed a1 then rest else a1 # rest)\<rparr>"
      define w1 where "w1 = w\<lparr>te_sends := as, te_sent := te_sent w @ take written (remainingView a),
        te_posted := te_posted w @ [SigBytesWritten written]\<rparr>"
      note state = hist_flow_written [OF Cons.prems(1,2) q written_def a1_def s1_def w1_def]
      have "\<forall>b \<in> set (m_writeQueue s1). \<not> fullyConsumed b" using Cons.prems(3) q by (simp add: s1_def)
      then have "keeps_flowing n acc tak k (s1, w1) (snd (flush_loop n (s1, w1)))"
        using Cons.hyps(1) [OF _ state] by (simp add: w1_def)
      moreover have "flush_loop n (s, w) = flush_loop n (s1, w1)"
        using flush_loop_Cons(2) [OF q a answers written_def a1_def] unfolding s1_def w1_def .
      moreover have "m_state s1 = m_state s" by (simp add: s1_def)
      ultimately show ?thesis using keeps_flowing_from by metis
    next
      case (SendFails e)
      consider (again) "e = EAGAIN" | (intr) "e = EINTR" | (other) "e \<noteq> EAGAIN" "e \<noteq> EINTR" by blast
      then show ?thesis
      proof cases
        case again
        then have "flush_loop n (s, w) = (False, (s, w\<lparr>te_sends := as\<rparr>))"
          using flush_loop_Cons(3) [OF q a] Cons.hyps(2) SendFails by metis
        then show ?thesis using blocked Cons.prems(3) by (simp add: keeps_flowing_def)
      next
        case intr
        then have "flush_loop n (s, w) = flush_loop n (s, w\<lparr>te_sends := as\<rparr>)"
          using flush_loop_Cons(4) [OF q a] Cons.hyps(2) SendFails by metis
        moreover have "keeps_flowing n acc tak k (s, w\<lparr>te_sends := as\<rparr>) (snd (flush_loop n (s, w\<lparr>te_sends := as\<rparr>)))"
          using Cons.hyps(1) [OF _ blocked(1,2) Cons.prems(3)] by simp
        ultimately show ?thesis by (simp add: keeps_flowing_def)
      next
        case other
        then have "flush_loop n (s, w) =
            (False, applyDisconnectedState n True (failWithErrno ''send() failed'' e (s, w\<lparr>te_sends := as\<rparr>)))"
          using flush_loop_Cons(5) [OF q a] Cons.hyps(2) SendFails by metis
        then show ?thesis using keeps_flowing_closed [OF hist_fail [OF blocked(1)]] by simp
      qed
    qed
  qed
qed

text \<open>Reading until the kernel has nothing more.\<close>

lemma hist_received:
  assumes "tcp_hist n acc tak k (s, w)" "tcp_flow acc tak (s, w)"
  shows "tcp_hist n acc tak k (s\<lparr>m_readBuffer := m_readBuffer s @ bs\<rparr>, w\<lparr>te_recvs := as, te_received := te_received w @ bs\<rparr>)"
    "tcp_hist n acc tak k (s, w\<lparr>te_recvs := as, te_received := te_received w @ bs\<rparr>)"
    "tcp_flow acc tak (s\<lparr>m_readBuffer := m_readBuffer s @ bs\<rparr>, w\<lparr>te_recvs := as, te_received := te_received w @ bs\<rparr>)"
  using assms by (auto simp: tcp_hist_def tcp_flow_def pending_def simp flip: append_assoc)

lemma flow_emit [simp]: "tcp_flow acc tak (emit_signal x p) = tcp_flow acc tak p"
  by (cases p) (simp add: tcp_flow_def emit_signal_def)

lemma keeps_flowing_emit: "keeps_flowing n acc tak k p p' \<Longrightarrow> written_of [x] = 0 \<Longrightarrow> keeps_flowing n acc tak k p (emit_signal x p')"
  by (simp add: keeps_flowing_def hist_emit)

lemma read_loop_cases:
  "te_recvs w = [] \<Longrightarrow> read_loop n appended (s, w) = (if appended then emit_signal SigReadyRead (s, w) else (s, w))"
  "te_recvs w = Gives [] # as \<Longrightarrow> read_loop n appended (s, w) =
     applyDisconnectedState n True (s, w\<lparr>te_recvs := as, te_received := te_received w @ []\<rparr>)"
  "te_recvs w = Gives bs # as \<Longrightarrow> bs \<noteq> [] \<Longrightarrow> read_loop n appended (s, w) =
     read_loop n True (s\<lparr>m_readBuffer := m_readBuffer s @ bs\<rparr>, w\<lparr>te_recvs := as, te_received := te_received w @ bs\<rparr>)"
  "te_recvs w = RecvFails EAGAIN # as \<Longrightarrow> read_loop n appended (s, w) =
     (if appended then emit_signal SigReadyRead (s, w\<lparr>te_recvs := as\<rparr>) else (s, w\<lparr>te_recvs := as\<rparr>))"
  "te_recvs w = RecvFails EINTR # as \<Longrightarrow> read_loop n appended (s, w) = read_loop n appended (s, w\<lparr>te_recvs := as\<rparr>)"
  "te_recvs w = RecvFails e # as \<Longrightarrow> e \<noteq> EAGAIN \<Longrightarrow> e \<noteq> EINTR \<Longrightarrow> read_loop n appended (s, w) =
     applyDisconnectedState n True (failWithErrno ''recv() failed'' e (s, w\<lparr>te_recvs := as\<rparr>))"
  by (subst read_loop.simps, simp add: Let_def)+

lemma read_loop_flow:
  assumes "tcp_hist n acc tak k (s, w)" "tcp_flow acc tak (s, w)" "\<forall>a \<in> set (m_writeQueue s). \<not> fullyConsumed a"
  shows "keeps_flowing n acc tak k (s, w) (read_loop n appended (s, w))"
  using assms
proof (induction "te_recvs w" arbitrary: s w appended)
  case Nil
  then have "keeps_flowing n acc tak k (s, w) (s, w)" by (simp add: keeps_flowing_def)
  then show ?case using Nil.hyps by (simp add: read_loop_cases(1) keeps_flowing_emit)
next
  case (Cons ans as)
  note blocked = hist_flow_answers(3,4) [OF Cons.prems(1,2), where bs = as]
  show ?case
  proof (cases ans)
    case (Gives bs)
    note state = hist_received [OF Cons.prems(1,2), of bs as]
    show ?thesis
    proof (cases "bs = []")
      case True
      then have "read_loop n appended (s, w) = applyDisconnectedState n True (s, w\<lparr>te_recvs := as, te_received := te_received w @ bs\<rparr>)"
        using read_loop_cases(2) Cons.hyps(2) Gives by metis
      then show ?thesis using keeps_flowing_closed [OF state(2)] by simp
    next
      case False
      let ?p = "(s\<lparr>m_readBuffer := m_readBuffer s @ bs\<rparr>, w\<lparr>te_recvs := as, te_received := te_received w @ bs\<rparr>)"
      have "keeps_flowing n acc tak k ?p (read_loop n True ?p)"
        using Cons.hyps(1) [OF _ state(1,3)] Cons.prems(3) by simp
      moreover have "read_loop n appended (s, w) = read_loop n True ?p"
        using read_loop_cases(3) Cons.hyps(2) Gives False by metis
      ultimately show ?thesis by (simp add: keeps_flowing_def)
    qed
  next
    case (RecvFails e)
    consider (again) "e = EAGAIN" | (intr) "e = EINTR" | (other) "e \<noteq> EAGAIN" "e \<noteq> EINTR" by blast
    then show ?thesis
    proof cases
      case again
      have "keeps_flowing n acc tak k (s, w) (s, w\<lparr>te_recvs := as\<rparr>)" using blocked Cons.prems(3) by (simp add: keeps_flowing_def)
      moreover have "te_recvs w = RecvFails EAGAIN # as" using Cons.hyps(2) RecvFails again by simp
      ultimately show ?thesis by (simp add: read_loop_cases(4) keeps_flowing_emit)
    next
      case intr
      have "te_recvs w = RecvFails EINTR # as" using Cons.hyps(2) RecvFails intr by simp
      then show ?thesis using Cons.hyps(1) [OF _ blocked] Cons.prems(3)
        by (simp add: read_loop_cases(5) keeps_flowing_def)
    next
      case other
      have "te_recvs w = RecvFails e # as" using Cons.hyps(2) RecvFails by simp
      then show ?thesis using keeps_flowing_closed [OF hist_fail [OF blocked(1)]] other
        by (simp add: read_loop_cases(6))
    qed
  qed
qed

lemma read_loop_frame:
  assumes "is_live (fst (read_loop n appended (s, w)))"
  shows "m_writeQueue (fst (read_loop n appended (s, w))) = m_writeQueue s
    \<and> io_interest (fst (read_loop n appended (s, w))) = io_interest s"
  using assms
proof (induction "te_recvs w" arbitrary: s w appended)
  case Nil
  then show ?case by (simp add: read_loop_cases(1))
next
  case (Cons ans as)
  show ?case
  proof (cases ans)
    case (Gives bs)
    then have answers: "te_recvs w = Gives bs # as" using Cons.hyps(2) by argo
    show ?thesis
    proof (cases "bs = []")
      case True
      then show ?thesis using Cons.prems answers by (simp add: read_loop_cases(2) not_live(1))
    next
      case False
      note unfold = read_loop_cases(3) [OF answers False]
      show ?thesis using Cons.hyps(1) [OF _ Cons.prems [unfolded unfold]] unfolding unfold by simp
    qed
  next
    case (RecvFails e)
    then have answers: "te_recvs w = RecvFails e # as" using Cons.hyps(2) by argo
    consider (again) "e = EAGAIN" | (intr) "e = EINTR" | (other) "e \<noteq> EAGAIN" "e \<noteq> EINTR" by blast
    then show ?thesis
    proof cases
      case again
      then show ?thesis using answers by (simp add: read_loop_cases(4))
    next
      case intr
      note unfold = read_loop_cases(5) [OF answers [unfolded intr]]
      show ?thesis using Cons.hyps(1) [OF _ Cons.prems [unfolded unfold]] unfolding unfold by simp
    next
      case other
      then show ?thesis using Cons.prems answers by (simp add: read_loop_cases(6) not_live(1))
    qed
  qed
qed


section \<open>Every operation keeps the invariant\<close>

definition tcp_ready :: "'b list \<Rightarrow> 'b list \<Rightarrow> ('b, 't) tcp \<Rightarrow> bool" where
  "tcp_ready acc tak = (\<lambda>(s, w). 0 \<le> io_fd s \<and> te_sent w @ pending s = acc \<and> tak @ m_readBuffer s = te_received w)"

definition queue_ok :: "'b TcpSocket \<Rightarrow> bool" where
  "queue_ok s \<longleftrightarrow> (\<forall>a \<in> set (m_writeQueue s). \<not> fullyConsumed a)"

definition tcp_good :: "addr \<Rightarrow> 'b list \<Rightarrow> 'b list \<Rightarrow> nat \<Rightarrow> ('b, 't) tcp \<Rightarrow> bool" where
  "tcp_good n acc tak k p \<longleftrightarrow> tcp_core n acc tak k p \<and> settled (fst p)"

lemma flow_ready: "tcp_flow acc tak p \<longleftrightarrow> tcp_ready acc tak p \<and> io_active (fst p)"
  by (cases p) (auto simp: tcp_flow_def tcp_ready_def)

lemma ready_on_io:
  assumes "tcp_ready acc tak p" "same_socket (fst (f (fst p, te_loop (snd p)))) (fst p)" "io_fd (fst (f (fst p, te_loop (snd p)))) = io_fd (fst p)"
  shows "tcp_ready acc tak (on_io f p)"
  using assms by (cases p; cases "f (fst p, te_loop (snd p))") (simp add: tcp_ready_def on_io_def same_socket_def pending_def)

lemma ready_io:
  "tcp_ready acc tak p \<Longrightarrow> tcp_ready acc tak (on_io (IOEvent_start n) p)"
  "tcp_ready acc tak p \<Longrightarrow> tcp_ready acc tak (on_io (IOEvent_setInterest n flags) p)"
  by (rule ready_on_io; simp add: io_frame same_socket_def)+

lemma ready_emit [simp]: "tcp_ready acc tak (emit_signal x p) = tcp_ready acc tak p"
  by (cases p) (simp add: tcp_ready_def emit_signal_def)

lemma good_dead: "tcp_hist n acc tak k p \<Longrightarrow> \<not> is_live (fst p) \<Longrightarrow> tcp_good n acc tak k p"
  by (simp add: tcp_good_def tcp_core_def settled_def)

lemma good_closed: "tcp_hist n acc tak k p \<Longrightarrow> tcp_good n acc tak k (applyDisconnectedState n em p)"
  by (simp add: good_dead hist_disconnect not_live(1))

lemma interest_frame: "same_socket s t \<Longrightarrow> interestForState s = interestForState t"
  by (simp add: same_socket_def interestForState_def)

lemma live_same: "same_socket s t \<Longrightarrow> is_live s = is_live t"
  by (simp add: same_socket_def is_live_def)

lemma fst_update: "fst (updateInterestForState n p) = fst (IOEvent_setInterest n (interestForState (fst p)) (fst p, te_loop (snd p)))"
  by (simp add: updateInterestForState_def)

lemma same_update: "same_socket (fst (updateInterestForState n p)) (fst p)"
  unfolding fst_update using io_ops_frame(3) by (metis fst_conv)

lemma good_update:
  assumes "tcp_hist n acc tak k p" "is_live (fst p) \<Longrightarrow> tcp_flow acc tak p \<and> queue_ok (fst p)"
  shows "tcp_good n acc tak k (updateInterestForState n p)"
proof (cases "is_live (fst p)")
  case False
  then have "\<not> is_live (fst (updateInterestForState n p))" using live_same [OF same_update [of n p]] by simp
  then show ?thesis using assms(1) good_dead by (simp add: updateInterestForState_def hist_setInterest good_dead)
next
  case True
  let ?q = "updateInterestForState n p"
  have "tcp_flow acc tak ?q"
    using assms(2) [OF True] by (simp add: flow_ready updateInterestForState_def ready_io io_frame)
  moreover have "io_interest (fst ?q) = interestForState (fst p)" by (simp add: fst_update io_frame)
  moreover have "queue_ok (fst ?q)" using assms(2) [OF True] same_update [of n p] by (simp add: queue_ok_def same_socket_def)
  moreover have "tcp_hist n acc tak k ?q" using assms(1) by (simp add: updateInterestForState_def hist_setInterest)
  ultimately show ?thesis using interest_frame [OF same_update [of n p]]
    by (simp add: tcp_good_def tcp_core_def settled_def queue_ok_def)
qed

lemma good_writable:
  assumes "tcp_hist n acc tak k p" "tcp_flow acc tak p" "queue_ok (fst p)"
  shows "tcp_good n acc tak k (handleWritable n p)"
proof -
  obtain s w where p: "p = (s, w)" by fastforce
  have "keeps_flowing n acc tak k p (snd (flushPendingWrites n p))"
    using assms flush_loop_flow [of n acc tak k s w] by (simp add: p flushPendingWrites_def tcp_flow_def queue_ok_def)
  then show ?thesis unfolding handleWritable_def
    by (intro good_update) (simp_all add: keeps_flowing_def queue_ok_def)
qed

lemma good_connected:
  assumes "tcp_hist n acc tak k p" "tcp_ready acc tak p" "queue_ok (fst p)"
  shows "tcp_good n acc tak k (applyConnectedState n p)"
proof -
  let ?p1 = "updateInterestForState n (set_state Connected p)"
  let ?p2 = "emit_signal SigConnected (on_io (IOEvent_start n) ?p1)"
  have 1: "tcp_hist n acc tak k (set_state Connected p)" "tcp_ready acc tak (set_state Connected p)"
    using assms by (cases p; simp add: tcp_hist_def tcp_ready_def set_state_def pending_def)+
  then have "tcp_hist n acc tak k ?p1" "tcp_ready acc tak ?p1"
    by (simp_all add: updateInterestForState_def hist_setInterest ready_io)
  then have 2: "tcp_hist n acc tak k ?p2" "tcp_flow acc tak ?p2"
    by (simp_all add: hist_emit hist_start flow_ready ready_io io_frame)
  have "m_writeQueue (fst ?p2) = m_writeQueue (fst p)"
    using same_update [of n "set_state Connected p"] by (cases p) (simp add: io_frame same_socket_def set_state_def)
  then show ?thesis unfolding applyConnectedState_def using 2 assms(3) by (intro good_writable) (simp_all add: queue_ok_def)
qed

lemma goodD:
  "tcp_good n acc tak k p \<Longrightarrow> tcp_hist n acc tak k p"
  "tcp_good n acc tak k p \<Longrightarrow> is_live (fst p) \<Longrightarrow> tcp_flow acc tak p \<and> tcp_ready acc tak p \<and> queue_ok (fst p)"
  by (simp_all add: tcp_good_def tcp_core_def settled_def queue_ok_def flow_ready)

lemma live_states: "m_state s = Connected \<Longrightarrow> is_live s" "m_state s = Connecting \<Longrightarrow> is_live s"
  by (simp_all add: is_live_def)

lemma good_readable:
  assumes "tcp_good n acc tak k p" "m_state (fst p) = Connected"
  shows "tcp_good n acc tak k (handleReadable n p)"
proof -
  obtain s w where p: "p = (s, w)" by fastforce
  have flow: "tcp_flow acc tak (s, w)" "queue_ok s" "tcp_hist n acc tak k (s, w)" "is_live s"
    using goodD [OF assms(1)] live_states(1) [OF assms(2)] by (simp_all add: p)
  let ?q = "read_loop n False (s, w)"
  have q: "keeps_flowing n acc tak k (s, w) ?q"
    using read_loop_flow flow by (simp add: queue_ok_def)
  have "settled (fst ?q)"
  proof (cases "is_live (fst ?q)")
    case True
    then have "m_writeQueue (fst ?q) = m_writeQueue s \<and> io_interest (fst ?q) = io_interest s" "m_state (fst ?q) = m_state s"
      using read_loop_frame q by (auto simp: keeps_flowing_def)
    then show ?thesis using assms(1) flow(4) by (simp add: settled_def p tcp_good_def interestForState_def)
  next
    case False
    then show ?thesis by (simp add: settled_def)
  qed
  then have "tcp_good n acc tak k ?q" using q by (simp add: tcp_good_def tcp_core_def keeps_flowing_def)
  then show ?thesis using flow(1) by (simp add: p handleReadable_def tcp_flow_def)
qed

lemma good_handle_ready:
  assumes "tcp_good n acc tak k p"
  shows "tcp_good n acc tak k (handle_ready n native p)"
proof -
  let ?p1 = "if native AND EPOLLIN \<noteq> 0 \<and> m_state (fst p) = Connected then handleReadable n p else p"
  have 1: "tcp_good n acc tak k ?p1" by (simp add: assms good_readable)
  then have "m_state (fst ?p1) = Connected \<Longrightarrow> tcp_good n acc tak k (handleWritable n ?p1)"
    using goodD [OF 1] live_states(1) by (intro good_writable) blast+
  then show ?thesis using 1 by (simp add: handle_ready_def Let_def)
qed

lemma good_react:
  assumes "tcp_good n acc tak k p"
  shows "tcp_good n acc tak k (TcpSocket_react n native sockopt p)"
proof -
  have c: "m_state (fst p) = Connecting \<Longrightarrow> tcp_good n acc tak k (applyConnectedState n p)"
    using goodD [OF assms] live_states(2) by (intro good_connected) blast+
  have h: "tcp_hist n acc tak k p" by (rule goodD(1) [OF assms])
  show ?thesis unfolding TcpSocket_react_def
    using assms c h by (simp add: good_closed hist_fail good_handle_ready split: prod.split)
qed

lemma good_base_events [simp]: "tcp_good n acc tak k (base_events native p) = tcp_good n acc tak k p"
  by (cases p) (simp add: base_events_def tcp_good_def tcp_core_def tcp_hist_def tcp_flow_def)

lemma good_events: "tcp_good n acc tak k p \<Longrightarrow> tcp_good n acc tak k (TcpSocket_handleEvents n native sockopt p)"
  by (simp add: TcpSocket_handleEvents_def good_react)

lemma good_write:
  assumes "tcp_good n acc tak k p" "TcpSocket_write n data p = (j, p')"
  shows "tcp_good n (acc @ take j (remainingView data)) tak k p'"
proof -
  obtain s w where p: "p = (s, w)" by fastforce
  show ?thesis
  proof (cases "remainingSize data = 0 \<or> \<not> is_live s")
    case True
    then show ?thesis using assms by (auto simp: p TcpSocket_write_def split: if_splits)
  next
    case False
    let ?s = "s\<lparr>m_writeQueue := m_writeQueue s @ [data]\<rparr>" and ?acc = "acc @ remainingView data"
    have live: "tcp_flow acc tak (s, w)" "queue_ok s" "tcp_hist n acc tak k (s, w)"
      using goodD [OF assms(1)] False by (simp_all add: p)
    then have "tcp_flow ?acc tak (?s, w)" "queue_ok ?s" "tcp_hist n ?acc tak k (?s, w)"
      using False by (auto simp: tcp_flow_def queue_ok_def tcp_hist_def pending_def fullyConsumed_def)
    then have "tcp_good n ?acc tak k (handleWritable n (?s, w))" by (simp add: good_writable)
    then show ?thesis using assms(2) False by (auto simp: p TcpSocket_write_def remainingSize_def)
  qed
qed

lemma good_read:
  assumes "tcp_good n acc tak k p" "TcpSocket_readAll p = (a, p')"
  shows "tcp_good n acc (tak @ remainingView a) k p'"
  using assms by (cases p)
    (auto simp: TcpSocket_readAll_def tcp_good_def tcp_core_def tcp_hist_def tcp_flow_def settled_def pending_def interestForState_def)

lemma good_setBlocking:
  assumes "tcp_good n acc tak k p"
  shows "tcp_good n acc tak k (TcpSocket_setBlocking b mode p)"
proof -
  obtain s w where p: "p = (s, w)" by fastforce
  have "tcp_good n acc tak k (s\<lparr>m_blocking := b\<rparr>, w)"
    using assms by (simp add: p tcp_good_def tcp_core_def tcp_hist_def tcp_flow_def settled_def pending_def interestForState_def)
  then show ?thesis by (simp add: p TcpSocket_setBlocking_def Let_def good_dead goodD(1) hist_fail not_live(2))
qed

definition run_good :: "addr \<Rightarrow> ('b, 't) tcp_run \<Rightarrow> bool" where
  "run_good n r \<longleftrightarrow> tcp_good n (tr_accepted r) (tr_taken r) (written_of (tr_delivered r)) (tr_tcp r)"

lemma good_env:
  assumes "tcp_good n acc tak k (s, w)"
  shows "tcp_good n acc tak k (s, w\<lparr>te_sends := as, te_recvs := bs\<rparr>)"
    "te_posted w = x # xs \<Longrightarrow> tcp_good n acc tak (k + written_of [x]) (s, w\<lparr>te_posted := xs\<rparr>)"
    "by_others n (io_fd s) (te_loop w) l \<Longrightarrow> tcp_good n acc tak k (s, w\<lparr>te_loop := l\<rparr>)"
proof -
  show "tcp_good n acc tak k (s, w\<lparr>te_sends := as, te_recvs := bs\<rparr>)"
    using assms by (simp add: tcp_good_def tcp_core_def tcp_hist_def tcp_flow_def)
  have "written_of (x # xs) = written_of [x] + written_of xs" using written_of_append [of "[x]" xs] by simp
  then show "te_posted w = x # xs \<Longrightarrow> tcp_good n acc tak (k + written_of [x]) (s, w\<lparr>te_posted := xs\<rparr>)"
    using assms by (simp add: tcp_good_def tcp_core_def tcp_hist_def tcp_flow_def)
  show "by_others n (io_fd s) (te_loop w) l \<Longrightarrow> tcp_good n acc tak k (s, w\<lparr>te_loop := l\<rparr>)"
    using assms by (simp add: tcp_good_def tcp_core_def tcp_hist_def tcp_flow_def by_others_def in_sync_def)
qed

lemma tcp_step_good: "tcp_step n r r' \<Longrightarrow> run_good n r \<Longrightarrow> run_good n r'"
proof (induction rule: tcp_step.induct)
  case (written data r k p)
  then show ?case by (simp add: run_good_def good_write)
next
  case (read r a p)
  then show ?case by (simp add: run_good_def good_read)
next
  case (close r)
  then show ?case by (simp add: run_good_def TcpSocket_close_def good_closed goodD(1))
next
  case (events r native sockopt)
  then show ?case by (simp add: run_good_def good_events)
next
  case (blocking r b mode)
  then show ?case by (simp add: run_good_def good_setBlocking)
next
  case (signal r x xs)
  then show ?case using good_env(2) by (cases "tr_tcp r") (simp add: run_good_def set_env_def)
next
  case (kernel r as bs)
  then show ?case by (cases "tr_tcp r") (simp add: run_good_def set_env_def good_env(1))
next
  case (others r k)
  then show ?case by (cases "tr_tcp r") (simp add: run_good_def set_env_def good_env(3))
qed

text \<open>A new socket, and one that looks for an address to connect to.\<close>

definition unconnected :: "addr \<Rightarrow> ('b, 't) tcp \<Rightarrow> bool" where
  "unconnected n = (\<lambda>(s, w). tcp_hist n [] [] 0 (s, w) \<and> m_state s \<noteq> Connected \<and> m_state s \<noteq> Connecting \<and> m_readBuffer s = []
     \<and> m_writeQueue s = [] \<and> \<not> io_active s \<and> te_sent w = [] \<and> te_received w = [])"

lemma unconnected_init:
  assumes "fresh_env n w"
  shows "unconnected n (TcpSocket_init blocking :: 'b TcpSocket, w)"
  using assms
  by (simp add: fresh_env_def unconnected_def TcpSocket_init_def IOEvent.defs TcpSocket.defs IOEvent_init_def tcp_hist_def
      in_sync_def own_watch_def watch_view_def table_ok_def)

lemma unconnected_descriptor:
  assumes "unconnected n p" "unwatched fd (te_loop (snd p))"
  shows "unconnected n (on_io (IOEvent_setDescriptor n fd) p) \<and> te_loop (snd (on_io (IOEvent_setDescriptor n fd) p)) = te_loop (snd p)
    \<and> io_fd (fst (on_io (IOEvent_setDescriptor n fd) p)) = fd"
proof -
  obtain s w where p: "p = (s, w)" by fastforce
  have "tcp_hist n [] [] 0 (on_io (IOEvent_setDescriptor n fd) p)"
    using assms by (intro hist_setDescriptor) (simp_all add: unconnected_def p)
  then show ?thesis using assms
    by (auto simp: unconnected_def p on_io_def IOEvent_setDescriptor_def Let_def split: if_splits)
qed

lemma unconnected_closed:
  assumes "unconnected n p"
  shows "unconnected n (TcpSocket_close n p) \<and> te_loop (snd (TcpSocket_close n p)) = te_loop (snd p)"
proof -
  obtain s w where p: "p = (s, w)" by fastforce
  let ?s = "s\<lparr>m_state := Disconnected, m_readBuffer := [], m_writeQueue := []\<rparr>"
  have "unconnected n (?s, w)" "unwatched (- 1) (te_loop w)"
    using assms hist_table by (fastforce simp: unconnected_def p tcp_hist_def)+
  moreover have "on_io (IOEvent_stop n) (?s, w) = (?s, w)"
    using assms by (simp add: p unconnected_def on_io_def IOEvent_stop_def)
  moreover have "TcpSocket_close n p = on_io (IOEvent_setDescriptor n (- 1)) (on_io (IOEvent_stop n) (?s, w))"
    using assms by (simp add: p TcpSocket_close_def applyDisconnectedState_def transitionToDisconnected_def unconnected_def is_live_def Let_def)
  ultimately show ?thesis using unconnected_descriptor [of n "(?s, w)" "- 1"] by (simp add: p)
qed

lemma unconnected_good: "unconnected n p \<Longrightarrow> tcp_good n [] [] 0 p"
  by (cases p) (simp add: unconnected_def good_dead is_live_def)

lemma good_started:
  assumes "tcp_hist n acc tak k p" "tcp_ready acc tak p" "queue_ok (fst p)"
  shows "tcp_good n acc tak k (on_io (IOEvent_start n) (updateInterestForState n p))"
proof -
  let ?p1 = "updateInterestForState n p"
  let ?p2 = "on_io (IOEvent_start n) ?p1"
  have h: "tcp_hist n acc tak k ?p2" using assms(1) by (simp add: updateInterestForState_def hist_setInterest hist_start)
  have f: "tcp_flow acc tak ?p2" using assms(2) by (simp add: flow_ready updateInterestForState_def ready_io io_frame)
  have s: "same_socket (fst ?p2) (fst p)"
    using same_update [of n p] by (simp add: same_socket_def io_frame)
  have "io_interest (fst ?p2) = interestForState (fst p)" by (simp add: fst_update io_frame)
  then have "settled (fst ?p2)" using interest_frame [OF s] s assms(3) by (simp add: settled_def queue_ok_def same_socket_def)
  then show ?thesis using h f by (simp add: tcp_good_def tcp_core_def)
qed

lemma hist_set_state: "tcp_hist n acc tak k (set_state x p) = tcp_hist n acc tak k p"
  by (cases p) (simp add: set_state_def tcp_hist_def)

lemma unconnected_ready:
  assumes "unconnected n p" "0 \<le> io_fd (fst p)"
  shows "tcp_hist n [] [] 0 p" "tcp_ready [] [] p" "queue_ok (fst p)" "tcp_ready [] [] (set_state x p)" "queue_ok (fst (set_state x p))"
  using assms by (cases p; simp add: unconnected_def tcp_ready_def queue_ok_def pending_def set_state_def)+

lemma good_adopted:
  assumes "unconnected n p" "unwatched fd (te_loop (snd p))"
  shows "tcp_good n [] [] 0 (adoptConnectedDescriptor n fd mode p)"
proof -
  let ?p = "on_io (IOEvent_setDescriptor n fd) p"
  have h: "tcp_hist n [] [] 0 p" using assms(1) by (simp add: unconnected_def split: prod.splits)
  then have c: "tcp_hist n [] [] 0 (close_fd fd p)" by (cases p) (simp add: close_fd_def tcp_hist_def)
  show ?thesis
  proof (cases "fd < 0 \<or> fst mode < 0")
    case True
    then show ?thesis using h c by (auto simp: adoptConnectedDescriptor_def good_dead hist_fail not_live(2))
  next
    case False
    have p: "unconnected n ?p" "0 \<le> io_fd (fst ?p)" using unconnected_descriptor [OF assms] False by simp_all
    have "tcp_good n [] [] 0 (on_io (IOEvent_start n) (updateInterestForState n (set_state Connected ?p)))"
      by (intro good_started unconnected_ready(4,5) [OF p]) (simp add: hist_set_state unconnected_ready(1) [OF p])
    then show ?thesis using False by (simp add: adoptConnectedDescriptor_def)
  qed
qed

lemma good_candidates:
  assumes "unconnected n p" "\<forall>a \<in> set as. attempt_ok (te_loop (snd p)) a"
  shows "tcp_good n [] [] 0 (connect_candidates n e as p)"
  using assms
proof (induction n e as p rule: connect_candidates.induct)
  case (1 n lastError p)
  then have "tcp_hist n [] [] 0 p" by (simp add: unconnected_def split: prod.splits)
  then show ?case by (simp add: TcpSocket_close_def good_closed hist_fail)
next
  case (2 n lastError e as p)
  then show ?case by simp
next
  case (3 n lastError fd e as p)
  have "unconnected n (close_fd fd p)" "te_loop (snd (close_fd fd p)) = te_loop (snd p)"
    using 3(2) by (cases p; simp add: unconnected_def close_fd_def tcp_hist_def)+
  then show ?case using 3 by simp
next
  case (4 n lastError fd rc e as p)
  let ?p = "on_io (IOEvent_setDescriptor n fd) p"
  have fd: "0 \<le> fd" "unwatched fd (te_loop (snd p))" using 4(3) by (simp_all add: attempt_ok_def)
  have p: "unconnected n ?p" "te_loop (snd ?p) = te_loop (snd p)" "io_fd (fst ?p) = fd"
    using unconnected_descriptor [OF 4(2) fd(2)] by blast+
  have "0 \<le> io_fd (fst ?p)" using fd(1) p(3) by simp
  note ready = unconnected_ready [OF p(1) this]
  have "unwatched (- 1) (te_loop (snd ?p))" using hist_table [of n "[]" "[]" 0 ?p] p(1) by (simp add: unconnected_def split: prod.splits)
  then have undone: "unconnected n (on_io (IOEvent_setDescriptor n (- 1)) ?p)"
      "te_loop (snd (on_io (IOEvent_setDescriptor n (- 1)) ?p)) = te_loop (snd ?p)"
    using unconnected_descriptor [OF p(1)] by blast+
  consider (connected) "rc = 0" | (progress) "rc \<noteq> 0" "e = EINPROGRESS" "\<not> m_blocking (fst ?p)"
    | (failed) "rc \<noteq> 0" "\<not> (e = EINPROGRESS \<and> \<not> m_blocking (fst ?p))" by blast
  then show ?case
  proof cases
    case connected
    then show ?thesis using good_connected [OF ready(1-3)] by (simp add: Let_def)
  next
    case progress
    have "tcp_hist n [] [] 0 (set_state Connecting ?p)" by (simp add: hist_set_state ready(1))
    then show ?thesis using good_started [OF _ ready(4,5)] progress by (simp add: Let_def)
  next
    case failed
    then have "connect_candidates n lastError (Connects fd rc e # as) p =
        connect_candidates n e as (on_io (IOEvent_setDescriptor n (- 1)) ?p)"
      by (auto simp: Let_def)
    then show ?thesis using 4(1) [OF refl failed] undone p(2) 4(3) by simp
  qed
qed

lemma tcp_reachable_good: "tcp_reachable n r \<Longrightarrow> run_good n r"
proof (induction rule: tcp_reachable.induct)
  case (adopted w fd mode blocking)
  then show ?case using good_adopted [OF unconnected_init [OF adopted(1)]] by (simp add: run_good_def)
next
  case (connected w resolved host blocking)
  let ?p = "(TcpSocket_init blocking, w)"
  note closed = unconnected_closed [OF unconnected_init [OF connected(1)], of blocking]
  show ?case
  proof (cases resolved)
    case (Inl err)
    let ?q = "set_state Failed (TcpSocket_close n ?p)"
    have "tcp_hist n [] [] 0 ?q" using closed by (simp add: hist_set_state unconnected_def split: prod.splits)
    moreover have "m_state (fst ?q) = Failed" by (cases "TcpSocket_close n ?p") (simp add: set_state_def)
    ultimately show ?thesis
      using Inl by (simp add: run_good_def TcpSocket_connectToHost_def good_dead hist_emit not_live(2))
  next
    case (Inr as)
    then have "tcp_good n [] [] 0 (connect_candidates n EHOSTUNREACH as (TcpSocket_close n ?p))"
      using closed connected(2) by (intro good_candidates) simp_all
    then show ?thesis using Inr by (simp add: run_good_def TcpSocket_connectToHost_def)
  qed
next
  case (step r r')
  then show ?case using tcp_step_good by blast
qed


section \<open>Histories only grow\<close>

definition grows :: "('b, 't) tcp \<Rightarrow> ('b, 't) tcp \<Rightarrow> bool" where
  "grows p q \<longleftrightarrow> prefix (te_sent (snd p)) (te_sent (snd q)) \<and> prefix (te_received (snd p)) (te_received (snd q))"

lemma grows_refl [simp]: "grows p p"
  by (simp add: grows_def)

lemma grows_trans [trans]: "grows p q \<Longrightarrow> grows q r \<Longrightarrow> grows p r"
  by (auto simp: grows_def)

lemma grows_same: "te_sent (snd q) = te_sent (snd p) \<Longrightarrow> te_received (snd q) = te_received (snd p) \<Longrightarrow> grows p q"
  by (simp add: grows_def)

lemma env_emit_sent [simp]: "te_sent (snd (emit_signal x p)) = te_sent (snd p)"
  by (cases p) (simp add: emit_signal_def)

lemma env_fail [simp]:
  "te_sent (snd (failWithErrno what e p)) = te_sent (snd p)" "te_received (snd (failWithErrno what e p)) = te_received (snd p)"
  by (cases p; simp add: failWithErrno_def)+

lemma env_set_state [simp]: "snd (set_state st p) = snd p"
  by (cases p) (simp add: set_state_def)

lemma env_update [simp]:
  "te_sent (snd (updateInterestForState n p)) = te_sent (snd p)" "te_received (snd (updateInterestForState n p)) = te_received (snd p)"
  by (simp_all add: updateInterestForState_def)

lemma env_disconnect [simp]:
  "te_sent (snd (applyDisconnectedState n em p)) = te_sent (snd p)" "te_received (snd (applyDisconnectedState n em p)) = te_received (snd p)"
  by (cases p; simp add: applyDisconnectedState_def transitionToDisconnected_def Let_def)+

lemma env_close [simp]:
  "te_sent (snd (TcpSocket_close n p)) = te_sent (snd p)" "te_received (snd (TcpSocket_close n p)) = te_received (snd p)"
  by (simp_all add: TcpSocket_close_def)

lemma flush_grows: "grows (s, w) (snd (flush_loop n (s, w)))"
proof (induction "te_sends w" arbitrary: s w)
  case Nil
  show ?case using Nil by (subst flush_loop.simps) (simp add: Let_def grows_def split: list.split)
next
  case (Cons ans as)
  define q where "q = dropWhile fullyConsumed (m_writeQueue s)"
  define s1 where "s1 = s\<lparr>m_writeQueue := q\<rparr>"
  show ?case
  proof (cases q)
    case Nil
    then show ?thesis by (subst flush_loop.simps) (simp add: Let_def grows_def flip: q_def)
  next
    case q: (Cons a rest)
    show ?thesis
    proof (cases ans)
      case (Takes j)
      define w1 where "w1 = w\<lparr>te_sends := as, te_sent := te_sent w @ take (min (Suc j) (remainingSize a)) (remainingView a),
        te_posted := te_posted w @ [SigBytesWritten (min (Suc j) (remainingSize a))]\<rparr>"
      have "as = te_sends w1" by (simp add: w1_def)
      note later = Cons.hyps(1) [OF this]
      have "\<exists>s2. flush_loop n (s, w) = flush_loop n (s2, w1)"
        using Cons.hyps(2) [symmetric] Takes q
        by (subst flush_loop.simps) (auto simp: Let_def w1_def simp flip: q_def)
      then obtain s2 where step: "flush_loop n (s, w) = flush_loop n (s2, w1)" by blast
      have "grows (s, w) (s2, w1)" by (simp add: grows_def w1_def)
      from grows_trans [OF this later] show ?thesis unfolding step .
    next
      case (SendFails e)
      define w1 where "w1 = w\<lparr>te_sends := as\<rparr>"
      have "as = te_sends w1" by (simp add: w1_def)
      note later = Cons.hyps(1) [OF this, of s1]
      have same: "grows (s, w) (s1, w1)" by (simp add: grows_def w1_def)
      have "flush_loop n (s, w) = (if e = EAGAIN then (False, (s1, w1)) else if e = EINTR then flush_loop n (s1, w1)
          else (False, applyDisconnectedState n True (failWithErrno ''send() failed'' e (s1, w1))))"
        using Cons.hyps(2) [symmetric] SendFails q
        by (subst flush_loop.simps) (simp add: Let_def w1_def s1_def flip: q_def)
      then show ?thesis using grows_trans [OF same later] same by (simp add: grows_def)
    qed
  qed
qed

lemma read_grows: "grows (s, w) (read_loop n appended (s, w))"
proof (induction "te_recvs w" arbitrary: s w appended)
  case Nil
  then show ?case by (simp add: read_loop_cases(1) grows_def)
next
  case (Cons ans as)
  show ?case
  proof (cases ans)
    case (Gives bs)
    then have answers: "te_recvs w = Gives bs # as" using Cons.hyps(2) by argo
    define w1 where "w1 = w\<lparr>te_recvs := as, te_received := te_received w @ bs\<rparr>"
    have "as = te_recvs w1" by (simp add: w1_def)
    note later = Cons.hyps(1) [OF this, of "s\<lparr>m_readBuffer := m_readBuffer s @ bs\<rparr>" True]
    show ?thesis
    proof (cases "bs = []")
      case True
      then show ?thesis using answers by (simp add: read_loop_cases(2) grows_def)
    next
      case False
      have "grows (s, w) (s\<lparr>m_readBuffer := m_readBuffer s @ bs\<rparr>, w1)" by (simp add: grows_def w1_def)
      from grows_trans [OF this later] show ?thesis unfolding w1_def read_loop_cases(3) [OF answers False] .
    qed
  next
    case (RecvFails e)
    then have answers: "te_recvs w = RecvFails e # as" using Cons.hyps(2) by argo
    define w1 where "w1 = w\<lparr>te_recvs := as\<rparr>"
    have "as = te_recvs w1" by (simp add: w1_def)
    note later = Cons.hyps(1) [OF this, of s appended]
    have same: "grows (s, w) (s, w1)" by (simp add: grows_def w1_def)
    have "read_loop n appended (s, w) = (if e = EAGAIN then if appended then emit_signal SigReadyRead (s, w1) else (s, w1)
        else if e = EINTR then read_loop n appended (s, w1)
        else applyDisconnectedState n True (failWithErrno ''recv() failed'' e (s, w1)))"
      using answers by (subst read_loop.simps) (simp add: Let_def w1_def)
    then show ?thesis using grows_trans [OF same later] same by (simp add: grows_def)
  qed
qed

lemma writable_grows: "grows p (handleWritable n p)"
proof -
  have "grows p (snd (flushPendingWrites n p))" using flush_grows [of "fst p" "snd p" n] by (simp add: flushPendingWrites_def)
  then show ?thesis by (simp add: handleWritable_def grows_def)
qed

lemma readable_grows: "grows p (handleReadable n p)"
  using read_grows [of "fst p" "snd p" n False] by (simp add: handleReadable_def)

lemma connected_grows: "grows p (applyConnectedState n p)"
proof -
  let ?q = "emit_signal SigConnected (on_io (IOEvent_start n) (updateInterestForState n (set_state Connected p)))"
  have "grows p ?q" by (simp add: grows_def)
  from grows_trans [OF this writable_grows] show ?thesis by (simp add: applyConnectedState_def)
qed

lemma handle_ready_grows: "grows p (handle_ready n native p)"
proof -
  let ?q = "if native AND EPOLLIN \<noteq> 0 \<and> m_state (fst p) = Connected then handleReadable n p else p"
  have "grows p ?q" by (simp add: readable_grows)
  from this grows_trans [OF this writable_grows] show ?thesis by (simp only: handle_ready_def Let_def split: if_split) blast
qed

lemma react_grows: "grows p (TcpSocket_react n native sockopt p)"
proof -
  have closed: "grows p (applyDisconnectedState n True p)" "grows p (applyDisconnectedState n True (failWithErrno what e p))" for what e
    by (simp_all add: grows_def)
  have "grows p (handle_ready n native (applyConnectedState n p))" using grows_trans [OF connected_grows handle_ready_grows] .
  then show ?thesis
    by (simp add: TcpSocket_react_def closed connected_grows handle_ready_grows split: prod.split)
qed

lemma events_grow: "grows p (TcpSocket_handleEvents n native sockopt p)"
  using react_grows [of "base_events native p" n native sockopt] by (simp add: TcpSocket_handleEvents_def grows_def)

lemma write_grows: "TcpSocket_write n data p = (k, q) \<Longrightarrow> grows p q"
  using writable_grows [of "((fst p)\<lparr>m_writeQueue := m_writeQueue (fst p) @ [data]\<rparr>, snd p)" n]
  by (cases p) (auto simp: TcpSocket_write_def grows_def split: if_splits)

text \<open>A connection that has ended does not come back to life by itself.\<close>

lemma dead_react: "\<not> is_live (fst p) \<Longrightarrow> \<not> is_live (fst (TcpSocket_react n native sockopt p))"
  by (auto simp: TcpSocket_react_def handle_ready_def Let_def not_live(1) dest: live_states split: prod.split)

lemma dead_events: "\<not> is_live (fst p) \<Longrightarrow> \<not> is_live (fst (TcpSocket_handleEvents n native sockopt p))"
  by (simp add: TcpSocket_handleEvents_def dead_react)

lemma dead_write: "\<not> is_live (fst p) \<Longrightarrow> TcpSocket_write n data p = (0, p)"
  by (cases p) (simp add: TcpSocket_write_def)

lemma live_write:
  "is_live (fst p) \<Longrightarrow> bs \<noteq> [] \<Longrightarrow> fst (TcpSocket_write n (ByteArray_new bs) p) = length bs"
  by (cases p) (simp add: TcpSocket_write_def remainingSize_def)


section \<open>Properties\<close>

lemma run_goodD:
  assumes "tcp_reachable n r" "tr_tcp r = (s, w)"
  shows "tcp_hist n (tr_accepted r) (tr_taken r) (written_of (tr_delivered r)) (s, w)"
    "is_live s \<Longrightarrow> tcp_flow (tr_accepted r) (tr_taken r) (s, w)" "settled s"
  using tcp_reachable_good [OF assms(1)] assms(2) by (simp_all add: run_good_def tcp_good_def tcp_core_def)

text \<open>C23. Through any interleaving of writes, reads, readiness events, system call results, signal deliveries and a close,
  a connection is two byte streams: what the kernel has been given is a prefix of what \<open>write\<close> accepted, in
  order, and what the reader got and has buffered is a prefix of what the kernel delivered; the announced numbers of
  written bytes add up to what the kernel took; and while the connection lives nothing is missing in either
  direction.\<close>

theorem tcp_stream_in_order:
  "tcp_reachable n r \<Longrightarrow> tr_tcp r = (s, w) \<Longrightarrow>
   prefix (te_sent w) (tr_accepted r) \<and> prefix (tr_taken r @ m_readBuffer s) (te_received w)
   \<and> written_of (tr_delivered r @ te_posted w) = length (te_sent w)
   \<and> (is_live s \<longrightarrow> te_sent w @ pending s = tr_accepted r \<and> tr_taken r @ m_readBuffer s = te_received w)"
  using run_goodD [of n r s w] by (simp add: tcp_hist_def tcp_flow_def)

lemma interest_connected:
  "m_state s = Connected \<Longrightarrow> interestToNative (interestForState s) =
     EPOLLERR OR EPOLLHUP OR EPOLLIN OR (if m_writeQueue s = [] then 0 else EPOLLOUT)"
  by (simp add: interestForState_def interestToNative_def hasAny_def Let_def)

lemma pending_empty: "queue_ok s \<Longrightarrow> pending s = [] \<longleftrightarrow> m_writeQueue s = []"
  by (cases "m_writeQueue s") (auto simp: pending_def queue_ok_def fullyConsumed_remaining)

text \<open>C24. While a socket is connected its owner watches its descriptor for input, errors and hang-up, and for output
  exactly as long as bytes wait to be sent: what could not be sent at once cannot be forgotten, and an idle
  connection does not keep waking the loop.\<close>

theorem tcp_pending_output_is_watched:
  assumes "tcp_reachable n r" "tr_tcp r = (s, w)" "m_state s = Connected"
  shows "watch_view (smap_get (el_ioWatches (te_loop w)) (io_fd s)) =
    Some (EPOLLERR OR EPOLLHUP OR EPOLLIN OR (if pending s = [] then 0 else EPOLLOUT), Some (n, io_fd s, io_generation s))"
proof -
  have live: "is_live s" using assms(3) by (simp add: is_live_def)
  note good = run_goodD [OF assms(1,2)]
  have q: "queue_ok s" "io_interest s = interestForState s" using good(3) live by (simp_all add: settled_def queue_ok_def)
  have "io_active s" "0 \<le> io_fd s" using good(2) [OF live] by (simp_all add: tcp_flow_def)
  then show ?thesis using good(1) interest_connected [OF assms(3)] pending_empty [OF q(1)] q(2)
    by (simp add: tcp_hist_def in_sync_def own_watch_def watches_def makeDispatchCallback_def)
qed

lemma flush_drains:
  assumes "te_sends w = map Takes ks" "length (pending s) \<le> length ks" "queue_ok s"
  shows "m_writeQueue (fst (snd (flush_loop n (s, w)))) = [] \<and> m_state (fst (snd (flush_loop n (s, w)))) = m_state s
    \<and> te_sent (snd (snd (flush_loop n (s, w)))) = te_sent w @ pending s"
  using assms
proof (induction ks arbitrary: s w)
  case Nil
  then show ?case using pending_empty [of s] by (simp add: flush_loop_Nil)
next
  case (Cons j ks)
  show ?case
  proof (cases "m_writeQueue s")
    case Nil
    then show ?thesis by (simp add: flush_loop_Nil pending_def)
  next
    case q: (Cons a rest)
    then have a: "\<not> fullyConsumed a" using Cons.prems(3) by (simp add: queue_ok_def)
    have answers: "te_sends w = Takes j # map Takes ks" using Cons.prems(1) by simp
    define written where "written = min (Suc j) (remainingSize a)"
    define a1 where "a1 = ByteArray_advance written a"
    define s1 where "s1 = s\<lparr>m_writeQueue := (if fullyConsumed a1 then rest else a1 # rest)\<rparr>"
    define w1 where "w1 = w\<lparr>te_sends := map Takes ks, te_sent := te_sent w @ take written (remainingView a),
      te_posted := te_posted w @ [SigBytesWritten written]\<rparr>"
    have step: "flush_loop n (s, w) = flush_loop n (s1, w1)"
      using flush_loop_Cons(2) [OF q a answers written_def a1_def] unfolding s1_def w1_def .
    have p1: "pending s1 = drop written (remainingView a) @ concat (map remainingView rest)"
      by (simp add: a1_def s1_def pending_def remaining_advance fullyConsumed_remaining)
    have p: "pending s = take written (remainingView a) @ pending s1" by (simp add: p1) (simp add: pending_def q)
    have "0 < written" using a by (simp add: written_def fullyConsumed_def)
    then have "length (pending s1) < length (pending s)" using a by (simp add: p fullyConsumed_def remainingSize_def)
    then have "length (pending s1) \<le> length ks" using Cons.prems(2) by simp
    moreover have "queue_ok s1" using Cons.prems(3) q by (simp add: queue_ok_def s1_def)
    ultimately show ?thesis using Cons.IH [of w1 s1] unfolding step by (simp add: p) (simp add: s1_def w1_def)
  qed
qed

text \<open>When the descriptor becomes writable and the kernel takes at least one byte per call, however few, one event
  sends everything that waits: the kernel then has every byte ever accepted.\<close>

theorem tcp_writable_drains:
  assumes "tcp_reachable n r" "tr_tcp r = (s, w)" "m_state s = Connected" "te_sends w = map Takes ks" "length (pending s) \<le> length ks"
  shows "pending (fst (TcpSocket_react n EPOLLOUT sockopt (s, w))) = []
    \<and> te_sent (snd (TcpSocket_react n EPOLLOUT sockopt (s, w))) = tr_accepted r
    \<and> m_state (fst (TcpSocket_react n EPOLLOUT sockopt (s, w))) = Connected"
proof -
  have live: "is_live s" using assms(3) by (simp add: is_live_def)
  note good = run_goodD [OF assms(1,2)]
  have q: "queue_ok s" using good(3) live by (simp add: settled_def queue_ok_def)
  have flow: "tcp_flow (tr_accepted r) (tr_taken r) (s, w)" by (rule good(2) [OF live])
  obtain b s1 w1 where f: "flush_loop n (s, w) = (b, s1, w1)" by (metis prod_cases3)
  have d: "m_writeQueue s1 = []" "m_state s1 = Connected" "te_sent w1 = te_sent w @ pending s"
    using flush_drains [OF assms(4,5) q, of n] assms(3) by (simp_all add: f)
  have e: "TcpSocket_react n EPOLLOUT sockopt (s, w) = updateInterestForState n (s1, w1)"
    using flow assms(3) by (simp add: TcpSocket_react_def handle_ready_def Let_def handleWritable_def flushPendingWrites_def
        f tcp_flow_def split: prod.split)
  have "same_socket (fst (updateInterestForState n (s1, w1))) s1" using same_update [of n "(s1, w1)"] by simp
  moreover have "te_sent (snd (updateInterestForState n (s1, w1))) = te_sent w1"
    by (simp add: updateInterestForState_def on_io_def split: prod.split)
  ultimately show ?thesis using d flow by (simp add: e same_socket_def pending_def tcp_flow_def)
qed

text \<open>Data followed by the end of the stream is lost: when the peer sends its last bytes and closes before the
  descriptor is read, the same event reads the bytes and then the end of the stream, which clears the read buffer
  before \<open>readyRead\<close> is posted. The reader is told only that the connection has ended.\<close>

theorem end_of_stream_discards_unread_data:
  assumes "m_state s = Connected" "0 \<le> io_fd s" "te_recvs w = [Gives bs, Gives []]" "bs \<noteq> []"
  shows "te_received (snd (TcpSocket_react n EPOLLIN sockopt (s, w))) = te_received w @ bs
    \<and> m_readBuffer (fst (TcpSocket_react n EPOLLIN sockopt (s, w))) = []
    \<and> te_posted (snd (TcpSocket_react n EPOLLIN sockopt (s, w))) = te_posted w @ [SigDisconnected]"
proof -
  let ?p = "(s\<lparr>m_readBuffer := m_readBuffer s @ bs\<rparr>, w\<lparr>te_recvs := [], te_received := te_received w @ bs\<rparr>)"
  have "read_loop n False (s, w) = applyDisconnectedState n True ?p"
    using read_loop_cases(3) [OF assms(3,4)] by (simp add: read_loop_cases(2))
  then have "TcpSocket_react n EPOLLIN sockopt (s, w) = applyDisconnectedState n True ?p"
    using assms(1,2) by (simp add: TcpSocket_react_def handle_ready_def Let_def handleReadable_def split: prod.split)
  then show ?thesis using assms(1)
    by (simp add: applyDisconnectedState_def transitionToDisconnected_def is_live_def Let_def io_frame)
qed


text \<open>A socket for descriptor 7 that was to send five bytes, of which the kernel took two at once.\<close>

definition demo_env :: "(nat, unit) tcp_env" where
  "demo_env = \<lparr>te_loop = EventLoop_init, te_posted = [], te_sends = [Takes 1, SendFails EAGAIN], te_recvs = [], te_sent = [],
     te_received = [], te_baseSignals = [], te_strerror = (\<lambda>_. [])\<rparr>"

definition demo_write :: "nat \<times> (nat, unit) tcp" where
  "demo_write = TcpSocket_write 3 (ByteArray_new [1, 2, 3, 4, 5]) (adoptConnectedDescriptor 3 7 (0, 0) (TcpSocket_init False, demo_env))"

definition demo_run :: "(nat, unit) tcp_run" where
  "demo_run = \<lparr>tr_tcp = set_env (\<lambda>w. w\<lparr>te_sends := map Takes [0, 0, 4], te_recvs := []\<rparr>) (snd demo_write),
     tr_accepted = [1, 2, 3, 4, 5], tr_taken = [], tr_delivered = []\<rparr>"

lemma demo_write_result:
  "fst demo_write = 5" "m_state (fst (snd demo_write)) = Connected" "te_sent (snd (snd demo_write)) = [1, 2]"
  "pending (fst (snd demo_write)) = [3, 4, 5]" "io_fd (fst (snd demo_write)) = 7" "io_generation (fst (snd demo_write)) = 2"
  by code_simp+

lemma demo_reachable: "tcp_reachable 3 demo_run"
proof -
  let ?p = "adoptConnectedDescriptor 3 7 (0, 0) (TcpSocket_init False, demo_env)"
  have 0: "tcp_reachable 3 \<lparr>tr_tcp = ?p, tr_accepted = [], tr_taken = [], tr_delivered = []\<rparr>"
    by (rule tcp_reachable.adopted)
      (simp_all add: fresh_env_def demo_env_def table_ok_def no_watch_of_def watches_def EventLoop_init_def unwatched_def)
  have w: "TcpSocket_write 3 (ByteArray_new [1, 2, 3, 4, 5]) ?p = (5, snd demo_write)"
    using demo_write_result(1) by (metis demo_write_def prod.collapse)
  have "tcp_reachable 3 \<lparr>tr_tcp = snd demo_write, tr_accepted = [1, 2, 3, 4, 5], tr_taken = [], tr_delivered = []\<rparr>"
    using tcp_reachable.step [OF 0 tcp_step.written [of 3 "ByteArray_new [1, 2, 3, 4, 5]"]] w by simp
  from tcp_reachable.step [OF this tcp_step.kernel [where as = "map Takes [0, 0, 4]" and bs = "[]"]]
  show ?thesis by (simp add: demo_run_def)
qed

lemma demo_state:
  "tr_tcp demo_run = (fst (snd demo_write), (snd (snd demo_write))\<lparr>te_sends := map Takes [0, 0, 4], te_recvs := []\<rparr>)"
  by (simp add: demo_run_def set_env_def split: prod.split)

theorem tcp_stream_in_order_witness: "written_of (te_posted (snd (snd demo_write))) = 2"
  using tcp_stream_in_order [OF demo_reachable demo_state] by (simp add: demo_write_result demo_run_def)

theorem tcp_pending_output_is_watched_witness:
  "watch_view (smap_get (el_ioWatches (te_loop (snd (snd demo_write)))) 7) = Some (29, Some (3, 7, 2))"
  using tcp_pending_output_is_watched [OF demo_reachable demo_state demo_write_result(2)] by (simp add: demo_write_result)

theorem tcp_writable_drains_witness:
  "te_sent (snd (TcpSocket_react 3 EPOLLOUT (0, 0, 0) (tr_tcp demo_run))) = [1, 2, 3, 4, 5]"
  using tcp_writable_drains [OF demo_reachable demo_state demo_write_result(2), of "[0, 0, 4]" "(0, 0, 0)"]
  by (simp add: demo_write_result demo_state) (simp add: demo_run_def)

theorem end_of_stream_discards_unread_data_witness:
  "m_readBuffer (fst (TcpSocket_react 3 EPOLLIN (0, 0, 0)
     (fst (snd demo_write), (snd (snd demo_write))\<lparr>te_recvs := [Gives [9], Gives []]\<rparr>))) = []"
  using end_of_stream_discards_unread_data [of "fst (snd demo_write)" "(snd (snd demo_write))\<lparr>te_recvs := [Gives [9], Gives []]\<rparr>" "[9]"]
  by (simp add: demo_write_result)

end
