(* ===== verification/HttpServers.thy ===== *)
theory HttpServers
  imports HttpMessages TcpSockets "HOL-Library.Product_Lexorder"
begin

text \<open>
  \<open>snf::HttpServer\<close> (\<open>HttpServer/src/SNFHttpServer/HttpServer.h\<close>, \<open>HttpServer.cpp\<close>) on top of the sockets of
  \<open>TcpSockets\<close> and the parser of \<open>HttpMessages\<close>. A request handler gives a response or throws; the file system is a
  parameter. The slots the server connects to a socket run when the owner delivers the posted signal. A path of the
  file system in canonical form is the list of its components.
\<close>

section \<open>State\<close>

type_synonym RequestHandler = "HttpRequest \<Rightarrow> string + HttpResponse"
type_synonym RouteKey = "string \<times> string"

record StaticPrefix =
  sp_urlPrefix :: string
  sp_fsPath :: string

record SocketState =
  ss_parser :: HttpRequestParser
  ss_pendingClose :: bool
  ss_totalToSend :: nat
  ss_totalSent :: nat

definition SocketState_init :: SocketState where
  "SocketState_init = \<lparr>ss_parser = HttpRequestParser_init, ss_pendingClose = False, ss_totalToSend = 0, ss_totalSent = 0\<rparr>"

record HttpServer =
  hs_routes :: "(RouteKey, RequestHandler) smap"
  hs_staticPrefixes :: "StaticPrefix list"
  hs_socketStates :: "(addr, SocketState) smap"
  hs_errors :: "string list"
  hs_deleteLater :: "addr list"

definition HttpServer_init :: HttpServer where
  "HttpServer_init = \<lparr>hs_routes = [], hs_staticPrefixes = [], hs_socketStates = [], hs_errors = [], hs_deleteLater = []\<rparr>"

text \<open>\<open>std::filesystem\<close>: \<open>canonical\<close> (which throws for a path that does not exist), whether a path is a regular file
  (or the question throws), and the contents of a file that can be opened.\<close>

record filesystem =
  fs_canonical :: "string \<Rightarrow> string list option"
  fs_regular :: "string \<Rightarrow> bool option"
  fs_read :: "string \<Rightarrow> string option"


section \<open>Routes and files\<close>

definition HttpServer_get :: "string \<Rightarrow> RequestHandler \<Rightarrow> HttpServer \<Rightarrow> HttpServer" where
  "HttpServer_get path handler h = h\<lparr>hs_routes := smap_put (''GET'', path) handler (hs_routes h)\<rparr>"

definition HttpServer_post :: "string \<Rightarrow> RequestHandler \<Rightarrow> HttpServer \<Rightarrow> HttpServer" where
  "HttpServer_post path handler h = h\<lparr>hs_routes := smap_put (''POST'', path) handler (hs_routes h)\<rparr>"

definition HttpServer_serve_static :: "string \<Rightarrow> string \<Rightarrow> HttpServer \<Rightarrow> HttpServer" where
  "HttpServer_serve_static urlPrefix fsPath h =
     h\<lparr>hs_staticPrefixes := hs_staticPrefixes h @ [\<lparr>sp_urlPrefix = urlPrefix, sp_fsPath = fsPath\<rparr>]\<rparr>"

text \<open>Paths as text; \<open>relative\<close> of two canonical paths drops the common part and goes up for what is left of the base.\<close>

definition path_text :: "string list \<Rightarrow> string" where
  "path_text cs = CHR ''/'' # concat (map (\<lambda>c. c @ ''/'') (butlast cs)) @ (if cs = [] then [] else last cs)"

fun relative_to :: "string list \<Rightarrow> string list \<Rightarrow> string list" where
  "relative_to (b # base) (c # cs) = (if b = c then relative_to base cs else replicate (Suc (length base)) ''..'' @ c # cs)"
| "relative_to [] (c # cs) = c # cs"
| "relative_to base [] = (if base = [] then [''.''] else replicate (length base) ''..'')"

definition relative_text :: "string list \<Rightarrow> string" where
  "relative_text cs = concat (map (\<lambda>c. c @ ''/'') (butlast cs)) @ (if cs = [] then [] else last cs)"

definition HttpServer_resolvePath :: "filesystem \<Rightarrow> string \<Rightarrow> string \<Rightarrow> string" where
  "HttpServer_resolvePath fs fsPath requestPath =
     (let result = (if last fsPath \<noteq> CHR ''/'' then fsPath @ ''/'' else fsPath) @ requestPath
      in case fs_canonical fs result of None \<Rightarrow> []
         | Some resolved \<Rightarrow>
             (case fs_canonical fs fsPath of None \<Rightarrow> []
              | Some base \<Rightarrow>
                  let relPath = relative_text (relative_to base resolved)
                  in if relPath \<noteq> [] \<and> find_sub ''..'' relPath = None then path_text resolved else []))"

definition HttpServer_fileExists :: "filesystem \<Rightarrow> string \<Rightarrow> bool" where
  "HttpServer_fileExists fs path = (fs_regular fs path = Some True)"

definition HttpServer_readFile :: "filesystem \<Rightarrow> string \<Rightarrow> string" where
  "HttpServer_readFile fs path = (case fs_read fs path of None \<Rightarrow> [] | Some content \<Rightarrow> content)"

definition server_mime_types :: "(string \<times> string) list" where
  "server_mime_types = [(''.html'', ''text/html''), (''.htm'', ''text/html''), (''.css'', ''text/css''),
     (''.js'', ''application/javascript''), (''.json'', ''application/json''), (''.xml'', ''application/xml''),
     (''.txt'', ''text/plain''), (''.png'', ''image/png''), (''.jpg'', ''image/jpeg''), (''.jpeg'', ''image/jpeg''),
     (''.gif'', ''image/gif''), (''.svg'', ''image/svg+xml''), (''.ico'', ''image/x-icon''), (''.webp'', ''image/webp''),
     (''.wasm'', ''application/wasm''), (''.woff'', ''font/woff''), (''.woff2'', ''font/woff2''), (''.ttf'', ''font/ttf''),
     (''.pdf'', ''application/pdf''), (''.zip'', ''application/zip''), (''.mp4'', ''video/mp4''), (''.mp3'', ''audio/mpeg''),
     (''.wav'', ''audio/wav'')]"

definition HttpServer_guessContentType :: "string \<Rightarrow> string" where
  "HttpServer_guessContentType filePath =
     (if CHR ''.'' \<notin> set filePath then ''application/octet-stream''
      else let ext = CHR ''.'' # rev (takeWhile (\<lambda>c. c \<noteq> CHR ''.'') (rev filePath))
           in case map_of server_mime_types (map to_lower ext) of None \<Rightarrow> ''application/octet-stream'' | Some t \<Rightarrow> t)"

text \<open>The prefixes are tried from the most recent one on.\<close>

fun static_response :: "filesystem \<Rightarrow> StaticPrefix list \<Rightarrow> string \<Rightarrow> HttpResponse option" where
  "static_response fs [] path = None"
| "static_response fs (s # ss) path =
     (let k = length (sp_urlPrefix s); rest = drop k path;
          resolved = HttpServer_resolvePath fs (sp_fsPath s) (if rest = [] then ''index.html'' else rest)
      in if take k path = sp_urlPrefix s \<and> HttpServer_fileExists fs resolved
         then Some ((HttpResponse_header ''Content-Type'' (HttpServer_guessContentType resolved) (HttpResponse_status 200 HttpResponse_init))
                      \<lparr>rs_body := HttpServer_readFile fs resolved\<rparr>)
         else static_response fs ss path)"

definition HttpServer_answer :: "filesystem \<Rightarrow> HttpServer \<Rightarrow> HttpRequest \<Rightarrow> HttpResponse" where
  "HttpServer_answer fs h request =
     (case smap_get (hs_routes h) (hr_method request, hr_path request) of
        Some handler \<Rightarrow> (case handler request of Inr response \<Rightarrow> response | Inl what \<Rightarrow> HttpResponse_internalServerError what)
      | None \<Rightarrow> (case static_response fs (rev (hs_staticPrefixes h)) (hr_path request) of
                   Some response \<Rightarrow> response | None \<Rightarrow> HttpResponse_notFound))"


section \<open>Connections\<close>

definition HttpServer_accept :: "addr \<Rightarrow> HttpServer \<Rightarrow> HttpServer" where
  "HttpServer_accept n h = h\<lparr>hs_socketStates := smap_put n SocketState_init (hs_socketStates h)\<rparr>"

definition HttpServer_closeSocket :: "addr \<Rightarrow> HttpServer \<times> (char, 't) tcp \<Rightarrow> HttpServer \<times> (char, 't) tcp" where
  "HttpServer_closeSocket n = (\<lambda>(h, p).
     (h\<lparr>hs_socketStates := smap_del n (hs_socketStates h), hs_deleteLater := hs_deleteLater h @ [n]\<rparr>, TcpSocket_close n p))"

definition HttpServer_onBytesWritten :: "addr \<Rightarrow> nat \<Rightarrow> HttpServer \<times> (char, 't) tcp \<Rightarrow> HttpServer \<times> (char, 't) tcp" where
  "HttpServer_onBytesWritten n k = (\<lambda>(h, p).
     case smap_get (hs_socketStates h) n of None \<Rightarrow> (h, p)
     | Some st \<Rightarrow>
         let st1 = st\<lparr>ss_totalSent := ss_totalSent st + k\<rparr>;
             h1 = h\<lparr>hs_socketStates := smap_put n st1 (hs_socketStates h)\<rparr>
         in if ss_pendingClose st1 \<and> ss_totalToSend st1 \<le> ss_totalSent st1 then HttpServer_closeSocket n (h1, p) else (h1, p))"

definition HttpServer_onSocketError :: "addr \<Rightarrow> string \<Rightarrow> HttpServer \<times> (char, 't) tcp \<Rightarrow> HttpServer \<times> (char, 't) tcp" where
  "HttpServer_onSocketError n msg = (\<lambda>(h, p). HttpServer_closeSocket n (h\<lparr>hs_errors := hs_errors h @ [msg]\<rparr>, p))"

text \<open>A serialized response is announced in the state of the socket and written.\<close>

definition HttpServer_respond :: "addr \<Rightarrow> HttpRequestParser \<Rightarrow> string \<Rightarrow> HttpServer \<times> (char, 't) tcp \<Rightarrow> nat \<times> HttpServer \<times> (char, 't) tcp" where
  "HttpServer_respond n parser serialized = (\<lambda>(h, p).
     let st = \<lparr>ss_parser = parser, ss_pendingClose = True, ss_totalToSend = length serialized, ss_totalSent = 0\<rparr>
     in case TcpSocket_write n (ByteArray_new serialized) p of
          (k, p1) \<Rightarrow> (k, h\<lparr>hs_socketStates := smap_put n st (hs_socketStates h)\<rparr>, p1))"

text \<open>The result also tells what was read and how many bytes were accepted for sending.\<close>

definition HttpServer_onSocketReadyRead ::
  "filesystem \<Rightarrow> addr \<Rightarrow> HttpServer \<times> (char, 't) tcp \<Rightarrow> string \<times> string \<times> HttpServer \<times> (char, 't) tcp" where
  "HttpServer_onSocketReadyRead fs n = (\<lambda>(h, p).
     case TcpSocket_readAll p of (data, p1) \<Rightarrow>
       if ByteArray_size data = 0 then ([], [], h, p1)
       else case smap_get (hs_socketStates h) n of None \<Rightarrow> (remainingView data, [], h, p1)
       | Some st \<Rightarrow>
           let parser = HttpRequestParser_feed (ba_bytes data) (ss_parser st)
           in if HttpRequestParser_isComplete parser
              then case HttpRequestParser_parse parser of (request, parser1) \<Rightarrow>
                     let serialized = HttpResponse_serialize (HttpServer_answer fs h request)
                     in (case HttpServer_respond n parser1 serialized (h, p1) of
                           (k, hp) \<Rightarrow> (remainingView data, take k serialized, hp))
              else if HttpRequestParser_hasError parser
              then let serialized = HttpResponse_serialize (HttpResponse_badRequest (hp_errorMessage parser))
                   in (case HttpServer_respond n parser serialized
                              (h, p1) of (k, hp) \<Rightarrow> (remainingView data, take k serialized, hp))
              else (remainingView data, [],
                    h\<lparr>hs_socketStates := smap_put n (st\<lparr>ss_parser := parser\<rparr>) (hs_socketStates h)\<rparr>, p1))"

definition deliver_to_server ::
  "filesystem \<Rightarrow> addr \<Rightarrow> tcp_signal \<Rightarrow> HttpServer \<times> (char, 't) tcp \<Rightarrow> string \<times> string \<times> HttpServer \<times> (char, 't) tcp" where
  "deliver_to_server fs n x hp =
     (case x of SigReadyRead \<Rightarrow> HttpServer_onSocketReadyRead fs n hp
      | SigDisconnected \<Rightarrow> ([], [], HttpServer_closeSocket n hp)
      | SigErrorOccurred msg \<Rightarrow> ([], [], HttpServer_onSocketError n msg hp)
      | SigBytesWritten k \<Rightarrow> ([], [], HttpServer_onBytesWritten n k hp)
      | SigConnected \<Rightarrow> ([], [], hp))"


section \<open>Static files stay inside their directory\<close>

lemma find_sub_inside: "find_sub p (x @ p @ y) \<noteq> None"
proof (induction x)
  case Nil
  have "prefix p (p @ y)" by simp
  then show ?case by (cases "p @ y") (auto simp del: append_eq_Cons_conv)
next
  case (Cons c x)
  then show ?case by (auto split: option.split)
qed

lemma component_text: "c \<in> set cs \<Longrightarrow> \<exists>x y. relative_text cs = x @ c @ y"
proof -
  assume c: "c \<in> set cs"
  then obtain us vs where cs: "cs = us @ c # vs" by (metis split_list)
  show ?thesis
  proof (cases "vs = []")
    case True
    then have "relative_text cs = concat (map (\<lambda>c. c @ ''/'') us) @ c @ []" using cs by (simp add: relative_text_def)
    then show ?thesis by blast
  next
    case False
    then have "relative_text cs = concat (map (\<lambda>c. c @ ''/'') us) @ c @ (''/'' @ concat (map (\<lambda>c. c @ ''/'') (butlast vs)) @ last vs)"
      using cs by (simp add: relative_text_def butlast_append)
    then show ?thesis by blast
  qed
qed

lemma relative_to_inside: "''..'' \<notin> set (relative_to base cs) \<Longrightarrow> prefix base cs"
proof (induction base cs rule: relative_to.induct)
  case (1 b base c cs)
  then show ?case by (auto split: if_splits)
next
  case (2 c cs)
  then show ?case by simp
next
  case (3 base)
  then show ?case by (auto split: if_splits)
qed

lemma resolved_inside:
  assumes "HttpServer_resolvePath fs fsPath requestPath = path" "path \<noteq> []"
  shows "\<exists>base rest. fs_canonical fs fsPath = Some base \<and> path = path_text (base @ rest)"
proof -
  obtain resolved base where r: "fs_canonical fs fsPath = Some base" "path = path_text resolved"
    "find_sub ''..'' (relative_text (relative_to base resolved)) = None"
    using assms by (auto simp: HttpServer_resolvePath_def Let_def split: option.splits if_splits)
  then have "''..'' \<notin> set (relative_to base resolved)" using component_text find_sub_inside by metis
  then obtain rest where "resolved = base @ rest" using relative_to_inside prefixE by blast
  then show ?thesis using r by blast
qed

text \<open>C26. Whatever path a request names, a static response carries a regular file whose canonical path lies inside the
  directory registered for a prefix of that path.\<close>

theorem static_files_stay_inside:
  "static_response fs ss path = Some response \<Longrightarrow> fs_regular fs [] \<noteq> Some True \<Longrightarrow>
   \<exists>s \<in> set ss. \<exists>base rest. prefix (sp_urlPrefix s) path \<and> fs_canonical fs (sp_fsPath s) = Some base
     \<and> fs_regular fs (path_text (base @ rest)) = Some True \<and> rs_body response = HttpServer_readFile fs (path_text (base @ rest))"
proof (induction ss)
  case Nil
  then show ?case by simp
next
  case (Cons s ss)
  let ?k = "length (sp_urlPrefix s)"
  let ?resolved = "HttpServer_resolvePath fs (sp_fsPath s) (if drop ?k path = [] then ''index.html'' else drop ?k path)"
  show ?case
  proof (cases "take ?k path = sp_urlPrefix s \<and> HttpServer_fileExists fs ?resolved")
    case True
    then have pre: "prefix (sp_urlPrefix s) path" "fs_regular fs ?resolved = Some True"
      by (auto simp: HttpServer_fileExists_def intro: take_is_prefix) (metis take_is_prefix)
    have body: "rs_body response = HttpServer_readFile fs ?resolved" using Cons.prems(1) True by (auto simp: Let_def)
    have "?resolved \<noteq> []" using pre(2) Cons.prems(2) by auto
    then show ?thesis using resolved_inside [OF refl] pre body by (metis list.set_intros(1))
  next
    case False
    then have "static_response fs ss path = Some response" using Cons.prems(1) by (auto simp: Let_def)
    then show ?thesis using Cons by auto
  qed
qed

text \<open>A server for \<open>/srv/www\<close> with one file.\<close>

definition demo_fs :: filesystem where
  "demo_fs = \<lparr>fs_canonical = (\<lambda>p. if p = ''/srv/www'' then Some [''srv'', ''www''] else if p = ''/srv/www//a.txt'' then Some [''srv'', ''www'', ''a.txt'']
       else None),
     fs_regular = (\<lambda>p. Some (p = ''/srv/www/a.txt'')), fs_read = (\<lambda>p. if p = ''/srv/www/a.txt'' then Some ''hello'' else None)\<rparr>"

lemma demo_static:
  "static_response demo_fs [\<lparr>sp_urlPrefix = ''/s'', sp_fsPath = ''/srv/www''\<rparr>] ''/s/a.txt'' =
     Some ((HttpResponse_header ''Content-Type'' ''text/plain'' HttpResponse_init)\<lparr>rs_body := ''hello''\<rparr>)"
  by code_simp

theorem static_files_stay_inside_witness:
  "\<exists>rest. HttpServer_readFile demo_fs (path_text ([''srv'', ''www''] @ rest)) = ''hello''"
proof -
  have "fs_regular demo_fs [] \<noteq> Some True" "fs_canonical demo_fs ''/srv/www'' = Some [''srv'', ''www'']" by (simp_all add: demo_fs_def)
  then show ?thesis using static_files_stay_inside [OF demo_static] by auto
qed


section \<open>One connection from accept to close\<close>

record 't http_run =
  hc_server :: HttpServer
  hc_run :: "(char, 't) tcp_run"
  hc_finished :: bool

text \<open>\<open>hc_finished\<close> records that the server closed the connection because it had sent its response.\<close>

definition knows :: "HttpServer \<Rightarrow> addr \<Rightarrow> bool" where
  "knows h n \<longleftrightarrow> smap_get (hs_socketStates h) n \<noteq> None"

definition http_delivered ::
  "addr \<Rightarrow> tcp_signal \<Rightarrow> string \<times> string \<times> HttpServer \<times> (char, 't) tcp \<Rightarrow> 't http_run \<Rightarrow> 't http_run" where
  "http_delivered n x res c = (case res of (taken, accepted, h, p) \<Rightarrow>
     c\<lparr>hc_server := h,
       hc_run := (hc_run c)\<lparr>tr_tcp := p, tr_accepted := tr_accepted (hc_run c) @ accepted, tr_taken := tr_taken (hc_run c) @ taken,
         tr_delivered := tr_delivered (hc_run c) @ [x]\<rparr>,
       hc_finished := hc_finished c \<or> (\<exists>k. x = SigBytesWritten k) \<and> knows (hc_server c) n \<and> \<not> knows h n\<rparr>)"

definition others_served :: "addr \<Rightarrow> HttpServer \<Rightarrow> HttpServer \<Rightarrow> bool" where
  "others_served n h h' \<longleftrightarrow> hs_routes h' = hs_routes h \<and> hs_staticPrefixes h' = hs_staticPrefixes h
     \<and> smap_ok (hs_socketStates h') \<and> smap_get (hs_socketStates h') n = smap_get (hs_socketStates h) n"

inductive http_step :: "filesystem \<Rightarrow> addr \<Rightarrow> 't http_run \<Rightarrow> 't http_run \<Rightarrow> bool" for fs n where
  events: "http_step fs n c (c\<lparr>hc_run := (hc_run c)\<lparr>tr_tcp := TcpSocket_handleEvents n native sockopt (tr_tcp (hc_run c))\<rparr>\<rparr>)"
| kernel: "http_step fs n c (c\<lparr>hc_run := (hc_run c)\<lparr>tr_tcp := set_env (\<lambda>w. w\<lparr>te_sends := as, te_recvs := bs\<rparr>) (tr_tcp (hc_run c))\<rparr>\<rparr>)"
| loop: "by_others n (io_fd (fst (tr_tcp (hc_run c)))) (te_loop (snd (tr_tcp (hc_run c)))) k \<Longrightarrow>
    http_step fs n c (c\<lparr>hc_run := (hc_run c)\<lparr>tr_tcp := set_env (\<lambda>w. w\<lparr>te_loop := k\<rparr>) (tr_tcp (hc_run c))\<rparr>\<rparr>)"
| deliver: "te_posted (snd (tr_tcp (hc_run c))) = x # xs \<Longrightarrow>
    http_step fs n c (http_delivered n x
      (deliver_to_server fs n x (hc_server c, set_env (\<lambda>w. w\<lparr>te_posted := xs\<rparr>) (tr_tcp (hc_run c)))) c)"
| elsewhere: "others_served n (hc_server c) h \<Longrightarrow> http_step fs n c (c\<lparr>hc_server := h\<rparr>)"

inductive http_reachable :: "filesystem \<Rightarrow> HttpServer \<Rightarrow> addr \<Rightarrow> 't http_run \<Rightarrow> bool" for fs h n where
  accepted: "smap_ok (hs_socketStates h) \<Longrightarrow> fresh_env n w \<Longrightarrow> unwatched fd (te_loop w) \<Longrightarrow>
    http_reachable fs h n \<lparr>hc_server = HttpServer_accept n h,
      hc_run = \<lparr>tr_tcp = adoptConnectedDescriptor n fd mode (TcpSocket_init False, w), tr_accepted = [], tr_taken = [], tr_delivered = []\<rparr>,
      hc_finished = False\<rparr>"
| step: "http_reachable fs h n c \<Longrightarrow> http_step fs n c c' \<Longrightarrow> http_reachable fs h n c'"

text \<open>What a server does with a signal is made of steps of the socket.\<close>

lemma respond_step:
  assumes "tcp_reachable n r" "HttpServer_respond n parser bs (h, tr_tcp r) = (k, h', p)"
  shows "tcp_reachable n (r\<lparr>tr_tcp := p, tr_accepted := tr_accepted r @ take k bs\<rparr>)"
proof -
  have "TcpSocket_write n (ByteArray_new bs) (tr_tcp r) = (k, p)"
    using assms(2) by (auto simp: HttpServer_respond_def Let_def split: prod.splits)
  from tcp_reachable.step [OF assms(1) tcp_step.written [OF this]] show ?thesis by simp
qed

lemma close_step: "tcp_reachable n r \<Longrightarrow> tcp_reachable n (r\<lparr>tr_tcp := TcpSocket_close n (tr_tcp r)\<rparr>)"
  by (rule tcp_reachable.step [OF _ tcp_step.close])

definition advance_run :: "string \<Rightarrow> string \<Rightarrow> (char, 't) tcp \<Rightarrow> (char, 't) tcp_run \<Rightarrow> (char, 't) tcp_run" where
  "advance_run taken accepted p r = r\<lparr>tr_tcp := p, tr_accepted := tr_accepted r @ accepted, tr_taken := tr_taken r @ taken\<rparr>"

lemma deliver_steps:
  assumes "tcp_reachable n r" "deliver_to_server fs n x (h, tr_tcp r) = (taken, accepted, h', p)"
  shows "tcp_reachable n (advance_run taken accepted p r)"
proof (cases x)
  case SigReadyRead
  obtain data q where read: "TcpSocket_readAll (tr_tcp r) = (data, q)" by (rule prod.exhaust)
  let ?r = "r\<lparr>tr_tcp := q, tr_taken := tr_taken r @ remainingView data\<rparr>"
  have 1: "tcp_reachable n ?r" using tcp_reachable.step [OF assms(1) tcp_step.read [OF read]] .
  have 2: "ba_bytes data = remainingView data" using read by (auto simp: TcpSocket_readAll_def ByteArray_new_def remainingView_def split: prod.splits)
  have responds: "tcp_reachable n (advance_run (remainingView data) (take k bs) p r)"
    if "HttpServer_respond n parser bs (h, q) = (k, h', p)" for k parser bs
  proof -
    have "?r\<lparr>tr_tcp := p, tr_accepted := tr_accepted ?r @ take k bs\<rparr> = advance_run (remainingView data) (take k bs) p r"
      by (cases r) (simp add: advance_run_def)
    then show ?thesis using respond_step [OF 1, of parser bs h k h' p] that by simp
  qed
  have silent: "tcp_reachable n (advance_run (remainingView data) [] q r)"
    using 1 by (simp add: advance_run_def)
  show ?thesis
    using assms(2) SigReadyRead read 2 responds silent
    by (fastforce simp: deliver_to_server_def HttpServer_onSocketReadyRead_def ByteArray_size_def Let_def
        split: if_splits option.splits prod.splits)
qed (use assms close_step [OF assms(1)] in \<open>auto simp: deliver_to_server_def advance_run_def HttpServer_closeSocket_def
      HttpServer_onSocketError_def HttpServer_onBytesWritten_def Let_def split: option.splits if_splits\<close>)


definition answer_text :: "filesystem \<Rightarrow> HttpServer \<Rightarrow> HttpRequest \<Rightarrow> string" where
  "answer_text fs h r = HttpResponse_serialize (HttpServer_answer fs h r)"

lemma answer_text_nonempty: "answer_text fs h r \<noteq> []"
  by (simp add: answer_text_def HttpResponse_serialize_def)

text \<open>The invariant of a connection whose client sends one request \<open>r\<close>, answered by \<open>resp\<close>.\<close>

fun socket_ok :: "string \<Rightarrow> HttpRequest \<Rightarrow> SocketState option \<Rightarrow> bool \<Rightarrow> (char, 't) tcp_run \<Rightarrow> bool" where
  "socket_ok resp r None live run \<longleftrightarrow> \<not> live \<and> (tr_accepted run = [] \<or> tr_accepted run = resp)"
| "socket_ok resp r (Some st) live run \<longleftrightarrow>
     (if ss_pendingClose st
      then tr_taken run = render_request r \<and> ss_totalToSend st = length resp \<and> ss_totalSent st = written_of (tr_delivered run)
           \<and> (tr_accepted run = resp \<or> tr_accepted run = [] \<and> \<not> live)
      else tr_accepted run = [] \<and> (\<exists>pieces rest. concat pieces = tr_taken run \<and> tr_taken run @ rest = render_request r \<and> rest \<noteq> []
           \<and> ss_parser st = fold HttpRequestParser_feed pieces HttpRequestParser_init))"

definition conn_ok :: "string \<Rightarrow> HttpRequest \<Rightarrow> addr \<Rightarrow> HttpServer \<Rightarrow> (char, 't) tcp_run \<Rightarrow> bool \<Rightarrow> bool" where
  "conn_ok resp r n h run fin \<longleftrightarrow>
     socket_ok resp r (smap_get (hs_socketStates h) n) (is_live (fst (tr_tcp run))) run
     \<and> (fin \<longrightarrow> te_sent (snd (tr_tcp run)) = resp)"

lemma socket_ok_accepted: "socket_ok resp r st live run \<Longrightarrow> tr_accepted run = [] \<or> tr_accepted run = resp"
  by (cases st) (auto split: if_splits)

lemma socket_ok_dying: "socket_ok resp r st live run \<Longrightarrow> (live' \<Longrightarrow> live) \<Longrightarrow> socket_ok resp r st live' run"
  by (cases st) (auto split: if_splits)

lemma reachable_sent: "tcp_reachable n run \<Longrightarrow> prefix (te_sent (snd (tr_tcp run))) (tr_accepted run)"
  using run_goodD(1) [of n run "fst (tr_tcp run)" "snd (tr_tcp run)"] by (simp add: tcp_hist_def split: prod.splits)

lemma reachable_written:
  "tcp_reachable n run \<Longrightarrow> written_of (tr_delivered run) + written_of (te_posted (snd (tr_tcp run))) = length (te_sent (snd (tr_tcp run)))"
  using run_goodD(1) [of n run "fst (tr_tcp run)" "snd (tr_tcp run)"] by (simp add: tcp_hist_def split: prod.splits)

lemma reachable_taken:
  "tcp_reachable n run \<Longrightarrow> prefix (tr_taken run @ m_readBuffer (fst (tr_tcp run))) (te_received (snd (tr_tcp run)))"
  using run_goodD(1) [of n run "fst (tr_tcp run)" "snd (tr_tcp run)"] by (simp add: tcp_hist_def split: prod.splits)

lemma still_sent:
  assumes "prefix resp sent" "prefix sent acc" "acc = [] \<or> acc = resp"
  shows "sent = resp"
  using assms by (metis prefix_Nil prefix_order.antisym)

text \<open>Steps of the socket under the server.\<close>

lemma conn_ok_socket:
  assumes "conn_ok resp r n h run fin" "tcp_reachable n (run\<lparr>tr_tcp := p\<rparr>)" "grows (tr_tcp run) p"
    "is_live (fst p) \<Longrightarrow> is_live (fst (tr_tcp run))"
  shows "conn_ok resp r n h (run\<lparr>tr_tcp := p\<rparr>) fin"
proof -
  have ok: "socket_ok resp r (smap_get (hs_socketStates h) n) (is_live (fst (tr_tcp run))) run"
    using assms(1) by (simp add: conn_ok_def)
  have same: "socket_ok resp r st live (run\<lparr>tr_tcp := p\<rparr>) = socket_ok resp r st live run" for st live
    by (cases st) simp_all
  have "te_sent (snd p) = resp" if fin
  proof (rule still_sent)
    show "prefix resp (te_sent (snd p))" using assms(1,3) that by (simp add: conn_ok_def grows_def)
    show "prefix (te_sent (snd p)) (tr_accepted run)" using reachable_sent [OF assms(2)] by simp
    show "tr_accepted run = [] \<or> tr_accepted run = resp" by (rule socket_ok_accepted [OF ok])
  qed
  then show ?thesis using socket_ok_dying [OF ok assms(4)] by (simp add: conn_ok_def same)
qed

text \<open>Closing.\<close>

lemma get_closeSocket:
  "smap_ok (hs_socketStates h) \<Longrightarrow> smap_get (hs_socketStates (fst (HttpServer_closeSocket n (h, p)))) n = None"
  "snd (HttpServer_closeSocket n (h, p)) = TcpSocket_close n p"
  by (simp_all add: HttpServer_closeSocket_def)

lemma conn_ok_closed:
  assumes "smap_get (hs_socketStates h) n = None" "tr_accepted run = [] \<or> tr_accepted run = resp"
    "\<not> is_live (fst (tr_tcp run))" "fin \<Longrightarrow> te_sent (snd (tr_tcp run)) = resp"
  shows "conn_ok resp r n h run fin"
  using assms by (simp add: conn_ok_def)

lemma close_dead [simp]: "\<not> is_live (fst (TcpSocket_close n p))"
  by (simp add: TcpSocket_close_def not_live(1))


text \<open>Delivering a signal to the server.\<close>

definition signalled :: "tcp_signal \<Rightarrow> (char, 't) tcp \<Rightarrow> (char, 't) tcp_run \<Rightarrow> (char, 't) tcp_run" where
  "signalled x p run = run\<lparr>tr_tcp := p, tr_delivered := tr_delivered run @ [x]\<rparr>"

lemma conn_ok_signalled:
  assumes "conn_ok resp r n h run fin" "tcp_reachable n (signalled x p run)" "grows (tr_tcp run) p"
    "is_live (fst p) \<Longrightarrow> is_live (fst (tr_tcp run))" "written_of [x] = 0"
  shows "conn_ok resp r n h (signalled x p run) fin"
proof -
  let ?run = "run\<lparr>tr_delivered := tr_delivered run @ [x]\<rparr>"
  have same: "socket_ok resp r st live (signalled x p run) = socket_ok resp r st live run" for st live
    using assms(5) by (cases st) (simp_all add: signalled_def)
  have ok: "socket_ok resp r (smap_get (hs_socketStates h) n) (is_live (fst (tr_tcp run))) run"
    using assms(1) by (simp add: conn_ok_def)
  have "te_sent (snd p) = resp" if fin
  proof (rule still_sent)
    show "prefix resp (te_sent (snd p))" using assms(1,3) that by (simp add: conn_ok_def grows_def)
    show "prefix (te_sent (snd p)) (tr_accepted run)" using reachable_sent [OF assms(2)] by (simp add: signalled_def)
    show "tr_accepted run = [] \<or> tr_accepted run = resp" by (rule socket_ok_accepted [OF ok])
  qed
  then show ?thesis using socket_ok_dying [OF ok assms(4)] by (simp add: conn_ok_def same) (simp add: signalled_def)
qed

lemma conn_ok_written:
  assumes "conn_ok resp r n h run fin" "smap_ok (hs_socketStates h)" "tcp_reachable n (signalled (SigBytesWritten k) p run)"
    "fst p = fst (tr_tcp run)" "te_sent (snd p) = te_sent (snd (tr_tcp run))" "resp \<noteq> []"
    "HttpServer_onBytesWritten n k (h, p) = (h', q)"
  shows "conn_ok resp r n h' (signalled (SigBytesWritten k) q run) (fin \<or> knows h n \<and> \<not> knows h' n)"
proof -
  have ok: "socket_ok resp r (smap_get (hs_socketStates h) n) (is_live (fst (tr_tcp run))) run"
    and fin: "fin \<Longrightarrow> te_sent (snd p) = resp" using assms(1,5) by (simp_all add: conn_ok_def)
  note acc = socket_ok_accepted [OF ok]
  have counted: "written_of (tr_delivered run) + k \<le> length (te_sent (snd p))"
    using reachable_written [OF assms(3)] by (simp add: signalled_def)
  have sent: "prefix (te_sent (snd p)) (tr_accepted run)"
    using reachable_sent [OF assms(3)] by (simp add: signalled_def)
  show ?thesis
  proof (cases "smap_get (hs_socketStates h) n")
    case None
    then show ?thesis using assms(4,7) ok fin by (auto simp: HttpServer_onBytesWritten_def conn_ok_def signalled_def knows_def)
  next
    case (Some st)
    let ?h = "h\<lparr>hs_socketStates := smap_put n (st\<lparr>ss_totalSent := ss_totalSent st + k\<rparr>) (hs_socketStates h)\<rparr>"
    show ?thesis
    proof (cases "ss_pendingClose st \<and> ss_totalToSend st \<le> ss_totalSent st + k")
      case True
      then have total: "length resp \<le> written_of (tr_delivered run) + k" "tr_accepted run = resp \<or> tr_accepted run = []"
        using ok Some by auto
      have "length resp \<le> length (te_sent (snd p))" using total(1) counted by linarith
      then have "te_sent (snd p) = resp" using total(2) sent assms(6) by (auto simp: prefix_def)
      moreover have "smap_get (hs_socketStates h') n = None" "q = TcpSocket_close n p"
        using assms(2,7) Some True by (auto simp: HttpServer_onBytesWritten_def Let_def HttpServer_closeSocket_def)
      ultimately show ?thesis using acc by (intro conn_ok_closed) (simp_all add: signalled_def)
    next
      case False
      then have "h' = ?h" "q = p" using assms(7) Some by (auto simp: HttpServer_onBytesWritten_def Let_def)
      moreover have "socket_ok resp r (Some (st\<lparr>ss_totalSent := ss_totalSent st + k\<rparr>)) (is_live (fst (tr_tcp run)))
          (signalled (SigBytesWritten k) p run)"
        using ok Some by (auto simp: signalled_def)
      ultimately show ?thesis using assms(4) fin Some by (simp add: conn_ok_def knows_def signalled_def)
    qed
  qed
qed


lemma taken_prefix:
  assumes "tcp_reachable n run" "prefix (te_received (snd (tr_tcp run))) (render_request r)"
  shows "prefix (tr_taken run @ m_readBuffer (fst (tr_tcp run))) (render_request r)"
  using reachable_taken [OF assms(1)] assms(2) by (rule prefix_order.trans)

lemma respond_result:
  assumes "HttpServer_respond n parser bs (h, p) = (k, h', q)" "bs \<noteq> []"
  shows "smap_get (hs_socketStates h') n =
      Some \<lparr>ss_parser = parser, ss_pendingClose = True, ss_totalToSend = length bs, ss_totalSent = 0\<rparr>"
    "is_live (fst p) \<Longrightarrow> take k bs = bs" "\<not> is_live (fst p) \<Longrightarrow> take k bs = [] \<and> q = p" "grows p q"
    "hs_routes h' = hs_routes h \<and> hs_staticPrefixes h' = hs_staticPrefixes h" "smap_ok (hs_socketStates h) \<Longrightarrow> smap_ok (hs_socketStates h')"
proof -
  have w: "TcpSocket_write n (ByteArray_new bs) p = (k, q)" "h' = h\<lparr>hs_socketStates := smap_put n
      \<lparr>ss_parser = parser, ss_pendingClose = True, ss_totalToSend = length bs, ss_totalSent = 0\<rparr> (hs_socketStates h)\<rparr>"
    using assms(1) by (auto simp: HttpServer_respond_def Let_def split: prod.splits)
  show "take k bs = bs" if "is_live (fst p)" using live_write [OF that assms(2), of n] w(1) by simp
  show "take k bs = [] \<and> q = p" if "\<not> is_live (fst p)" using dead_write [OF that, of n "ByteArray_new bs"] w(1) by simp
  show "grows p q" by (rule write_grows [OF w(1)])
  show "smap_get (hs_socketStates h') n =
      Some \<lparr>ss_parser = parser, ss_pendingClose = True, ss_totalToSend = length bs, ss_totalSent = 0\<rparr>"
    "hs_routes h' = hs_routes h \<and> hs_staticPrefixes h' = hs_staticPrefixes h"
    "smap_ok (hs_socketStates h) \<Longrightarrow> smap_ok (hs_socketStates h')" by (simp_all add: w(2))
qed

text \<open>The request is read: nothing new, a part of it, or the rest of it.\<close>

lemma conn_ok_read:
  assumes ok: "conn_ok resp r n h run fin" and ok_map: "smap_ok (hs_socketStates h)"
    and reach: "tcp_reachable n run" "prefix (te_received (snd (tr_tcp run))) (render_request r)"
    and p: "fst p = fst (tr_tcp run)" "te_sent (snd p) = te_sent (snd (tr_tcp run))"
    and r: "sendable r" "resp = answer_text fs h r"
    and res: "HttpServer_onSocketReadyRead fs n (h, p) = (taken, accepted, h', q)"
    and reach': "tcp_reachable n (advance_run taken accepted q (signalled SigReadyRead p run))"
  shows "conn_ok resp r n h' (advance_run taken accepted q (signalled SigReadyRead p run)) fin"
proof -
  let ?run = "advance_run taken accepted q (signalled SigReadyRead p run)"
  obtain data p1 where read: "TcpSocket_readAll p = (data, p1)" by (rule prod.exhaust)
  have data: "remainingView data = m_readBuffer (fst (tr_tcp run))" "ba_bytes data = remainingView data"
      "te_sent (snd p1) = te_sent (snd p)" "is_live (fst p1) = is_live (fst (tr_tcp run))"
    using read p(1) by (cases p; auto simp: TcpSocket_readAll_def ByteArray_new_def remainingView_def)+
  have pre: "prefix (tr_taken run @ remainingView data) (render_request r)"
    using taken_prefix [OF reach] data(1) by simp
  have sock: "socket_ok resp r (smap_get (hs_socketStates h) n) (is_live (fst (tr_tcp run))) run"
    and fin: "fin \<Longrightarrow> te_sent (snd p) = resp" using ok p(2) by (simp_all add: conn_ok_def)
  have silent: "conn_ok resp r n h (advance_run (remainingView data) [] p1 (signalled SigReadyRead p run)) fin"
    if "remainingView data = [] \<or> smap_get (hs_socketStates h) n = None"
  proof (cases "smap_get (hs_socketStates h) n")
    case None
    then show ?thesis using sock fin data by (simp add: conn_ok_def advance_run_def signalled_def)
  next
    case (Some st)
    then show ?thesis using sock fin data that by (auto simp: conn_ok_def advance_run_def signalled_def)
  qed
  show ?thesis
  proof (cases "remainingView data = [] \<or> smap_get (hs_socketStates h) n = None")
    case True
    then have "taken = remainingView data \<and> accepted = [] \<and> h' = h \<and> q = p1"
      using res read data(2) by (auto simp: HttpServer_onSocketReadyRead_def ByteArray_size_def split: if_splits)
    then show ?thesis using silent [OF True] by simp
  next
    case False
    then obtain st where st: "smap_get (hs_socketStates h) n = Some st" and new: "remainingView data \<noteq> []" by auto
    have "\<not> ss_pendingClose st" using sock st pre new by (auto simp: prefix_def)
    then obtain pieces rest where pieces: "concat pieces = tr_taken run" "ss_parser st = fold HttpRequestParser_feed pieces HttpRequestParser_init"
        "tr_accepted run = []" using sock st by auto
    let ?pieces = "pieces @ [remainingView data]"
    let ?parser = "HttpRequestParser_feed (remainingView data) (ss_parser st)"
    have parser: "?parser = fold HttpRequestParser_feed ?pieces HttpRequestParser_init" "concat ?pieces = tr_taken run @ remainingView data"
      using pieces by simp_all
    obtain rest where rest: "concat ?pieces @ rest = render_request r" using pre unfolding parser(2) prefix_def by metis
    show ?thesis
    proof (cases "rest = []")
      case True
      then have whole: "concat ?pieces = render_request r" using rest by simp
      have complete: "hp_state ?parser = Complete" "hp_request ?parser = r"
        unfolding parser(1) using parsed_in_pieces [OF r(1) whole] by blast+
      obtain k where k: "HttpServer_respond n HttpRequestParser_init resp (h, p1) = (k, h', q)" "taken = remainingView data" "accepted = take k resp"
        using res read st new data(2) complete r(2)
        by (auto simp: HttpServer_onSocketReadyRead_def ByteArray_size_def Let_def HttpRequestParser_isComplete_def
            HttpRequestParser_parse_def HttpRequestParser_reset_def answer_text_def split: prod.splits)
      have ne: "resp \<noteq> []" using r(2) answer_text_nonempty by simp
      note responded = respond_result [OF k(1) ne]
      have none: "te_sent (snd p) = []" using reachable_sent [OF reach(1)] pieces(3) p(2) by simp
      then have "written_of (tr_delivered run) = 0" using reachable_written [OF reach(1)] p(2) by simp
      moreover have "take k resp = resp \<or> take k resp = [] \<and> \<not> is_live (fst q)"
        using responded(2,3) by blast
      moreover have "\<not> fin" using fin none ne by auto
      moreover have "tr_taken run @ remainingView data = render_request r" using whole parser(2) by simp
      ultimately show ?thesis using responded(1) k(2,3) pieces(3)
        by (simp add: conn_ok_def advance_run_def signalled_def)
    next
      case False
      have waits: "hp_state ?parser \<noteq> Complete" "hp_state ?parser \<noteq> Error"
        unfolding parser(1) using waits_for_rest [OF r(1) rest False] by simp_all
      have result: "taken = remainingView data" "accepted = []" "q = p1"
          "h' = h\<lparr>hs_socketStates := smap_put n (st\<lparr>ss_parser := ?parser\<rparr>) (hs_socketStates h)\<rparr>"
        using res read st new data(2) waits
        by (auto simp: HttpServer_onSocketReadyRead_def ByteArray_size_def Let_def HttpRequestParser_isComplete_def HttpRequestParser_hasError_def)
      have "\<exists>ps rest. concat ps = tr_taken run @ remainingView data \<and> (tr_taken run @ remainingView data) @ rest = render_request r
          \<and> rest \<noteq> [] \<and> ?parser = fold HttpRequestParser_feed ps HttpRequestParser_init"
        using parser rest False by metis
      moreover have "\<not> fin" using fin reachable_sent [OF reach(1)] pieces(3) p(2) r(2) answer_text_nonempty by fastforce
      ultimately show ?thesis using \<open>\<not> ss_pendingClose st\<close> pieces(3) unfolding result
        by (simp add: conn_ok_def advance_run_def signalled_def)
    qed
  qed
qed


definition http_good :: "filesystem \<Rightarrow> HttpServer \<Rightarrow> HttpRequest \<Rightarrow> addr \<Rightarrow> 't http_run \<Rightarrow> bool" where
  "http_good fs h0 r n c \<longleftrightarrow> smap_ok (hs_socketStates (hc_server c))
     \<and> hs_routes (hc_server c) = hs_routes h0 \<and> hs_staticPrefixes (hc_server c) = hs_staticPrefixes h0
     \<and> tcp_reachable n (hc_run c)
     \<and> (prefix (te_received (snd (tr_tcp (hc_run c)))) (render_request r)
        \<longrightarrow> conn_ok (answer_text fs h0 r) r n (hc_server c) (hc_run c) (hc_finished c))"

lemma answer_text_cong:
  "hs_routes h = hs_routes h0 \<Longrightarrow> hs_staticPrefixes h = hs_staticPrefixes h0 \<Longrightarrow> answer_text fs h r = answer_text fs h0 r"
  by (simp add: answer_text_def HttpServer_answer_def split: option.split)

definition same_site :: "HttpServer \<Rightarrow> HttpServer \<Rightarrow> bool" where
  "same_site h h' \<longleftrightarrow> hs_routes h' = hs_routes h \<and> hs_staticPrefixes h' = hs_staticPrefixes h
     \<and> (smap_ok (hs_socketStates h) \<longrightarrow> smap_ok (hs_socketStates h'))"

lemma respond_frame:
  assumes "HttpServer_respond n parser bs (h, p) = (k, h', q)"
  shows "same_site h h'" "grows p q"
proof -
  have "TcpSocket_write n (ByteArray_new bs) p = (k, q)" using assms by (auto simp: HttpServer_respond_def Let_def split: prod.splits)
  then show "grows p q" by (rule write_grows)
  show "same_site h h'" using assms by (auto simp: HttpServer_respond_def Let_def same_site_def split: prod.splits)
qed

lemma read_frame:
  assumes "HttpServer_onSocketReadyRead fs n (h, p) = (taken, accepted, h', q)"
  shows "same_site h h' \<and> grows p q"
proof -
  obtain data p1 where read: "TcpSocket_readAll p = (data, p1)" by (rule prod.exhaust)
  have g: "grows p p1" using read by (cases p) (auto simp: TcpSocket_readAll_def grows_def)
  have "same_site h h' \<and> (q = p1 \<or> (\<exists>parser bs k. HttpServer_respond n parser bs (h, p1) = (k, h', q)))"
    using assms read by (fastforce simp: HttpServer_onSocketReadyRead_def Let_def same_site_def dest: respond_frame(1)
        split: if_splits option.splits prod.splits)
  then show ?thesis using g grows_trans respond_frame(2) by blast
qed

lemma deliver_frame:
  assumes "deliver_to_server fs n x (h, p) = (taken, accepted, h', q)"
  shows "same_site h h' \<and> grows p q"
proof (cases "x = SigReadyRead")
  case True
  then show ?thesis using assms read_frame by (simp add: deliver_to_server_def)
next
  case False
  then show ?thesis using assms
    by (cases x) (auto simp: deliver_to_server_def same_site_def grows_def HttpServer_closeSocket_def HttpServer_onSocketError_def
        HttpServer_onBytesWritten_def Let_def split: option.splits if_splits)
qed

lemma deliver_conn_ok:
  assumes ok: "conn_ok resp r n h run fin" "smap_ok (hs_socketStates h)"
    and reach: "tcp_reachable n run" "prefix (te_received (snd (tr_tcp run))) (render_request r)"
    and posted: "te_posted (snd (tr_tcp run)) = x # xs"
    and p: "p = set_env (\<lambda>w. w\<lparr>te_posted := xs\<rparr>) (tr_tcp run)"
    and r: "sendable r" "resp = answer_text fs h r"
    and res: "deliver_to_server fs n x (h, p) = (taken, accepted, h', q)"
  shows "conn_ok resp r n h' (advance_run taken accepted q (signalled x p run))
      (fin \<or> (\<exists>k. x = SigBytesWritten k) \<and> knows h n \<and> \<not> knows h' n)"
proof -
  have same: "fst p = fst (tr_tcp run)" "te_sent (snd p) = te_sent (snd (tr_tcp run))" "grows (tr_tcp run) p"
    by (cases "tr_tcp run"; simp add: p set_env_def grows_def)+
  have s1: "tcp_reachable n (signalled x p run)"
    using tcp_reachable.step [OF reach(1) tcp_step.signal [OF posted]] by (simp add: p signalled_def)
  have s2: "tcp_reachable n (advance_run taken accepted q (signalled x p run))"
    using deliver_steps [OF s1] res by (simp add: signalled_def)
  have closes: "conn_ok resp r n h' (advance_run [] [] q (signalled x p run)) fin"
    if "smap_get (hs_socketStates h') n = None" "q = TcpSocket_close n p"
  proof (rule conn_ok_closed [OF that(1)])
    show "tr_accepted (advance_run [] [] q (signalled x p run)) = [] \<or> tr_accepted (advance_run [] [] q (signalled x p run)) = resp"
      using socket_ok_accepted [OF conjunct1 [OF ok(1) [unfolded conn_ok_def]]] by (simp add: advance_run_def signalled_def)
    show "\<not> is_live (fst (tr_tcp (advance_run [] [] q (signalled x p run))))" by (simp add: that(2) advance_run_def)
    show "fin \<Longrightarrow> te_sent (snd (tr_tcp (advance_run [] [] q (signalled x p run)))) = resp"
      using ok(1) same(2) by (simp add: that(2) advance_run_def conn_ok_def)
  qed
  have nop: "advance_run [] [] q (signalled y p run) = signalled y q run" for q y by (simp add: advance_run_def signalled_def)
  show ?thesis
  proof (cases x)
    case SigConnected
    then have "taken = [] \<and> accepted = [] \<and> h' = h \<and> q = p" using res by (simp add: deliver_to_server_def)
    then show ?thesis using conn_ok_signalled [OF ok(1) s1 same(3)] same(1) SigConnected by (simp add: nop)
  next
    case SigDisconnected
    then have "taken = []" "accepted = []" "smap_get (hs_socketStates h') n = None" "q = TcpSocket_close n p"
      using res ok(2) by (auto simp: deliver_to_server_def HttpServer_closeSocket_def)
    then show ?thesis using closes SigDisconnected by simp
  next
    case SigReadyRead
    then have "HttpServer_onSocketReadyRead fs n (h, p) = (taken, accepted, h', q)" using res by (simp add: deliver_to_server_def)
    from conn_ok_read [OF ok reach same(1,2) r this] show ?thesis using s2 SigReadyRead by simp
  next
    case (SigBytesWritten k)
    then have w: "taken = []" "accepted = []" "HttpServer_onBytesWritten n k (h, p) = (h', q)"
      using res by (simp_all add: deliver_to_server_def)
    have "resp \<noteq> []" using r(2) answer_text_nonempty by simp
    from conn_ok_written [OF ok _ same(1,2) this w(3)] show ?thesis using s1 SigBytesWritten w(1,2) by (simp add: nop)
  next
    case (SigErrorOccurred msg)
    then have "taken = []" "accepted = []" "smap_get (hs_socketStates h') n = None" "q = TcpSocket_close n p"
      using res ok(2) by (auto simp: deliver_to_server_def HttpServer_closeSocket_def HttpServer_onSocketError_def)
    then show ?thesis using closes SigErrorOccurred by simp
  qed
qed

lemma http_good_socket:
  assumes "http_good fs h0 r n c" "tcp_step n (hc_run c) ((hc_run c)\<lparr>tr_tcp := p\<rparr>)" "grows (tr_tcp (hc_run c)) p"
    "is_live (fst p) \<Longrightarrow> is_live (fst (tr_tcp (hc_run c)))"
  shows "http_good fs h0 r n (c\<lparr>hc_run := (hc_run c)\<lparr>tr_tcp := p\<rparr>\<rparr>)"
proof -
  have reach: "tcp_reachable n ((hc_run c)\<lparr>tr_tcp := p\<rparr>)"
    using tcp_reachable.step [OF _ assms(2)] assms(1) by (simp add: http_good_def)
  have "prefix (te_received (snd p)) (render_request r) \<Longrightarrow> prefix (te_received (snd (tr_tcp (hc_run c)))) (render_request r)"
    using assms(3) prefix_order.trans by (auto simp: grows_def)
  then show ?thesis using assms(1) conn_ok_socket [OF _ reach assms(3,4)] reach by (simp add: http_good_def)
qed

lemma http_step_good: "http_step fs n c c' \<Longrightarrow> sendable r \<Longrightarrow> http_good fs h0 r n c \<Longrightarrow> http_good fs h0 r n c'"
proof (induction rule: http_step.induct)
  case (events c native sockopt)
  show ?case using dead_events by (intro http_good_socket [OF events(2) tcp_step.events events_grow]) blast
next
  case (kernel c as bs)
  show ?case by (intro http_good_socket [OF kernel(2) tcp_step.kernel]; cases "tr_tcp (hc_run c)"; simp add: set_env_def grows_def)
next
  case (loop c k)
  show ?case by (intro http_good_socket [OF loop(3) tcp_step.others [OF loop(1)]]; cases "tr_tcp (hc_run c)"; simp add: set_env_def grows_def)
next
  case (deliver c x xs)
  let ?p = "set_env (\<lambda>w. w\<lparr>te_posted := xs\<rparr>) (tr_tcp (hc_run c))"
  obtain taken accepted h' q where res: "deliver_to_server fs n x (hc_server c, ?p) = (taken, accepted, h', q)"
    by (metis prod_cases4)
  note good = deliver.prems(2) [unfolded http_good_def]
  let ?run = "advance_run taken accepted q (signalled x ?p (hc_run c))"
  have run: "hc_run (http_delivered n x (taken, accepted, h', q) c) = ?run" "hc_server (http_delivered n x (taken, accepted, h', q) c) = h'"
    "hc_finished (http_delivered n x (taken, accepted, h', q) c) =
       (hc_finished c \<or> (\<exists>k. x = SigBytesWritten k) \<and> knows (hc_server c) n \<and> \<not> knows h' n)"
    by (simp_all add: http_delivered_def advance_run_def signalled_def)
  have s1: "tcp_reachable n (signalled x ?p (hc_run c))"
    using tcp_reachable.step [OF _ tcp_step.signal [OF deliver.hyps]] good by (simp add: signalled_def)
  have s2: "tcp_reachable n ?run" using deliver_steps [OF s1] res by (simp add: signalled_def)
  have g: "grows (tr_tcp (hc_run c)) q"
    using deliver_frame [OF res] by (cases "tr_tcp (hc_run c)") (simp add: set_env_def grows_def)
  have conn: "conn_ok (answer_text fs h0 r) r n h' ?run
      (hc_finished c \<or> (\<exists>k. x = SigBytesWritten k) \<and> knows (hc_server c) n \<and> \<not> knows h' n)"
    if "prefix (te_received (snd (tr_tcp ?run))) (render_request r)"
  proof -
    have "tr_tcp ?run = q" by (simp add: advance_run_def)
    then have pre: "prefix (te_received (snd (tr_tcp (hc_run c)))) (render_request r)"
      using g that prefix_order.trans unfolding grows_def by metis
    then have ok: "conn_ok (answer_text fs h0 r) r n (hc_server c) (hc_run c) (hc_finished c)"
        "smap_ok (hs_socketStates (hc_server c))" "tcp_reachable n (hc_run c)"
      using good by blast+
    have "answer_text fs h0 r = answer_text fs (hc_server c) r" using good answer_text_cong [of "hc_server c" h0] by metis
    from deliver_conn_ok [OF ok pre deliver.hyps refl deliver.prems(1) this res] show ?thesis .
  qed
  have "same_site (hc_server c) h'" using deliver_frame [OF res] by blast
  then have site: "smap_ok (hs_socketStates h')" "hs_routes h' = hs_routes h0" "hs_staticPrefixes h' = hs_staticPrefixes h0"
    using good unfolding same_site_def by metis+
  show ?case unfolding http_good_def res run by (intro conjI impI site s2 conn)
next
  case (elsewhere c h)
  then show ?case by (simp add: http_good_def others_served_def conn_ok_def)
qed


lemma http_reachable_good: "http_reachable fs h n c \<Longrightarrow> sendable r \<Longrightarrow> http_good fs h r n c"
proof (induction rule: http_reachable.induct)
  case (accepted w fd mode)
  have "\<exists>pieces. (\<forall>xs \<in> set pieces. xs = []) \<and> render_request r \<noteq> []
      \<and> HttpRequestParser_init = fold HttpRequestParser_feed pieces HttpRequestParser_init"
    by (rule exI [of _ "[]"]) (simp add: render_request_def)
  then show ?case using accepted tcp_reachable.adopted [OF accepted(2,3)]
    by (simp add: http_good_def HttpServer_accept_def conn_ok_def SocketState_init_def)
next
  case (step c c')
  then show ?case using http_step_good by blast
qed

text \<open>C25. A client that sends one request of the kind \<open>sendable\<close> describes (method in capitals, a path without white space and
  without a query, plain headers, no \<open>Transfer-Encoding\<close>, and either a \<open>Content-Length\<close> that is the length of the body or
  neither \<open>Content-Length\<close> nor body, as in a plain \<open>GET\<close>), cut and delayed in any way, gets nothing but the serialized
  response that the routes, the handler or the static files determine: what has gone out is a prefix of it; once
  the request has been read and the connection lives all of it is accepted for sending; and if the server closes
  the connection because it is done, the client has been sent every byte. Other connections, the kernel's pace and the
  order of signals make no difference. Requests with a query, in chunks (which the parser misreads when they are
  cut behind a chunk size, as \<open>HttpMessages\<close> shows) or several on one connection are not covered.\<close>

theorem http_response_complete_before_close:
  assumes "http_reachable fs h n c" "sendable r" "tr_tcp (hc_run c) = (s, w)" "prefix (te_received w) (render_request r)"
  shows "prefix (te_sent w) (HttpResponse_serialize (HttpServer_answer fs h r))
    \<and> (hc_finished c \<longrightarrow> te_sent w = HttpResponse_serialize (HttpServer_answer fs h r))
    \<and> (tr_taken (hc_run c) = render_request r \<and> is_live s \<longrightarrow> tr_accepted (hc_run c) = HttpResponse_serialize (HttpServer_answer fs h r))"
proof -
  have good: "tcp_reachable n (hc_run c)" "conn_ok (answer_text fs h r) r n (hc_server c) (hc_run c) (hc_finished c)"
    using http_reachable_good [OF assms(1,2)] assms(3,4) by (simp_all add: http_good_def)
  then have ok: "socket_ok (answer_text fs h r) r (smap_get (hs_socketStates (hc_server c)) n) (is_live s) (hc_run c)"
    and fin: "hc_finished c \<longrightarrow> te_sent w = answer_text fs h r"
    using assms(3) by (simp_all add: conn_ok_def)
  have "prefix (te_sent w) (answer_text fs h r)"
    using reachable_sent [OF good(1)] socket_ok_accepted [OF ok] assms(3) by auto
  moreover have "tr_taken (hc_run c) = render_request r \<and> is_live s \<longrightarrow> tr_accepted (hc_run c) = answer_text fs h r"
    using ok by (cases "smap_get (hs_socketStates (hc_server c)) n") (auto split: if_splits)
  ultimately show ?thesis using fin by (simp add: answer_text_def)
qed

text \<open>The whole request arrives at a new connection.\<close>

definition demo_http_env :: "(char, unit) tcp_env" where
  "demo_http_env = \<lparr>te_loop = EventLoop_init, te_posted = [], te_sends = [], te_recvs = [], te_sent = [], te_received = [], te_baseSignals = [],
     te_strerror = (\<lambda>_. [])\<rparr>"

definition demo_arrival :: "(char, unit) tcp" where
  "demo_arrival = TcpSocket_handleEvents 3 EPOLLIN (0, 0, 0)
     (set_env (\<lambda>w. w\<lparr>te_sends := [], te_recvs := [Gives (render_request demo_request)]\<rparr>)
       (adoptConnectedDescriptor 3 7 (0, 0) (TcpSocket_init False, demo_http_env)))"

definition demo_connection :: "unit http_run" where
  "demo_connection = \<lparr>hc_server = HttpServer_accept 3 HttpServer_init,
     hc_run = \<lparr>tr_tcp = demo_arrival, tr_accepted = [], tr_taken = [], tr_delivered = []\<rparr>, hc_finished = False\<rparr>"

lemma demo_connection_reachable: "http_reachable fs HttpServer_init 3 demo_connection"
proof -
  have 0: "http_reachable fs HttpServer_init 3 \<lparr>hc_server = HttpServer_accept 3 HttpServer_init,
      hc_run = \<lparr>tr_tcp = adoptConnectedDescriptor 3 7 (0, 0) (TcpSocket_init False, demo_http_env), tr_accepted = [], tr_taken = [],
        tr_delivered = []\<rparr>, hc_finished = False\<rparr>"
    by (rule http_reachable.accepted)
      (simp_all add: HttpServer_init_def fresh_env_def demo_http_env_def table_ok_def no_watch_of_def watches_def EventLoop_init_def unwatched_def)
  note 1 = http_reachable.step [OF 0 http_step.kernel [where as = "[]" and bs = "[Gives (render_request demo_request)]"]]
  note 2 = http_reachable.step [OF 1 http_step.events [where native = EPOLLIN and sockopt = "(0, 0, 0)"]]
  from 2 show ?thesis by (simp add: demo_connection_def demo_arrival_def)
qed

lemma demo_arrival_received: "te_received (snd demo_arrival) = render_request demo_request"
  by code_simp

theorem http_response_complete_before_close_witness:
  "prefix (te_sent (snd demo_arrival)) (HttpResponse_serialize (HttpServer_answer demo_fs HttpServer_init demo_request))"
  using http_response_complete_before_close [OF demo_connection_reachable demo_request_sendable, of "fst demo_arrival" "snd demo_arrival" demo_fs]
  by (simp add: demo_connection_def demo_arrival_received)

end
