(* ===== verification/WebSockets.thy ===== *)
theory WebSockets
  imports WebSocketFrames WebSocketHandshake TcpSockets
begin

text \<open>
  \<open>WebSocketImplNative\<close> (\<open>WebSocket/src/SNFWebSocket/WebSocketImplNative.cpp\<close>), the state machine behind
  \<open>snf::WebSocket\<close>, on top of a TCP socket, the handshake and the frame codec. The signals of the \<open>WebSocket\<close> are
  collected in the order they are emitted; slots do not call back. The frames handed to the socket are recorded
  for each connection; the random masking keys are a parameter, drawn one after the other. The TCP socket has the
  address \<open>n\<close>.
\<close>

section \<open>State\<close>

datatype WebSocketState = WsClosed | WsConnecting | WsOpen | WsClosing | WsError

datatype ws_signal = WsConnected | WsDisconnected | WsTextMessage string | WsBinaryMessage "byte list" | WsPong "byte list"
  | WsErrorOccurred string

record WebSocketImplNative =
  ws_hasSocket :: bool
  ws_state :: WebSocketState
  ws_clientMode :: bool
  ws_handshakeComplete :: bool
  ws_closeFrameSent :: bool
  ws_handshakeBuffer :: string
  ws_clientKey :: string
  ws_host :: string
  ws_port :: "16 word"
  ws_path :: string
  ws_fragmentOpcode :: OpCode
  ws_fragmentPayload :: "byte list"
  ws_frameParser :: WebSocketFrameParser
  ws_emitted :: "ws_signal list"
  ws_framesSent :: "(OpCode \<times> byte list) list"
  ws_masks :: "nat \<Rightarrow> byte list"
  ws_masksDrawn :: nat

type_synonym 't ws = "WebSocketImplNative \<times> (byte, 't) tcp"

definition WebSocketImplNative_init :: "(nat \<Rightarrow> byte list) \<Rightarrow> WebSocketImplNative" where
  "WebSocketImplNative_init masks = \<lparr>ws_hasSocket = False, ws_state = WsClosed, ws_clientMode = True, ws_handshakeComplete = False,
     ws_closeFrameSent = False, ws_handshakeBuffer = [], ws_clientKey = [], ws_host = [], ws_port = 0, ws_path = ''/'',
     ws_fragmentOpcode = Continuation, ws_fragmentPayload = [], ws_frameParser = WebSocketFrameParser_init, ws_emitted = [],
     ws_framesSent = [], ws_masks = masks, ws_masksDrawn = 0\<rparr>"

text \<open>The second constructor, for a socket the server accepted.\<close>

definition WebSocketImplNative_accepted :: "(nat \<Rightarrow> byte list) \<Rightarrow> WebSocketImplNative" where
  "WebSocketImplNative_accepted masks = (WebSocketImplNative_init masks)\<lparr>ws_hasSocket := True, ws_clientMode := False\<rparr>"

definition toBytes :: "string \<Rightarrow> byte list" where "toBytes text = map of_char text"

definition toString :: "byte list \<Rightarrow> string" where "toString data = map (\<lambda>b. char_of (unat b)) data"


section \<open>Operations\<close>

definition ws_emit :: "ws_signal \<Rightarrow> WebSocketImplNative \<Rightarrow> WebSocketImplNative" where
  "ws_emit x ws = ws\<lparr>ws_emitted := ws_emitted ws @ [x]\<rparr>"

definition setState :: "WebSocketState \<Rightarrow> WebSocketImplNative \<Rightarrow> WebSocketImplNative" where
  "setState st ws = ws\<lparr>ws_state := st\<rparr>"

definition shouldMaskOutgoingFrames :: "WebSocketImplNative \<Rightarrow> bool" where
  "shouldMaskOutgoingFrames ws = ws_clientMode ws"

definition close_socket :: "addr \<Rightarrow> 't ws \<Rightarrow> 't ws" where
  "close_socket n = (\<lambda>(ws, p). (ws, if ws_hasSocket ws then TcpSocket_close n p else p))"

definition ws_fail :: "addr \<Rightarrow> string \<Rightarrow> 't ws \<Rightarrow> 't ws" where
  "ws_fail n msg = (\<lambda>(ws, p). close_socket n (ws_emit (WsErrorOccurred msg) (setState WsError ws), p))"

definition sendFrame :: "addr \<Rightarrow> OpCode \<Rightarrow> byte list \<Rightarrow> bool \<Rightarrow> 't ws \<Rightarrow> bool \<times> 't ws" where
  "sendFrame n opcode payload requireOpen = (\<lambda>(ws, p).
     if \<not> ws_hasSocket ws then (False, (ws, p))
     else if requireOpen \<and> ws_state ws \<noteq> WsOpen then (False, (ws, p))
     else let key = (if shouldMaskOutgoingFrames ws then Some (ws_masks ws (ws_masksDrawn ws)) else None);
              encoded = encodeFrame opcode payload key
          in case TcpSocket_write n (ByteArray_new encoded) p of
               (k, p1) \<Rightarrow> (k = length encoded, (ws\<lparr>ws_framesSent := ws_framesSent ws @ [(opcode, payload)],
                 ws_masksDrawn := ws_masksDrawn ws + 1\<rparr>, p1)))"

definition sendTextMessage :: "addr \<Rightarrow> string \<Rightarrow> 't ws \<Rightarrow> bool \<times> 't ws" where
  "sendTextMessage n message = sendFrame n Text (toBytes message) True"

definition sendBinaryMessage :: "addr \<Rightarrow> byte list \<Rightarrow> 't ws \<Rightarrow> bool \<times> 't ws" where
  "sendBinaryMessage n data = sendFrame n Binary data True"

definition ws_ping :: "addr \<Rightarrow> byte list \<Rightarrow> 't ws \<Rightarrow> bool \<times> 't ws" where
  "ws_ping n payload s =
     (if 125 < length payload then (False, ws_fail n ''WebSocket ping payload is too large'' s) else sendFrame n Ping payload True s)"

definition mark_closing :: "'t ws \<Rightarrow> 't ws" where
  "mark_closing = (\<lambda>(ws, p). (setState WsClosing (ws\<lparr>ws_closeFrameSent := True\<rparr>), p))"

definition ws_close :: "addr \<Rightarrow> 't ws \<Rightarrow> 't ws" where
  "ws_close n s =
     (if ws_hasSocket (fst s) \<and> ws_state (fst s) = WsOpen \<and> \<not> ws_closeFrameSent (fst s)
      then mark_closing (snd (sendFrame n Close [] False s)) else close_socket n s)"

definition processFrame :: "addr \<Rightarrow> WebSocketFrame \<Rightarrow> 't ws \<Rightarrow> 't ws" where
  "processFrame n frame = (\<lambda>(ws, p).
     if \<not> ws_clientMode ws \<and> \<not> wf_masked frame then ws_fail n ''WebSocket client frames must be masked'' (ws, p)
     else if ws_clientMode ws \<and> wf_masked frame then ws_fail n ''WebSocket server frames must not be masked'' (ws, p)
     else case wf_opcode frame of
       Text \<Rightarrow> (if wf_fin frame then (ws_emit (WsTextMessage (toString (wf_payload frame))) ws, p)
                else (ws\<lparr>ws_fragmentOpcode := Text, ws_fragmentPayload := wf_payload frame\<rparr>, p))
     | Binary \<Rightarrow> (if wf_fin frame then (ws_emit (WsBinaryMessage (wf_payload frame)) ws, p)
                  else (ws\<lparr>ws_fragmentOpcode := Binary, ws_fragmentPayload := wf_payload frame\<rparr>, p))
     | Continuation \<Rightarrow>
         if ws_fragmentOpcode ws = Continuation then ws_fail n ''Unexpected WebSocket continuation frame'' (ws, p)
         else let payload = ws_fragmentPayload ws @ wf_payload frame
              in if wf_fin frame
                 then (ws_emit (if ws_fragmentOpcode ws = Text then WsTextMessage (toString payload) else WsBinaryMessage payload)
                         (ws\<lparr>ws_fragmentPayload := [], ws_fragmentOpcode := Continuation\<rparr>), p)
                 else (ws\<lparr>ws_fragmentPayload := payload\<rparr>, p)
     | Ping \<Rightarrow> snd (sendFrame n Pong (wf_payload frame) True (ws, p))
     | Pong \<Rightarrow> (ws_emit (WsPong (wf_payload frame)) ws, p)
     | Close \<Rightarrow>
         let s1 = (if ws_closeFrameSent ws then (ws, p) else snd (sendFrame n Close (wf_payload frame) False (ws, p)))
         in close_socket n (mark_closing s1))"

lemma parser_simps [simp]:
  "ws_frameParser (ws_emit x ws) = ws_frameParser ws" "ws_frameParser (setState st ws) = ws_frameParser ws"
  "ws_frameParser (fst (ws_fail n msg s)) = ws_frameParser (fst s)"
  "ws_frameParser (fst (close_socket n s)) = ws_frameParser (fst s)"
  "ws_frameParser (fst (mark_closing s)) = ws_frameParser (fst s)"
  "ws_frameParser (fst (snd (sendFrame n op payload req s))) = ws_frameParser (fst s)"
  by (cases s; simp add: ws_emit_def setState_def ws_fail_def close_socket_def mark_closing_def sendFrame_def Let_def split: prod.split)+

lemma parser_processFrame [simp]: "ws_frameParser (fst (processFrame n frame (ws, p))) = ws_frameParser ws"
  by (cases "wf_opcode frame") (simp_all add: processFrame_def Let_def)

definition is_over :: "WebSocketImplNative \<Rightarrow> bool" where
  "is_over ws \<longleftrightarrow> ws_state ws = WsError \<or> ws_state ws = WsClosed"

function process_frames :: "addr \<Rightarrow> 't ws \<Rightarrow> 't ws" where
  "process_frames n (ws, p) =
     (if \<not> WebSocketFrameParser_hasFrame (ws_frameParser ws) then (ws, p)
      else case WebSocketFrameParser_nextFrame (ws_frameParser ws) of (frame, parser) \<Rightarrow>
        let s = processFrame n frame (ws\<lparr>ws_frameParser := parser\<rparr>, p)
        in if is_over (fst s) then s else process_frames n s)"
  by pat_completeness auto
termination
proof (relation "measure (\<lambda>(n, ws, p). length (wp_frames (ws_frameParser ws)))")
  fix n :: addr and ws :: WebSocketImplNative and p :: "(byte, 't) tcp" and frame parser s
  assume a: "\<not> \<not> WebSocketFrameParser_hasFrame (ws_frameParser ws)"
    "(frame, parser) = WebSocketFrameParser_nextFrame (ws_frameParser ws)" "s = processFrame n frame (ws\<lparr>ws_frameParser := parser\<rparr>, p)"
  have "length (wp_frames parser) < length (wp_frames (ws_frameParser ws))"
    using a(1,2) by (cases "wp_frames (ws_frameParser ws)") (auto simp: WebSocketFrameParser_hasFrame_def WebSocketFrameParser_nextFrame_def)
  moreover obtain ws' p' where s: "s = (ws', p')" by (rule prod.exhaust)
  moreover have "ws_frameParser ws' = parser"
    using parser_processFrame [of n frame "ws\<lparr>ws_frameParser := parser\<rparr>" p] unfolding a(3) [symmetric] s by simp
  ultimately show "((n, s), n, ws, p) \<in> measure (\<lambda>(n, ws, p). length (wp_frames (ws_frameParser ws)))" by simp
qed simp

declare process_frames.simps [simp del]


definition processFrameBytes :: "addr \<Rightarrow> byte list \<Rightarrow> 't ws \<Rightarrow> 't ws" where
  "processFrameBytes n data = (\<lambda>(ws, p).
     let parser = WebSocketFrameParser_feed data (ws_frameParser ws); s = (ws\<lparr>ws_frameParser := parser\<rparr>, p)
     in if WebSocketFrameParser_hasError parser then ws_fail n (wp_error parser) s else process_frames n s)"

definition processHandshakeBytes :: "addr \<Rightarrow> byte list \<Rightarrow> 't ws \<Rightarrow> 't ws" where
  "processHandshakeBytes n data = (\<lambda>(ws, p).
     let buffer = ws_handshakeBuffer ws @ toString data
     in case find_sub (crlf @ crlf) buffer of
          None \<Rightarrow> (ws\<lparr>ws_handshakeBuffer := buffer\<rparr>, p)
        | Some headerEnd \<Rightarrow>
            let response = take (headerEnd + 4) buffer; remaining = drop (headerEnd + 4) buffer;
                ws1 = ws\<lparr>ws_handshakeBuffer := []\<rparr>
            in (case validateServerHandshakeResponse response (ws_clientKey ws1) of
                  Inl errorMessage \<Rightarrow> ws_fail n errorMessage (ws1, p)
                | Inr _ \<Rightarrow>
                    let ws2 = ws_emit WsConnected (setState WsOpen (ws1\<lparr>ws_handshakeComplete := True\<rparr>))
                    in if remaining \<noteq> [] then processFrameBytes n (toBytes remaining) (ws2, p) else (ws2, p)))"

definition handleTcpReadyRead :: "addr \<Rightarrow> 't ws \<Rightarrow> 't ws" where
  "handleTcpReadyRead n = (\<lambda>(ws, p).
     if \<not> ws_hasSocket ws then (ws, p)
     else case TcpSocket_readAll p of (data, p1) \<Rightarrow>
       if ByteArray_size data = 0 then (ws, p1)
       else if \<not> ws_handshakeComplete ws then processHandshakeBytes n (ba_bytes data) (ws, p1)
       else processFrameBytes n (ba_bytes data) (ws, p1))"

definition handleTcpConnected :: "addr \<Rightarrow> 't ws \<Rightarrow> 't ws" where
  "handleTcpConnected n = (\<lambda>(ws, p).
     if \<not> ws_hasSocket ws \<or> \<not> ws_clientMode ws then (ws, p)
     else (ws, snd (TcpSocket_write n
            (ByteArray_new (toBytes (buildClientHandshakeRequest (ws_host ws) (ws_port ws) (ws_path ws) (ws_clientKey ws)))) p)))"

definition handleTcpDisconnected :: "'t ws \<Rightarrow> 't ws" where
  "handleTcpDisconnected = (\<lambda>(ws, p).
     if ws_state ws = WsConnecting \<and> \<not> ws_handshakeComplete ws
     then (ws_emit (WsErrorOccurred ''WebSocket connection closed before the handshake completed'') (setState WsError ws), p)
     else let wasActive = ws_state ws = WsConnecting \<or> ws_state ws = WsOpen \<or> ws_state ws = WsClosing;
              ws1 = setState WsClosed ws
          in (if wasActive then ws_emit WsDisconnected ws1 else ws1, p))"

definition handleTcpError :: "addr \<Rightarrow> string \<Rightarrow> 't ws \<Rightarrow> 't ws" where
  "handleTcpError = ws_fail"

text \<open>The slots attached to the socket.\<close>

definition handle_tcp_signal :: "addr \<Rightarrow> tcp_signal \<Rightarrow> 't ws \<Rightarrow> 't ws" where
  "handle_tcp_signal n x s =
     (case x of SigConnected \<Rightarrow> handleTcpConnected n s | SigReadyRead \<Rightarrow> handleTcpReadyRead n s
      | SigDisconnected \<Rightarrow> handleTcpDisconnected s | SigErrorOccurred msg \<Rightarrow> handleTcpError n msg s | SigBytesWritten k \<Rightarrow> s)"

definition beginServerConnection :: "addr \<Rightarrow> 't ws \<Rightarrow> 't ws" where
  "beginServerConnection n = (\<lambda>(ws, p).
     if \<not> ws_hasSocket ws then ws_fail n ''WebSocket server connection has no TCP socket'' (ws, p)
     else (setState WsOpen (ws\<lparr>ws_clientMode := False, ws_handshakeComplete := True, ws_closeFrameSent := False,
             ws_frameParser := WebSocketFrameParser_reset (ws_frameParser ws)\<rparr>), p))"

text \<open>\<open>connectToHost\<close>: a new TCP socket with the address \<open>m\<close> takes the place of the one with the address \<open>n\<close>, which is
  destroyed; \<open>bytes\<close> are the random bytes of the client key.\<close>

definition new_tcp_socket :: "(byte, 't) tcp_env \<Rightarrow> (byte, 't) tcp" where
  "new_tcp_socket w = (TcpSocket_init False,
     w\<lparr>te_posted := [], te_sends := [], te_recvs := [], te_sent := [], te_received := [], te_baseSignals := []\<rparr>)"

definition isWildcardConnectAddress :: "string \<Rightarrow> bool" where
  "isWildcardConnectAddress address \<longleftrightarrow> address = ''0.0.0.0'' \<or> address = ''::''"

definition ws_connectToHost :: "addr \<Rightarrow> addr \<Rightarrow> string \<Rightarrow> 16 word \<Rightarrow> string \<Rightarrow> byte list \<Rightarrow> string + attempt list \<Rightarrow> 't ws \<Rightarrow> 't ws" where
  "ws_connectToHost n m host port path bytes resolved s =
     (let s1 = ws_close n s
      in if isWildcardConnectAddress host
         then ws_fail n (''WebSocket client cannot connect to wildcard address '' @ [CHR 0x27] @ host @ [CHR 0x27]
                @ ''. Use a concrete peer address such as 127.0.0.1.'') s1
         else let ws = fst s1; p = (if ws_hasSocket ws then TcpSocket_destroy n (snd s1) else snd s1)
              in (setState WsConnecting (ws\<lparr>ws_hasSocket := True, ws_clientMode := True, ws_handshakeComplete := False,
                    ws_closeFrameSent := False, ws_handshakeBuffer := [], ws_clientKey := createClientKey bytes, ws_host := host,
                    ws_port := port, ws_path := (if path = [] then ''/'' else path),
                    ws_frameParser := WebSocketFrameParser_reset (ws_frameParser ws), ws_fragmentPayload := [],
                    ws_fragmentOpcode := Continuation, ws_framesSent := []\<rparr>),
                  TcpSocket_connectToHost m host resolved (new_tcp_socket (snd p))))"

definition ws_destroy :: "addr \<Rightarrow> 't ws \<Rightarrow> 't ws" where
  "ws_destroy n s = close_socket n s"


section \<open>What a frame does\<close>

text \<open>The effect of a frame on the web socket does not depend on the state of the TCP socket.\<close>

lemma sendFrame_ws:
  "fst (snd (sendFrame n op payload req (ws, p))) =
     (if \<not> ws_hasSocket ws \<or> req \<and> ws_state ws \<noteq> WsOpen then ws
      else ws\<lparr>ws_framesSent := ws_framesSent ws @ [(op, payload)], ws_masksDrawn := ws_masksDrawn ws + 1\<rparr>)"
  by (simp add: sendFrame_def Let_def split: prod.split)

lemma ws_fail_ws: "fst (ws_fail n msg (ws, p)) = ws_emit (WsErrorOccurred msg) (setState WsError ws)"
  by (simp add: ws_fail_def close_socket_def)

lemma close_ws: "fst (close_socket n s) = fst s" "fst (mark_closing s) = setState WsClosing ((fst s)\<lparr>ws_closeFrameSent := True\<rparr>)"
  by (cases s; simp add: close_socket_def mark_closing_def)+

definition data_effect :: "WebSocketFrame \<Rightarrow> WebSocketImplNative \<Rightarrow> WebSocketImplNative" where
  "data_effect frame ws =
     (if wf_fin frame
      then ws_emit (if wf_opcode frame = Text then WsTextMessage (toString (wf_payload frame)) else WsBinaryMessage (wf_payload frame)) ws
      else ws\<lparr>ws_fragmentOpcode := wf_opcode frame, ws_fragmentPayload := wf_payload frame\<rparr>)"

definition continuation_effect :: "WebSocketFrame \<Rightarrow> WebSocketImplNative \<Rightarrow> WebSocketImplNative" where
  "continuation_effect frame ws =
     (let payload = ws_fragmentPayload ws @ wf_payload frame
      in if wf_fin frame
         then ws_emit (if ws_fragmentOpcode ws = Text then WsTextMessage (toString payload) else WsBinaryMessage payload)
                (ws\<lparr>ws_fragmentPayload := [], ws_fragmentOpcode := Continuation\<rparr>)
         else ws\<lparr>ws_fragmentPayload := payload\<rparr>)"

definition record_frame :: "OpCode \<Rightarrow> byte list \<Rightarrow> WebSocketImplNative \<Rightarrow> WebSocketImplNative" where
  "record_frame op payload ws = ws\<lparr>ws_framesSent := ws_framesSent ws @ [(op, payload)], ws_masksDrawn := ws_masksDrawn ws + 1\<rparr>"

definition frame_effect :: "WebSocketFrame \<Rightarrow> WebSocketImplNative \<Rightarrow> WebSocketImplNative" where
  "frame_effect frame ws =
     (let refuse = (\<lambda>msg. ws_emit (WsErrorOccurred msg) (setState WsError ws))
      in if \<not> ws_clientMode ws \<and> \<not> wf_masked frame then refuse ''WebSocket client frames must be masked''
         else if ws_clientMode ws \<and> wf_masked frame then refuse ''WebSocket server frames must not be masked''
         else case wf_opcode frame of
           Text \<Rightarrow> data_effect frame ws
         | Binary \<Rightarrow> data_effect frame ws
         | Continuation \<Rightarrow> if ws_fragmentOpcode ws = Continuation then refuse ''Unexpected WebSocket continuation frame''
                           else continuation_effect frame ws
         | Ping \<Rightarrow> if ws_hasSocket ws \<and> ws_state ws = WsOpen then record_frame Pong (wf_payload frame) ws else ws
         | Pong \<Rightarrow> ws_emit (WsPong (wf_payload frame)) ws
         | Close \<Rightarrow> setState WsClosing ((if ws_closeFrameSent ws \<or> \<not> ws_hasSocket ws then ws
                                         else record_frame Close (wf_payload frame) ws)\<lparr>ws_closeFrameSent := True\<rparr>))"

lemma frame_effect: "fst (processFrame n frame (ws, p)) = frame_effect frame ws"
  by (cases "wf_opcode frame")
    (simp_all add: frame_effect_def processFrame_def sendFrame_ws ws_fail_ws close_ws data_effect_def continuation_effect_def
      record_frame_def Let_def)

lemma frame_effect_parser:
  "frame_effect frame (ws\<lparr>ws_frameParser := q\<rparr>) = (frame_effect frame ws)\<lparr>ws_frameParser := q\<rparr>"
  by (cases "wf_opcode frame")
    (simp_all add: frame_effect_def data_effect_def continuation_effect_def record_frame_def ws_emit_def setState_def Let_def)

text \<open>A sequence of frames, none of which ends the connection.\<close>

fun all_go_on :: "WebSocketFrame list \<Rightarrow> WebSocketImplNative \<Rightarrow> bool" where
  "all_go_on [] ws = True"
| "all_go_on (f # fs) ws = (\<not> is_over (frame_effect f ws) \<and> all_go_on fs (frame_effect f ws))"

lemma all_go_on_append: "all_go_on (fs @ gs) ws \<longleftrightarrow> all_go_on fs ws \<and> all_go_on gs (fold frame_effect fs ws)"
  by (induction fs arbitrary: ws) auto

lemma fold_effect_parser:
  "fold frame_effect fs (ws\<lparr>ws_frameParser := q\<rparr>) = (fold frame_effect fs ws)\<lparr>ws_frameParser := q\<rparr>"
  by (induction fs arbitrary: ws) (simp_all add: frame_effect_parser)

lemma is_over_parser [simp]: "is_over (ws\<lparr>ws_frameParser := q\<rparr>) = is_over ws"
  by (simp add: is_over_def)

lemma go_on_parser: "all_go_on fs (ws\<lparr>ws_frameParser := q\<rparr>) = all_go_on fs ws"
  by (induction fs arbitrary: ws) (simp_all add: frame_effect_parser)

lemma process_frames_effect:
  assumes "all_go_on (wp_frames (ws_frameParser ws)) ws"
  shows "fst (process_frames n (ws, p)) =
    (fold frame_effect (wp_frames (ws_frameParser ws)) ws)\<lparr>ws_frameParser := (ws_frameParser ws)\<lparr>wp_frames := []\<rparr>\<rparr>"
  using assms
proof (induction "wp_frames (ws_frameParser ws)" arbitrary: ws p)
  case Nil
  then show ?case by (subst process_frames.simps) (simp add: WebSocketFrameParser_hasFrame_def)
next
  case (Cons f fs)
  let ?q = "(ws_frameParser ws)\<lparr>wp_frames := fs\<rparr>"
  obtain ws1 p1 where s1: "processFrame n f (ws\<lparr>ws_frameParser := ?q\<rparr>, p) = (ws1, p1)" by (rule prod.exhaust)
  then have ws1: "ws1 = (frame_effect f ws)\<lparr>ws_frameParser := ?q\<rparr>"
    using frame_effect [of n f "ws\<lparr>ws_frameParser := ?q\<rparr>" p] by (simp add: frame_effect_parser)
  have go: "\<not> is_over (frame_effect f ws)" "all_go_on fs (frame_effect f ws)"
    using Cons.prems unfolding Cons.hyps(2) [symmetric] by simp_all
  have "process_frames n (ws, p) = process_frames n (ws1, p1)"
    using go(1) s1 ws1 Cons.hyps(2) [symmetric]
    by (subst process_frames.simps) (simp add: WebSocketFrameParser_hasFrame_def WebSocketFrameParser_nextFrame_def Let_def)
  moreover have "fst (process_frames n (ws1, p1)) =
      (fold frame_effect fs ws1)\<lparr>ws_frameParser := (ws_frameParser ws1)\<lparr>wp_frames := []\<rparr>\<rparr>"
    using Cons.hyps(1) [of ws1 p1] go(2) by (simp add: ws1 go_on_parser)
  ultimately show ?case unfolding Cons.hyps(2) [symmetric] by (simp add: ws1 fold_effect_parser)
qed

text \<open>Feeding does not depend on frames handed out before.\<close>

lemma parse_all_queue: "parse_all (p\<lparr>wp_frames := gs @ wp_frames p\<rparr>) = (parse_all p)\<lparr>wp_frames := gs @ wp_frames (parse_all p)\<rparr>"
proof (induction "length (wp_buffer p)" arbitrary: p rule: less_induct)
  case less
  let ?p = "p\<lparr>wp_frames := gs @ wp_frames p\<rparr>"
  show ?case
  proof (cases "wp_error p = []")
    case False
    then show ?thesis by (simp add: parse_all_error)
  next
    case True
    show ?thesis
    proof (cases "parse_frame (wp_buffer p)")
      case NeedMore
      then show ?thesis by (simp add: parse_all_NeedMore)
    next
      case (Bad msg)
      then show ?thesis using True by (simp add: parse_all_Bad)
    next
      case (Got f k)
      let ?q = "p\<lparr>wp_buffer := drop k (wp_buffer p), wp_frames := wp_frames p @ [f]\<rparr>"
      have "length (wp_buffer ?q) < length (wp_buffer p)" using parse_frame_consumes [OF Got] by simp arith
      from less [OF this] show ?thesis using True Got by (simp add: parse_all_Got)
    qed
  qed
qed

lemma feed_queue:
  "WebSocketFrameParser_feed x (p\<lparr>wp_frames := gs @ wp_frames p\<rparr>) =
     (WebSocketFrameParser_feed x p)\<lparr>wp_frames := gs @ wp_frames (WebSocketFrameParser_feed x p)\<rparr>"
proof (cases "wp_error p \<noteq> [] \<or> x = []")
  case True
  then show ?thesis by (auto simp: WebSocketFrameParser_feed_def WebSocketFrameParser_hasError_def)
next
  case False
  let ?q = "p\<lparr>wp_buffer := wp_buffer p @ x\<rparr>"
  have "WebSocketFrameParser_feed x (p\<lparr>wp_frames := gs @ wp_frames p\<rparr>) = parse_all (p\<lparr>wp_frames := gs @ wp_frames p, wp_buffer := wp_buffer p @ x\<rparr>)"
    using False by (simp add: WebSocketFrameParser_feed_def WebSocketFrameParser_hasError_def)
  also have "\<dots> = parse_all (?q\<lparr>wp_frames := gs @ wp_frames ?q\<rparr>)"
    by (rule arg_cong [where f = parse_all]) (cases p, simp)
  also have "\<dots> = (parse_all ?q)\<lparr>wp_frames := gs @ wp_frames (parse_all ?q)\<rparr>" by (rule parse_all_queue)
  also have "parse_all ?q = WebSocketFrameParser_feed x p"
    using False by (simp add: WebSocketFrameParser_feed_def WebSocketFrameParser_hasError_def)
  finally show ?thesis .
qed

lemma feed_drained:
  "WebSocketFrameParser_feed x p = (WebSocketFrameParser_feed x (p\<lparr>wp_frames := []\<rparr>))
     \<lparr>wp_frames := wp_frames p @ wp_frames (WebSocketFrameParser_feed x (p\<lparr>wp_frames := []\<rparr>))\<rparr>"
proof -
  have "(p\<lparr>wp_frames := []\<rparr>)\<lparr>wp_frames := wp_frames p @ wp_frames (p\<lparr>wp_frames := []\<rparr>)\<rparr> = p" by simp
  then show ?thesis using feed_queue [where p = "p\<lparr>wp_frames := []\<rparr>" and gs = "wp_frames p" and x = x] by metis
qed

text \<open>The bytes arrive in pieces, with the TCP socket in any state each time.\<close>

definition take_pieces :: "addr \<Rightarrow> (byte list \<times> (byte, 't) tcp) list \<Rightarrow> WebSocketImplNative \<Rightarrow> WebSocketImplNative" where
  "take_pieces n pieces ws = fold (\<lambda>(data, p) ws. fst (processFrameBytes n data (ws, p))) pieces ws"

lemma take_pieces_effect:
  assumes "ws_frameParser ws = WebSocketFrameParser_init"
    "wp_error (fold WebSocketFrameParser_feed (map fst pieces) WebSocketFrameParser_init) = []"
    "all_go_on (wp_frames (fold WebSocketFrameParser_feed (map fst pieces) WebSocketFrameParser_init)) ws"
  shows "take_pieces n pieces ws =
    (fold frame_effect (wp_frames (fold WebSocketFrameParser_feed (map fst pieces) WebSocketFrameParser_init)) ws)
      \<lparr>ws_frameParser := (fold WebSocketFrameParser_feed (map fst pieces) WebSocketFrameParser_init)\<lparr>wp_frames := []\<rparr>\<rparr>"
  using assms(2,3)
proof (induction pieces rule: rev_induct)
  case Nil
  then show ?case using assms(1) by (cases ws) (simp add: take_pieces_def WebSocketFrameParser_init_def)
next
  case (snoc piece pieces)
  obtain x p where piece: "piece = (x, p)" by (rule prod.exhaust)
  let ?P = "fold WebSocketFrameParser_feed (map fst pieces) WebSocketFrameParser_init"
  define Q where "Q = WebSocketFrameParser_feed x (?P\<lparr>wp_frames := []\<rparr>)"
  have P1: "fold WebSocketFrameParser_feed (map fst (pieces @ [piece])) WebSocketFrameParser_init = Q\<lparr>wp_frames := wp_frames ?P @ wp_frames Q\<rparr>"
    using feed_drained [of x ?P] by (simp add: piece Q_def)
  have errQ: "wp_error Q = []" using snoc.prems(1) unfolding P1 by simp
  have err: "wp_error ?P = []"
  proof (rule ccontr)
    assume "wp_error ?P \<noteq> []"
    then have "wp_error Q = wp_error ?P" by (simp add: Q_def WebSocketFrameParser_feed_def WebSocketFrameParser_hasError_def)
    with errQ \<open>wp_error ?P \<noteq> []\<close> show False by simp
  qed
  have go: "all_go_on (wp_frames ?P) ws" "all_go_on (wp_frames Q) (fold frame_effect (wp_frames ?P) ws)"
    using snoc.prems(2) unfolding P1 by (simp_all add: all_go_on_append)
  define ws1 where "ws1 = fold frame_effect (wp_frames ?P) ws"
  have before: "take_pieces n pieces ws = ws1\<lparr>ws_frameParser := ?P\<lparr>wp_frames := []\<rparr>\<rparr>"
    using snoc.IH [OF err go(1)] by (simp add: ws1_def)
  have "take_pieces n (pieces @ [piece]) ws = fst (process_frames n (ws1\<lparr>ws_frameParser := Q\<rparr>, p))"
    using errQ before by (simp add: take_pieces_def piece processFrameBytes_def Let_def Q_def WebSocketFrameParser_hasError_def)
  also have "\<dots> = (fold frame_effect (wp_frames Q) ws1)\<lparr>ws_frameParser := Q\<lparr>wp_frames := []\<rparr>\<rparr>"
    using process_frames_effect [of "ws1\<lparr>ws_frameParser := Q\<rparr>" n p] go(2) by (simp add: ws1_def go_on_parser fold_effect_parser)
  finally show ?case unfolding P1 by (simp add: ws1_def)
qed


section \<open>Messages\<close>

text \<open>What a peer may send: a message, whole or in fragments with control frames between them, or a ping or pong.
  \<open>m\<close> tells whether its frames are masked.\<close>

datatype ws_item = Message OpCode "(byte list \<times> WebSocketFrame list) list" "byte list" | Control WebSocketFrame

fun more_frames :: "bool \<Rightarrow> (byte list \<times> WebSocketFrame list) list \<Rightarrow> byte list \<Rightarrow> WebSocketFrame list" where
  "more_frames m [] lst = [\<lparr>wf_fin = True, wf_opcode = Continuation, wf_masked = m, wf_payload = lst\<rparr>]"
| "more_frames m ((part, cs) # parts) lst =
     \<lparr>wf_fin = False, wf_opcode = Continuation, wf_masked = m, wf_payload = part\<rparr> # cs @ more_frames m parts lst"

fun item_frames :: "bool \<Rightarrow> ws_item \<Rightarrow> WebSocketFrame list" where
  "item_frames m (Message op [] lst) = [\<lparr>wf_fin = True, wf_opcode = op, wf_masked = m, wf_payload = lst\<rparr>]"
| "item_frames m (Message op ((part, cs) # parts) lst) =
     \<lparr>wf_fin = False, wf_opcode = op, wf_masked = m, wf_payload = part\<rparr> # cs @ more_frames m parts lst"
| "item_frames m (Control c) = [c]"

definition control_ok :: "bool \<Rightarrow> WebSocketFrame \<Rightarrow> bool" where
  "control_ok m c \<longleftrightarrow> (wf_opcode c = Ping \<or> wf_opcode c = Pong) \<and> wf_masked c = m"

fun item_ok :: "bool \<Rightarrow> ws_item \<Rightarrow> bool" where
  "item_ok m (Message op parts lst) = ((op = Text \<or> op = Binary) \<and> (\<forall>(part, cs) \<in> set parts. \<forall>c \<in> set cs. control_ok m c))"
| "item_ok m (Control c) = control_ok m c"

definition pongs :: "WebSocketFrame list \<Rightarrow> ws_signal list" where
  "pongs cs = map (\<lambda>c. WsPong (wf_payload c)) (filter (\<lambda>c. wf_opcode c = Pong) cs)"

definition message_signal :: "OpCode \<Rightarrow> byte list \<Rightarrow> ws_signal" where
  "message_signal op payload = (if op = Text then WsTextMessage (toString payload) else WsBinaryMessage payload)"

fun item_signals :: "ws_item \<Rightarrow> ws_signal list" where
  "item_signals (Message op parts lst) = pongs (concat (map snd parts)) @ [message_signal op (concat (map fst parts) @ lst)]"
| "item_signals (Control c) = pongs [c]"

definition open_in :: "bool \<Rightarrow> OpCode \<Rightarrow> byte list \<Rightarrow> WebSocketImplNative \<Rightarrow> bool" where
  "open_in m op payload ws \<longleftrightarrow> ws_state ws = WsOpen \<and> ws_hasSocket ws \<and> ws_clientMode ws = (\<not> m)
     \<and> ws_fragmentOpcode ws = op \<and> ws_fragmentPayload ws = payload"

lemma open_goes_on: "open_in m op payload ws \<Longrightarrow> \<not> is_over ws"
  by (simp add: open_in_def is_over_def)

lemma pongs_append [simp]: "pongs (cs @ ds) = pongs cs @ pongs ds"
  by (simp add: pongs_def)

lemma control_effect:
  assumes "control_ok m c" "open_in m op payload ws"
  shows "open_in m op payload (frame_effect c ws) \<and> ws_emitted (frame_effect c ws) = ws_emitted ws @ pongs [c]"
  using assms by (auto simp: control_ok_def open_in_def frame_effect_def record_frame_def ws_emit_def pongs_def Let_def)

lemma controls_effect:
  assumes "\<forall>c \<in> set cs. control_ok m c" "open_in m op payload ws"
  shows "all_go_on cs ws \<and> open_in m op payload (fold frame_effect cs ws)
    \<and> ws_emitted (fold frame_effect cs ws) = ws_emitted ws @ pongs cs"
  using assms
proof (induction cs arbitrary: ws)
  case Nil
  then show ?case by (simp add: pongs_def)
next
  case (Cons c cs)
  have c: "open_in m op payload (frame_effect c ws)" "ws_emitted (frame_effect c ws) = ws_emitted ws @ pongs [c]"
    using control_effect [of m c] Cons.prems by simp_all
  then show ?case using Cons.IH [OF _ c(1)] Cons.prems open_goes_on [OF c(1)] pongs_append [of "[c]" cs] by simp
qed

lemma fragment_effect:
  assumes "open_in m op payload ws" "op = Text \<or> op = Binary"
  shows "open_in m op (payload @ part) (frame_effect \<lparr>wf_fin = False, wf_opcode = Continuation, wf_masked = m, wf_payload = part\<rparr> ws)"
    "ws_emitted (frame_effect \<lparr>wf_fin = False, wf_opcode = Continuation, wf_masked = m, wf_payload = part\<rparr> ws) = ws_emitted ws"
    "open_in m Continuation [] (frame_effect \<lparr>wf_fin = True, wf_opcode = Continuation, wf_masked = m, wf_payload = part\<rparr> ws)"
    "ws_emitted (frame_effect \<lparr>wf_fin = True, wf_opcode = Continuation, wf_masked = m, wf_payload = part\<rparr> ws)
       = ws_emitted ws @ [message_signal op (payload @ part)]"
  using assms by (auto simp: open_in_def frame_effect_def continuation_effect_def ws_emit_def message_signal_def Let_def)

lemma more_frames_effect:
  assumes "open_in m op payload ws" "op = Text \<or> op = Binary" "\<forall>(part, cs) \<in> set parts. \<forall>c \<in> set cs. control_ok m c"
  shows "all_go_on (more_frames m parts lst) ws \<and> open_in m Continuation [] (fold frame_effect (more_frames m parts lst) ws)
    \<and> ws_emitted (fold frame_effect (more_frames m parts lst) ws)
      = ws_emitted ws @ pongs (concat (map snd parts)) @ [message_signal op (payload @ concat (map fst parts) @ lst)]"
  using assms(1,3)
proof (induction parts arbitrary: ws payload)
  case Nil
  then show ?case using fragment_effect(3,4) [OF Nil(1) assms(2), of lst] open_goes_on by (simp add: pongs_def)
next
  case (Cons x parts)
  obtain part cs where x: "x = (part, cs)" by (rule prod.exhaust)
  let ?ws1 = "frame_effect \<lparr>wf_fin = False, wf_opcode = Continuation, wf_masked = m, wf_payload = part\<rparr> ws"
  note f = fragment_effect(1,2) [OF Cons.prems(1) assms(2), of part]
  have c: "all_go_on cs ?ws1" "open_in m op (payload @ part) (fold frame_effect cs ?ws1)"
      "ws_emitted (fold frame_effect cs ?ws1) = ws_emitted ?ws1 @ pongs cs"
    using controls_effect [OF _ f(1), of cs] Cons.prems(2) by (simp_all add: x)
  show ?case using Cons.IH [OF c(2)] Cons.prems(2) c(1,3) f(2) open_goes_on [OF f(1)] by (simp add: x all_go_on_append)
qed

lemma first_effect:
  assumes "open_in m Continuation payload ws" "op = Text \<or> op = Binary"
  shows "open_in m op part (frame_effect \<lparr>wf_fin = False, wf_opcode = op, wf_masked = m, wf_payload = part\<rparr> ws)"
    "ws_emitted (frame_effect \<lparr>wf_fin = False, wf_opcode = op, wf_masked = m, wf_payload = part\<rparr> ws) = ws_emitted ws"
    "open_in m Continuation payload (frame_effect \<lparr>wf_fin = True, wf_opcode = op, wf_masked = m, wf_payload = part\<rparr> ws)"
    "ws_emitted (frame_effect \<lparr>wf_fin = True, wf_opcode = op, wf_masked = m, wf_payload = part\<rparr> ws)
       = ws_emitted ws @ [message_signal op part]"
  using assms by (auto simp: open_in_def frame_effect_def data_effect_def ws_emit_def message_signal_def Let_def)

lemma item_effect:
  assumes "open_in m Continuation payload ws" "item_ok m i"
  shows "all_go_on (item_frames m i) ws \<and> (\<exists>payload'. open_in m Continuation payload' (fold frame_effect (item_frames m i) ws))
    \<and> ws_emitted (fold frame_effect (item_frames m i) ws) = ws_emitted ws @ item_signals i"
proof (cases i)
  case (Control c)
  then show ?thesis using control_effect [OF _ assms(1), of c] assms(2) open_goes_on by fastforce
next
  case (Message op parts lst)
  then have op: "op = Text \<or> op = Binary" using assms(2) by simp
  show ?thesis
  proof (cases parts)
    case Nil
    then show ?thesis using first_effect(3,4) [OF assms(1) op, of lst] open_goes_on Message by (auto simp: pongs_def)
  next
    case (Cons x rest)
    obtain part cs where x: "x = (part, cs)" by (rule prod.exhaust)
    let ?ws1 = "frame_effect \<lparr>wf_fin = False, wf_opcode = op, wf_masked = m, wf_payload = part\<rparr> ws"
    note f = first_effect(1,2) [OF assms(1) op, of part]
    have c: "all_go_on cs ?ws1" "open_in m op part (fold frame_effect cs ?ws1)"
        "ws_emitted (fold frame_effect cs ?ws1) = ws_emitted ?ws1 @ pongs cs"
      using controls_effect [OF _ f(1), of cs] assms(2) Message Cons by (simp_all add: x)
    show ?thesis using more_frames_effect [OF c(2) op, of rest lst] assms(2) Message Cons c(1,3) f(2) open_goes_on [OF f(1)]
      by (auto simp: x all_go_on_append)
  qed
qed

lemma items_effect:
  assumes "open_in m Continuation payload ws" "\<forall>i \<in> set items. item_ok m i"
  shows "all_go_on (concat (map (item_frames m) items)) ws
    \<and> (\<exists>payload'. open_in m Continuation payload' (fold frame_effect (concat (map (item_frames m) items)) ws))
    \<and> ws_emitted (fold frame_effect (concat (map (item_frames m) items)) ws) = ws_emitted ws @ concat (map item_signals items)"
  using assms
proof (induction items arbitrary: ws payload)
  case Nil
  then show ?case by auto
next
  case (Cons i items)
  obtain payload' where i: "all_go_on (item_frames m i) ws" "open_in m Continuation payload' (fold frame_effect (item_frames m i) ws)"
      "ws_emitted (fold frame_effect (item_frames m i) ws) = ws_emitted ws @ item_signals i"
    using item_effect [OF Cons.prems(1)] Cons.prems(2) by fastforce
  then show ?case using Cons.IH [OF i(2)] Cons.prems(2) by (auto simp: all_go_on_append)
qed


section \<open>The closing handshake\<close>

text \<open>At most one close frame is sent on a connection, and nothing after it.\<close>

definition closes_last :: "WebSocketImplNative \<Rightarrow> bool" where
  "closes_last ws \<longleftrightarrow>
     (if ws_closeFrameSent ws
      then ws_state ws \<noteq> WsOpen \<and> ws_handshakeComplete ws
           \<and> (\<exists>frames payload. ws_framesSent ws = frames @ [(Close, payload)] \<and> Close \<notin> fst ` set frames)
      else Close \<notin> fst ` set (ws_framesSent ws))
     \<and> (ws_state ws = WsOpen \<longrightarrow> ws_hasSocket ws \<and> ws_handshakeComplete ws)
     \<and> (ws_handshakeComplete ws \<longrightarrow> ws_hasSocket ws)"

lemma closes_last_cong:
  assumes "closes_last ws" "ws_closeFrameSent v = ws_closeFrameSent ws" "ws_framesSent v = ws_framesSent ws"
    "ws_hasSocket v = ws_hasSocket ws" "ws_handshakeComplete v = ws_handshakeComplete ws" "ws_state v = ws_state ws \<or> ws_state v \<noteq> WsOpen"
  shows "closes_last v"
  using assms unfolding closes_last_def by (cases "ws_closeFrameSent ws") auto

lemma closes_last_over:
  assumes "closes_last ws"
  shows "st \<noteq> WsOpen \<Longrightarrow> closes_last (setState st ws)" "closes_last (ws_emit x ws)" "closes_last (ws\<lparr>ws_frameParser := q\<rparr>)"
    "closes_last (ws\<lparr>ws_handshakeBuffer := b\<rparr>)"
  by (rule closes_last_cong [OF assms]; simp add: setState_def ws_emit_def)+

lemma closes_last_fail: "closes_last (fst s) \<Longrightarrow> closes_last (fst (ws_fail n msg s))"
  by (cases s) (simp add: ws_fail_ws closes_last_over)

lemma closes_last_record:
  assumes "closes_last ws" "\<not> ws_closeFrameSent ws" "op \<noteq> Close"
  shows "closes_last (record_frame op payload ws)"
  using assms by (simp add: closes_last_def record_frame_def)

lemma closes_last_open: "closes_last ws \<Longrightarrow> ws_state ws = WsOpen \<Longrightarrow> \<not> ws_closeFrameSent ws"
  by (auto simp: closes_last_def)

lemma closes_last_send:
  assumes "closes_last ws" "op \<noteq> Close"
  shows "closes_last (fst (snd (sendFrame n op payload True (ws, p))))"
  using assms closes_last_record [of ws op payload] closes_last_open by (simp add: sendFrame_ws record_frame_def)

lemma closes_last_closing:
  assumes "closes_last ws" "ws_hasSocket ws" "ws_handshakeComplete ws"
  shows "closes_last (setState WsClosing ((if ws_closeFrameSent ws then ws else record_frame Close payload ws)\<lparr>ws_closeFrameSent := True\<rparr>))"
  using assms by (cases "ws_closeFrameSent ws") (auto simp: closes_last_def setState_def record_frame_def)

lemma closes_last_frame:
  assumes "closes_last ws" "ws_hasSocket ws" "ws_handshakeComplete ws"
  shows "closes_last (frame_effect f ws)"
proof -
  have refuse: "closes_last (ws_emit (WsErrorOccurred msg) (setState WsError ws))" for msg
    using assms(1) by (simp add: closes_last_over)
  have data: "closes_last (data_effect f ws)" "closes_last (continuation_effect f ws)"
    by (rule closes_last_cong [OF assms(1)]; simp add: data_effect_def continuation_effect_def ws_emit_def Let_def)+
  have "closes_last (record_frame Pong (wf_payload f) ws)" if "ws_state ws = WsOpen"
    using closes_last_record [OF assms(1) closes_last_open [OF assms(1) that]] by simp
  then show ?thesis using refuse data closes_last_closing [OF assms] assms(1,2)
    by (cases "wf_opcode f") (simp_all add: frame_effect_def closes_last_over Let_def)
qed

lemma frame_keeps_socket [simp]:
  "ws_hasSocket (frame_effect f ws) = ws_hasSocket ws" "ws_handshakeComplete (frame_effect f ws) = ws_handshakeComplete ws"
  by (cases "wf_opcode f"; simp add: frame_effect_def record_frame_def setState_def ws_emit_def data_effect_def
      continuation_effect_def Let_def)+

lemma closes_last_frames:
  assumes "closes_last ws" "ws_hasSocket ws" "ws_handshakeComplete ws"
  shows "closes_last (fst (process_frames n (ws, p)))"
  using assms
proof (induction n "(ws, p)" arbitrary: ws p rule: process_frames.induct)
  case (1 n ws p)
  show ?case
  proof (cases "WebSocketFrameParser_hasFrame (ws_frameParser ws)")
    case False
    then show ?thesis using 1(2) by (simp add: process_frames.simps)
  next
    case True
    obtain f q where f: "WebSocketFrameParser_nextFrame (ws_frameParser ws) = (f, q)" by (rule prod.exhaust)
    define st where "st = processFrame n f (ws\<lparr>ws_frameParser := q\<rparr>, p)"
    obtain ws1 p1 where s: "st = (ws1, p1)" by (rule prod.exhaust)
    have ws1: "ws1 = frame_effect f (ws\<lparr>ws_frameParser := q\<rparr>)"
      using frame_effect [of n f "ws\<lparr>ws_frameParser := q\<rparr>" p] s by (simp add: st_def)
    have c: "closes_last ws1" using closes_last_frame [of "ws\<lparr>ws_frameParser := q\<rparr>" f] 1(2-4) closes_last_over(3) [OF 1(2)]
      by (simp add: ws1)
    have "process_frames n (ws, p) = (if is_over ws1 then (ws1, p1) else process_frames n (ws1, p1))"
      using True f s by (subst process_frames.simps) (simp add: Let_def st_def)
    moreover have "\<not> is_over ws1 \<Longrightarrow> closes_last (fst (process_frames n (ws1, p1)))"
      using 1(1) [of f q ws1 p1] True f s c 1(3,4) by (simp add: ws1 st_def)
    ultimately show ?thesis using c by simp
  qed
qed

lemma closes_last_bytes:
  assumes "closes_last ws" "ws_hasSocket ws" "ws_handshakeComplete ws"
  shows "closes_last (fst (processFrameBytes n data (ws, p)))"
  using assms by (simp add: processFrameBytes_def closes_last_frames closes_last_fail closes_last_over(3) Let_def)


lemma closes_last_handshake:
  assumes "closes_last ws" "ws_hasSocket ws" "\<not> ws_handshakeComplete ws"
  shows "closes_last (fst (processHandshakeBytes n data (ws, p)))"
proof -
  have "\<not> ws_closeFrameSent ws" using assms(1,3) by (auto simp: closes_last_def)
  then have opened: "closes_last (ws_emit WsConnected (setState WsOpen (ws\<lparr>ws_handshakeBuffer := [], ws_handshakeComplete := True\<rparr>)))"
    using assms by (simp add: closes_last_def ws_emit_def setState_def)
  have "closes_last (fst (processFrameBytes n bs (ws_emit WsConnected (setState WsOpen
      (ws\<lparr>ws_handshakeBuffer := [], ws_handshakeComplete := True\<rparr>)), q)))" for bs and q :: "(byte, 'a) tcp"
    using opened assms(2) by (intro closes_last_bytes) (simp_all add: ws_emit_def setState_def)
  then show ?thesis using opened assms(1)
    by (simp add: processHandshakeBytes_def closes_last_fail closes_last_over(4) Let_def split: option.split sum.split)
qed

lemma closes_last_signal:
  assumes "closes_last ws"
  shows "closes_last (fst (handle_tcp_signal n x (ws, p)))"
proof (cases x)
  case SigReadyRead
  obtain data q where r: "TcpSocket_readAll p = (data, q)" by (rule prod.exhaust)
  show ?thesis
    by (simp add: SigReadyRead handle_tcp_signal_def handleTcpReadyRead_def r assms closes_last_handshake [OF assms]
        closes_last_bytes [OF assms])
qed (use assms in \<open>simp_all add: handle_tcp_signal_def handleTcpConnected_def handleTcpDisconnected_def handleTcpError_def
      closes_last_over closes_last_fail Let_def\<close>)

lemma closes_last_close:
  assumes "closes_last ws"
  shows "closes_last (fst (ws_close n (ws, p)))"
proof (cases "ws_hasSocket ws \<and> ws_state ws = WsOpen \<and> \<not> ws_closeFrameSent ws")
  case True
  then have "ws_handshakeComplete ws" using assms by (auto simp: closes_last_def)
  then show ?thesis using closes_last_closing [OF assms] True
    by (simp add: ws_close_def close_ws sendFrame_ws record_frame_def)
next
  case False
  then show ?thesis using assms by (auto simp: ws_close_def close_ws)
qed

text \<open>The life of a web socket: created for a client or accepted by a server, then used in any way, with the TCP socket
  doing whatever it does in between.\<close>

inductive ws_step :: "addr \<Rightarrow> 't ws \<Rightarrow> 't ws \<Rightarrow> bool" for n where
  text_message: "ws_step n s (snd (sendTextMessage n msg s))"
| binary_message: "ws_step n s (snd (sendBinaryMessage n data s))"
| ping: "ws_step n s (snd (ws_ping n data s))"
| close: "ws_step n s (ws_close n s)"
| signal: "ws_step n s (handle_tcp_signal n x s)"
| tcp: "ws_step n (ws, p) (ws, q)"
| reconnect: "ws_step n s (ws_connectToHost n m host port path bytes resolved s)"

inductive ws_reachable :: "addr \<Rightarrow> 't ws \<Rightarrow> bool" for n where
  client: "ws_reachable n (WebSocketImplNative_init masks, p)"
| server: "ws_reachable n (beginServerConnection n (WebSocketImplNative_accepted masks, p))"
| step: "ws_reachable n s \<Longrightarrow> ws_step n s s' \<Longrightarrow> ws_reachable n s'"

lemma closes_last_step: "ws_step n s s' \<Longrightarrow> closes_last (fst s) \<Longrightarrow> closes_last (fst s')"
proof (induction rule: ws_step.induct)
  case (text_message s msg)
  then show ?case by (cases s) (simp add: sendTextMessage_def closes_last_send)
next
  case (binary_message s data)
  then show ?case by (cases s) (simp add: sendBinaryMessage_def closes_last_send)
next
  case (ping s data)
  then show ?case by (cases s) (simp add: ws_ping_def closes_last_send closes_last_fail)
next
  case (close s)
  then show ?case by (cases s) (simp add: closes_last_close)
next
  case (signal s x)
  then show ?case by (cases s) (simp add: closes_last_signal)
next
  case (tcp ws p q)
  then show ?case by simp
next
  case (reconnect s m host port path bytes resolved)
  then have "closes_last (fst (ws_close n s))" by (cases s) (simp add: closes_last_close)
  then show ?case by (simp add: ws_connectToHost_def closes_last_fail Let_def) (simp add: closes_last_def setState_def)
qed

lemma ws_reachable_closes_last: "ws_reachable n s \<Longrightarrow> closes_last (fst s)"
proof (induction rule: ws_reachable.induct)
  case (client masks p)
  then show ?case by (simp add: closes_last_def WebSocketImplNative_init_def)
next
  case (server masks p)
  then show ?case by (simp add: closes_last_def WebSocketImplNative_init_def WebSocketImplNative_accepted_def beginServerConnection_def setState_def)
next
  case (step s s')
  then show ?case using closes_last_step by blast
qed


section \<open>Properties\<close>

text \<open>C31. Whatever the peer sends and however calls and events interleave: on one connection at most one close frame is
  sent, it is the last frame sent, and once it has been sent the web socket is not open any more; as long as it is
  open it has a socket whose handshake is complete.\<close>

theorem websocket_close_frame_is_last:
  assumes "ws_reachable n (ws, p)"
  shows "if Close \<in> fst ` set (ws_framesSent ws)
     then ws_state ws \<noteq> WsOpen \<and> fst (last (ws_framesSent ws)) = Close \<and> Close \<notin> fst ` set (butlast (ws_framesSent ws))
     else ws_state ws = WsOpen \<longrightarrow> ws_hasSocket ws \<and> ws_handshakeComplete ws"
  using ws_reachable_closes_last [OF assms] by (auto simp: closes_last_def split: if_splits)

text \<open>C30. A stream of messages, whole or in fragments with pings and pongs between them, is delivered message by message,
  each exactly once, in order and with its payload put together, however the bytes are cut and whatever the TCP
  socket does meanwhile; the connection stays open.\<close>

theorem websocket_reassembles_messages:
  assumes "open_in m Continuation payload ws" "ws_frameParser ws = WebSocketFrameParser_init" "\<forall>i \<in> set items. item_ok m i"
    "wp_error (fold WebSocketFrameParser_feed (map fst pieces) WebSocketFrameParser_init) = []"
    "wp_frames (fold WebSocketFrameParser_feed (map fst pieces) WebSocketFrameParser_init) = concat (map (item_frames m) items)"
  shows "ws_emitted (take_pieces n pieces ws) = ws_emitted ws @ concat (map item_signals items)
    \<and> ws_state (take_pieces n pieces ws) = WsOpen"
proof -
  note effect = items_effect [OF assms(1,3)]
  show ?thesis using take_pieces_effect [OF assms(2,4)] effect unfolding assms(5) by (auto simp: open_in_def)
qed

lemma toString_toBytes [simp]: "toString (toBytes text) = text"
proof -
  have "char_of (unat (of_char c :: byte)) = c" for c
  proof -
    have "(of_char c :: byte) = of_nat (of_char c)" by (simp only: of_nat_of_char)
    then have "unat (of_char c :: byte) = of_char c mod 256" by (simp add: unat_of_nat)
    then show ?thesis by simp
  qed
  then show ?thesis by (simp add: toString_def toBytes_def map_idI)
qed

text \<open>C29. What \<open>sendTextMessage\<close> and \<open>sendBinaryMessage\<close> encode on one side, masked or not as its role demands, is what the
  other side delivers: the same messages in the same order, for any cutting of the byte stream into reads.\<close>

theorem websocket_messages_arrive:
  assumes "open_in m Continuation payload ws" "ws_frameParser ws = WebSocketFrameParser_init"
    "\<forall>(op, data, key) \<in> set msgs. encodable (op, data, key) \<and> (op = Text \<or> op = Binary) \<and> (key \<noteq> None) = m"
    "concat (map fst pieces) = concat (map (\<lambda>(op, data, key). encodeFrame op data key) msgs)"
  shows "ws_emitted (take_pieces n pieces ws) = ws_emitted ws @ map (\<lambda>(op, data, key). message_signal op data) msgs
    \<and> ws_state (take_pieces n pieces ws) = WsOpen"
proof -
  let ?P = "fold WebSocketFrameParser_feed (map fst pieces) WebSocketFrameParser_init"
  let ?Q = "\<lparr>wp_buffer = [], wp_frames = map received msgs, wp_error = []\<rparr>"
  let ?items = "map (\<lambda>(op, data, key). Message op [] data) msgs"
  have "sent = (\<lambda>(op, data, key). encodeFrame op data key)" by (auto simp: sent_def fun_eq_iff)
  moreover have "\<forall>f \<in> set msgs. encodable f" using assms(3) by fast
  ultimately have "parse_all (WebSocketFrames.more (concat (map fst pieces)) WebSocketFrameParser_init) = ?Q"
    using parse_all_sent [of msgs "WebSocketFrames.more (concat (map fst pieces)) WebSocketFrameParser_init"] assms(4)
    by (auto simp: WebSocketFrames.more_def WebSocketFrameParser_init_def)
  then have "WebSocketFrames.settled ?P = WebSocketFrames.settled ?Q" using feed_pieces_frames [of "map fst pieces"] by simp
  from settled_eq [OF this] have P: "wp_error ?P = []" "wp_frames ?P = map received msgs" by simp_all
  have frames: "map received msgs = concat (map (item_frames m) ?items)"
    using assms(3) by (induction msgs) (auto simp: received_def)
  have ok: "\<forall>i \<in> set ?items. item_ok m i" using assms(3) by auto
  have signals: "concat (map item_signals ?items) = map (\<lambda>(op, data, key). message_signal op data) msgs"
    by (induction msgs) (auto simp: pongs_def)
  show ?thesis using take_pieces_effect [OF assms(2) P(1)] items_effect [OF assms(1) ok]
    unfolding P(2) frames signals by (auto simp: open_in_def)
qed


text \<open>An accepted connection of a server, and a client's greeting in two pieces.\<close>

definition demo_tcp :: "(byte, unit) tcp" where
  "demo_tcp = (TcpSocket_init False, \<lparr>te_loop = EventLoop_init, te_posted = [], te_sends = [], te_recvs = [], te_sent = [],
     te_received = [], te_baseSignals = [], te_strerror = (\<lambda>_. [])\<rparr>)"

definition demo_ws :: WebSocketImplNative where
  "demo_ws = fst (beginServerConnection 3 (WebSocketImplNative_accepted (\<lambda>_. [1, 2, 3, 4]), demo_tcp))"

lemma demo_ws_open: "open_in True Continuation [] demo_ws" "ws_frameParser demo_ws = WebSocketFrameParser_init" "ws_emitted demo_ws = []"
  by (simp_all add: demo_ws_def open_in_def beginServerConnection_def WebSocketImplNative_accepted_def WebSocketImplNative_init_def
      setState_def WebSocketFrameParser_reset_def WebSocketFrameParser_init_def)

lemma demo_text: "toString [72, 105] = ''Hi''"
  by code_simp

abbreviation demo_greeting :: "byte list" where "demo_greeting \<equiv> encodeFrame Text [72, 105] (Some [9, 8, 7, 6])"

theorem websocket_messages_arrive_witness:
  "ws_emitted (take_pieces 3 [(take 3 demo_greeting, demo_tcp), (drop 3 demo_greeting, demo_tcp)] demo_ws) = [WsTextMessage ''Hi'']"
  using websocket_messages_arrive [OF demo_ws_open(1,2), of "[(Text, [72, 105], Some [9, 8, 7, 6])]"
      "[(take 3 demo_greeting, demo_tcp), (drop 3 demo_greeting, demo_tcp)]" 3]
  by (simp add: demo_ws_open(3) encodable_def isControlOpcode_def message_signal_def demo_text)

definition demo_fragments :: "byte list" where
  "demo_fragments = [0x01, 0x81, 0, 0, 0, 0, 72, 0x8A, 0x80, 0, 0, 0, 0, 0x80, 0x81, 0, 0, 0, 0, 105]"

lemma demo_fragments_parsed:
  "fold WebSocketFrameParser_feed [take 9 demo_fragments, drop 9 demo_fragments] WebSocketFrameParser_init =
     \<lparr>wp_buffer = [], wp_frames = item_frames True (Message Text [([72], [\<lparr>wf_fin = True, wf_opcode = Pong, wf_masked = True, wf_payload = []\<rparr>])] [105]),
       wp_error = []\<rparr>"
  by code_simp

theorem websocket_reassembles_messages_witness:
  "ws_emitted (take_pieces 3 [(take 9 demo_fragments, demo_tcp), (drop 9 demo_fragments, demo_tcp)] demo_ws) = [WsPong [], WsTextMessage ''Hi'']"
  using websocket_reassembles_messages [OF demo_ws_open(1,2),
      of "[Message Text [([72], [\<lparr>wf_fin = True, wf_opcode = Pong, wf_masked = True, wf_payload = []\<rparr>])] [105]]"
        "[(take 9 demo_fragments, demo_tcp), (drop 9 demo_fragments, demo_tcp)]" 3] demo_fragments_parsed
  by (simp add: demo_ws_open(3) control_ok_def pongs_def message_signal_def demo_text)

theorem websocket_close_frame_is_last_witness:
  "ws_framesSent (fst (ws_close 3 (demo_ws, demo_tcp))) = [(Close, [])] \<and> ws_state (fst (ws_close 3 (demo_ws, demo_tcp))) \<noteq> WsOpen"
proof -
  have "ws_reachable 3 (demo_ws, demo_tcp)"
    using ws_reachable.server [of 3 "\<lambda>_. [1, 2, 3, 4]" demo_tcp]
    by (simp add: demo_ws_def beginServerConnection_def WebSocketImplNative_accepted_def)
  from ws_reachable.step [OF this ws_step.close]
  have "ws_reachable 3 (fst (ws_close 3 (demo_ws, demo_tcp)), snd (ws_close 3 (demo_ws, demo_tcp)))" by simp
  note closed = websocket_close_frame_is_last [OF this]
  have "ws_framesSent (fst (ws_close 3 (demo_ws, demo_tcp))) = [(Close, [])]"
    by (simp add: ws_close_def close_ws sendFrame_ws demo_ws_def beginServerConnection_def WebSocketImplNative_accepted_def
        WebSocketImplNative_init_def setState_def)
  then show ?thesis using closed by simp
qed

text \<open>A message that arrives complete is lost when bytes the parser rejects follow it in the same read: the error is looked
  at before the frames parsed so far are handed out. Read separately the message is delivered first.\<close>

theorem message_before_bad_frame_is_lost:
  "ws_emitted (take_pieces n [(demo_greeting @ [0xFF, 0xFF], p)] demo_ws) = [WsErrorOccurred ''Reserved frame bits are not supported'']
   \<and> ws_emitted (take_pieces n [(demo_greeting, p), ([0xFF, 0xFF], p)] demo_ws)
     = [WsTextMessage ''Hi'', WsErrorOccurred ''Reserved frame bits are not supported'']"
proof -
  have parsed: "WebSocketFrameParser_feed (demo_greeting @ [0xFF, 0xFF]) WebSocketFrameParser_init =
      \<lparr>wp_buffer = [0xFF, 0xFF], wp_frames = [\<lparr>wf_fin = True, wf_opcode = Text, wf_masked = True, wf_payload = [72, 105]\<rparr>],
        wp_error = ''Reserved frame bits are not supported''\<rparr>"
    by code_simp
  have rest: "WebSocketFrameParser_feed [0xFF, 0xFF] WebSocketFrameParser_init =
      \<lparr>wp_buffer = [0xFF, 0xFF], wp_frames = [], wp_error = ''Reserved frame bits are not supported''\<rparr>"
    by code_simp
  have greeting: "fold WebSocketFrameParser_feed [demo_greeting] WebSocketFrameParser_init =
      \<lparr>wp_buffer = [], wp_frames = [\<lparr>wf_fin = True, wf_opcode = Text, wf_masked = True, wf_payload = [72, 105]\<rparr>], wp_error = []\<rparr>"
    by code_simp
  have bad: "fst (processFrameBytes n (demo_greeting @ [0xFF, 0xFF]) (demo_ws, p)) =
      ws_emit (WsErrorOccurred ''Reserved frame bits are not supported'') (setState WsError (demo_ws\<lparr>ws_frameParser :=
        WebSocketFrameParser_feed (demo_greeting @ [0xFF, 0xFF]) WebSocketFrameParser_init\<rparr>))"
    by (simp only: processFrameBytes_def split_conv Let_def demo_ws_open(2) parsed ws_fail_ws WebSocketFrameParser_hasError_def
        WebSocketFrameParser.select_convs) (simp add: ws_fail_ws)
  define ws1 where "ws1 = take_pieces n [(demo_greeting, p)] demo_ws"
  have goes_on: "all_go_on [\<lparr>wf_fin = True, wf_opcode = Text, wf_masked = True, wf_payload = [72, 105]\<rparr>] demo_ws"
    using first_effect(3) [OF demo_ws_open(1), of Text "[72, 105]"] open_goes_on by simp
  have "ws1 = (frame_effect \<lparr>wf_fin = True, wf_opcode = Text, wf_masked = True, wf_payload = [72, 105]\<rparr> demo_ws)
      \<lparr>ws_frameParser := WebSocketFrameParser_init\<rparr>"
    using take_pieces_effect [OF demo_ws_open(2), of "[(demo_greeting, p)]" n] greeting goes_on
    by (simp add: ws1_def WebSocketFrameParser_init_def)
  then have ws1: "ws_frameParser ws1 = WebSocketFrameParser_init" "ws_emitted ws1 = [WsTextMessage ''Hi'']"
    using first_effect(4) [OF demo_ws_open(1), of Text "[72, 105]"] by (simp_all add: demo_ws_open(3) message_signal_def demo_text)
  have "take_pieces n [(demo_greeting, p), ([0xFF, 0xFF], p)] demo_ws = fst (processFrameBytes n [0xFF, 0xFF] (ws1, p))"
    by (simp add: ws1_def take_pieces_def)
  also have "\<dots> = ws_emit (WsErrorOccurred ''Reserved frame bits are not supported'')
      (setState WsError (ws1\<lparr>ws_frameParser := WebSocketFrameParser_feed [0xFF, 0xFF] WebSocketFrameParser_init\<rparr>))"
    by (simp only: processFrameBytes_def split_conv Let_def ws1(1) rest ws_fail_ws WebSocketFrameParser_hasError_def
        WebSocketFrameParser.select_convs) (simp add: ws_fail_ws)
  finally show ?thesis using bad ws1(2) by (simp add: take_pieces_def ws_emit_def setState_def demo_ws_open(3))
qed

end
