(* ===== verification/TaskSequences.thy ===== *)
theory TaskSequences
  imports Executors "HOL-Library.Multiset"
begin

text \<open>
  \<open>snf::AsyncTaskSequence\<close> and the contexts its tasks exchange
  (\<open>experimental/src/SNFExperimental/AsyncTask.cpp\<close>, \<open>AsyncTaskSequence.cpp\<close>): a graph of tasks run
  on a thread pool, each task after the tasks it depends on. The theory holds the graph and its
  check, the locked regions of the scheduler, and a step relation in which the calls under way on
  any number of threads interleave. A value (\<open>std::any\<close>) is of a type variable, a task an address;
  what \<open>run\<close> writes and whether it throws, and whether the pool takes a task, are the outside's.
\<close>

section \<open>AsyncTaskContext\<close>

text \<open>
  An unordered map is a sorted association list: \<open>keys\<close> and \<open>dependencyTaskIds\<close> sort what they
  return, and no other operation depends on the order of the iteration.
\<close>

datatype 'v AsyncTaskContext =
  AsyncTaskContext (ctx_values: "(string \<times> 'v) list") (ctx_dependencyOutputs: "(nat \<times> 'v AsyncTaskContext) list")

definition AsyncTaskContext_init :: "'v AsyncTaskContext" where
  "AsyncTaskContext_init = AsyncTaskContext [] []"

definition AsyncTaskContext_setValue :: "string \<Rightarrow> 'v \<Rightarrow> 'v AsyncTaskContext \<Rightarrow> 'v AsyncTaskContext" where
  "AsyncTaskContext_setValue key v c =
     (if key = [] then c else AsyncTaskContext (smap_put key v (ctx_values c)) (ctx_dependencyOutputs c))"

definition AsyncTaskContext_value :: "string \<Rightarrow> 'v AsyncTaskContext \<Rightarrow> 'v option" where
  "AsyncTaskContext_value key c = smap_get (ctx_values c) key"

definition AsyncTaskContext_contains :: "string \<Rightarrow> 'v AsyncTaskContext \<Rightarrow> bool" where
  "AsyncTaskContext_contains key c \<longleftrightarrow> smap_get (ctx_values c) key \<noteq> None"

definition AsyncTaskContext_keys :: "'v AsyncTaskContext \<Rightarrow> string list" where
  "AsyncTaskContext_keys c = sort (map fst (ctx_values c))"

definition AsyncTaskContext_mergeFrom :: "'v AsyncTaskContext \<Rightarrow> 'v AsyncTaskContext \<Rightarrow> 'v AsyncTaskContext" where
  "AsyncTaskContext_mergeFrom other c =
     AsyncTaskContext (fold (\<lambda>(k, v). smap_put k v) (ctx_values other) (ctx_values c)) (ctx_dependencyOutputs c)"

definition AsyncTaskContext_setDependencyOutput ::
  "nat \<Rightarrow> 'v AsyncTaskContext \<Rightarrow> 'v AsyncTaskContext \<Rightarrow> 'v AsyncTaskContext" where
  "AsyncTaskContext_setDependencyOutput taskId output c =
     AsyncTaskContext (ctx_values c) (smap_put taskId output (ctx_dependencyOutputs c))"

definition AsyncTaskContext_dependencyOutput :: "nat \<Rightarrow> 'v AsyncTaskContext \<Rightarrow> 'v AsyncTaskContext option" where
  "AsyncTaskContext_dependencyOutput taskId c = smap_get (ctx_dependencyOutputs c) taskId"

definition AsyncTaskContext_dependencyTaskIds :: "'v AsyncTaskContext \<Rightarrow> nat list" where
  "AsyncTaskContext_dependencyTaskIds c = sort (map fst (ctx_dependencyOutputs c))"

text \<open>
  \<open>AsyncTask::execute\<close>: \<open>run\<close> gives the output written so far and whether it threw; the exception
  is kept in the task, the output is returned in both cases.
\<close>

record AsyncTask =
  at_exception :: bool

definition AsyncTask_execute ::
  "('v AsyncTaskContext \<Rightarrow> 'v AsyncTaskContext \<times> bool) \<Rightarrow> 'v AsyncTaskContext \<Rightarrow> AsyncTask
    \<Rightarrow> 'v AsyncTaskContext \<times> AsyncTask" where
  "AsyncTask_execute run input a =
     (let a0 = a\<lparr>at_exception := False\<rparr>; (output, threw) = run input
      in (output, if threw then a0\<lparr>at_exception := True\<rparr> else a0))"


section \<open>The graph\<close>

record 'v TaskNode =
  tn_task :: addr
  tn_dependents :: "nat list"
  tn_dependencies :: "nat list"
  tn_output :: "'v AsyncTaskContext"
  tn_pendingDependencies :: nat
  tn_scheduled :: bool
  tn_done :: bool

record 'v AsyncTaskSequence =
  sq_tasks :: "'v TaskNode list"
  sq_pool :: addr
  sq_remainingTasks :: nat
  sq_finishedTasks :: nat
  sq_running :: bool
  sq_finished :: bool

definition TaskNode_init :: "addr \<Rightarrow> 'v TaskNode" where
  "TaskNode_init task =
     \<lparr>tn_task = task, tn_dependents = [], tn_dependencies = [], tn_output = AsyncTaskContext_init,
      tn_pendingDependencies = 0, tn_scheduled = False, tn_done = False\<rparr>"

definition AsyncTaskSequence_init :: "'v AsyncTaskSequence" where
  "AsyncTaskSequence_init =
     \<lparr>sq_tasks = [], sq_pool = nullptr, sq_remainingTasks = 0, sq_finishedTasks = 0, sq_running = False, sq_finished = False\<rparr>"

definition invalidTaskId :: nat where
  "invalidTaskId = 2 ^ 64 - 1"

definition isValidTaskId :: "nat \<Rightarrow> 'v AsyncTaskSequence \<Rightarrow> bool" where
  "isValidTaskId i s \<longleftrightarrow> i < length (sq_tasks s)"

definition AsyncTaskSequence_addTask :: "addr \<Rightarrow> 'v AsyncTaskSequence \<Rightarrow> nat \<times> 'v AsyncTaskSequence" where
  "AsyncTaskSequence_addTask task s =
     (if task = nullptr then (invalidTaskId, s)
      else if sq_running s then (invalidTaskId, s)
      else (length (sq_tasks s), s\<lparr>sq_tasks := sq_tasks s @ [TaskNode_init task]\<rparr>))"

definition add_dependent :: "nat \<Rightarrow> 'v TaskNode \<Rightarrow> 'v TaskNode" where
  "add_dependent d t = t\<lparr>tn_dependents := tn_dependents t @ [d]\<rparr>"

definition add_dependency :: "nat \<Rightarrow> 'v TaskNode \<Rightarrow> 'v TaskNode" where
  "add_dependency d t = t\<lparr>tn_dependencies := tn_dependencies t @ [d]\<rparr>"

definition AsyncTaskSequence_addDependency ::
  "nat \<Rightarrow> nat \<Rightarrow> 'v AsyncTaskSequence \<Rightarrow> bool \<times> 'v AsyncTaskSequence" where
  "AsyncTaskSequence_addDependency dependency dependent s =
     (if sq_running s \<or> \<not> isValidTaskId dependency s \<or> \<not> isValidTaskId dependent s \<or> dependency = dependent
      then (False, s)
      else if dependent \<in> set (tn_dependents (sq_tasks s ! dependency)) then (True, s)
      else let ts = (sq_tasks s)[dependency := add_dependent dependent (sq_tasks s ! dependency)]
           in (True, s\<lparr>sq_tasks := ts[dependent := add_dependency dependency (ts ! dependent)]\<rparr>))"

text \<open>
  \<open>hasValidGraphLocked\<close>: the first loop counts the incoming edges, \<open>None\<close> being its early
  return; the second collects the roots; the third, which is a \<open>while\<close> over a queue, releases the
  dependents of each task it visits. Its result is \<open>None\<close> if it never returns.
\<close>

fun count_edges :: "nat list \<Rightarrow> nat list \<Rightarrow> nat list option" where
  "count_edges [] incoming = Some incoming"
| "count_edges (d # ds) incoming =
     (if d \<ge> length incoming then None else count_edges ds (incoming[d := incoming ! d + 1]))"

fun count_incoming :: "'v TaskNode list \<Rightarrow> nat list \<Rightarrow> nat list option" where
  "count_incoming [] incoming = Some incoming"
| "count_incoming (t # ts) incoming =
     (case count_edges (tn_dependents t) incoming of
        None \<Rightarrow> None
      | Some incoming' \<Rightarrow> count_incoming ts incoming')"

definition graph_roots :: "nat list \<Rightarrow> nat list" where
  "graph_roots incoming = filter (\<lambda>i. incoming ! i = 0) [0..<length incoming]"

fun release_dependents :: "nat list \<Rightarrow> nat list \<times> nat list \<Rightarrow> nat list \<times> nat list" where
  "release_dependents [] (incoming, ready) = (incoming, ready)"
| "release_dependents (d # ds) (incoming, ready) =
     (let incoming' = incoming[d := incoming ! d - 1]
      in release_dependents ds (incoming', if incoming' ! d = 0 then ready @ [d] else ready))"

partial_function (option) visit_ready :: "(nat \<Rightarrow> nat list) \<Rightarrow> nat list \<Rightarrow> nat list \<Rightarrow> nat \<Rightarrow> nat option" where
  "visit_ready dependents incoming ready visited =
     (case ready of
        [] \<Rightarrow> Some visited
      | i # rest \<Rightarrow>
          (case release_dependents (dependents i) (incoming, rest) of
             (incoming', ready') \<Rightarrow> visit_ready dependents incoming' ready' (visited + 1)))"

definition hasValidGraph :: "'v TaskNode list \<Rightarrow> bool option" where
  "hasValidGraph ts =
     (if ts = [] then Some False
      else case count_incoming ts (replicate (length ts) 0) of
        None \<Rightarrow> Some False
      | Some incoming \<Rightarrow>
          (case visit_ready (\<lambda>i. tn_dependents (ts ! i)) incoming (graph_roots incoming) 0 of
             None \<Rightarrow> None
           | Some visited \<Rightarrow> Some (visited = length ts)))"

declare visit_ready.simps [code]

section \<open>The graph check is right\<close>

definition task_edges :: "'v TaskNode list \<Rightarrow> (nat \<times> nat) set" where
  "task_edges ts = {(u, d). u < length ts \<and> d \<in> set (tn_dependents (ts ! u))}"

definition edges_in_range :: "'v TaskNode list \<Rightarrow> bool" where
  "edges_in_range ts \<longleftrightarrow> (\<forall>t \<in> set ts. \<forall>d \<in> set (tn_dependents t). d < length ts)"

lemma count_edges_eq:
  "count_edges ds inc =
     (if \<forall>d \<in> set ds. d < length inc
      then Some (map (\<lambda>d. inc ! d + count_list ds d) [0..<length inc]) else None)"
proof (induction ds arbitrary: inc)
  case (Cons d ds)
  have "map (\<lambda>i. inc[d := inc ! d + 1] ! i + count_list ds i) [0..<length inc]
      = map (\<lambda>i. inc ! i + count_list (d # ds) i) [0..<length inc]" if "d < length inc"
    using that by (intro map_cong) (auto simp: nth_list_update)
  then show ?case using Cons by auto
qed (simp add: map_nth)

lemma count_incoming_eq:
  "count_incoming ts inc =
     (if \<forall>t \<in> set ts. \<forall>d \<in> set (tn_dependents t). d < length inc
      then Some (map (\<lambda>d. inc ! d + (\<Sum>t \<leftarrow> ts. count_list (tn_dependents t) d)) [0..<length inc]) else None)"
proof (induction ts arbitrary: inc)
  case (Cons t ts)
  have "map (\<lambda>d. map (\<lambda>d. inc ! d + count_list (tn_dependents t) d) [0..<length inc] ! d
        + (\<Sum>t \<leftarrow> ts. count_list (tn_dependents t) d)) [0..<length inc]
      = map (\<lambda>d. inc ! d + (\<Sum>t \<leftarrow> t # ts. count_list (tn_dependents t) d)) [0..<length inc]"
    by (intro map_cong) auto
  then show ?case by (auto simp: count_edges_eq Cons.IH)
qed (simp add: map_nth)

text \<open>A counter is decremented once per edge it counted, so it never wraps below zero.\<close>

lemma release_dependents_eq:
  assumes "\<forall>d \<in> set ds. d < length inc \<and> count_list ds d \<le> inc ! d"
  shows "\<exists>fresh. release_dependents ds (inc, ready)
      = (map (\<lambda>d. inc ! d - count_list ds d) [0..<length inc], ready @ fresh) \<and>
    distinct fresh \<and> set fresh = {d \<in> set ds. inc ! d = count_list ds d}"
  using assms
proof (induction ds arbitrary: inc ready)
  case Nil
  then show ?case by (simp add: map_nth)
next
  case (Cons d ds)
  let ?inc = "inc[d := inc ! d - 1]"
  have d: "d < length inc" "count_list (d # ds) d \<le> inc ! d" using Cons.prems by auto
  have ok: "\<forall>x \<in> set ds. x < length ?inc \<and> count_list ds x \<le> ?inc ! x"
  proof
    fix x
    assume "x \<in> set ds"
    then have "x < length inc" "count_list (d # ds) x \<le> inc ! x" using Cons.prems by auto
    then show "x < length ?inc \<and> count_list ds x \<le> ?inc ! x"
      by (auto simp: nth_list_update split: if_splits)
  qed
  let ?r = "if ?inc ! d = 0 then ready @ [d] else ready"
  from Cons.IH [OF ok, of ?r] obtain fresh
    where fresh: "release_dependents ds (?inc, ?r) =
        (map (\<lambda>x. ?inc ! x - count_list ds x) [0..<length ?inc], ?r @ fresh)"
      "distinct fresh" "set fresh = {x \<in> set ds. ?inc ! x = count_list ds x}" by blast
  have inc: "map (\<lambda>x. ?inc ! x - count_list ds x) [0..<length ?inc]
      = map (\<lambda>x. inc ! x - count_list (d # ds) x) [0..<length inc]"
    by (intro map_cong) (auto simp: nth_list_update)
  have dz: "?inc ! d = 0 \<longleftrightarrow> inc ! d = 1" using d by auto
  have notin: "d \<notin> set ds" if "inc ! d = 1"
    using d(2) that by (simp add: count_list_0_iff)
  have sets: "set ((if ?inc ! d = 0 then [d] else []) @ fresh) = {x \<in> set (d # ds). inc ! x = count_list (d # ds) x}"
  proof (cases "inc ! d = 1")
    case True
    with notin fresh(3) d show ?thesis by (auto simp: nth_list_update count_notin)
  next
    case False
    have "?inc ! d = count_list ds d \<longleftrightarrow> inc ! d = count_list (d # ds) d" using d by auto
    moreover have "d \<in> set ds" if "inc ! d = count_list (d # ds) d"
      using False that by (auto intro: ccontr simp: count_notin)
    ultimately show ?thesis using False fresh(3) d dz by (auto simp: nth_list_update)
  qed
  have "distinct ((if ?inc ! d = 0 then [d] else []) @ fresh)"
    using fresh notin dz by auto
  with sets show ?case
    using fresh(1) inc by (intro exI [of _ "(if ?inc ! d = 0 then [d] else []) @ fresh"]) (simp add: Let_def)
qed

text \<open>Visited tasks form a topological order; counters count the edges from unvisited tasks.\<close>

definition open_edges :: "'v TaskNode list \<Rightarrow> nat list \<Rightarrow> nat \<Rightarrow> nat" where
  "open_edges ts visited d = (\<Sum>u \<in> {..<length ts} - set visited. count_list (tn_dependents (ts ! u)) d)"

definition visit_inv :: "'v TaskNode list \<Rightarrow> nat list \<Rightarrow> nat list \<Rightarrow> nat list \<Rightarrow> bool" where
  "visit_inv ts visited ready inc \<longleftrightarrow>
     distinct (visited @ ready) \<and> set (visited @ ready) \<subseteq> {..<length ts} \<and> length inc = length ts \<and>
     (\<forall>d < length ts. inc ! d = open_edges ts visited d) \<and>
     (\<forall>d < length ts. inc ! d = 0 \<longleftrightarrow> d \<in> set (visited @ ready)) \<and>
     (\<forall>i < length visited. \<forall>u. (u, visited ! i) \<in> task_edges ts \<longrightarrow> u \<in> set (take i visited))"

lemma open_edges_visit:
  assumes "i < length ts" "i \<notin> set visited"
  shows "open_edges ts visited d = count_list (tn_dependents (ts ! i)) d + open_edges ts (visited @ [i]) d"
proof -
  let ?rest = "{..<length ts} - set (visited @ [i])"
  have eq: "{..<length ts} - set visited = insert i ?rest" using assms by auto
  have "open_edges ts visited d = (\<Sum>u \<in> insert i ?rest. count_list (tn_dependents (ts ! u)) d)"
    by (simp only: open_edges_def eq)
  also have "\<dots> = count_list (tn_dependents (ts ! i)) d + (\<Sum>u \<in> ?rest. count_list (tn_dependents (ts ! u)) d)"
    by (rule sum.insert) auto
  finally show ?thesis by (simp only: open_edges_def)
qed

lemma open_edges_zero:
  "open_edges ts visited d = 0 \<longleftrightarrow> (\<forall>u. (u, d) \<in> task_edges ts \<longrightarrow> u \<in> set visited)"
proof -
  have "open_edges ts visited d = 0 \<longleftrightarrow>
      (\<forall>u \<in> {..<length ts} - set visited. count_list (tn_dependents (ts ! u)) d = 0)"
    unfolding open_edges_def by (rule sum_eq_0_iff) simp
  then show ?thesis by (auto simp: task_edges_def count_list_0_iff)
qed

lemma visit_inv_init:
  "visit_inv ts [] (graph_roots (map (open_edges ts []) [0..<length ts])) (map (open_edges ts []) [0..<length ts])"
  by (auto simp: visit_inv_def graph_roots_def)
lemma visit_inv_step:
  assumes inv: "visit_inv ts visited (i # rest) inc" and range: "edges_in_range ts"
  shows "\<exists>inc' ready'. release_dependents (tn_dependents (ts ! i)) (inc, rest) = (inc', ready') \<and>
    visit_inv ts (visited @ [i]) ready' inc'"
proof -
  let ?ds = "tn_dependents (ts ! i)"
  have i: "i < length ts" "i \<notin> set visited" and len: "length inc = length ts"
    and inc: "\<And>d. d < length ts \<Longrightarrow> inc ! d = open_edges ts visited d"
    and zero: "\<And>d. d < length ts \<Longrightarrow> inc ! d = 0 \<longleftrightarrow> d \<in> set (visited @ i # rest)"
    using inv by (auto simp: visit_inv_def)
  have split: "open_edges ts visited d = count_list ?ds d + open_edges ts (visited @ [i]) d" for d
    by (rule open_edges_visit [OF i])
  have in_range: "d < length ts" if "d \<in> set ?ds" for d
    using range i that by (auto simp: edges_in_range_def)
  have "\<forall>d \<in> set ?ds. d < length inc \<and> count_list ?ds d \<le> inc ! d"
    using in_range len by (auto simp: inc split)
  from release_dependents_eq [OF this, of rest] obtain fresh
    where r: "release_dependents ?ds (inc, rest)
        = (map (\<lambda>d. inc ! d - count_list ?ds d) [0..<length inc], rest @ fresh)"
      "distinct fresh" "set fresh = {d \<in> set ?ds. inc ! d = count_list ?ds d}" by blast
  let ?inc = "map (\<lambda>d. inc ! d - count_list ?ds d) [0..<length inc]"
  have inc': "?inc ! d = open_edges ts (visited @ [i]) d" if "d < length ts" for d
    using that len by (simp add: inc split)
  have fresh_new: "d \<notin> set (visited @ i # rest)" if "d \<in> set fresh" for d
    using that r(3) zero [of d] in_range [of d] by (auto simp: count_list_0_iff)
  have zero': "?inc ! d = 0 \<longleftrightarrow> d \<in> set ((visited @ [i]) @ rest @ fresh)" if "d < length ts" for d
  proof (cases "inc ! d = 0")
    case True
    then show ?thesis using zero [OF that] that len by auto
  next
    case False
    then have "d \<notin> set (visited @ i # rest)" using zero [OF that] by simp
    moreover have "?inc ! d = 0 \<longleftrightarrow> inc ! d = count_list ?ds d"
      using that len inc [OF that] split [of d] by auto
    moreover have "d \<in> set ?ds" if "inc ! d = count_list ?ds d"
      using that False by (auto intro: ccontr simp: count_notin)
    ultimately show ?thesis using r(3) by auto
  qed
  have before: "u \<in> set (take j (visited @ [i]))"
    if "j < length (visited @ [i])" "(u, (visited @ [i]) ! j) \<in> task_edges ts" for j u
  proof (cases "j < length visited")
    case True
    then show ?thesis using inv that by (auto simp: visit_inv_def nth_append)
  next
    case False
    then have j: "j = length visited" using that by simp
    have "open_edges ts visited i = 0" using zero [of i] inc [of i] i by simp
    then show ?thesis using that j by (simp add: open_edges_zero)
  qed
  have "visit_inv ts (visited @ [i]) (rest @ fresh) ?inc"
    unfolding visit_inv_def
  proof (intro conjI)
    show "distinct ((visited @ [i]) @ rest @ fresh)"
      using inv r(2) fresh_new by (auto simp: visit_inv_def)
    show "set ((visited @ [i]) @ rest @ fresh) \<subseteq> {..<length ts}"
      using inv r(3) in_range by (auto simp: visit_inv_def)
    show "length ?inc = length ts" using len by simp
    show "\<forall>d < length ts. ?inc ! d = open_edges ts (visited @ [i]) d" using inc' by blast
    show "\<forall>d < length ts. ?inc ! d = 0 \<longleftrightarrow> d \<in> set ((visited @ [i]) @ rest @ fresh)" using zero' by blast
    show "\<forall>j < length (visited @ [i]). \<forall>u. (u, (visited @ [i]) ! j) \<in> task_edges ts
        \<longrightarrow> u \<in> set (take j (visited @ [i]))" using before by blast
  qed
  with r(1) show ?thesis by blast
qed

lemma visit_ready_result:
  assumes "visit_inv ts visited ready inc" "edges_in_range ts"
  shows "\<exists>visited' inc'. visit_ready (\<lambda>i. tn_dependents (ts ! i)) inc ready (length visited) = Some (length visited')
    \<and> visit_inv ts visited' [] inc'"
  using assms
proof (induction "length ts - length visited" arbitrary: visited ready inc)
  case 0
  have "distinct (visited @ ready)" "set (visited @ ready) \<subseteq> {..<length ts}"
    using 0 by (auto simp: visit_inv_def)
  then have "length (visited @ ready) \<le> length ts"
    by (metis card_lessThan card_mono distinct_card finite_lessThan)
  moreover have "length ts \<le> length visited" using 0 by simp
  ultimately have "length ready = 0" unfolding length_append by linarith
  then have "ready = []" by simp
  then show ?case using 0 by (subst visit_ready.simps) auto
next
  case (Suc n)
  show ?case
  proof (cases ready)
    case Nil
    then show ?thesis using Suc.prems by (subst visit_ready.simps) auto
  next
    case (Cons i rest)
    with visit_inv_step Suc.prems obtain inc' ready'
      where r: "release_dependents (tn_dependents (ts ! i)) (inc, rest) = (inc', ready')"
        and inv: "visit_inv ts (visited @ [i]) ready' inc'" by blast
    have "n = length ts - length (visited @ [i])" using Suc.hyps(2) by simp
    from Suc.hyps(1) [OF this inv Suc.prems(2)] show ?thesis
      using r Cons by (subst visit_ready.simps) simp
  qed
qed

lemma visited_all_iff:
  assumes "visit_inv ts visited [] inc"
  shows "length visited = length ts \<longleftrightarrow> acyclic (task_edges ts)"
proof
  have v: "distinct visited" "set visited \<subseteq> {..<length ts}" using assms by (auto simp: visit_inv_def)
  have order: "u \<in> set (take i visited)" if "i < length visited" "(u, visited ! i) \<in> task_edges ts" for i u
    using assms that by (simp add: visit_inv_def)
  assume len: "length visited = length ts"
  then have all: "set visited = {..<length ts}"
    using v by (metis card_lessThan card_subset_eq distinct_card finite_lessThan)
  define pos where "pos d = (LEAST i. i < length visited \<and> visited ! i = d)" for d
  have pos: "pos d < length visited \<and> visited ! pos d = d" if "d \<in> set visited" for d
  proof -
    from that obtain i where "i < length visited \<and> visited ! i = d" by (auto simp: in_set_conv_nth)
    then show ?thesis unfolding pos_def by (rule LeastI)
  qed
  have pos_less: "pos d \<le> i" if "i < length visited" "visited ! i = d" for i d
    unfolding pos_def using that by (intro Least_le) simp
  have less: "pos u < pos d \<or> \<not> d < length ts" if e: "(u, d) \<in> task_edges ts" for u d
  proof (cases "d < length ts")
    case True
    then have d: "pos d < length visited" "visited ! pos d = d" using pos [of d] all by auto
    with order [of "pos d" u] e have "u \<in> set (take (pos d) visited)" by simp
    then obtain j where "j < pos d" "visited ! j = u" by (auto simp: in_set_conv_nth)
    with pos_less [of j u] d show ?thesis by simp
  qed simp
  show "acyclic (task_edges ts)"
  proof (rule acyclicI_order [where f = "\<lambda>d. if d < length ts then length ts - pos d else 0"])
    fix u d
    assume e: "(u, d) \<in> task_edges ts"
    then have "u < length ts" by (simp add: task_edges_def)
    then have "pos u < length ts" using pos [of u] all len by auto
    with less [OF e] \<open>u < length ts\<close>
    show "(if d < length ts then length ts - pos d else 0) < (if u < length ts then length ts - pos u else 0)"
      by auto
  qed
next
  assume acyclic: "acyclic (task_edges ts)"
  have v: "distinct visited" "set visited \<subseteq> {..<length ts}" using assms by (auto simp: visit_inv_def)
  let ?E = "task_edges ts \<inter> {..<length ts} \<times> {..<length ts}"
  have "wf ?E"
    using acyclic by (intro finite_acyclic_wf) (auto intro: acyclic_subset finite_subset)
  have "{..<length ts} \<subseteq> set visited"
  proof (rule ccontr)
    assume "\<not> {..<length ts} \<subseteq> set visited"
    then obtain x where "x \<in> {..<length ts} - set visited" by blast
    with \<open>wf ?E\<close> obtain z where z: "z \<in> {..<length ts} - set visited"
      and min: "\<And>y. (y, z) \<in> ?E \<Longrightarrow> y \<notin> {..<length ts} - set visited"
      by (rule wfE_min) blast
    have "open_edges ts visited z = 0"
      unfolding open_edges_zero using min z by (auto simp: task_edges_def)
    then show False using z assms by (auto simp: visit_inv_def)
  qed
  then have "set visited = {..<length ts}" using v by blast
  then show "length visited = length ts" using v by (metis card_lessThan distinct_card)
qed

lemma validGraph_acyclic_iff:
  "hasValidGraph ts = Some (ts \<noteq> [] \<and> edges_in_range ts \<and> acyclic (task_edges ts))"
proof (cases "ts \<noteq> [] \<and> edges_in_range ts")
  case True
  have "(\<Sum>t \<leftarrow> ts. count_list (tn_dependents t) d) = open_edges ts [] d" for d
    by (simp add: open_edges_def sum_list_sum_nth atLeast0LessThan)
  then have inc: "count_incoming ts (replicate (length ts) 0) = Some (map (open_edges ts []) [0..<length ts])"
    using True by (simp add: count_incoming_eq edges_in_range_def)
  from True have range: "edges_in_range ts" by simp
  from visit_ready_result [OF visit_inv_init range] obtain visited inc'
    where "visit_ready (\<lambda>i. tn_dependents (ts ! i)) (map (open_edges ts []) [0..<length ts])
        (graph_roots (map (open_edges ts []) [0..<length ts])) 0 = Some (length visited)"
      and inv: "visit_inv ts visited [] inc'" by auto
  then show ?thesis using True inc visited_all_iff [OF inv] by (simp add: hasValidGraph_def)
next
  case False
  then show ?thesis by (auto simp: hasValidGraph_def count_incoming_eq edges_in_range_def)
qed

text \<open>
  C35. The check always returns, and it accepts exactly the graphs \<open>AsyncTaskSequence.h\<close> promises: the
  non-empty ones whose edges lead to tasks of the sequence and form no cycle.
\<close>

theorem hasValidGraph_iff_acyclic:
  "hasValidGraph ts = Some (ts \<noteq> [] \<and> edges_in_range ts \<and> acyclic (task_edges ts))"
  by (rule validGraph_acyclic_iff)

section \<open>The locked regions of the scheduler\<close>

text \<open>
  \<open>start\<close>: the tasks to schedule once the lock is released, \<open>None\<close> for the result \<open>false\<close>.
\<close>

definition reset_node :: "'v TaskNode \<Rightarrow> 'v TaskNode" where
  "reset_node t = t\<lparr>tn_pendingDependencies := length (tn_dependencies t),
     tn_scheduled := (tn_dependencies t = []), tn_done := False, tn_output := AsyncTaskContext_init\<rparr>"

definition AsyncTaskSequence_start :: "addr \<Rightarrow> 'v AsyncTaskSequence \<Rightarrow> nat list option \<times> 'v AsyncTaskSequence" where
  "AsyncTaskSequence_start pool s =
     (if sq_running s \<or> pool = nullptr \<or> hasValidGraph (sq_tasks s) \<noteq> Some True then (None, s)
      else (Some (filter (\<lambda>i. tn_dependencies (sq_tasks s ! i) = []) [0..<length (sq_tasks s)]),
            s\<lparr>sq_pool := pool, sq_running := True, sq_finished := False,
              sq_remainingTasks := length (sq_tasks s), sq_finishedTasks := 0,
              sq_tasks := map reset_node (sq_tasks s)\<rparr>))"

definition AsyncTaskSequence_output :: "nat \<Rightarrow> 'v AsyncTaskSequence \<Rightarrow> 'v AsyncTaskContext" where
  "AsyncTaskSequence_output i s = (if isValidTaskId i s then tn_output (sq_tasks s ! i) else AsyncTaskContext_init)"

definition add_input :: "'v AsyncTaskSequence \<Rightarrow> nat \<Rightarrow> 'v AsyncTaskContext \<Rightarrow> 'v AsyncTaskContext" where
  "add_input s d input =
     AsyncTaskContext_mergeFrom (tn_output (sq_tasks s ! d))
       (AsyncTaskContext_setDependencyOutput d (tn_output (sq_tasks s ! d)) input)"

definition buildInputForTask :: "nat \<Rightarrow> 'v AsyncTaskSequence \<Rightarrow> 'v AsyncTaskContext" where
  "buildInputForTask i s =
     (if isValidTaskId i s then fold (add_input s) (tn_dependencies (sq_tasks s ! i)) AsyncTaskContext_init
      else AsyncTaskContext_init)"

text \<open>What \<open>scheduleTask\<close> reads under the lock: the task, its input and the pool.\<close>

definition AsyncTaskSequence_scheduleTask ::
  "nat \<Rightarrow> 'v AsyncTaskSequence \<Rightarrow> (addr \<times> 'v AsyncTaskContext \<times> addr) option" where
  "AsyncTaskSequence_scheduleTask i s =
     (if \<not> sq_running s \<or> \<not> isValidTaskId i s then None
      else Some (tn_task (sq_tasks s ! i), buildInputForTask i s, sq_pool s))"

text \<open>
  \<open>onTaskFinished\<close>: the loop over the dependents, and the region with the tasks that became ready
  and whether the graph is finished; \<open>None\<close> for its early return.
\<close>

definition count_down :: "'v TaskNode \<Rightarrow> 'v TaskNode" where
  "count_down t = (if tn_pendingDependencies t > 0
     then t\<lparr>tn_pendingDependencies := tn_pendingDependencies t - 1\<rparr> else t)"

fun release_tasks :: "nat list \<Rightarrow> 'v TaskNode list \<Rightarrow> nat list \<times> 'v TaskNode list" where
  "release_tasks [] ts = ([], ts)"
| "release_tasks (d # ds) ts =
     (let t = count_down (ts ! d)
      in if tn_pendingDependencies t = 0 \<and> \<not> tn_scheduled t
         then let (ready, ts') = release_tasks ds (ts[d := t\<lparr>tn_scheduled := True\<rparr>]) in (d # ready, ts')
         else release_tasks ds (ts[d := t]))"

definition finish_node :: "'v AsyncTaskContext \<Rightarrow> 'v TaskNode \<Rightarrow> 'v TaskNode" where
  "finish_node output t = t\<lparr>tn_output := output, tn_done := True\<rparr>"

definition AsyncTaskSequence_onTaskFinished ::
  "nat \<Rightarrow> 'v AsyncTaskContext \<Rightarrow> 'v AsyncTaskSequence \<Rightarrow> (nat list \<times> bool \<times> 'v AsyncTaskSequence) option" where
  "AsyncTaskSequence_onTaskFinished i output s =
     (if \<not> sq_running s \<or> \<not> isValidTaskId i s \<or> tn_done (sq_tasks s ! i) then None
      else let ts = (sq_tasks s)[i := finish_node output (sq_tasks s ! i)];
               (ready, ts') = release_tasks (tn_dependents (ts ! i)) ts;
               s' = s\<lparr>sq_tasks := ts', sq_finishedTasks := sq_finishedTasks s + 1,
                      sq_remainingTasks := sq_remainingTasks s - 1\<rparr>
           in if sq_remainingTasks s' = 0
              then Some (ready, True, s'\<lparr>sq_running := False, sq_finished := True\<rparr>)
              else Some (ready, False, s'))"

text \<open>The condition \<open>wait\<close> waits for, which is all the destructor does.\<close>

definition wait_may_return :: "'v AsyncTaskSequence \<Rightarrow> bool" where
  "wait_may_return s \<longleftrightarrow> \<not> sq_running s"

definition AsyncTaskSequence_taskCount :: "'v AsyncTaskSequence \<Rightarrow> nat" where
  "AsyncTaskSequence_taskCount s = length (sq_tasks s)"


section \<open>Interleaved calls\<close>

text \<open>
  A call under way is a frame: the tasks a call of \<open>start\<close> or \<open>onTaskFinished\<close> still has to
  schedule, and whether it ends with \<open>finished\<close>; a task in \<open>execute\<close>; a call of
  \<open>onTaskFinished\<close> before its lock, and one that has released it but not yet emitted
  \<open>taskFinished\<close>. Every thread has a stack of frames, because a pool that refuses a task makes
  \<open>scheduleTask\<close> call \<open>onTaskFinished\<close>. The pool holds the runnables it accepted. What was
  executed and refused since the last start is recorded, so are all starts and \<open>finished\<close> signals.
\<close>

datatype 'v frame =
  Scheduling "nat list" bool
| Executing nat "'v AsyncTaskContext"
| Finishing nat "'v AsyncTaskContext"
| Reporting nat "nat list" bool

record 'v seq_run =
  sr_seq :: "'v AsyncTaskSequence"
  sr_pool :: "(nat \<times> 'v AsyncTaskContext) list"
  sr_calls :: "'v frame list list"
  sr_executed :: "(nat \<times> 'v AsyncTaskContext) list"
  sr_refused :: "nat list"
  sr_total :: nat
  sr_starts :: nat
  sr_finished :: nat

inductive task_step :: "'v seq_run \<Rightarrow> 'v seq_run \<Rightarrow> bool" where
  schedule_accepted:
    "sr_calls r = as @ (Scheduling (i # is) gf # st) # bs \<Longrightarrow>
     AsyncTaskSequence_scheduleTask i (sr_seq r) = Some (task, input, pool) \<Longrightarrow>
     task_step r (r\<lparr>sr_calls := as @ (Scheduling is gf # st) # bs, sr_pool := sr_pool r @ [(i, input)]\<rparr>)"
| schedule_refused:
    "sr_calls r = as @ (Scheduling (i # is) gf # st) # bs \<Longrightarrow>
     AsyncTaskSequence_scheduleTask i (sr_seq r) = Some (task, input, pool) \<Longrightarrow>
     task_step r (r\<lparr>sr_calls := as @ (Finishing i AsyncTaskContext_init # Scheduling is gf # st) # bs,
       sr_refused := sr_refused r @ [i]\<rparr>)"
| schedule_ignored:
    "sr_calls r = as @ (Scheduling (i # is) gf # st) # bs \<Longrightarrow>
     AsyncTaskSequence_scheduleTask i (sr_seq r) = None \<Longrightarrow>
     task_step r (r\<lparr>sr_calls := as @ (Scheduling is gf # st) # bs\<rparr>)"
| take_task:
    "sr_pool r = qs @ (i, input) # qs' \<Longrightarrow>
     task_step r (r\<lparr>sr_pool := qs @ qs', sr_calls := sr_calls r @ [[Executing i input]],
       sr_executed := sr_executed r @ [(i, input)]\<rparr>)"
| execute:
    "sr_calls r = as @ (Executing i input # st) # bs \<Longrightarrow>
     AsyncTask_execute run input a = (output, a') \<Longrightarrow>
     task_step r (r\<lparr>sr_calls := as @ (Finishing i output # st) # bs\<rparr>)"
| finish:
    "sr_calls r = as @ (Finishing i output # st) # bs \<Longrightarrow>
     AsyncTaskSequence_onTaskFinished i output (sr_seq r) = Some (ready, gf, s') \<Longrightarrow>
     task_step r (r\<lparr>sr_calls := as @ (Reporting i ready gf # st) # bs, sr_seq := s'\<rparr>)"
| finish_ignored:
    "sr_calls r = as @ (Finishing i output # st) # bs \<Longrightarrow>
     AsyncTaskSequence_onTaskFinished i output (sr_seq r) = None \<Longrightarrow>
     task_step r (r\<lparr>sr_calls := as @ st # bs\<rparr>)"
| report:
    "sr_calls r = as @ (Reporting i ready gf # st) # bs \<Longrightarrow>
     task_step r (r\<lparr>sr_calls := as @ (Scheduling ready gf # st) # bs\<rparr>)"
| leave_call:
    "sr_calls r = as @ (Scheduling [] gf # st) # bs \<Longrightarrow>
     task_step r (r\<lparr>sr_calls := as @ st # bs, sr_finished := sr_finished r + (if gf then 1 else 0)\<rparr>)"

definition seq_run_init :: "'v seq_run" where
  "seq_run_init = \<lparr>sr_seq = AsyncTaskSequence_init, sr_pool = [], sr_calls = [], sr_executed = [],
     sr_refused = [], sr_total = 0, sr_starts = 0, sr_finished = 0\<rparr>"

text \<open>The client may add tasks and dependencies and start the sequence at any time, again and again.\<close>

inductive seq_reachable :: "'v seq_run \<Rightarrow> bool" where
  new: "seq_reachable seq_run_init"
| add_task: "seq_reachable r \<Longrightarrow> AsyncTaskSequence_addTask task (sr_seq r) = (i, s') \<Longrightarrow>
    seq_reachable (r\<lparr>sr_seq := s'\<rparr>)"
| add_dependency: "seq_reachable r \<Longrightarrow> AsyncTaskSequence_addDependency a b (sr_seq r) = (ok, s') \<Longrightarrow>
    seq_reachable (r\<lparr>sr_seq := s'\<rparr>)"
| start: "seq_reachable r \<Longrightarrow> AsyncTaskSequence_start pool (sr_seq r) = (Some ready, s') \<Longrightarrow>
    seq_reachable (r\<lparr>sr_seq := s', sr_calls := sr_calls r @ [[Scheduling ready False]], sr_executed := [],
      sr_refused := [], sr_total := length (sq_tasks s'), sr_starts := sr_starts r + 1\<rparr>)"
| step: "seq_reachable r \<Longrightarrow> task_step r r' \<Longrightarrow> seq_reachable r'"


section \<open>Invariant\<close>

definition tasks_ok :: "'v TaskNode list \<Rightarrow> bool" where
  "tasks_ok ts \<longleftrightarrow>
     (\<forall>i < length ts. distinct (tn_dependents (ts ! i)) \<and> distinct (tn_dependencies (ts ! i)) \<and>
        (\<forall>d. d \<in> set (tn_dependents (ts ! i)) \<longrightarrow> d < length ts \<and> i \<in> set (tn_dependencies (ts ! d))) \<and>
        (\<forall>d. d \<in> set (tn_dependencies (ts ! i)) \<longrightarrow> d < length ts \<and> i \<in> set (tn_dependents (ts ! d))))"

definition progress_ok :: "'v TaskNode list \<Rightarrow> bool" where
  "progress_ok ts \<longleftrightarrow>
     (\<forall>i < length ts.
        tn_pendingDependencies (ts ! i) = length (filter (\<lambda>d. \<not> tn_done (ts ! d)) (tn_dependencies (ts ! i))) \<and>
        (tn_scheduled (ts ! i) \<longleftrightarrow> tn_pendingDependencies (ts ! i) = 0) \<and>
        (tn_done (ts ! i) \<longrightarrow> tn_scheduled (ts ! i)))"

definition unfinished :: "'v TaskNode list \<Rightarrow> nat" where
  "unfinished ts = length (filter (\<lambda>t. \<not> tn_done t) ts)"

definition ready_node :: "'v TaskNode \<Rightarrow> bool" where
  "ready_node t \<longleftrightarrow> tn_pendingDependencies t \<le> 1 \<and> \<not> tn_scheduled t"

definition release_node :: "'v TaskNode \<Rightarrow> 'v TaskNode" where
  "release_node t = (count_down t)\<lparr>tn_scheduled := tn_scheduled t \<or> ready_node t\<rparr>"

lemma release_node_sel [simp]:
  "tn_dependents (release_node t) = tn_dependents t" "tn_dependencies (release_node t) = tn_dependencies t"
  "tn_done (release_node t) = tn_done t" "tn_output (release_node t) = tn_output t"
  "tn_task (release_node t) = tn_task t"
  "tn_pendingDependencies (release_node t) = tn_pendingDependencies t - 1"
  "tn_scheduled (release_node t) = (tn_scheduled t \<or> ready_node t)"
  by (simp_all add: release_node_def count_down_def)

lemma finish_node_sel [simp]:
  "tn_dependents (finish_node w t) = tn_dependents t" "tn_dependencies (finish_node w t) = tn_dependencies t"
  "tn_done (finish_node w t)" "tn_output (finish_node w t) = w" "tn_task (finish_node w t) = tn_task t"
  "tn_pendingDependencies (finish_node w t) = tn_pendingDependencies t"
  "tn_scheduled (finish_node w t) = tn_scheduled t"
  by (simp_all add: finish_node_def)

lemma reset_node_sel [simp]:
  "tn_dependents (reset_node t) = tn_dependents t" "tn_dependencies (reset_node t) = tn_dependencies t"
  "tn_done (reset_node t) = False" "tn_pendingDependencies (reset_node t) = length (tn_dependencies t)"
  "tn_scheduled (reset_node t) = (tn_dependencies t = [])"
  by (simp_all add: reset_node_def)

lemma release_tasks_Cons:
  "release_tasks (d # ds) ts =
     (let (ready, ts') = release_tasks ds (ts[d := release_node (ts ! d)])
      in (if ready_node (ts ! d) then d # ready else ready, ts'))"
proof -
  have ready: "tn_pendingDependencies (count_down (ts ! d)) = 0 \<and> \<not> tn_scheduled (count_down (ts ! d))
      \<longleftrightarrow> ready_node (ts ! d)"
    by (auto simp: count_down_def ready_node_def)
  have node: "release_node (ts ! d) = (if ready_node (ts ! d) then (count_down (ts ! d))\<lparr>tn_scheduled := True\<rparr>
      else count_down (ts ! d))"
    by (cases "ts ! d") (simp add: release_node_def count_down_def)
  show ?thesis unfolding release_tasks.simps Let_def ready node by simp
qed

lemma release_tasks_eq:
  "distinct ds \<Longrightarrow> \<forall>d \<in> set ds. d < length ts \<Longrightarrow>
   release_tasks ds ts = (filter (\<lambda>d. ready_node (ts ! d)) ds,
     map (\<lambda>i. if i \<in> set ds then release_node (ts ! i) else ts ! i) [0..<length ts])"
proof (induction ds arbitrary: ts)
  case Nil
  then show ?case by (simp add: map_nth)
next
  case (Cons d ds)
  let ?ts = "ts[d := release_node (ts ! d)]"
  have d: "d \<notin> set ds" "d < length ts" "distinct ds" "\<forall>x \<in> set ds. x < length ?ts" using Cons.prems by auto
  have f: "filter (\<lambda>x. ready_node (?ts ! x)) ds = filter (\<lambda>x. ready_node (ts ! x)) ds"
    using d by (intro filter_cong) (auto simp: nth_list_update)
  have m: "map (\<lambda>i. if i \<in> set ds then release_node (?ts ! i) else ?ts ! i) [0..<length ?ts]
      = map (\<lambda>i. if i \<in> set (d # ds) then release_node (ts ! i) else ts ! i) [0..<length ts]"
    using d by (intro map_cong) (auto simp: nth_list_update)
  show ?case unfolding release_tasks_Cons Cons.IH [OF d(3,4)] f m by simp
qed

lemma tasks_okD:
  assumes "tasks_ok ts" "i < length ts"
  shows "distinct (tn_dependents (ts ! i))" "distinct (tn_dependencies (ts ! i))"
    "\<And>d. d \<in> set (tn_dependents (ts ! i)) \<Longrightarrow> d < length ts \<and> i \<in> set (tn_dependencies (ts ! d))"
    "\<And>d. d \<in> set (tn_dependencies (ts ! i)) \<Longrightarrow> d < length ts \<and> i \<in> set (tn_dependents (ts ! d))"
  using assms unfolding tasks_ok_def by blast+

lemma tasks_okI:
  assumes "\<And>i. i < length ts \<Longrightarrow> distinct (tn_dependents (ts ! i)) \<and> distinct (tn_dependencies (ts ! i))"
    and "\<And>i d. i < length ts \<Longrightarrow> d \<in> set (tn_dependents (ts ! i)) \<Longrightarrow>
      d < length ts \<and> i \<in> set (tn_dependencies (ts ! d))"
    and "\<And>i d. i < length ts \<Longrightarrow> d \<in> set (tn_dependencies (ts ! i)) \<Longrightarrow>
      d < length ts \<and> i \<in> set (tn_dependents (ts ! d))"
  shows "tasks_ok ts"
  using assms unfolding tasks_ok_def by blast

lemma tasks_ok_cong:
  assumes ok: "tasks_ok ts" and len: "length ts' = length ts"
    and same: "\<And>i. i < length ts \<Longrightarrow> tn_dependents (ts' ! i) = tn_dependents (ts ! i)"
      "\<And>i. i < length ts \<Longrightarrow> tn_dependencies (ts' ! i) = tn_dependencies (ts ! i)"
  shows "tasks_ok ts'"
proof (rule tasks_okI)
  fix i
  assume "i < length ts'"
  then have i: "i < length ts" using len by simp
  show "distinct (tn_dependents (ts' ! i)) \<and> distinct (tn_dependencies (ts' ! i))"
    by (simp only: same i tasks_okD [OF ok i] simp_thms)
  fix d
  show "d < length ts' \<and> i \<in> set (tn_dependencies (ts' ! d))" if "d \<in> set (tn_dependents (ts' ! i))"
  proof -
    have "d < length ts \<and> i \<in> set (tn_dependencies (ts ! d))"
      using tasks_okD(3) [OF ok i] that same(1) [OF i] by metis
    then show ?thesis using same(2) [of d] len by simp
  qed
  show "d < length ts' \<and> i \<in> set (tn_dependents (ts' ! d))" if "d \<in> set (tn_dependencies (ts' ! i))"
  proof -
    have "d < length ts \<and> i \<in> set (tn_dependents (ts ! d))"
      using tasks_okD(4) [OF ok i] that same(2) [OF i] by metis
    then show ?thesis using same(1) [of d] len by simp
  qed
qed

lemma task_edges_cong:
  assumes "length ts' = length ts" "\<And>i. i < length ts \<Longrightarrow> tn_dependents (ts' ! i) = tn_dependents (ts ! i)"
  shows "task_edges ts' = task_edges ts"
  unfolding task_edges_def using assms by (intro Collect_cong) (auto simp del: split_paired_All)

lemma tasks_ok_add:
  assumes ok: "tasks_ok ts"
  shows "tasks_ok (ts @ [TaskNode_init t])"
proof -
  let ?ts = "ts @ [TaskNode_init t]"
  have new: "tn_dependents (?ts ! length ts) = []" "tn_dependencies (?ts ! length ts) = []"
    by (simp_all add: TaskNode_init_def)
  have old: "?ts ! i = ts ! i" if "i < length ts" for i using that by (simp add: nth_append)
  have cases: "i < length ts \<or> i = length ts" if "i < length ?ts" for i using that by auto
  show ?thesis
  proof (rule tasks_okI)
    fix i
    assume i: "i < length ?ts"
    show "distinct (tn_dependents (?ts ! i)) \<and> distinct (tn_dependencies (?ts ! i))"
      using cases [OF i] old [of i] new tasks_okD(1,2) [OF ok, of i] by auto
    fix d
    show "d < length ?ts \<and> i \<in> set (tn_dependencies (?ts ! d))" if "d \<in> set (tn_dependents (?ts ! i))"
      using cases [OF i] that old [of i] old [of d] new tasks_okD(3) [OF ok, of i d] by auto
    show "d < length ?ts \<and> i \<in> set (tn_dependents (?ts ! d))" if "d \<in> set (tn_dependencies (?ts ! i))"
      using cases [OF i] that old [of i] old [of d] new tasks_okD(4) [OF ok, of i d] by auto
  qed
qed

lemma tasks_ok_link:
  assumes ok: "tasks_ok ts" and ab: "a < length ts" "b < length ts" "a \<noteq> b" "b \<notin> set (tn_dependents (ts ! a))"
  shows "tasks_ok (ts[a := add_dependent b (ts ! a), b := add_dependency a (ts[a := add_dependent b (ts ! a)] ! b)])"
    (is "tasks_ok ?ts")
proof -
  have new: "a \<notin> set (tn_dependencies (ts ! b))" using tasks_okD(4) [OF ok ab(2), of a] ab by blast
  have sel: "tn_dependents (?ts ! i) = tn_dependents (ts ! i) @ (if i = a then [b] else [])"
    "tn_dependencies (?ts ! i) = tn_dependencies (ts ! i) @ (if i = b then [a] else [])"
    if "i < length ts" for i
    using ab that by (auto simp: add_dependent_def add_dependency_def nth_list_update)
  show ?thesis
  proof (rule tasks_okI)
    fix i
    assume "i < length ?ts"
    then have i: "i < length ts" by simp
    show "distinct (tn_dependents (?ts ! i)) \<and> distinct (tn_dependencies (?ts ! i))"
      unfolding sel [OF i] using tasks_okD(1,2) [OF ok i] ab new by auto
    fix d
    show "d < length ?ts \<and> i \<in> set (tn_dependencies (?ts ! d))" if "d \<in> set (tn_dependents (?ts ! i))"
    proof -
      have "d < length ts" "i \<in> set (tn_dependencies (ts ! d)) \<or> i = a \<and> d = b"
        using that tasks_okD(3) [OF ok i, of d] ab unfolding sel [OF i] by (auto split: if_splits)
      then show ?thesis by (auto simp: sel)
    qed
    show "d < length ?ts \<and> i \<in> set (tn_dependents (?ts ! d))" if "d \<in> set (tn_dependencies (?ts ! i))"
    proof -
      have "d < length ts" "i \<in> set (tn_dependents (ts ! d)) \<or> i = b \<and> d = a"
        using that tasks_okD(4) [OF ok i, of d] ab unfolding sel [OF i] by (auto split: if_splits)
      then show ?thesis by (auto simp: sel)
    qed
  qed
qed

text \<open>What the region of \<open>onTaskFinished\<close> does to a task that is under way.\<close>

lemma unfinished_pos_iff: "0 < unfinished ts \<longleftrightarrow> (\<exists>i < length ts. \<not> tn_done (ts ! i))"
  unfolding unfinished_def length_greater_0_conv filter_empty_conv
  by (metis in_set_conv_nth nth_mem)

lemma unfinished_finish:
  fixes ts ts' :: "'v TaskNode list"
  assumes "i < length ts" "\<not> tn_done (ts ! i)" "length ts' = length ts"
    and "\<And>j. j < length ts \<Longrightarrow> tn_done (ts' ! j) = (tn_done (ts ! j) \<or> j = i)"
  shows "unfinished ts = Suc (unfinished ts')"
proof -
  have card: "unfinished xs = card {j. j < length xs \<and> \<not> tn_done (xs ! j)}" for xs :: "'v TaskNode list"
    by (simp add: unfinished_def length_filter_conv_card)
  have "{j. j < length ts \<and> \<not> tn_done (ts ! j)} = insert i {j. j < length ts' \<and> \<not> tn_done (ts' ! j)}"
    using assms by auto
  moreover have "i \<notin> {j. j < length ts' \<and> \<not> tn_done (ts' ! j)}" using assms by auto
  ultimately show ?thesis unfolding card by simp
qed

lemma filter_length_delete:
  assumes "distinct xs" "x \<in> set xs" "\<not> P x"
  shows "length (filter (\<lambda>y. \<not> P y) xs) = Suc (length (filter (\<lambda>y. \<not> (P y \<or> y = x)) xs))"
proof -
  have "{y \<in> set xs. \<not> P y} = insert x {y \<in> set xs. \<not> (P y \<or> y = x)}" using assms by auto
  moreover have "finite {y \<in> set xs. \<not> (P y \<or> y = x)}" by simp
  ultimately have "card {y \<in> set xs. \<not> P y} = Suc (card {y \<in> set xs. \<not> (P y \<or> y = x)})" by simp
  then show ?thesis using assms(1) distinct_card [of "filter (\<lambda>y. \<not> P y) xs"]
      distinct_card [of "filter (\<lambda>y. \<not> (P y \<or> y = x)) xs"] by simp
qed

lemma onTaskFinished_result:
  assumes res: "AsyncTaskSequence_onTaskFinished i output s = Some (ready, gf, s')"
    and ok: "tasks_ok (sq_tasks s)" "progress_ok (sq_tasks s)"
    and sched: "tn_scheduled (sq_tasks s ! i)"
    and left: "sq_remainingTasks s = unfinished (sq_tasks s)"
  defines "ts \<equiv> sq_tasks s" and "ts' \<equiv> sq_tasks s'"
  shows "sq_running s" "i < length ts" "\<not> tn_done (ts ! i)"
    and "length ts' = length ts" "tasks_ok ts'" "progress_ok ts'" "task_edges ts' = task_edges ts"
    and "\<And>j. j < length ts \<Longrightarrow> tn_done (ts' ! j) = (tn_done (ts ! j) \<or> j = i)"
    and "\<And>j. j < length ts \<Longrightarrow> tn_dependencies (ts' ! j) = tn_dependencies (ts ! j)"
    and "\<And>j. j < length ts \<Longrightarrow> j \<noteq> i \<Longrightarrow> tn_output (ts' ! j) = tn_output (ts ! j)"
    and "tn_output (ts' ! i) = output"
    and "distinct ready" "set ready = {j. j < length ts \<and> tn_scheduled (ts' ! j) \<and> \<not> tn_scheduled (ts ! j)}"
    and "\<And>j. j < length ts \<Longrightarrow> tn_scheduled (ts ! j) \<Longrightarrow> tn_scheduled (ts' ! j)"
    and "sq_remainingTasks s' = unfinished ts'" "gf \<longleftrightarrow> \<not> sq_running s'" "gf \<longleftrightarrow> unfinished ts' = 0"
    and "sq_finished s' = (gf \<or> sq_finished s)"
    and "sq_finishedTasks s' = Suc (sq_finishedTasks s)"
proof -
  show run: "sq_running s" and i: "i < length ts" and nd: "\<not> tn_done (ts ! i)"
    using res by (auto simp: AsyncTaskSequence_onTaskFinished_def isValidTaskId_def ts_def split: if_splits)
  let ?ts = "ts[i := finish_node output (ts ! i)]"
  let ?ds = "tn_dependents (ts ! i)"
  have okt: "tasks_ok ts" and pr: "progress_ok ts" using ok by (simp_all add: ts_def)
  have ds: "distinct ?ds" "\<forall>d \<in> set ?ds. d < length ?ts" using tasks_okD(1,3) [OF okt i] by auto
  have all_done: "tn_done (ts ! d)" if "d \<in> set (tn_dependencies (ts ! i))" for d
    using pr i sched that by (auto simp: progress_ok_def ts_def filter_empty_conv)
  then have self: "i \<notin> set ?ds" using tasks_okD(3) [OF okt i, of i] nd by auto
  have deps_at: "?ds = tn_dependents (?ts ! i)" using i by simp
  obtain rt where rel: "release_tasks ?ds ?ts = rt" by blast
  with release_tasks_eq [OF ds] have rt: "rt = (filter (\<lambda>d. ready_node (?ts ! d)) ?ds,
      map (\<lambda>j. if j \<in> set ?ds then release_node (?ts ! j) else ?ts ! j) [0..<length ?ts])" by simp
  have flt: "filter (\<lambda>d. ready_node (?ts ! d)) ?ds = filter (\<lambda>d. ready_node (ts ! d)) ?ds"
    using self by (intro filter_cong refl) (metis nth_list_update_neq)
  have ready: "ready = filter (\<lambda>d. ready_node (ts ! d)) ?ds"
    and ts': "ts' = map (\<lambda>j. if j \<in> set ?ds then release_node (?ts ! j) else ?ts ! j) [0..<length ts]"
    and rem: "sq_remainingTasks s' = sq_remainingTasks s - 1"
    and gf: "gf \<longleftrightarrow> \<not> sq_running s'" "gf \<longleftrightarrow> sq_remainingTasks s - 1 = 0"
    and fin: "sq_finished s' = (gf \<or> sq_finished s)" "sq_finishedTasks s' = Suc (sq_finishedTasks s)"
    using res run rel rt flt i self
    by (auto simp: AsyncTaskSequence_onTaskFinished_def Let_def ts_def ts'_def split: if_splits)
  have at: "ts' ! j = (if j \<in> set ?ds then release_node (ts ! j)
      else if j = i then finish_node output (ts ! i) else ts ! j)" if "j < length ts" for j
    using that self i by (auto simp: ts' nth_list_update)
  show len: "length ts' = length ts" by (simp add: ts')
  show done': "tn_done (ts' ! j) = (tn_done (ts ! j) \<or> j = i)" if "j < length ts" for j
    using self by (auto simp: at [OF that])
  show deps': "tn_dependencies (ts' ! j) = tn_dependencies (ts ! j)" if "j < length ts" for j
    by (simp add: at [OF that])
  have dnts': "tn_dependents (ts' ! j) = tn_dependents (ts ! j)" if "j < length ts" for j
    by (simp add: at [OF that])
  show "tn_output (ts' ! j) = tn_output (ts ! j)" if "j < length ts" "j \<noteq> i" for j
    using that(2) by (simp add: at [OF that(1)])
  show "tn_output (ts' ! i) = output" using self by (simp add: at [OF i])
  show "tasks_ok ts'" by (rule tasks_ok_cong [OF okt len dnts' deps'])
  show "task_edges ts' = task_edges ts" by (rule task_edges_cong [OF len dnts'])
  show "distinct ready" using ds ready by simp
  have waiting: "\<not> tn_scheduled (ts ! j) \<and> tn_pendingDependencies (ts ! j) \<noteq> 0"
    if "j \<in> set ?ds" for j
  proof -
    have j: "j < length ts" "i \<in> set (tn_dependencies (ts ! j))" using tasks_okD(3) [OF okt i that] by auto
    then have "tn_pendingDependencies (ts ! j) \<noteq> 0"
      using pr nd by (auto simp: progress_ok_def filter_empty_conv)
    then show ?thesis using pr j(1) by (auto simp: progress_ok_def)
  qed
  show "set ready = {j. j < length ts \<and> tn_scheduled (ts' ! j) \<and> \<not> tn_scheduled (ts ! j)}"
    using ds(2) self by (auto simp: ready at ready_node_def split: if_splits)
  show "tn_scheduled (ts' ! j)" if "j < length ts" "tn_scheduled (ts ! j)" for j
    using that(2) by (auto simp: at [OF that(1)])
  have suc: "unfinished ts = Suc (unfinished ts')"
    by (rule unfinished_finish [OF i nd len done'])
  show "sq_remainingTasks s' = unfinished ts'" "gf \<longleftrightarrow> \<not> sq_running s'" "gf \<longleftrightarrow> unfinished ts' = 0"
    "sq_finished s' = (gf \<or> sq_finished s)" "sq_finishedTasks s' = Suc (sq_finishedTasks s)"
    using rem gf fin left suc by (simp_all add: ts_def)
  show "progress_ok ts'"
    unfolding progress_ok_def
  proof (intro allI impI)
    fix j
    assume "j < length ts'"
    then have j: "j < length ts" using len by simp
    have range: "d < length ts" if "d \<in> set (tn_dependencies (ts ! j))" for d
      using tasks_okD(4) [OF okt j that] by simp
    have flt': "filter (\<lambda>d. \<not> tn_done (ts' ! d)) (tn_dependencies (ts ! j))
        = filter (\<lambda>d. \<not> (tn_done (ts ! d) \<or> d = i)) (tn_dependencies (ts ! j))"
      using range done' by (intro filter_cong) auto
    have prj: "tn_pendingDependencies (ts ! j) = length (filter (\<lambda>d. \<not> tn_done (ts ! d)) (tn_dependencies (ts ! j)))"
      "tn_scheduled (ts ! j) \<longleftrightarrow> tn_pendingDependencies (ts ! j) = 0" "tn_done (ts ! j) \<longrightarrow> tn_scheduled (ts ! j)"
      using pr j by (auto simp: progress_ok_def)
    show "tn_pendingDependencies (ts' ! j)
          = length (filter (\<lambda>d. \<not> tn_done (ts' ! d)) (tn_dependencies (ts' ! j))) \<and>
        (tn_scheduled (ts' ! j) \<longleftrightarrow> tn_pendingDependencies (ts' ! j) = 0) \<and>
        (tn_done (ts' ! j) \<longrightarrow> tn_scheduled (ts' ! j))"
    proof (cases "j \<in> set ?ds")
      case True
      then have "i \<in> set (tn_dependencies (ts ! j))" using tasks_okD(3) [OF okt i] by blast
      from filter_length_delete [OF tasks_okD(2) [OF okt j] this, of "\<lambda>d. tn_done (ts ! d)"] nd
      have "tn_pendingDependencies (ts ! j)
          = Suc (length (filter (\<lambda>d. \<not> (tn_done (ts ! d) \<or> d = i)) (tn_dependencies (ts ! j))))"
        using prj(1) by simp
      then show ?thesis
        using True self prj waiting [OF True] unfolding deps' [OF j] flt' done' [OF j]
        by (auto simp: at [OF j] ready_node_def)
    next
      case False
      then have "i \<notin> set (tn_dependencies (ts ! j))" using tasks_okD(4) [OF okt j, of i] by blast
      then have "filter (\<lambda>d. \<not> (tn_done (ts ! d) \<or> d = i)) (tn_dependencies (ts ! j))
          = filter (\<lambda>d. \<not> tn_done (ts ! d)) (tn_dependencies (ts ! j))"
        by (intro filter_cong) auto
      then show ?thesis
        using False prj sched unfolding deps' [OF j] flt' done' [OF j]
        by (auto simp: at [OF j] ts_def)
    qed
  qed
qed

lemma progress_ok_start:
  assumes "tasks_ok ts"
  shows "progress_ok (map reset_node ts)"
  unfolding progress_ok_def
proof (intro allI impI)
  fix i
  assume "i < length (map reset_node ts)"
  then have i: "i < length ts" by simp
  have "filter (\<lambda>d. \<not> tn_done (map reset_node ts ! d)) (tn_dependencies (ts ! i)) = tn_dependencies (ts ! i)"
    using tasks_okD(4) [OF assms i] by (intro filter_True) auto
  then show "tn_pendingDependencies (map reset_node ts ! i) =
        length (filter (\<lambda>d. \<not> tn_done (map reset_node ts ! d)) (tn_dependencies (map reset_node ts ! i))) \<and>
      (tn_scheduled (map reset_node ts ! i) \<longleftrightarrow> tn_pendingDependencies (map reset_node ts ! i) = 0) \<and>
      (tn_done (map reset_node ts ! i) \<longrightarrow> tn_scheduled (map reset_node ts ! i))"
    using i by simp
qed

text \<open>The tasks a frame is responsible for, those in execution, and whether it ends with \<open>finished\<close>.\<close>

fun frame_tasks :: "'v frame \<Rightarrow> nat list" where
  "frame_tasks (Scheduling is gf) = is"
| "frame_tasks (Executing i input) = [i]"
| "frame_tasks (Finishing i output) = [i]"
| "frame_tasks (Reporting i is gf) = is"

fun frame_active :: "'v frame \<Rightarrow> nat list" where
  "frame_active (Executing i input) = [i]"
| "frame_active (Finishing i output) = [i]"
| "frame_active f = []"

fun frame_ends :: "'v frame \<Rightarrow> bool" where
  "frame_ends (Scheduling is gf) = gf"
| "frame_ends (Reporting i is gf) = gf"
| "frame_ends f = False"

abbreviation frames :: "'v seq_run \<Rightarrow> 'v frame list" where
  "frames r \<equiv> concat (sr_calls r)"

definition in_flight :: "'v seq_run \<Rightarrow> nat list" where
  "in_flight r = concat (map frame_tasks (frames r)) @ map fst (sr_pool r)"

definition active :: "'v seq_run \<Rightarrow> nat list" where
  "active r = concat (map frame_active (frames r))"

definition settled :: "'v seq_run \<Rightarrow> nat list" where
  "settled r = map fst (sr_executed r) @ sr_refused r"

definition input_ok :: "'v AsyncTaskSequence \<Rightarrow> nat \<times> 'v AsyncTaskContext \<Rightarrow> bool" where
  "input_ok s = (\<lambda>(i, input). i < length (sq_tasks s) \<and>
     (\<forall>d \<in> set (tn_dependencies (sq_tasks s ! i)). tn_done (sq_tasks s ! d)) \<and> input = buildInputForTask i s)"

definition running_ok :: "'v seq_run \<Rightarrow> bool" where
  "running_ok r \<longleftrightarrow> (let s = sr_seq r; ts = sq_tasks s in
     progress_ok ts \<and> acyclic (task_edges ts) \<and> sr_total r = length ts \<and>
     sq_remainingTasks s = unfinished ts \<and> 0 < unfinished ts \<and>
     set (in_flight r) = {i. i < length ts \<and> tn_scheduled (ts ! i) \<and> \<not> tn_done (ts ! i)} \<and>
     set (settled r) = {i. i < length ts \<and> tn_done (ts ! i)} \<union> set (active r) \<and>
     (\<forall>x \<in> set (sr_executed r) \<union> set (sr_pool r). input_ok s x))"

definition seq_inv :: "'v seq_run \<Rightarrow> bool" where
  "seq_inv r \<longleftrightarrow> tasks_ok (sq_tasks (sr_seq r)) \<and> distinct (in_flight r) \<and> distinct (settled r) \<and>
     sr_starts r = sr_finished r + length (filter frame_ends (frames r)) + (if sq_running (sr_seq r) then 1 else 0) \<and>
     (if sq_running (sr_seq r) then running_ok r else in_flight r = [] \<and> set (settled r) = {..<sr_total r})"

lemma active_in_flight: "set (active r) \<subseteq> set (in_flight r)"
proof -
  have "set (frame_active f) \<subseteq> set (frame_tasks f)" for f :: "'a frame" by (cases f) auto
  then show ?thesis by (auto simp: active_def in_flight_def)
qed

lemma buildInput_cong:
  assumes ok: "tasks_ok (sq_tasks s)" and i: "i < length (sq_tasks s)"
    and len: "length (sq_tasks s') = length (sq_tasks s)"
    and deps: "tn_dependencies (sq_tasks s' ! i) = tn_dependencies (sq_tasks s ! i)"
    and outputs: "\<And>d. d \<in> set (tn_dependencies (sq_tasks s ! i)) \<Longrightarrow>
      tn_output (sq_tasks s' ! d) = tn_output (sq_tasks s ! d)"
  shows "buildInputForTask i s' = buildInputForTask i s"
proof -
  have "fold (add_input s') (tn_dependencies (sq_tasks s ! i)) x = fold (add_input s) (tn_dependencies (sq_tasks s ! i)) x"
    for x using outputs by (intro fold_cong) (auto simp: add_input_def fun_eq_iff)
  then show ?thesis using i len deps by (simp add: buildInputForTask_def isValidTaskId_def)
qed

lemma seq_inv_init: "seq_inv seq_run_init"
  by (simp add: seq_inv_def seq_run_init_def AsyncTaskSequence_init_def tasks_ok_def in_flight_def settled_def)

lemma seq_inv_idle_change:
  assumes "seq_inv r" "\<not> sq_running (sr_seq r)" "\<not> sq_running s'" "tasks_ok (sq_tasks s')"
  shows "seq_inv (r\<lparr>sr_seq := s'\<rparr>)"
  using assms by (simp add: seq_inv_def in_flight_def settled_def)

lemma seq_inv_addTask:
  assumes "seq_inv r" "AsyncTaskSequence_addTask task (sr_seq r) = (i, s')"
  shows "seq_inv (r\<lparr>sr_seq := s'\<rparr>)"
proof (cases "s' = sr_seq r")
  case False
  then have s': "\<not> sq_running (sr_seq r)" "s' = (sr_seq r)\<lparr>sq_tasks := sq_tasks (sr_seq r) @ [TaskNode_init task]\<rparr>"
    using assms(2) by (auto simp: AsyncTaskSequence_addTask_def split: if_splits)
  then show ?thesis
    using assms(1) tasks_ok_add by (intro seq_inv_idle_change) (auto simp: seq_inv_def)
qed (use assms in simp)

lemma seq_inv_addDependency:
  assumes "seq_inv r" "AsyncTaskSequence_addDependency a b (sr_seq r) = (ok, s')"
  shows "seq_inv (r\<lparr>sr_seq := s'\<rparr>)"
proof (cases "s' = sr_seq r")
  case False
  then have s': "\<not> sq_running (sr_seq r)" "\<not> sq_running s'" "tasks_ok (sq_tasks s')"
    using assms tasks_ok_link
    by (auto simp: AsyncTaskSequence_addDependency_def isValidTaskId_def Let_def seq_inv_def split: if_splits)
  then show ?thesis using assms(1) by (intro seq_inv_idle_change)
qed (use assms in simp)

lemma seq_inv_start:
  assumes inv: "seq_inv r" and start: "AsyncTaskSequence_start pool (sr_seq r) = (Some ready, s')"
  shows "seq_inv (r\<lparr>sr_seq := s', sr_calls := sr_calls r @ [[Scheduling ready False]], sr_executed := [],
      sr_refused := [], sr_total := length (sq_tasks s'), sr_starts := sr_starts r + 1\<rparr>)"
proof -
  let ?ts = "sq_tasks (sr_seq r)"
  have s': "\<not> sq_running (sr_seq r)" "hasValidGraph ?ts = Some True" "sq_running s'"
    "ready = filter (\<lambda>i. tn_dependencies (?ts ! i) = []) [0..<length ?ts]"
    "sq_tasks s' = map reset_node ?ts" "sq_remainingTasks s' = length ?ts"
    using start by (auto simp: AsyncTaskSequence_start_def split: if_splits)
  have ok: "tasks_ok ?ts" and idle: "in_flight r = []" using inv s'(1) by (auto simp: seq_inv_def)
  have "?ts \<noteq> []" "acyclic (task_edges ?ts)" using s'(2) by (auto simp: validGraph_acyclic_iff)
  moreover have "tasks_ok (map reset_node ?ts)" by (rule tasks_ok_cong [OF ok]) auto
  moreover have "task_edges (map reset_node ?ts) = task_edges ?ts" by (rule task_edges_cong) auto
  moreover have "unfinished (map reset_node ?ts) = length ?ts" by (simp add: unfinished_def filter_map comp_def)
  moreover have idle': "concat (map frame_tasks (frames r)) = []" "sr_pool r = []" "concat (map frame_active (frames r)) = []"
    using idle active_in_flight [of r] unfolding in_flight_def active_def by auto
  moreover have "length (filter frame_ends (frames r)) + sr_finished r = sr_starts r"
    using inv s'(1) by (simp add: seq_inv_def)
  ultimately show ?thesis
    using progress_ok_start [OF ok]
    by (auto simp: seq_inv_def running_ok_def s' in_flight_def settled_def active_def Let_def idle'
        simp del: concat_eq_Nil_conv)
qed

text \<open>A step that leaves the sequence alone only moves tasks between frames and the pool.\<close>

lemma seq_inv_same:
  assumes inv: "seq_inv r" and same: "sr_seq r' = sr_seq r" "sr_total r' = sr_total r" "sr_starts r' = sr_starts r"
    and ends: "sr_finished r' + length (filter frame_ends (frames r')) = sr_finished r + length (filter frame_ends (frames r))"
    and flight: "mset (in_flight r') = mset (in_flight r)" and settled: "distinct (settled r')"
    and idle: "\<not> sq_running (sr_seq r) \<Longrightarrow> set (settled r') = set (settled r)"
    and active: "sq_running (sr_seq r) \<Longrightarrow>
      set (settled r') = {i. i < length (sq_tasks (sr_seq r)) \<and> tn_done (sq_tasks (sr_seq r) ! i)} \<union> set (active r')"
    and inputs: "sq_running (sr_seq r) \<Longrightarrow> \<forall>x \<in> set (sr_executed r') \<union> set (sr_pool r'). input_ok (sr_seq r) x"
  shows "seq_inv r'"
proof -
  have "distinct (in_flight r')" "set (in_flight r') = set (in_flight r)"
    using flight inv by (auto simp: seq_inv_def dest: mset_eq_setD mset_eq_imp_distinct_iff)
  moreover have "in_flight r = [] \<Longrightarrow> in_flight r' = []" using flight by simp
  ultimately show ?thesis
    using inv same ends settled idle active inputs unfolding seq_inv_def running_ok_def Let_def
    by (cases "sq_running (sr_seq r)") simp_all
qed

lemma frame_active_tasks: "i \<in> set (frame_active f) \<Longrightarrow> i \<in> set (frame_tasks f)"
  by (cases f) auto

lemma in_flight_running:
  assumes "seq_inv r" "i \<in> set (in_flight r)"
  shows "sq_running (sr_seq r)" "running_ok r" "i < length (sq_tasks (sr_seq r))"
    "tn_scheduled (sq_tasks (sr_seq r) ! i)" "\<not> tn_done (sq_tasks (sr_seq r) ! i)"
proof -
  show run: "sq_running (sr_seq r)" using assms by (auto simp: seq_inv_def split: if_splits)
  then show "running_ok r" using assms by (simp add: seq_inv_def)
  then show "i < length (sq_tasks (sr_seq r))" "tn_scheduled (sq_tasks (sr_seq r) ! i)"
    "\<not> tn_done (sq_tasks (sr_seq r) ! i)" using assms(2) by (auto simp: running_ok_def Let_def)
qed

lemma scheduled_input_ok:
  assumes "running_ok r" "i < length (sq_tasks (sr_seq r))" "tn_scheduled (sq_tasks (sr_seq r) ! i)"
  shows "input_ok (sr_seq r) (i, buildInputForTask i (sr_seq r))"
  using assms by (auto simp: running_ok_def input_ok_def progress_ok_def Let_def filter_empty_conv)

lemmas run_views = in_flight_def active_def settled_def

lemma seq_inv_schedule:
  assumes inv: "seq_inv r" and calls: "sr_calls r = as @ (Scheduling (i # is) gf # st) # bs"
    and sched: "AsyncTaskSequence_scheduleTask i (sr_seq r) = Some (task, input, pool)"
  shows "seq_inv (r\<lparr>sr_calls := as @ (Scheduling is gf # st) # bs, sr_pool := sr_pool r @ [(i, input)]\<rparr>)"
    and "seq_inv (r\<lparr>sr_calls := as @ (Finishing i AsyncTaskContext_init # Scheduling is gf # st) # bs,
      sr_refused := sr_refused r @ [i]\<rparr>)"
proof -
  have "i \<in> set (in_flight r)" by (simp add: calls in_flight_def)
  note run = in_flight_running [OF inv this]
  have input: "input_ok (sr_seq r) (i, input)"
    using sched scheduled_input_ok [OF run(2,3,4)] by (auto simp: AsyncTaskSequence_scheduleTask_def split: if_splits)
  have rok: "\<forall>x \<in> set (sr_executed r) \<union> set (sr_pool r). input_ok (sr_seq r) x"
    "set (settled r) = {i. i < length (sq_tasks (sr_seq r)) \<and> tn_done (sq_tasks (sr_seq r) ! i)} \<union> set (active r)"
    using run(2) by (simp_all add: running_ok_def Let_def)
  have dist: "distinct (in_flight r)" "distinct (settled r)" using inv by (simp_all add: seq_inv_def)
  show "seq_inv (r\<lparr>sr_calls := as @ (Scheduling is gf # st) # bs, sr_pool := sr_pool r @ [(i, input)]\<rparr>)"
    by (rule seq_inv_same [OF inv]) (use rok dist input calls in \<open>auto simp: run_views\<close>)
  have "i \<notin> set (active r)"
    using dist(1) by (auto simp: calls run_views dest: frame_active_tasks)
  then have fresh: "i \<notin> set (settled r)" using rok(2) run(5) by simp
  show "seq_inv (r\<lparr>sr_calls := as @ (Finishing i AsyncTaskContext_init # Scheduling is gf # st) # bs,
      sr_refused := sr_refused r @ [i]\<rparr>)"
    by (rule seq_inv_same [OF inv]) (use rok dist fresh run calls in \<open>auto simp: run_views\<close>)
qed

lemma seq_inv_take:
  assumes inv: "seq_inv r" and pool: "sr_pool r = qs @ (i, input) # qs'"
  shows "seq_inv (r\<lparr>sr_pool := qs @ qs', sr_calls := sr_calls r @ [[Executing i input]],
     sr_executed := sr_executed r @ [(i, input)]\<rparr>)"
proof -
  have "i \<in> set (in_flight r)" by (simp add: pool in_flight_def)
  note run = in_flight_running [OF inv this]
  have rok: "\<forall>x \<in> set (sr_executed r) \<union> set (sr_pool r). input_ok (sr_seq r) x"
    "set (settled r) = {i. i < length (sq_tasks (sr_seq r)) \<and> tn_done (sq_tasks (sr_seq r) ! i)} \<union> set (active r)"
    using run(2) by (simp_all add: running_ok_def Let_def)
  have dist: "distinct (in_flight r)" "distinct (settled r)" using inv by (simp_all add: seq_inv_def)
  have "i \<notin> set (active r)"
    using dist(1) by (auto simp: pool run_views dest: frame_active_tasks)
  then have fresh: "i \<notin> set (settled r)" using rok(2) run(5) by simp
  show ?thesis
    by (rule seq_inv_same [OF inv]) (use rok dist fresh run pool in \<open>auto simp: run_views\<close>)
qed

lemma seq_inv_move:
  assumes inv: "seq_inv r" and flight: "mset (in_flight r') = mset (in_flight r)"
    and act: "set (active r') = set (active r)"
    and ends: "sr_finished r' + length (filter frame_ends (frames r')) = sr_finished r + length (filter frame_ends (frames r))"
    and same: "sr_seq r' = sr_seq r" "sr_total r' = sr_total r" "sr_starts r' = sr_starts r"
      "sr_pool r' = sr_pool r" "sr_executed r' = sr_executed r" "sr_refused r' = sr_refused r"
  shows "seq_inv r'"
  using inv by (intro seq_inv_same [OF inv same(1,2,3) ends flight])
    (simp_all add: same act settled_def seq_inv_def running_ok_def Let_def)

lemma input_ok_finish:
  assumes ok: "tasks_ok (sq_tasks s)" and x: "input_ok s x" and nd: "\<not> tn_done (sq_tasks s ! i)"
    and len: "length (sq_tasks s') = length (sq_tasks s)"
    and fin: "\<And>j. j < length (sq_tasks s) \<Longrightarrow> tn_done (sq_tasks s' ! j) = (tn_done (sq_tasks s ! j) \<or> j = i)"
    and deps: "\<And>j. j < length (sq_tasks s) \<Longrightarrow> tn_dependencies (sq_tasks s' ! j) = tn_dependencies (sq_tasks s ! j)"
    and outs: "\<And>j. j < length (sq_tasks s) \<Longrightarrow> j \<noteq> i \<Longrightarrow> tn_output (sq_tasks s' ! j) = tn_output (sq_tasks s ! j)"
  shows "input_ok s' x"
proof -
  obtain k input where k: "x = (k, input)" by (cases x)
  have kl: "k < length (sq_tasks s)" and kd: "\<forall>d \<in> set (tn_dependencies (sq_tasks s ! k)). tn_done (sq_tasks s ! d)"
    and ki: "input = buildInputForTask k s" using x by (auto simp: input_ok_def k)
  have range: "d < length (sq_tasks s)" if "d \<in> set (tn_dependencies (sq_tasks s ! k))" for d
    using tasks_okD(4) [OF ok kl that] by simp
  have same: "tn_output (sq_tasks s' ! d) = tn_output (sq_tasks s ! d)"
    if "d \<in> set (tn_dependencies (sq_tasks s ! k))" for d
    using outs [of d] range [OF that] kd that nd by metis
  have "buildInputForTask k s' = buildInputForTask k s"
    by (rule buildInput_cong [OF ok kl len deps [OF kl] same])
  then show ?thesis using kl kd ki range by (simp add: input_ok_def k len deps fin)
qed

lemma seq_inv_finish:
  assumes inv: "seq_inv r" and calls: "sr_calls r = as @ (Finishing i output # st) # bs"
    and fin: "AsyncTaskSequence_onTaskFinished i output (sr_seq r) = Some (ready, gf, s')"
  shows "seq_inv (r\<lparr>sr_calls := as @ (Reporting i ready gf # st) # bs, sr_seq := s'\<rparr>)" (is "seq_inv ?r")
proof -
  let ?ts = "sq_tasks (sr_seq r)" and ?ts' = "sq_tasks s'"
  have fi: "i \<in> set (in_flight r)" by (simp add: calls in_flight_def)
  note run = in_flight_running [OF inv fi]
  have ok: "tasks_ok ?ts" using inv by (simp add: seq_inv_def)
  have pr: "progress_ok ?ts" and left: "sq_remainingTasks (sr_seq r) = unfinished ?ts"
    and ac: "acyclic (task_edges ?ts)" and total: "sr_total r = length ?ts"
    and fl: "set (in_flight r) = {i. i < length ?ts \<and> tn_scheduled (?ts ! i) \<and> \<not> tn_done (?ts ! i)}"
    and st: "set (settled r) = {i. i < length ?ts \<and> tn_done (?ts ! i)} \<union> set (active r)"
    and inputs: "\<forall>x \<in> set (sr_executed r) \<union> set (sr_pool r). input_ok (sr_seq r) x"
    using run(2) by (simp_all add: running_ok_def Let_def)
  note res = onTaskFinished_result [OF fin ok pr run(4) left]
  have dist: "distinct (in_flight r)" "distinct (settled r)" using inv by (simp_all add: seq_inv_def)
  have perm: "mset (in_flight r) = {#i#} + mset (concat (map frame_tasks (concat as @ st @ concat bs)) @ map fst (sr_pool r))"
    "mset (in_flight ?r) = mset ready + mset (concat (map frame_tasks (concat as @ st @ concat bs)) @ map fst (sr_pool r))"
    by (simp_all add: calls in_flight_def)
  let ?rest = "concat (map frame_tasks (concat as @ st @ concat bs)) @ map fst (sr_pool r)"
  have rest: "set (in_flight r) = insert i (set ?rest)" "i \<notin> set ?rest" "distinct ?rest"
    using dist(1) by (auto simp: calls in_flight_def)
  have flr: "set (in_flight ?r) = set ready \<union> set ?rest"
  proof -
    have "set_mset (mset (in_flight ?r)) = set ready \<union> set ?rest" unfolding perm(2) by simp
    then show ?thesis by simp
  qed
  have not_old: "set ready \<inter> set ?rest = {}"
  proof -
    have "set ?rest \<subseteq> {j. tn_scheduled (?ts ! j)}" using fl unfolding rest(1) by blast
    then show ?thesis unfolding res(13) by blast
  qed
  have dfl: "distinct (in_flight ?r)"
  proof -
    have "distinct (ready @ ?rest)" using res(12) rest(3) not_old by simp
    moreover have "mset (in_flight ?r) = mset (ready @ ?rest)" using perm(2) by simp
    ultimately show ?thesis using mset_eq_imp_distinct_iff by blast
  qed
  have fl': "set (in_flight ?r) = {j. j < length ?ts \<and> tn_scheduled (?ts' ! j) \<and> \<not> tn_done (?ts' ! j)}"
  proof -
    have "set ?rest = {j. j < length ?ts \<and> tn_scheduled (?ts ! j) \<and> \<not> tn_done (?ts ! j)} - {i}"
      using fl rest(2) unfolding rest(1) by blast
    moreover have "tn_scheduled (?ts ! j)" if "j < length ?ts" "tn_done (?ts ! j)" for j
      using pr that by (auto simp: progress_ok_def)
    ultimately show ?thesis unfolding flr res(13) using res(8,14) run(4,5) by auto
  qed
  have act: "set (active r) = insert i (set (active ?r))" by (auto simp: calls active_def)
  have st': "set (settled ?r) = {j. j < length ?ts \<and> tn_done (?ts' ! j)} \<union> set (active ?r)"
    using st act res(8) run(3) by (auto simp: settled_def)
  have ends: "length (filter frame_ends (frames ?r)) = length (filter frame_ends (frames r)) + (if gf then 1 else 0)"
    by (simp add: calls)
  have inputs': "\<forall>x \<in> set (sr_executed r) \<union> set (sr_pool r). input_ok s' x"
    using inputs input_ok_finish [OF ok _ run(5) res(4) res(8) res(9) res(10)] by blast
  have idle: "in_flight ?r = [] \<and> set (settled ?r) = {..<sr_total r}" if gf
  proof -
    have "\<not> 0 < unfinished ?ts'" using \<open>gf\<close> res(17) by simp
    then have all_done: "tn_done (?ts' ! j)" if "j < length ?ts" for j
      using that unfolding unfinished_pos_iff res(4) by blast
    have empty: "set (in_flight ?r) = {}" unfolding fl' using all_done by blast
    then have "set (active ?r) = {}" using active_in_flight [of ?r] by (simp only: subset_empty)
    moreover have "{j. j < length ?ts \<and> tn_done (?ts' ! j)} = {..<length ?ts}" using all_done by auto
    ultimately have "set (settled ?r) = {..<length ?ts}" unfolding st' by simp
    then show ?thesis using empty total by simp
  qed
  show ?thesis
  proof (cases gf)
    case True
    then show ?thesis
      using inv ends idle res(5,16) dfl dist(2) run(1) by (simp add: seq_inv_def settled_def)
  next
    case False
    then show ?thesis
      using inv ends res(4-7,15-17) dfl dist(2) run(1) total ac fl' st' inputs'
      by (simp add: seq_inv_def settled_def running_ok_def Let_def)
  qed
qed

lemma task_step_inv:
  assumes "task_step r r'" "seq_inv r"
  shows "seq_inv r'"
  using assms
proof (cases rule: task_step.cases)
  case (schedule_ignored as i "is" gf st bs)
  then have "i \<in> set (in_flight r)" by (simp add: in_flight_def)
  from in_flight_running [OF assms(2) this] show ?thesis
    using schedule_ignored by (simp add: AsyncTaskSequence_scheduleTask_def isValidTaskId_def)
next
  case (finish_ignored as i w st bs)
  then have "i \<in> set (in_flight r)" by (simp add: in_flight_def)
  from in_flight_running [OF assms(2) this] show ?thesis
    using finish_ignored
    by (simp add: AsyncTaskSequence_onTaskFinished_def isValidTaskId_def Let_def split: prod.splits if_splits)
next
  case (execute as i input st bs run a w a')
  show ?thesis
    by (rule seq_inv_move [OF assms(2)]) (simp_all add: execute(1,2) in_flight_def active_def)
next
  case (report as i ready gf st bs)
  show ?thesis
    by (rule seq_inv_move [OF assms(2)]) (simp_all add: report in_flight_def active_def)
next
  case (leave_call as gf st bs)
  show ?thesis
    by (rule seq_inv_move [OF assms(2)]) (simp_all add: leave_call in_flight_def active_def)
qed (simp_all add: seq_inv_schedule seq_inv_take seq_inv_finish)

lemma seq_reachable_inv: "seq_reachable r \<Longrightarrow> seq_inv r"
proof (induction rule: seq_reachable.induct)
  case (start r pool ready s')
  then show ?case by (intro seq_inv_start)
qed (auto intro: seq_inv_init seq_inv_addTask seq_inv_addDependency task_step_inv)


section \<open>Once, in order, to the end\<close>

lemma add_input_dependencies:
  "ctx_dependencyOutputs (add_input s d c) = smap_put d (tn_output (sq_tasks s ! d)) (ctx_dependencyOutputs c)"
  by (simp add: add_input_def AsyncTaskContext_mergeFrom_def AsyncTaskContext_setDependencyOutput_def)

lemma input_dependencies:
  "smap_ok (ctx_dependencyOutputs c) \<Longrightarrow>
   smap_ok (ctx_dependencyOutputs (fold (add_input s) ds c)) \<and>
   smap_get (ctx_dependencyOutputs (fold (add_input s) ds c))
     = smap_get (ctx_dependencyOutputs c) ++ (\<lambda>d. if d \<in> set ds then Some (tn_output (sq_tasks s ! d)) else None)"
proof (induction ds arbitrary: c)
  case (Cons d ds)
  from Cons.IH [of "add_input s d c"] Cons.prems show ?case
    by (auto simp: add_input_dependencies map_add_def fun_eq_iff split: option.splits)
qed (simp add: map_add_def)

lemma buildInput_dependencies:
  assumes "i < length (sq_tasks s)"
  shows "AsyncTaskContext_dependencyOutput d (buildInputForTask i s) =
      (if d \<in> set (tn_dependencies (sq_tasks s ! i)) then Some (tn_output (sq_tasks s ! d)) else None)"
    and "set (AsyncTaskContext_dependencyTaskIds (buildInputForTask i s)) = set (tn_dependencies (sq_tasks s ! i))"
proof -
  let ?c = "buildInputForTask i s" and ?ds = "tn_dependencies (sq_tasks s ! i)"
  have "smap_get (ctx_dependencyOutputs ?c) = (\<lambda>d. if d \<in> set ?ds then Some (tn_output (sq_tasks s ! d)) else None)"
    and ok: "smap_ok (ctx_dependencyOutputs ?c)"
    using input_dependencies [of AsyncTaskContext_init s ?ds] assms
    by (simp_all add: buildInputForTask_def isValidTaskId_def AsyncTaskContext_init_def map_add_def fun_eq_iff)
  then have get: "smap_get (ctx_dependencyOutputs ?c) d = (if d \<in> set ?ds then Some (tn_output (sq_tasks s ! d)) else None)"
    for d by simp
  show "AsyncTaskContext_dependencyOutput d ?c = (if d \<in> set ?ds then Some (tn_output (sq_tasks s ! d)) else None)"
    by (simp add: AsyncTaskContext_dependencyOutput_def get)
  have "d \<in> fst ` set (ctx_dependencyOutputs ?c) \<longleftrightarrow> d \<in> set ?ds" for d
    using get [of d] by (auto simp: smap_get_map_of map_of_eq_None_iff [symmetric] domIff split: if_splits)
      (metis get map_of_eq_None_iff option.distinct(1) smap_get_map_of)+
  then show "set (AsyncTaskContext_dependencyTaskIds ?c) = set ?ds"
    by (auto simp: AsyncTaskContext_dependencyTaskIds_def)
qed

text \<open>
  C36. Over any interleaving of the calls, and over any number of starts: no task is executed twice in
  a run, nor executed and given up as refused by the pool; and when a task has been taken for
  execution, all tasks it depends on are done and its input holds exactly their outputs.
\<close>

theorem task_runs_once_after_dependencies:
  assumes "seq_reachable r"
  shows "distinct (map fst (sr_executed r) @ sr_refused r) \<and>
    (sq_running (sr_seq r) \<longrightarrow>
      (\<forall>(i, input) \<in> set (sr_executed r).
         let ts = sq_tasks (sr_seq r) in
         i < length ts \<and>
         set (AsyncTaskContext_dependencyTaskIds input) = set (tn_dependencies (ts ! i)) \<and>
         (\<forall>d \<in> set (tn_dependencies (ts ! i)). tn_done (ts ! d) \<and>
            AsyncTaskContext_dependencyOutput d input = Some (tn_output (ts ! d)))))"
proof (intro conjI impI ballI)
  have inv: "seq_inv r" by (rule seq_reachable_inv [OF assms])
  then show "distinct (map fst (sr_executed r) @ sr_refused r)" by (simp add: seq_inv_def settled_def)
  fix x
  assume "sq_running (sr_seq r)" "x \<in> set (sr_executed r)"
  then have "input_ok (sr_seq r) x" using inv by (simp add: seq_inv_def running_ok_def Let_def)
  then show "case x of (i, input) \<Rightarrow> let ts = sq_tasks (sr_seq r) in
         i < length ts \<and>
         set (AsyncTaskContext_dependencyTaskIds input) = set (tn_dependencies (ts ! i)) \<and>
         (\<forall>d \<in> set (tn_dependencies (ts ! i)). tn_done (ts ! d) \<and>
            AsyncTaskContext_dependencyOutput d input = Some (tn_output (ts ! d)))"
    by (auto simp: input_ok_def Let_def buildInput_dependencies split: prod.splits)
qed

text \<open>Every step of the framework uses up work; what is left bounds the steps still to come.\<close>

fun frame_work :: "'v frame \<Rightarrow> nat" where
  "frame_work (Scheduling is gf) = 1 + 6 * length is"
| "frame_work (Executing i input) = 4"
| "frame_work (Finishing i output) = 3"
| "frame_work (Reporting i is gf) = 2 + 6 * length is"

definition unscheduled :: "'v TaskNode list \<Rightarrow> nat" where
  "unscheduled ts = length (filter (\<lambda>t. \<not> tn_scheduled t) ts)"

definition sequence_work :: "'v seq_run \<Rightarrow> nat" where
  "sequence_work r = 6 * unscheduled (sq_tasks (sr_seq r)) + 5 * length (sr_pool r) + sum_list (map frame_work (frames r))"

lemma finish_unscheduled:
  assumes inv: "seq_inv r" and calls: "sr_calls r = as @ (Finishing i output # st) # bs"
    and fin: "AsyncTaskSequence_onTaskFinished i output (sr_seq r) = Some (ready, gf, s')"
  shows "unscheduled (sq_tasks (sr_seq r)) = unscheduled (sq_tasks s') + length ready"
proof -
  let ?ts = "sq_tasks (sr_seq r)" and ?ts' = "sq_tasks s'"
  have "i \<in> set (in_flight r)" by (simp add: calls in_flight_def)
  note run = in_flight_running [OF inv this]
  have "tasks_ok ?ts" "progress_ok ?ts" "sq_remainingTasks (sr_seq r) = unfinished ?ts"
    using inv run(2) by (simp_all add: seq_inv_def running_ok_def Let_def)
  note res = onTaskFinished_result [OF fin this(1,2) run(4) this(3)]
  have card: "unscheduled xs = card {j. j < length xs \<and> \<not> tn_scheduled (xs ! j)}" for xs :: "'a TaskNode list"
    by (simp add: unscheduled_def length_filter_conv_card)
  have "{j. j < length ?ts \<and> \<not> tn_scheduled (?ts ! j)}
      = {j. j < length ?ts' \<and> \<not> tn_scheduled (?ts' ! j)} \<union> set ready"
    using res(13,14) unfolding res(4) by blast
  moreover have "{j. j < length ?ts' \<and> \<not> tn_scheduled (?ts' ! j)} \<inter> set ready = {}" using res(13) by blast
  ultimately have "card {j. j < length ?ts \<and> \<not> tn_scheduled (?ts ! j)}
      = card {j. j < length ?ts' \<and> \<not> tn_scheduled (?ts' ! j)} + card (set ready)"
    by (simp add: card_Un_disjoint)
  then show ?thesis using distinct_card [OF res(12)] by (simp add: card)
qed

lemma task_step_work:
  assumes "task_step r r'" "seq_inv r"
  shows "sequence_work r' < sequence_work r"
  using assms
proof (cases rule: task_step.cases)
  case (finish as i w st bs ready gf s')
  then show ?thesis using finish_unscheduled [OF assms(2) finish(2,3)] by (simp add: sequence_work_def)
qed (simp_all add: sequence_work_def)

lemma frame_steps: "frames r \<noteq> [] \<Longrightarrow> \<exists>r'. task_step r r'"
proof -
  assume "frames r \<noteq> []"
  then obtain c where "c \<in> set (sr_calls r)" "c \<noteq> []" by auto
  then obtain as f st bs where calls: "sr_calls r = as @ (f # st) # bs"
    by (metis neq_Nil_conv split_list)
  show ?thesis
  proof (cases f)
    case (Scheduling "is" gf)
    show ?thesis
    proof (cases "is")
      case Nil
      then show ?thesis using calls Scheduling task_step.leave_call by blast
    next
      case (Cons i "is'")
      then show ?thesis using calls Scheduling task_step.schedule_accepted task_step.schedule_ignored
        by (cases "AsyncTaskSequence_scheduleTask i (sr_seq r)") (auto, blast+)
    qed
  next
    case (Executing i input)
    obtain w a' where "AsyncTask_execute (\<lambda>x. (x, False)) input \<lparr>at_exception = False\<rparr> = (w, a')" by force
    then show ?thesis using calls Executing task_step.execute by blast
  next
    case (Finishing i w)
    then show ?thesis using calls task_step.finish task_step.finish_ignored
      by (cases "AsyncTaskSequence_onTaskFinished i w (sr_seq r)") (auto, blast+)
  next
    case (Reporting i ready gf)
    then show ?thesis using calls task_step.report by blast
  qed
qed

lemma running_has_work:
  assumes inv: "seq_inv r" and run: "sq_running (sr_seq r)"
  shows "in_flight r \<noteq> []"
proof
  assume idle: "in_flight r = []"
  let ?ts = "sq_tasks (sr_seq r)"
  have ok: "tasks_ok ?ts" "progress_ok ?ts" "acyclic (task_edges ?ts)" "0 < unfinished ?ts"
    and none: "\<And>i. i < length ?ts \<Longrightarrow> tn_scheduled (?ts ! i) \<Longrightarrow> tn_done (?ts ! i)"
    using inv run idle by (auto simp: seq_inv_def running_ok_def Let_def)
  let ?E = "task_edges ?ts \<inter> {..<length ?ts} \<times> {..<length ?ts}"
  have "wf ?E"
    using ok(3) by (intro finite_acyclic_wf) (auto intro: acyclic_subset finite_subset)
  moreover obtain x where "x \<in> {i. i < length ?ts \<and> \<not> tn_done (?ts ! i)}"
    using ok(4) by (auto simp: unfinished_pos_iff)
  ultimately obtain z where z: "z < length ?ts" "\<not> tn_done (?ts ! z)"
    and min: "\<And>d. (d, z) \<in> ?E \<Longrightarrow> d \<notin> {i. i < length ?ts \<and> \<not> tn_done (?ts ! i)}"
    by (rule wfE_min) blast
  have "tn_done (?ts ! d)" if "d \<in> set (tn_dependencies (?ts ! z))" for d
    using tasks_okD(4) [OF ok(1) z(1) that] min [of d] z(1) by (simp add: task_edges_def)
  then have "tn_scheduled (?ts ! z)" using ok(2) z(1) by (simp add: progress_ok_def filter_empty_conv)
  then show False using none z by blast
qed

text \<open>
  C37. A started sequence finishes: each step of a call or of the pool uses up work, and when nothing
  is left to do the sequence is not running, every task of the last run was executed or refused, and
  \<open>finished\<close> was emitted exactly once for each start.
\<close>

theorem sequence_finishes:
  assumes "seq_reachable r"
  shows "(\<forall>r'. task_step r r' \<longrightarrow> sequence_work r' < sequence_work r) \<and>
    ((\<nexists>r'. task_step r r') \<longrightarrow>
       \<not> sq_running (sr_seq r) \<and> sr_finished r = sr_starts r \<and>
       set (map fst (sr_executed r)) \<union> set (sr_refused r) = {..<sr_total r})"
proof (intro conjI allI impI)
  have inv: "seq_inv r" by (rule seq_reachable_inv [OF assms])
  then show "sequence_work r' < sequence_work r" if "task_step r r'" for r'
    by (rule task_step_work [OF that])
  assume stuck: "\<nexists>r'. task_step r r'"
  have "frames r = []" using frame_steps stuck by blast
  moreover have "sr_pool r = []"
  proof (rule ccontr)
    assume "sr_pool r \<noteq> []"
    then obtain i input qs where "sr_pool r = [] @ (i, input) # qs" by (metis append_Nil neq_Nil_conv surj_pair)
    then show False using stuck task_step.take_task by blast
  qed
  ultimately have "in_flight r = []" "length (filter frame_ends (frames r)) = 0"
    by (simp_all add: in_flight_def del: concat_eq_Nil_conv)
  with running_has_work [OF inv] inv
  have "\<not> sq_running (sr_seq r) \<and> sr_starts r = sr_finished r \<and> set (settled r) = {..<sr_total r}"
    by (auto simp: seq_inv_def split: if_splits)
  then show "\<not> sq_running (sr_seq r)" "sr_finished r = sr_starts r"
    "set (map fst (sr_executed r)) \<union> set (sr_refused r) = {..<sr_total r}"
    by (simp_all add: settled_def)
qed


section \<open>Examples\<close>

text \<open>Two tasks, the second after the first, up to the last emission of the second one.\<close>

definition demo_pair :: "nat AsyncTaskSequence" where
  "demo_pair = snd (AsyncTaskSequence_addDependency 0 1
     (snd (AsyncTaskSequence_addTask 12 (snd (AsyncTaskSequence_addTask 11 AsyncTaskSequence_init)))))"

definition demo_value :: "nat AsyncTaskContext" where
  "demo_value = AsyncTaskContext [(''n'', 7)] []"

definition demo_first :: "nat AsyncTaskSequence" where
  "demo_first = snd (AsyncTaskSequence_start 5 demo_pair)"

definition demo_second :: "nat AsyncTaskSequence" where
  "demo_second = snd (snd (the (AsyncTaskSequence_onTaskFinished 0 demo_value demo_first)))"

definition demo_last :: "nat AsyncTaskSequence" where
  "demo_last = snd (snd (the (AsyncTaskSequence_onTaskFinished 1 AsyncTaskContext_init demo_second)))"

definition demo_run :: "nat AsyncTaskSequence \<Rightarrow> (nat \<times> nat AsyncTaskContext) list \<Rightarrow> nat frame list list
    \<Rightarrow> (nat \<times> nat AsyncTaskContext) list \<Rightarrow> nat seq_run" where
  "demo_run s queued calls executed = \<lparr>sr_seq = s, sr_pool = queued, sr_calls = calls,
     sr_executed = executed, sr_refused = [], sr_total = 2, sr_starts = 1, sr_finished = 0\<rparr>"

abbreviation demo_input :: "nat AsyncTaskContext" where
  "demo_input \<equiv> AsyncTaskContext [(''n'', 7)] [(0, demo_value)]"

lemmas demo_defs = demo_pair_def AsyncTaskSequence_addDependency_def AsyncTaskSequence_addTask_def
  AsyncTaskSequence_init_def TaskNode_init_def isValidTaskId_def add_dependent_def add_dependency_def Let_def

lemma demo_edges: "task_edges (sq_tasks demo_pair) = {(0, 1)}"
  by (auto simp: demo_defs task_edges_def less_Suc_eq nth_Cons')

lemma demo_start: "AsyncTaskSequence_start 5 demo_pair = (Some [0], demo_first)"
proof -
  have "acyclic {(0::nat, 1)}" by (rule acyclicI_order [where f = "\<lambda>i. 1 - i"]) auto
  then have "hasValidGraph (sq_tasks demo_pair) = Some True"
    unfolding validGraph_acyclic_iff demo_edges by (auto simp: demo_defs edges_in_range_def)
  then show ?thesis
    by (simp add: demo_first_def AsyncTaskSequence_start_def) (simp add: demo_defs upt_rec)
qed

lemma demo_first_state:
  "sq_running demo_first" "sq_remainingTasks demo_first = 2" "sq_pool demo_first = 5"
  "sq_tasks demo_first =
    [\<lparr>tn_task = 11, tn_dependents = [1], tn_dependencies = [], tn_output = AsyncTaskContext_init,
      tn_pendingDependencies = 0, tn_scheduled = True, tn_done = False\<rparr>,
     \<lparr>tn_task = 12, tn_dependents = [], tn_dependencies = [0], tn_output = AsyncTaskContext_init,
      tn_pendingDependencies = 1, tn_scheduled = False, tn_done = False\<rparr>]"
proof -
  have valid: "hasValidGraph (sq_tasks demo_pair) = Some True"
    using demo_start by (auto simp: AsyncTaskSequence_start_def split: if_splits)
  show "sq_running demo_first" "sq_remainingTasks demo_first = 2" "sq_pool demo_first = 5"
    "sq_tasks demo_first =
    [\<lparr>tn_task = 11, tn_dependents = [1], tn_dependencies = [], tn_output = AsyncTaskContext_init,
      tn_pendingDependencies = 0, tn_scheduled = True, tn_done = False\<rparr>,
     \<lparr>tn_task = 12, tn_dependents = [], tn_dependencies = [0], tn_output = AsyncTaskContext_init,
      tn_pendingDependencies = 1, tn_scheduled = False, tn_done = False\<rparr>]"
    using valid by (simp_all add: demo_first_def AsyncTaskSequence_start_def)
      (simp_all add: demo_defs reset_node_def)
qed

lemma demo_second_state:
  "AsyncTaskSequence_onTaskFinished 0 demo_value demo_first = Some ([1], False, demo_second)"
  "sq_running demo_second" "sq_remainingTasks demo_second = 1" "sq_pool demo_second = 5"
  "sq_tasks demo_second =
    [\<lparr>tn_task = 11, tn_dependents = [1], tn_dependencies = [], tn_output = demo_value,
      tn_pendingDependencies = 0, tn_scheduled = True, tn_done = True\<rparr>,
     \<lparr>tn_task = 12, tn_dependents = [], tn_dependencies = [0], tn_output = AsyncTaskContext_init,
      tn_pendingDependencies = 0, tn_scheduled = True, tn_done = False\<rparr>]"
  unfolding demo_second_def
  by (simp_all add: AsyncTaskSequence_onTaskFinished_def demo_first_state isValidTaskId_def Let_def
      finish_node_def count_down_def)

lemma demo_last_state:
  "AsyncTaskSequence_onTaskFinished 1 AsyncTaskContext_init demo_second = Some ([], True, demo_last)"
  "\<not> sq_running demo_last"
  unfolding demo_last_def
  by (simp_all add: AsyncTaskSequence_onTaskFinished_def demo_second_state isValidTaskId_def Let_def
      finish_node_def count_down_def)

lemma demo_inputs:
  "AsyncTaskSequence_scheduleTask 0 demo_first = Some (11, AsyncTaskContext_init, 5)"
  "AsyncTaskSequence_scheduleTask 1 demo_second = Some (12, demo_input, 5)"
  by (simp_all add: AsyncTaskSequence_scheduleTask_def demo_first_state demo_second_state isValidTaskId_def
      buildInputForTask_def add_input_def AsyncTaskContext_mergeFrom_def AsyncTaskContext_setDependencyOutput_def
      demo_value_def AsyncTaskContext_init_def)

lemma demo_started: "seq_reachable (demo_run demo_first [] [[Scheduling [0] False]] [])"
proof -
  have a: "seq_reachable (seq_run_init\<lparr>sr_seq := snd (AsyncTaskSequence_addTask 11 AsyncTaskSequence_init)\<rparr>)"
    using seq_reachable.add_task [OF seq_reachable.new, of 11 0 "snd (AsyncTaskSequence_addTask 11 AsyncTaskSequence_init)"]
    by (simp add: seq_run_init_def AsyncTaskSequence_addTask_def AsyncTaskSequence_init_def)
  have b: "seq_reachable (seq_run_init\<lparr>sr_seq := snd (AsyncTaskSequence_addTask 12
      (snd (AsyncTaskSequence_addTask 11 AsyncTaskSequence_init)))\<rparr>)"
    using seq_reachable.add_task [OF a, of 12 1 "snd (AsyncTaskSequence_addTask 12
      (snd (AsyncTaskSequence_addTask 11 AsyncTaskSequence_init)))"]
    by (simp add: AsyncTaskSequence_addTask_def AsyncTaskSequence_init_def)
  have c: "seq_reachable (seq_run_init\<lparr>sr_seq := demo_pair\<rparr>)"
    using seq_reachable.add_dependency [OF b, of 0 1 True demo_pair]
    by (simp add: demo_pair_def prod_eq_iff) (simp add: demo_defs)
  have "length (sq_tasks demo_first) = 2" by (simp add: demo_first_state)
  with seq_reachable.start [OF c, of 5 "[0]" demo_first] show ?thesis
    by (simp add: demo_start seq_run_init_def demo_run_def)
qed

abbreviation demo_both :: "(nat \<times> nat AsyncTaskContext) list" where
  "demo_both \<equiv> [(0, AsyncTaskContext_init), (1, demo_input)]"

lemma demo_halfway:
  "seq_reachable (demo_run demo_second [] [[Scheduling [] False], [Scheduling [] False], [Executing 1 demo_input]] demo_both)"
proof -
  have 1: "seq_reachable (demo_run demo_first [(0, AsyncTaskContext_init)] [[Scheduling [] False]] [])"
    using seq_reachable.step [OF demo_started task_step.schedule_accepted [of _ "[]" 0 "[]" False "[]" "[]"
      11 AsyncTaskContext_init 5]]
    by (simp add: demo_run_def demo_inputs [simplified])
  have 2: "seq_reachable (demo_run demo_first [] [[Scheduling [] False], [Executing 0 AsyncTaskContext_init]]
      [(0, AsyncTaskContext_init)])"
    using seq_reachable.step [OF 1 task_step.take_task [of _ "[]" 0 AsyncTaskContext_init "[]"]]
    by (simp add: demo_run_def)
  have ex: "AsyncTask_execute (\<lambda>_. (demo_value, False)) AsyncTaskContext_init \<lparr>at_exception = False\<rparr>
      = (demo_value, \<lparr>at_exception = False\<rparr>)"
    by (simp add: AsyncTask_execute_def)
  have 3: "seq_reachable (demo_run demo_first [] [[Scheduling [] False], [Finishing 0 demo_value]]
      [(0, AsyncTaskContext_init)])"
    using seq_reachable.step [OF 2 task_step.execute [of _ "[[Scheduling [] False]]" 0 AsyncTaskContext_init "[]" "[]"
      "\<lambda>_. (demo_value, False)" "\<lparr>at_exception = False\<rparr>" demo_value "\<lparr>at_exception = False\<rparr>"]] ex
    by (simp add: demo_run_def)
  have 4: "seq_reachable (demo_run demo_second [] [[Scheduling [] False], [Reporting 0 [1] False]]
      [(0, AsyncTaskContext_init)])"
    using seq_reachable.step [OF 3 task_step.finish [of _ "[[Scheduling [] False]]" 0 demo_value "[]" "[]"
      "[1]" False demo_second]]
    by (simp add: demo_run_def demo_second_state)
  have 5: "seq_reachable (demo_run demo_second [] [[Scheduling [] False], [Scheduling [1] False]]
      [(0, AsyncTaskContext_init)])"
    using seq_reachable.step [OF 4 task_step.report [of _ "[[Scheduling [] False]]" 0 "[1]" False "[]" "[]"]]
    by (simp add: demo_run_def)
  have 6: "seq_reachable (demo_run demo_second [(1, demo_input)] [[Scheduling [] False], [Scheduling [] False]]
      [(0, AsyncTaskContext_init)])"
    using seq_reachable.step [OF 5 task_step.schedule_accepted [of _ "[[Scheduling [] False]]" 1 "[]" False "[]" "[]"
      12 demo_input 5]]
    by (simp add: demo_run_def demo_inputs [simplified])
  show ?thesis
    using seq_reachable.step [OF 6 task_step.take_task [of _ "[]" 1 demo_input "[]"]] by (simp add: demo_run_def)
qed

lemma demo_ending:
  "seq_reachable (demo_run demo_last [] [[Scheduling [] False], [Scheduling [] False], [Reporting 1 [] True]] demo_both)"
proof -
  have ex: "AsyncTask_execute (\<lambda>_. (AsyncTaskContext_init, False)) demo_input \<lparr>at_exception = False\<rparr>
      = (AsyncTaskContext_init, \<lparr>at_exception = False\<rparr>)"
    by (simp add: AsyncTask_execute_def)
  have 1: "seq_reachable (demo_run demo_second [] [[Scheduling [] False], [Scheduling [] False],
      [Finishing 1 AsyncTaskContext_init]] demo_both)"
    using seq_reachable.step [OF demo_halfway task_step.execute [of _ "[[Scheduling [] False], [Scheduling [] False]]"
      1 demo_input "[]" "[]" "\<lambda>_. (AsyncTaskContext_init, False)" "\<lparr>at_exception = False\<rparr>" AsyncTaskContext_init
      "\<lparr>at_exception = False\<rparr>"]] ex by (simp add: demo_run_def)
  show ?thesis
    using seq_reachable.step [OF 1 task_step.finish [of _ "[[Scheduling [] False], [Scheduling [] False]]"
      1 AsyncTaskContext_init "[]" "[]" "[]" True demo_last]] by (simp add: demo_run_def demo_last_state [simplified])
qed

lemma demo_quiet:
  "seq_reachable ((demo_run demo_last [] [[], [], []] demo_both)\<lparr>sr_finished := 1\<rparr>)"
proof -
  have 1: "seq_reachable (demo_run demo_last [] [[Scheduling [] False], [Scheduling [] False], [Scheduling [] True]] demo_both)"
    using seq_reachable.step [OF demo_ending task_step.report [of _ "[[Scheduling [] False], [Scheduling [] False]]"
      1 "[]" True "[]" "[]"]] by (simp add: demo_run_def)
  have 2: "seq_reachable ((demo_run demo_last [] [[Scheduling [] False], [Scheduling [] False], []] demo_both)\<lparr>sr_finished := 1\<rparr>)"
    using seq_reachable.step [OF 1 task_step.leave_call [of _ "[[Scheduling [] False], [Scheduling [] False]]" True "[]" "[]"]]
    by (simp add: demo_run_def)
  have 3: "seq_reachable ((demo_run demo_last [] [[Scheduling [] False], [], []] demo_both)\<lparr>sr_finished := 1\<rparr>)"
    using seq_reachable.step [OF 2 task_step.leave_call [of _ "[[Scheduling [] False]]" False "[]" "[[]]"]]
    by (simp add: demo_run_def)
  show ?thesis
    using seq_reachable.step [OF 3 task_step.leave_call [of _ "[]" False "[]" "[[], []]"]] by (simp add: demo_run_def)
qed

theorem task_runs_once_after_dependencies_witness:
  "distinct [0, 1::nat] \<and> AsyncTaskContext_dependencyOutput 0 demo_input = Some (tn_output (sq_tasks demo_second ! 0))"
  using task_runs_once_after_dependencies [OF demo_halfway]
  by (simp add: demo_run_def demo_second_state Let_def)

theorem sequence_finishes_witness:
  "\<not> sq_running demo_last \<and> fst ` set demo_both = {..<2}"
proof -
  have "\<nexists>r'. task_step ((demo_run demo_last [] [[], [], []] demo_both)\<lparr>sr_finished := 1\<rparr>) r'"
    by (auto simp: demo_run_def append_eq_Cons_conv Cons_eq_append_conv elim!: task_step.cases)
  then show ?thesis using sequence_finishes [OF demo_quiet] by (simp add: demo_run_def)
qed

text \<open>
  What \<open>wait\<close>, and with it the destructor, waits for is too early: it may return while the call
  that finished the last task has released the lock but still has to emit \<open>taskFinished\<close> and
  \<open>finished\<close>, which are members of the sequence.
\<close>

theorem wait_returns_before_finished:
  "\<exists>r :: nat seq_run. seq_reachable r \<and> wait_may_return (sr_seq r) \<and>
     Reporting 1 [] True \<in> set (frames r) \<and> sr_finished r < sr_starts r"
proof -
  let ?r = "demo_run demo_last [] [[Scheduling [] False], [Scheduling [] False], [Reporting 1 [] True]] demo_both"
  have "wait_may_return (sr_seq ?r) \<and> Reporting 1 [] True \<in> set (frames ?r) \<and> sr_finished ?r < sr_starts ?r"
    by (simp add: demo_run_def wait_may_return_def demo_last_state)
  with demo_ending show ?thesis by blast
qed

end
