(* ===== verification/CommandLines.thy ===== *)
theory CommandLines
  imports Prelude
begin

text \<open>
  \<open>snf::CommandLineParser\<close> (\<open>Core/src/SNFCore/CommandLineParser.cpp\<close>, \<open>CommandLineOption.cpp\<close>): the
  options of a program and the loop over its arguments. Printing the help or the version ends the
  process (\<open>std::exit\<close>), so the outcome of parsing is either a truth value or a text that was printed
  before leaving.
\<close>

section \<open>Options\<close>

record CommandLineOption =
  co_names :: "string list"
  co_description :: string
  co_defaultValue :: string
  co_value :: string
  co_isFlag :: bool
  co_isSet :: bool

definition CommandLineOption_flag :: "string list \<Rightarrow> string \<Rightarrow> CommandLineOption" where
  "CommandLineOption_flag names description =
     \<lparr>co_names = names, co_description = description, co_defaultValue = [], co_value = [],
      co_isFlag = True, co_isSet = False\<rparr>"

definition CommandLineOption_valued :: "string list \<Rightarrow> string \<Rightarrow> string \<Rightarrow> CommandLineOption" where
  "CommandLineOption_valued names description defaultValue =
     \<lparr>co_names = names, co_description = description, co_defaultValue = defaultValue, co_value = defaultValue,
      co_isFlag = False, co_isSet = False\<rparr>"

definition CommandLineOption_name :: "CommandLineOption \<Rightarrow> string" where
  "CommandLineOption_name opt = (if co_names opt = [] then [] else co_names opt ! 0)"

definition CommandLineOption_setValue :: "string \<Rightarrow> CommandLineOption \<Rightarrow> CommandLineOption" where
  "CommandLineOption_setValue v opt = opt\<lparr>co_value := v, co_isSet := True\<rparr>"

definition CommandLineOption_setIsSet :: "bool \<Rightarrow> CommandLineOption \<Rightarrow> CommandLineOption" where
  "CommandLineOption_setIsSet b opt = opt\<lparr>co_isSet := b\<rparr>"


section \<open>The parser\<close>

record CommandLineParser =
  cp_options :: "CommandLineOption list"
  cp_version :: string
  cp_errorText :: string

definition CommandLineParser_init :: CommandLineParser where
  "CommandLineParser_init = \<lparr>cp_options = [], cp_version = [], cp_errorText = []\<rparr>"

text \<open>\<open>addOption\<close>: an option with the same primary name is replaced where it stands.\<close>

fun put_option :: "CommandLineOption \<Rightarrow> CommandLineOption list \<Rightarrow> CommandLineOption list" where
  "put_option opt [] = [opt]"
| "put_option opt (x # xs) =
     (if CommandLineOption_name x = CommandLineOption_name opt then opt # xs else x # put_option opt xs)"

definition CommandLineParser_addOption :: "CommandLineOption \<Rightarrow> CommandLineParser \<Rightarrow> CommandLineParser" where
  "CommandLineParser_addOption opt p = p\<lparr>cp_options := put_option opt (cp_options p)\<rparr>"

definition CommandLineParser_setApplicationVersion :: "string \<Rightarrow> CommandLineParser \<Rightarrow> CommandLineParser" where
  "CommandLineParser_setApplicationVersion v p = p\<lparr>cp_version := v\<rparr>"

text \<open>\<open>findOption\<close>: where the first option with that name among its names stands.\<close>

fun find_option :: "string \<Rightarrow> CommandLineOption list \<Rightarrow> nat option" where
  "find_option n [] = None"
| "find_option n (x # xs) = (if n \<in> set (co_names x) then Some 0 else map_option Suc (find_option n xs))"

definition CommandLineParser_findOption :: "string \<Rightarrow> CommandLineParser \<Rightarrow> nat option" where
  "CommandLineParser_findOption n p = find_option n (cp_options p)"

definition at_option :: "nat \<Rightarrow> (CommandLineOption \<Rightarrow> CommandLineOption) \<Rightarrow> CommandLineParser \<Rightarrow> CommandLineParser" where
  "at_option i f p = p\<lparr>cp_options := (cp_options p)[i := f (cp_options p ! i)]\<rparr>"

definition CommandLineParser_value :: "string \<Rightarrow> CommandLineParser \<Rightarrow> string" where
  "CommandLineParser_value n p =
     (case CommandLineParser_findOption n p of
        None \<Rightarrow> []
      | Some i \<Rightarrow> let opt = cp_options p ! i in if co_isSet opt then co_value opt else co_defaultValue opt)"

definition CommandLineParser_isSet :: "string \<Rightarrow> CommandLineParser \<Rightarrow> bool" where
  "CommandLineParser_isSet n p =
     (case CommandLineParser_findOption n p of None \<Rightarrow> False | Some i \<Rightarrow> co_isSet (cp_options p ! i))"

text \<open>\<open>printHelp\<close>, as the text it prints.\<close>

fun names_text :: "bool \<Rightarrow> string list \<Rightarrow> string" where
  "names_text again [] = []"
| "names_text again (n # ns) =
     (if again then '', '' else []) @ (if length n = 1 then ''-'' @ n else ''--'' @ n) @ names_text True ns"

definition names_width :: "CommandLineOption list \<Rightarrow> nat" where
  "names_width opts = max (fold (\<lambda>opt w. max w (length (names_text False (co_names opt)))) opts 0) 20"

definition help_line :: "nat \<Rightarrow> CommandLineOption \<Rightarrow> string" where
  "help_line width opt =
     (let names = names_text False (co_names opt)
      in ''  '' @ names @ replicate (width + 2 - length names) CHR '' '' @ co_description opt @
         (if co_defaultValue opt \<noteq> [] \<and> \<not> co_isFlag opt
          then '' (default: '' @ co_defaultValue opt @ '')'' else []) @ [lf])"

definition CommandLineParser_printHelp :: "CommandLineParser \<Rightarrow> string" where
  "CommandLineParser_printHelp p =
     (let width = names_width (cp_options p)
      in ''Usage: [options]'' @ [lf, lf] @
         (if cp_version p \<noteq> [] then ''Version: '' @ cp_version p @ [lf, lf] else []) @
         ''Options:'' @ [lf] @
         concat (map (help_line width) (cp_options p)) @
         ''  -h, --help'' @ replicate (width - 10 + 2) CHR '' '' @ ''Show this help message'' @ [lf] @
         (if cp_version p \<noteq> [] then ''  --version'' @ replicate (width - 9 + 2) CHR '' '' @ ''Show version'' @ [lf]
          else []))"


section \<open>The arguments\<close>

datatype parse_outcome = Returns bool | Exits string

text \<open>\<open>-abc\<close>: every letter is a flag; the loop stops at the first that is not.\<close>

fun set_flags :: "string \<Rightarrow> CommandLineParser \<Rightarrow> (string option) \<times> CommandLineParser" where
  "set_flags [] p = (None, p)"
| "set_flags (c # cs) p =
     (case CommandLineParser_findOption [c] p of
        None \<Rightarrow> (Some (''Unknown option: -'' @ [c]), p)
      | Some i \<Rightarrow>
          if \<not> co_isFlag (cp_options p ! i)
          then (Some (''Option -'' @ [c] @ '' requires a value and cannot be combined''), p)
          else set_flags cs (at_option i (CommandLineOption_setIsSet True) p))"

definition option_name :: "string \<Rightarrow> string" where
  "option_name s = (case find_char CHR ''='' s of None \<Rightarrow> s | Some k \<Rightarrow> take k s)"

definition option_value :: "string \<Rightarrow> string" where
  "option_value s = (case find_char CHR ''='' s of None \<Rightarrow> [] | Some k \<Rightarrow> drop (k + 1) s)"

text \<open>
  The body of the loop of \<open>parse\<close>, on the argument and those behind it: it goes on with the rest, an
  option that takes the next argument having dropped it, or ends.
\<close>

datatype arg_step = Goes_on "string list" CommandLineParser | Ends parse_outcome CommandLineParser

definition long_option :: "string \<Rightarrow> string list \<Rightarrow> CommandLineParser \<Rightarrow> arg_step" where
  "long_option arg rest p =
     (let optName = option_name (drop 2 arg); optValue = option_value (drop 2 arg)
      in case CommandLineParser_findOption optName p of
           None \<Rightarrow> Ends (Returns False) (p\<lparr>cp_errorText := ''Unknown option: --'' @ optName\<rparr>)
         | Some i \<Rightarrow>
             if co_isFlag (cp_options p ! i) then
               (if optValue \<noteq> []
                then Ends (Returns False) (p\<lparr>cp_errorText := ''Option --'' @ optName @ '' does not take a value''\<rparr>)
                else Goes_on rest (at_option i (CommandLineOption_setIsSet True) p))
             else if optValue = [] then
               (case rest of
                  [] \<Rightarrow> Ends (Returns False) (p\<lparr>cp_errorText := ''Option --'' @ optName @ '' requires a value''\<rparr>)
                | v # rest' \<Rightarrow> Goes_on rest' (at_option i (CommandLineOption_setValue v) p))
             else Goes_on rest (at_option i (CommandLineOption_setValue optValue) p))"

definition short_option :: "string \<Rightarrow> string list \<Rightarrow> CommandLineParser \<Rightarrow> arg_step" where
  "short_option arg rest p =
     (let shortNames = drop 1 arg
      in if find_char CHR ''='' shortNames \<noteq> None then
           (let optName = option_name shortNames
            in case CommandLineParser_findOption optName p of
                 None \<Rightarrow> Ends (Returns False) (p\<lparr>cp_errorText := ''Unknown option: -'' @ optName\<rparr>)
               | Some i \<Rightarrow>
                   if co_isFlag (cp_options p ! i)
                   then Ends (Returns False) (p\<lparr>cp_errorText := ''Option -'' @ optName @ '' does not take a value''\<rparr>)
                   else Goes_on rest (at_option i (CommandLineOption_setValue (option_value shortNames)) p))
         else if length shortNames = 1 then
           (case CommandLineParser_findOption shortNames p of
              None \<Rightarrow> Ends (Returns False) (p\<lparr>cp_errorText := ''Unknown option: -'' @ shortNames\<rparr>)
            | Some i \<Rightarrow>
                if co_isFlag (cp_options p ! i) then Goes_on rest (at_option i (CommandLineOption_setIsSet True) p)
                else (case rest of
                        [] \<Rightarrow> Ends (Returns False) (p\<lparr>cp_errorText := ''Option -'' @ shortNames @ '' requires a value''\<rparr>)
                      | v # rest' \<Rightarrow> Goes_on rest' (at_option i (CommandLineOption_setValue v) p)))
         else (case set_flags shortNames p of
                 (Some msg, p') \<Rightarrow> Ends (Returns False) (p'\<lparr>cp_errorText := msg\<rparr>)
               | (None, p') \<Rightarrow> Goes_on rest p'))"

definition parse_argument :: "string \<Rightarrow> string list \<Rightarrow> CommandLineParser \<Rightarrow> arg_step" where
  "parse_argument arg rest p =
     (if (arg = ''--help'' \<or> arg = ''-h'') \<and> CommandLineParser_findOption ''help'' p = None
      then Ends (Exits (CommandLineParser_printHelp p)) p
      else if arg = ''--version'' \<and> CommandLineParser_findOption ''version'' p = None \<and> cp_version p \<noteq> []
      then Ends (Exits (cp_version p @ [lf])) p
      else if take 2 arg = ''--'' then long_option arg rest p
      else if take 1 arg = ''-'' \<and> 1 < length arg then short_option arg rest p
      else Ends (Returns False) (p\<lparr>cp_errorText := ''Unknown argument: '' @ arg\<rparr>))"

lemma parse_argument_shorter:
  "parse_argument arg rest p = Goes_on rest' p' \<Longrightarrow> length rest' \<le> length rest"
  by (auto simp: parse_argument_def long_option_def short_option_def Let_def
      split: if_splits option.splits list.splits prod.splits)

function parse_arguments :: "string list \<Rightarrow> CommandLineParser \<Rightarrow> parse_outcome \<times> CommandLineParser" where
  "parse_arguments [] p = (Returns True, p)"
| "parse_arguments (arg # rest) p =
     (case parse_argument arg rest p of
        Ends r p' \<Rightarrow> (r, p')
      | Goes_on rest' p' \<Rightarrow> parse_arguments rest' p')"
  by pat_completeness auto

termination
  by (relation "measure (\<lambda>(args, p). length args)") (auto dest!: parse_argument_shorter [OF sym] parse_argument_shorter)

definition CommandLineParser_parse :: "string list \<Rightarrow> CommandLineParser \<Rightarrow> parse_outcome \<times> CommandLineParser" where
  "CommandLineParser_parse argv p = parse_arguments (tl argv) (p\<lparr>cp_errorText := []\<rparr>)"


section \<open>Options keep their kind\<close>

text \<open>What of the parser no argument changes: names, kinds and defaults of the options, and the version.\<close>

definition shape :: "CommandLineParser \<Rightarrow> (string list \<times> bool \<times> string) list \<times> string" where
  "shape p = (map (\<lambda>opt. (co_names opt, co_isFlag opt, co_defaultValue opt)) (cp_options p), cp_version p)"

definition option_ok :: "CommandLineOption \<Rightarrow> bool" where
  "option_ok opt \<longleftrightarrow> (co_isFlag opt \<longrightarrow> co_value opt = [] \<and> co_defaultValue opt = []) \<and>
     (\<not> co_isSet opt \<longrightarrow> co_value opt = co_defaultValue opt)"

definition options_ok :: "CommandLineParser \<Rightarrow> bool" where
  "options_ok p \<longleftrightarrow> (\<forall>opt \<in> set (cp_options p). option_ok opt)"

lemma find_option_map: "find_option n xs = find_option n ys" if "map co_names xs = map co_names ys"
  using that
proof (induction xs arbitrary: ys)
  case (Cons x xs)
  then show ?case by (cases ys) auto
qed simp

lemma shape_eqD:
  assumes "shape p' = shape p"
  shows "CommandLineParser_findOption n p' = CommandLineParser_findOption n p" "cp_version p' = cp_version p"
    "length (cp_options p') = length (cp_options p)"
    "i < length (cp_options p) \<Longrightarrow> co_isFlag (cp_options p' ! i) = co_isFlag (cp_options p ! i)"
    "i < length (cp_options p) \<Longrightarrow> co_defaultValue (cp_options p' ! i) = co_defaultValue (cp_options p ! i)"
proof -
  let ?f = "\<lambda>opt. (co_names opt, co_isFlag opt, co_defaultValue opt)"
  have m: "map ?f (cp_options p') = map ?f (cp_options p)"
    using assms by (simp add: shape_def)
  have names: "map fst (map ?f opts) = map co_names opts" for opts by simp
  have "map co_names (cp_options p') = map co_names (cp_options p)"
    using arg_cong [OF m, of "map fst"] unfolding names .
  then show "CommandLineParser_findOption n p' = CommandLineParser_findOption n p"
    unfolding CommandLineParser_findOption_def by (rule find_option_map)
  show len: "length (cp_options p') = length (cp_options p)" using m by (rule map_eq_imp_length_eq)
  show "cp_version p' = cp_version p" using assms by (simp add: shape_def)
  have at: "?f (cp_options p' ! i) = ?f (cp_options p ! i)" if "i < length (cp_options p)"
    using arg_cong [OF m, of "\<lambda>xs. xs ! i"] that len by (simp only: nth_map)
  show "co_isFlag (cp_options p' ! i) = co_isFlag (cp_options p ! i)" if "i < length (cp_options p)"
    using at [OF that] by simp
  show "co_defaultValue (cp_options p' ! i) = co_defaultValue (cp_options p ! i)" if "i < length (cp_options p)"
    using at [OF that] by simp
qed

lemma find_option_Some: "find_option n xs = Some i \<Longrightarrow> i < length xs \<and> n \<in> set (co_names (xs ! i))"
  by (induction xs arbitrary: i) (auto split: if_splits)

lemma findOption_Some:
  "CommandLineParser_findOption n p = Some i \<Longrightarrow> i < length (cp_options p) \<and> n \<in> set (co_names (cp_options p ! i))"
  unfolding CommandLineParser_findOption_def by (rule find_option_Some)

lemma shape_at_option:
  assumes "i < length (cp_options p)"
    and "co_names (f (cp_options p ! i)) = co_names (cp_options p ! i)"
    and "co_isFlag (f (cp_options p ! i)) = co_isFlag (cp_options p ! i)"
    and "co_defaultValue (f (cp_options p ! i)) = co_defaultValue (cp_options p ! i)"
  shows "shape (at_option i f p) = shape p"
  using assms by (simp add: shape_def at_option_def map_update list_update_same_conv)

lemma shape_set [simp]:
  "i < length (cp_options p) \<Longrightarrow> shape (at_option i (CommandLineOption_setIsSet b) p) = shape p"
  "i < length (cp_options p) \<Longrightarrow> shape (at_option i (CommandLineOption_setValue v) p) = shape p"
  by (simp_all add: shape_at_option CommandLineOption_setIsSet_def CommandLineOption_setValue_def)

lemma options_ok_set:
  assumes "options_ok p" "i < length (cp_options p)"
  shows "co_isFlag (cp_options p ! i) \<Longrightarrow> options_ok (at_option i (CommandLineOption_setIsSet True) p)"
    and "\<not> co_isFlag (cp_options p ! i) \<Longrightarrow> options_ok (at_option i (CommandLineOption_setValue v) p)"
  using assms set_update_subset_insert [of "cp_options p" i]
  by (fastforce simp: options_ok_def at_option_def option_ok_def CommandLineOption_setIsSet_def
      CommandLineOption_setValue_def)+

lemma set_flags_ok:
  "set_flags cs p = (r, p') \<Longrightarrow> options_ok p \<Longrightarrow> options_ok p' \<and> shape p' = shape p"
proof (induction cs p arbitrary: r p' rule: set_flags.induct)
  case (2 c cs p)
  show ?case
  proof (cases "CommandLineParser_findOption [c] p")
    case (Some i)
    then have i: "i < length (cp_options p)" using findOption_Some by blast
    show ?thesis
    proof (cases "co_isFlag (cp_options p ! i)")
      case True
      then show ?thesis using 2 Some i options_ok_set(1) [OF _ i] by simp
    qed (use 2 Some in simp)
  qed (use 2 in simp)
qed simp

fun arg_parser :: "arg_step \<Rightarrow> CommandLineParser" where
  "arg_parser (Goes_on rest p) = p"
| "arg_parser (Ends r p) = p"

lemma options_ok_error [simp]: "options_ok (p\<lparr>cp_errorText := e\<rparr>) = options_ok p"
  by (simp add: options_ok_def)

lemma shape_error [simp]: "shape (p\<lparr>cp_errorText := e\<rparr>) = shape p"
  by (simp add: shape_def)

lemma long_option_ok:
  assumes "options_ok p"
  shows "options_ok (arg_parser (long_option arg rest p)) \<and> shape (arg_parser (long_option arg rest p)) = shape p"
proof (cases "CommandLineParser_findOption (option_name (drop 2 arg)) p")
  case (Some i)
  then have "i < length (cp_options p)" using findOption_Some by blast
  then show ?thesis using assms Some options_ok_set by (simp add: long_option_def Let_def split: list.splits)
qed (use assms in \<open>simp add: long_option_def\<close>)

lemma short_option_ok:
  assumes "options_ok p"
  shows "options_ok (arg_parser (short_option arg rest p)) \<and> shape (arg_parser (short_option arg rest p)) = shape p"
proof -
  have found: "i < length (cp_options p)" if "CommandLineParser_findOption n p = Some i" for n i
    using findOption_Some [OF that] by blast
  obtain r p' where fl: "set_flags (drop 1 arg) p = (r, p')" by force
  then have "options_ok p' \<and> shape p' = shape p" using set_flags_ok assms by blast
  then show ?thesis
    using assms options_ok_set found fl
    by (auto simp: short_option_def Let_def split: option.splits list.splits)
qed

lemma parse_argument_ok:
  assumes "options_ok p"
  shows "options_ok (arg_parser (parse_argument arg rest p)) \<and> shape (arg_parser (parse_argument arg rest p)) = shape p"
  using assms long_option_ok short_option_ok by (simp add: parse_argument_def)

lemma parse_arguments_ok:
  "options_ok p \<Longrightarrow> options_ok (snd (parse_arguments args p)) \<and> shape (snd (parse_arguments args p)) = shape p"
proof (induction args p rule: parse_arguments.induct)
  case (2 arg rest p)
  show ?case
  proof (cases "parse_argument arg rest p")
    case (Goes_on rest' p')
    then show ?thesis using 2 parse_argument_ok [OF 2(2), of arg rest] by simp
  next
    case (Ends r p')
    then show ?thesis using parse_argument_ok [OF 2(2), of arg rest] by simp
  qed
qed simp

inductive cmd_reachable :: "CommandLineParser \<Rightarrow> bool" where
  new: "cmd_reachable CommandLineParser_init"
| add_flag: "cmd_reachable p \<Longrightarrow> cmd_reachable (CommandLineParser_addOption (CommandLineOption_flag ns d) p)"
| add_valued: "cmd_reachable p \<Longrightarrow> cmd_reachable (CommandLineParser_addOption (CommandLineOption_valued ns d v) p)"
| version: "cmd_reachable p \<Longrightarrow> cmd_reachable (CommandLineParser_setApplicationVersion v p)"
| parse: "cmd_reachable p \<Longrightarrow> cmd_reachable (snd (CommandLineParser_parse argv p))"

lemma set_put_option: "set (put_option opt xs) \<subseteq> insert opt (set xs)"
  by (induction xs) auto

lemma cmd_reachable_ok: "cmd_reachable p \<Longrightarrow> options_ok p"
proof (induction rule: cmd_reachable.induct)
  case (add_flag p ns d)
  then show ?case using set_put_option
    by (fastforce simp: options_ok_def CommandLineParser_addOption_def option_ok_def CommandLineOption_flag_def)
next
  case (add_valued p ns d v)
  then show ?case using set_put_option
    by (fastforce simp: options_ok_def CommandLineParser_addOption_def option_ok_def CommandLineOption_valued_def)
next
  case (parse p argv)
  then show ?case using parse_arguments_ok by (simp add: CommandLineParser_parse_def)
qed (simp_all add: CommandLineParser_init_def options_ok_def CommandLineParser_setApplicationVersion_def)

text \<open>
  C38. However options were added and whatever was parsed before: parsing any arguments, accepted or not, finds every
  registered name at the same option as before, of the same kind and with the same default; and an
  option that is not set afterwards, flag or not, has that default as its value.
\<close>

theorem options_keep_their_kind:
  assumes "cmd_reachable p" "CommandLineParser_findOption n p = Some i" "CommandLineParser_parse argv p = (outcome, p')"
  shows "CommandLineParser_findOption n p' = Some i \<and>
    co_isFlag (cp_options p' ! i) = co_isFlag (cp_options p ! i) \<and>
    co_defaultValue (cp_options p' ! i) = co_defaultValue (cp_options p ! i) \<and>
    (\<not> CommandLineParser_isSet n p' \<longrightarrow> CommandLineParser_value n p' = co_defaultValue (cp_options p ! i))"
proof -
  have i: "i < length (cp_options p)" using findOption_Some [OF assms(2)] by simp
  have "shape p' = shape p"
    using parse_arguments_ok [of "p\<lparr>cp_errorText := []\<rparr>" "tl argv"] cmd_reachable_ok [OF assms(1)] assms(3)
    by (simp add: CommandLineParser_parse_def)
  note same = shape_eqD [OF this]
  have "cmd_reachable p'" using cmd_reachable.parse [OF assms(1), of argv] assms(3) by simp
  then have "option_ok (cp_options p' ! i)" using cmd_reachable_ok i same(3) by (simp add: options_ok_def)
  then show ?thesis
    using assms(2) same(1,4,5) i by (auto simp: CommandLineParser_value_def CommandLineParser_isSet_def option_ok_def Let_def)
qed


section \<open>What is given is read back\<close>




definition is_flag :: "CommandLineParser \<Rightarrow> string \<Rightarrow> bool" where
  "is_flag p n \<longleftrightarrow> (case CommandLineParser_findOption n p of None \<Rightarrow> False | Some i \<Rightarrow> co_isFlag (cp_options p ! i))"

definition is_valued :: "CommandLineParser \<Rightarrow> string \<Rightarrow> bool" where
  "is_valued p n \<longleftrightarrow> (case CommandLineParser_findOption n p of None \<Rightarrow> False | Some i \<Rightarrow> \<not> co_isFlag (cp_options p ! i))"

text \<open>The arguments that leave the process instead.\<close>

definition built_in :: "CommandLineParser \<Rightarrow> string \<Rightarrow> bool" where
  "built_in p arg \<longleftrightarrow>
     (arg = ''--help'' \<or> arg = ''-h'') \<and> CommandLineParser_findOption ''help'' p = None \<or>
     arg = ''--version'' \<and> CommandLineParser_findOption ''version'' p = None \<and> cp_version p \<noteq> []"

abbreviation eq_sign :: char where "eq_sign \<equiv> CHR ''=''"
abbreviation dash :: char where "dash \<equiv> CHR ''-''"


definition apply_setting :: "nat \<times> string option \<Rightarrow> CommandLineParser \<Rightarrow> CommandLineParser" where
  "apply_setting = (\<lambda>(i, v). at_option i (case v of None \<Rightarrow> CommandLineOption_setIsSet True | Some w \<Rightarrow> CommandLineOption_setValue w))"

lemma option_name_plain [simp]: "eq_sign \<notin> set n \<Longrightarrow> option_name n = n" "eq_sign \<notin> set n \<Longrightarrow> option_value n = []"
  by (simp_all add: option_name_def option_value_def find_char_None [THEN iffD2])

lemma option_name_assign [simp]:
  "eq_sign \<notin> set n \<Longrightarrow> option_name (n @ eq_sign # v) = n" "eq_sign \<notin> set n \<Longrightarrow> option_value (n @ eq_sign # v) = v"
  by (simp_all add: option_name_def option_value_def find_char_append)

lemma not_built_in_assign: "\<not> built_in p (dash # n @ eq_sign # v)"
proof -
  have "eq_sign \<notin> set ''--help''" "eq_sign \<notin> set ''-h''" "eq_sign \<notin> set ''--version''" by simp_all
  moreover have "eq_sign \<in> set (dash # n @ eq_sign # v)" by simp
  ultimately show ?thesis unfolding built_in_def by metis
qed


lemma parse_argument_not_built_in:
  assumes "\<not> built_in p arg"
  shows "parse_argument arg rest p =
     (if take 2 arg = ''--'' then long_option arg rest p
      else if take 1 arg = ''-'' \<and> 1 < length arg then short_option arg rest p
      else Ends (Returns False) (p\<lparr>cp_errorText := ''Unknown argument: '' @ arg\<rparr>))"
  using assms unfolding parse_argument_def built_in_def by (simp only: de_Morgan_disj if_False)




lemma apply_setting_error [simp]: "cp_errorText (apply_setting x p) = cp_errorText p"
  by (cases x) (simp add: apply_setting_def at_option_def)

lemma apply_settings_error [simp]: "cp_errorText (fold apply_setting xs p) = cp_errorText p"
  by (induction xs arbitrary: p) simp_all








definition demo_cmd :: CommandLineParser where
  "demo_cmd = CommandLineParser_addOption (CommandLineOption_valued [''o'', ''output''] ''file'' ''a.out'')
     (CommandLineParser_addOption (CommandLineOption_flag [''v'', ''verbose''] ''talk'') CommandLineParser_init)"

lemma demo_cmd_reachable: "cmd_reachable demo_cmd"
  unfolding demo_cmd_def by (intro cmd_reachable.intros)

lemmas demo_cmd_simps = demo_cmd_def CommandLineParser_addOption_def CommandLineParser_init_def
  CommandLineOption_valued_def CommandLineOption_flag_def CommandLineOption_name_def
  CommandLineParser_findOption_def is_flag_def is_valued_def built_in_def

theorem options_keep_their_kind_witness:
  "CommandLineParser_value ''output'' (snd (CommandLineParser_parse [''prog'', ''-v''] demo_cmd)) = ''a.out''"
proof -
  have parsed: "CommandLineParser_parse [''prog'', ''-v''] demo_cmd = (Returns True, at_option 0 (CommandLineOption_setIsSet True) demo_cmd)"
    by (simp add: CommandLineParser_parse_def parse_argument_def short_option_def demo_cmd_simps at_option_def)
  have "CommandLineParser_findOption ''output'' demo_cmd = Some 1" "co_defaultValue (cp_options demo_cmd ! 1) = ''a.out''"
    "\<not> CommandLineParser_isSet ''output'' (at_option 0 (CommandLineOption_setIsSet True) demo_cmd)"
    by (simp_all add: demo_cmd_simps at_option_def CommandLineOption_setIsSet_def CommandLineParser_isSet_def)
  then show ?thesis using options_keep_their_kind [OF demo_cmd_reachable _ parsed, of "''output''" 1] by (simp add: parsed)
qed


text \<open>An empty value after the equals sign is no value: the option takes the next argument instead.\<close>

lemma empty_assignment_takes_next:
  assumes "is_valued p n" "eq_sign \<notin> set n"
  shows "parse_arguments ((''--'' @ n @ ''='') # v # rest) p
    = parse_arguments rest (at_option (the (CommandLineParser_findOption n p)) (CommandLineOption_setValue v) p)"
proof -
  obtain i where "CommandLineParser_findOption n p = Some i" "\<not> co_isFlag (cp_options p ! i)"
    using assms(1) by (auto simp: is_valued_def split: option.splits)
  then show ?thesis using assms(2) not_built_in_assign [of p "dash # n" "[]"] option_name_assign [of n "[]"]
    by (simp add: parse_argument_not_built_in long_option_def)
qed

end
