(* ===== verification/TcpServers.thy ===== *)
theory TcpServers
  imports TcpSockets "HOL-Library.Multiset"
begin

text \<open>
  \<open>snf::TcpServer\<close> (\<open>Network/src/SNFNetwork/TcpServer.h\<close>, \<open>TcpServer.cpp\<close>): a listening socket and the
  queue of the connections it has accepted. The record extends that of \<open>IOEvent\<close>; every member runs
  inside the owner. The sockets the server has made and not handed out yet are objects in the
  environment, each with the signals posted for it. What the kernel answers to the next calls of
  \<open>accept4\<close> is a list in the environment, and so is the address a new object gets; the results of the
  other system calls are arguments. The environment also remembers the descriptors the kernel has given
  and the sockets made of them. Re-parenting a socket that is handed out changes only the tree.
\<close>

section \<open>State\<close>

record TcpServer = IOEvent +
  sv_pendingConnections :: "addr list"
  sv_maxPendingConnections :: nat
  sv_listening :: bool
  sv_serverPort :: "16 word"
  sv_serverAddress :: string

datatype server_signal = SigNewConnection | SigServerError string

text \<open>\<open>accept4\<close> gives a descriptor, with the outcome of making it non-blocking and the address of the new
  \<open>TcpSocket\<close>, or fails with an error number.\<close>

datatype accept_answer = Accepts int "int \<times> int" addr | AcceptFails int

record ('b, 't) server_env =
  se_loop :: "'t io_loop"
  se_posted :: "server_signal list"
  se_accepts :: "accept_answer list"
  se_sockets :: "addr \<Rightarrow> ('b TcpSocket \<times> tcp_signal list) option"
  se_closed :: "int list"
  se_given :: "int list"
  se_made :: "addr list"
  se_baseSignals :: "IOEventFlag list"
  se_strerror :: "int \<Rightarrow> string"

type_synonym ('b, 't) tcp_server = "TcpServer \<times> ('b, 't) server_env"

definition on_server_io :: "(TcpServer \<times> 't io_loop \<Rightarrow> TcpServer \<times> 't io_loop) \<Rightarrow> ('b, 't) tcp_server \<Rightarrow> ('b, 't) tcp_server" where
  "on_server_io f = (\<lambda>(v, w). case f (v, se_loop w) of (v', l) \<Rightarrow> (v', w\<lparr>se_loop := l\<rparr>))"

definition TcpServer_init :: TcpServer where
  "TcpServer_init = IOEvent.extend (IOEvent_init\<lparr>io_interest := flags_or [FlagRead, FlagError, FlagHangUp]\<rparr>)
     (TcpServer.fields [] 30 False 0 [])"


section \<open>Sockets of accepted connections\<close>

definition socket_env :: "tcp_signal list \<Rightarrow> ('b, 't) server_env \<Rightarrow> ('b, 't) tcp_env" where
  "socket_env posted w = \<lparr>te_loop = se_loop w, te_posted = posted, te_sends = [], te_recvs = [], te_sent = [],
     te_received = [], te_baseSignals = [], te_strerror = se_strerror w\<rparr>"

text \<open>\<open>new TcpSocket(fd, false, this)\<close> and \<open>delete socket\<close>.\<close>

definition new_socket :: "addr \<Rightarrow> int \<Rightarrow> int \<times> int \<Rightarrow> ('b, 't) server_env \<Rightarrow> ('b, 't) server_env" where
  "new_socket a fd mode w =
     (case adoptConnectedDescriptor a fd mode (TcpSocket_init False, socket_env [] w) of
        (s, e) \<Rightarrow> w\<lparr>se_loop := te_loop e, se_sockets := (se_sockets w)(a \<mapsto> (s, te_posted e)),
                     se_made := se_made w @ [a]\<rparr>)"

definition delete_socket :: "addr \<Rightarrow> ('b, 't) server_env \<Rightarrow> ('b, 't) server_env" where
  "delete_socket a w =
     (case se_sockets w a of
        None \<Rightarrow> w
      | Some (s, posted) \<Rightarrow>
          (case TcpSocket_destroy a (s, socket_env posted w) of
             (s', e) \<Rightarrow> w\<lparr>se_loop := te_loop e, se_sockets := (se_sockets w)(a := None),
                        se_closed := se_closed w @ io_closed s'\<rparr>))"


section \<open>Operations\<close>

definition emit_server :: "server_signal \<Rightarrow> ('b, 't) tcp_server \<Rightarrow> ('b, 't) tcp_server" where
  "emit_server x = (\<lambda>(v, w). (v, w\<lparr>se_posted := se_posted w @ [x]\<rparr>))"

definition TcpServer_failWithErrno :: "string \<Rightarrow> int \<Rightarrow> ('b, 't) tcp_server \<Rightarrow> ('b, 't) tcp_server" where
  "TcpServer_failWithErrno what code = (\<lambda>(v, w). emit_server (SigServerError (what @ '': '' @ se_strerror w code)) (v, w))"

definition forget_listener :: "TcpServer \<Rightarrow> TcpServer" where
  "forget_listener v = v\<lparr>sv_listening := False, sv_serverPort := 0, sv_serverAddress := [], sv_pendingConnections := []\<rparr>"

definition TcpServer_close :: "addr \<Rightarrow> ('b, 't) tcp_server \<Rightarrow> ('b, 't) tcp_server" where
  "TcpServer_close n p =
     (case on_server_io (IOEvent_setDescriptor n (- 1)) (on_server_io (IOEvent_stop n) p) of
        (v, w) \<Rightarrow> (forget_listener v, fold delete_socket (sv_pendingConnections v) w))"

text \<open>One address after the other: the call that fails, with its error number, or a listening descriptor.\<close>

datatype listen_attempt = NoSocket int | NoReuse int int | NoMode int int | NoBind int int | NoListen int int | ListensOn int

fun listen_candidates :: "int \<Rightarrow> listen_attempt list \<Rightarrow> int list \<Rightarrow> (int + int) \<times> int list" where
  "listen_candidates lastError [] closed = (Inl lastError, closed)"
| "listen_candidates lastError (NoSocket e # as) closed = listen_candidates e as closed"
| "listen_candidates lastError (NoReuse fd e # as) closed = listen_candidates e as (closed @ [fd])"
| "listen_candidates lastError (NoMode fd e # as) closed = listen_candidates e as (closed @ [fd])"
| "listen_candidates lastError (NoBind fd e # as) closed = listen_candidates e as (closed @ [fd])"
| "listen_candidates lastError (NoListen fd e # as) closed = listen_candidates e as (closed @ [fd])"
| "listen_candidates lastError (ListensOn fd # as) closed = (Inr fd, closed)"

abbreviation EADDRNOTAVAIL :: int where "EADDRNOTAVAIL \<equiv> 99"

text \<open>The outcome of resolving the host, and of \<open>getsockname\<close> (an error number or the port), are arguments.\<close>

definition TcpServer_listen :: "addr \<Rightarrow> string \<Rightarrow> string + listen_attempt list \<Rightarrow> int + 16 word
    \<Rightarrow> ('b, 't) tcp_server \<Rightarrow> bool \<times> ('b, 't) tcp_server" where
  "TcpServer_listen n host resolved sockname p =
     (let p0 = TcpServer_close n p
      in case resolved of
           Inl err \<Rightarrow> (False, emit_server (SigServerError (''Failed to resolve listen host '' @ [CHR 0x27] @ host @ [CHR 0x27] @ '': '' @ err)) p0)
         | Inr as \<Rightarrow>
             (case listen_candidates EADDRNOTAVAIL as [] of
                (outcome, closed) \<Rightarrow>
                  let p1 = ((fst p0)\<lparr>io_closed := io_closed (fst p0) @ closed\<rparr>, snd p0)
                  in case outcome of
                       Inl e \<Rightarrow> (False, TcpServer_failWithErrno ''listen() failed'' e p1)
                     | Inr fd \<Rightarrow>
                         (case sockname of
                            Inl e \<Rightarrow> (False, TcpServer_failWithErrno ''getsockname() failed'' e
                                       ((fst p1)\<lparr>io_closed := io_closed (fst p1) @ [fd]\<rparr>, snd p1))
                          | Inr port \<Rightarrow>
                              (case on_server_io (IOEvent_start n) (on_server_io (IOEvent_setDescriptor n fd) p1) of
                                 (v, w) \<Rightarrow> (True, v\<lparr>sv_listening := True, sv_serverPort := port, sv_serverAddress := host\<rparr>, w)))))"

definition TcpServer_hasPendingConnections :: "TcpServer \<Rightarrow> bool" where
  "TcpServer_hasPendingConnections v \<longleftrightarrow> sv_pendingConnections v \<noteq> []"

definition TcpServer_nextPendingConnection :: "TcpServer \<Rightarrow> addr option \<times> TcpServer" where
  "TcpServer_nextPendingConnection v =
     (case sv_pendingConnections v of
        [] \<Rightarrow> (None, v)
      | a # as \<Rightarrow> (Some a, v\<lparr>sv_pendingConnections := as\<rparr>))"

definition TcpServer_setMaxPendingConnections :: "nat \<Rightarrow> TcpServer \<Rightarrow> TcpServer" where
  "TcpServer_setMaxPendingConnections m v = v\<lparr>sv_maxPendingConnections := (if m = 0 then 1 else m)\<rparr>"

function accept_loop :: "('b, 't) tcp_server \<Rightarrow> ('b, 't) tcp_server" where
  "accept_loop (v, w) =
     (case se_accepts w of
        [] \<Rightarrow> (v, w)
      | AcceptFails e # as \<Rightarrow>
          let p = (v, w\<lparr>se_accepts := as\<rparr>)
          in if e = EAGAIN then p
             else if e = EINTR then accept_loop p
             else TcpServer_failWithErrno ''accept4() failed'' e p
      | Accepts fd mode a # as \<Rightarrow>
          let w1 = w\<lparr>se_accepts := as, se_given := se_given w @ [fd]\<rparr>
          in if length (sv_pendingConnections v) < sv_maxPendingConnections v
             then accept_loop (v\<lparr>sv_pendingConnections := sv_pendingConnections v @ [a]\<rparr>,
               (new_socket a fd mode w1)\<lparr>se_posted := se_posted w1 @ [SigNewConnection]\<rparr>)
             else accept_loop (v, w1\<lparr>se_closed := se_closed w1 @ [fd]\<rparr>))"
  by pat_completeness auto
termination
  by (relation "measure (\<lambda>(v, w). length (se_accepts w))")
    (auto simp: new_socket_def split: prod.splits)

declare accept_loop.simps [simp del]

definition TcpServer_acceptPendingConnections :: "('b, 't) tcp_server \<Rightarrow> ('b, 't) tcp_server" where
  "TcpServer_acceptPendingConnections p = (if io_fd (fst p) < 0 then p else accept_loop p)"

text \<open>The signals of the base class come first.\<close>

definition base_server_events :: "u32 \<Rightarrow> ('b, 't) tcp_server \<Rightarrow> ('b, 't) tcp_server" where
  "base_server_events native = (\<lambda>(v, w). (v, w\<lparr>se_baseSignals := se_baseSignals w @ IOEvent_handleEvents native\<rparr>))"

definition TcpServer_handleEvents :: "addr \<Rightarrow> u32 \<Rightarrow> ('b, 't) tcp_server \<Rightarrow> ('b, 't) tcp_server" where
  "TcpServer_handleEvents n native p =
     (let p0 = base_server_events native p;
          p1 = (if native AND EPOLLIN \<noteq> 0 then TcpServer_acceptPendingConnections p0 else p0)
      in if native AND (EPOLLERR OR EPOLLHUP OR EPOLLRDHUP) \<noteq> 0 then TcpServer_close n p1 else p1)"

definition TcpServer_destroy :: "addr \<Rightarrow> ('b, 't) tcp_server \<Rightarrow> ('b, 't) tcp_server" where
  "TcpServer_destroy n p =
     (case TcpServer_close n p of
        (v, w) \<Rightarrow> on_server_io (IOEvent_destroy n)
          (v\<lparr>sv_pendingConnections := []\<rparr>, fold delete_socket (sv_pendingConnections v) w))"


text \<open>
  The loop a server of a higher protocol runs on \<open>newConnection\<close>: as long as connections wait it takes
  the next one and deals with it.
\<close>

function take_pending :: "(addr \<Rightarrow> 's \<Rightarrow> 's) \<Rightarrow> 's \<Rightarrow> TcpServer \<Rightarrow> 's \<times> TcpServer" where
  "take_pending f s v =
     (if TcpServer_hasPendingConnections v
      then (case TcpServer_nextPendingConnection v of
              (None, v') \<Rightarrow> (s, v')
            | (Some a, v') \<Rightarrow> take_pending f (f a s) v')
      else (s, v))"
  by pat_completeness auto
termination
  by (relation "measure (\<lambda>(f, s, v). length (sv_pendingConnections v))")
    (auto simp: TcpServer_nextPendingConnection_def split: list.splits)

declare take_pending.simps [simp del]

lemma take_pending_all:
  "take_pending f s v = (fold f (sv_pendingConnections v) s, v\<lparr>sv_pendingConnections := []\<rparr>)"
proof (induction f s v rule: take_pending.induct)
  case (1 f s v)
  show ?case
  proof (cases "sv_pendingConnections v")
    case Nil
    then show ?thesis
      by (cases v) (subst take_pending.simps, simp add: TcpServer_hasPendingConnections_def)
  next
    case (Cons a as)
    then have nxt: "TcpServer_nextPendingConnection v = (Some a, v\<lparr>sv_pendingConnections := as\<rparr>)"
      "TcpServer_hasPendingConnections v"
      by (simp_all add: TcpServer_nextPendingConnection_def TcpServer_hasPendingConnections_def)
    then show ?thesis using 1 [OF nxt(2) nxt(1) [symmetric]] Cons by (subst take_pending.simps) simp
  qed
qed


section \<open>Where the descriptors are\<close>

text \<open>The descriptors that went through a socket: those it has closed and the one it holds.\<close>

definition descriptors :: "'z IOEvent_scheme \<Rightarrow> int multiset" where
  "descriptors e = mset (io_closed e) + (if 0 \<le> io_fd e then {#io_fd e#} else {#})"

lemma descriptors_io [simp]:
  "descriptors (fst (IOEvent_stop n p)) = descriptors (fst p)"
  "descriptors (fst (IOEvent_start n p)) = descriptors (fst p)"
  "descriptors (fst (IOEvent_setInterest n flags p)) = descriptors (fst p)"
  by (cases p; simp add: IOEvent_stop_def IOEvent_start_def IOEvent_setInterest_def IOEvent_syncRegistration_def descriptors_def)+

lemma descriptors_setDescriptor:
  "io_fd (fst p) \<noteq> fd \<Longrightarrow>
   descriptors (fst (IOEvent_setDescriptor n fd p)) = descriptors (fst p) + (if 0 \<le> fd then {#fd#} else {#})"
  by (cases p) (simp add: IOEvent_setDescriptor_def descriptors_def Let_def)

lemma descriptors_release [simp]: "descriptors (fst (IOEvent_setDescriptor n (- 1) p)) = descriptors (fst p)"
proof (cases "io_fd (fst p) = - 1")
  case True
  then show ?thesis by (cases p) (simp add: IOEvent_setDescriptor_def)
qed (simp add: descriptors_setDescriptor)

lemma descriptors_fields [simp]:
  "descriptors (s\<lparr>m_state := a\<rparr>) = descriptors s" "descriptors (s\<lparr>m_readBuffer := b\<rparr>) = descriptors s"
  "descriptors (s\<lparr>m_writeQueue := c\<rparr>) = descriptors s"
  by (simp_all add: descriptors_def)

lemma descriptors_tcp [simp]:
  "descriptors (fst (failWithErrno what e p)) = descriptors (fst p)"
  "descriptors (fst (applyDisconnectedState n em p)) = descriptors (fst p)"
  "descriptors (fst (set_state st p)) = descriptors (fst p)"
  "descriptors (fst (updateInterestForState n p)) = descriptors (fst p)"
  by (cases p; simp add: failWithErrno_def applyDisconnectedState_def transitionToDisconnected_def Let_def set_state_def
      updateInterestForState_def)+

lemma descriptors_flush: "descriptors (fst (snd (flush_loop n p))) = descriptors (fst p)"
  by (induction n p rule: flush_loop.induct)
    (subst flush_loop.simps, auto simp: Let_def split: list.splits send_answer.splits)

lemma descriptors_read: "descriptors (fst (read_loop n appended p)) = descriptors (fst p)"
  by (induction n appended p rule: read_loop.induct)
    (subst read_loop.simps, auto simp: Let_def split: list.splits recv_answer.splits)

lemma descriptors_handlers [simp]:
  "descriptors (fst (handleWritable n p)) = descriptors (fst p)"
  "descriptors (fst (handleReadable n p)) = descriptors (fst p)"
  by (simp_all add: handleWritable_def flushPendingWrites_def handleReadable_def descriptors_flush descriptors_read)

lemma descriptors_connected [simp]: "descriptors (fst (applyConnectedState n p)) = descriptors (fst p)"
  by (simp add: applyConnectedState_def)

lemma descriptors_ready [simp]: "descriptors (fst (handle_ready n native p)) = descriptors (fst p)"
  by (simp add: handle_ready_def Let_def)

lemma descriptors_events: "descriptors (fst (TcpSocket_handleEvents n native sockopt p)) = descriptors (fst p)"
  by (cases sockopt) (simp add: TcpSocket_handleEvents_def TcpSocket_react_def)

lemma fd_disconnected: "io_fd (fst (applyDisconnectedState n em p)) = - 1"
  by (cases p) (simp add: applyDisconnectedState_def transitionToDisconnected_def Let_def io_frame)

lemma closed_after_destroy: "mset (io_closed (fst (TcpSocket_destroy n p))) = descriptors (fst p)"
proof -
  let ?p = "TcpSocket_close n p"
  have fd: "io_fd (fst ?p) = - 1" by (simp add: TcpSocket_close_def fd_disconnected)
  then have "descriptors (fst ?p) = mset (io_closed (fst ?p))" by (simp add: descriptors_def)
  moreover have "descriptors (fst ?p) = descriptors (fst p)" by (simp add: TcpSocket_close_def)
  moreover have "io_closed (fst (TcpSocket_destroy n p)) = io_closed (fst ?p)"
    using fd by (simp add: TcpSocket_destroy_def IOEvent_destroy_def IOEvent_stop_def split: prod.splits)
  ultimately show ?thesis by simp
qed

lemma new_tcp_fields [simp]: "io_fd (TcpSocket_init b) = - 1" "io_closed (TcpSocket_init b) = []"
  by (simp_all add: TcpSocket_init_def IOEvent_init_def IOEvent.defs TcpSocket.defs)

lemma descriptors_adopted:
  assumes "0 \<le> fd"
  shows "descriptors (fst (adoptConnectedDescriptor a fd mode (TcpSocket_init b, e))) = {#fd#}"
proof (cases "fst mode < 0")
  case True
  then show ?thesis using assms by (simp add: adoptConnectedDescriptor_def close_fd_def) (simp add: descriptors_def)
next
  case False
  then show ?thesis
    using assms by (simp add: adoptConnectedDescriptor_def descriptors_setDescriptor) (simp add: descriptors_def)
qed


section \<open>Every connection is in one place\<close>

text \<open>
  The life of a server: the sockets handed out, in order, each with the descriptors that went through
  it, and the signals delivered. While a socket waits to be handed out it is an object like any other
  and gets events. The kernel gives descriptors, and memory for a new object that is not in use.
\<close>

record ('b, 't) server_run =
  sr_server :: "('b, 't) tcp_server"
  sr_taken :: "addr list"
  sr_handed :: "int multiset"
  sr_delivered :: "server_signal list"

fun answer_addr :: "accept_answer \<Rightarrow> addr option" where
  "answer_addr (Accepts fd mode a) = Some a"
| "answer_addr (AcceptFails e) = None"

definition new_addrs :: "accept_answer list \<Rightarrow> addr list" where
  "new_addrs as = List.map_filter answer_addr as"

fun answer_valid :: "accept_answer \<Rightarrow> bool" where
  "answer_valid (Accepts fd mode a) \<longleftrightarrow> 0 \<le> fd"
| "answer_valid (AcceptFails e) \<longleftrightarrow> True"

definition answers_ok :: "('b, 't) server_env \<Rightarrow> accept_answer list \<Rightarrow> bool" where
  "answers_ok w as \<longleftrightarrow> distinct (new_addrs as) \<and> (\<forall>a \<in> set (new_addrs as). se_sockets w a = None) \<and>
     list_all answer_valid as"

definition socket_descriptors :: "('b, 't) server_env \<Rightarrow> addr \<Rightarrow> int multiset" where
  "socket_descriptors w a = (case se_sockets w a of None \<Rightarrow> {#} | Some (s, posted) \<Rightarrow> descriptors s)"

definition forget_socket :: "addr \<Rightarrow> ('b, 't) server_env \<Rightarrow> ('b, 't) server_env" where
  "forget_socket a w = w\<lparr>se_sockets := (se_sockets w)(a := None)\<rparr>"

definition put_socket :: "addr \<Rightarrow> ('b, 't) tcp \<Rightarrow> ('b, 't) server_env \<Rightarrow> ('b, 't) server_env" where
  "put_socket a p w = w\<lparr>se_loop := te_loop (snd p), se_sockets := (se_sockets w)(a \<mapsto> (fst p, te_posted (snd p)))\<rparr>"

definition at_server :: "(('b, 't) tcp_server \<Rightarrow> ('b, 't) tcp_server) \<Rightarrow> ('b, 't) server_run \<Rightarrow> ('b, 't) server_run" where
  "at_server f r = r\<lparr>sr_server := f (sr_server r)\<rparr>"

definition at_env :: "(('b, 't) server_env \<Rightarrow> ('b, 't) server_env) \<Rightarrow> ('b, 't) tcp_server \<Rightarrow> ('b, 't) tcp_server" where
  "at_env f = (\<lambda>(v, w). (v, f w))"

inductive server_reachable :: "addr \<Rightarrow> ('b, 't) server_run \<Rightarrow> bool" for n where
  new: "se_sockets w = (\<lambda>_. None) \<Longrightarrow> se_posted w = [] \<Longrightarrow> se_closed w = [] \<Longrightarrow> se_given w = [] \<Longrightarrow> se_made w = [] \<Longrightarrow>
    se_accepts w = [] \<Longrightarrow>
    server_reachable n \<lparr>sr_server = (TcpServer_init, w), sr_taken = [], sr_handed = {#}, sr_delivered = []\<rparr>"
| listen: "server_reachable n r \<Longrightarrow>
    server_reachable n (at_server (\<lambda>p. snd (TcpServer_listen n host resolved sockname p)) r)"
| close: "server_reachable n r \<Longrightarrow> server_reachable n (at_server (TcpServer_close n) r)"
| events: "server_reachable n r \<Longrightarrow> server_reachable n (at_server (TcpServer_handleEvents n native) r)"
| max_pending: "server_reachable n r \<Longrightarrow>
    server_reachable n (at_server (\<lambda>(v, w). (TcpServer_setMaxPendingConnections m v, w)) r)"
| hand_out: "server_reachable n r \<Longrightarrow> sr_server r = (v, w) \<Longrightarrow> TcpServer_nextPendingConnection v = (Some a, v') \<Longrightarrow>
    server_reachable n (r\<lparr>sr_server := (v', forget_socket a w), sr_taken := sr_taken r @ [a],
      sr_handed := sr_handed r + socket_descriptors w a\<rparr>)"
| socket_event: "server_reachable n r \<Longrightarrow> sr_server r = (v, w) \<Longrightarrow> se_sockets w a = Some (s, posted) \<Longrightarrow>
    TcpSocket_handleEvents a native sockopt (s, (socket_env posted w)\<lparr>te_sends := as, te_recvs := bs\<rparr>) = p \<Longrightarrow>
    server_reachable n (r\<lparr>sr_server := (v, put_socket a p w)\<rparr>)"
| signal: "server_reachable n r \<Longrightarrow> sr_server r = (v, w) \<Longrightarrow> se_posted w = x # xs \<Longrightarrow>
    server_reachable n (r\<lparr>sr_server := (v, w\<lparr>se_posted := xs\<rparr>), sr_delivered := sr_delivered r @ [x]\<rparr>)"
| kernel: "server_reachable n r \<Longrightarrow> sr_server r = (v, w) \<Longrightarrow> answers_ok w as \<Longrightarrow>
    server_reachable n (r\<lparr>sr_server := (v, w\<lparr>se_accepts := as\<rparr>)\<rparr>)"
| others: "server_reachable n r \<Longrightarrow> server_reachable n (at_server (at_env (\<lambda>w. w\<lparr>se_loop := l\<rparr>)) r)"

text \<open>What holds of the server and its environment, given what was handed out before.\<close>

definition announced :: "server_signal list \<Rightarrow> nat" where
  "announced xs = length (filter (\<lambda>x. x = SigNewConnection) xs)"

definition server_ok :: "addr list \<Rightarrow> int multiset \<Rightarrow> nat \<Rightarrow> ('b, 't) tcp_server \<Rightarrow> bool" where
  "server_ok taken handed k = (\<lambda>(v, w).
     distinct (sv_pendingConnections v) \<and> dom (se_sockets w) = set (sv_pendingConnections v) \<and>
     answers_ok w (se_accepts w) \<and>
     mset (se_given w) = mset (se_closed w) + (\<Sum>a \<leftarrow> sv_pendingConnections v. socket_descriptors w a) + handed \<and>
     subseq (taken @ sv_pendingConnections v) (se_made w) \<and>
     k + announced (se_posted w) = length (se_made w))"

lemma server_ok_frame:
  assumes "server_ok taken handed k (v, w)" "sv_pendingConnections v' = sv_pendingConnections v"
    "se_sockets w' = se_sockets w" "se_accepts w' = se_accepts w" "se_given w' = se_given w" "se_closed w' = se_closed w"
    "se_made w' = se_made w" "k' + announced (se_posted w') = k + announced (se_posted w)"
  shows "server_ok taken handed k' (v', w')"
  using assms by (simp add: server_ok_def answers_ok_def socket_descriptors_def)

lemma sv_pending_io [simp]:
  "sv_pendingConnections (fst (IOEvent_stop n p)) = sv_pendingConnections (fst p)"
  "sv_pendingConnections (fst (IOEvent_start n p)) = sv_pendingConnections (fst p)"
  "sv_pendingConnections (fst (IOEvent_setDescriptor n fd p)) = sv_pendingConnections (fst p)"
  by (cases p; simp add: IOEvent_stop_def IOEvent_start_def IOEvent_syncRegistration_def IOEvent_setDescriptor_def Let_def)+

lemma fst_on_server_io [simp]: "fst (on_server_io f p) = fst (f (fst p, se_loop (snd p)))"
  by (cases p) (simp add: on_server_io_def split: prod.splits)

lemma server_ok_io:
  assumes "server_ok taken handed k p" "sv_pendingConnections (fst (f (fst p, se_loop (snd p)))) = sv_pendingConnections (fst p)"
  shows "server_ok taken handed k (on_server_io f p)"
proof -
  obtain v w where p: "p = (v, w)" by (cases p)
  obtain v' l where f: "f (v, se_loop w) = (v', l)" by (cases "f (v, se_loop w)")
  have "server_ok taken handed k (v', w\<lparr>se_loop := l\<rparr>)"
    by (rule server_ok_frame [of taken handed k v w]) (use assms p f in simp_all)
  then show ?thesis by (simp add: on_server_io_def p f)
qed

lemma server_ok_emit:
  assumes "server_ok taken handed k p" "x \<noteq> SigNewConnection"
  shows "server_ok taken handed k (emit_server x p)"
proof -
  obtain v w where p: "p = (v, w)" by (cases p)
  have "server_ok taken handed k (v, w\<lparr>se_posted := se_posted w @ [x]\<rparr>)"
    by (rule server_ok_frame [of taken handed k v w]) (use assms p in \<open>simp_all add: announced_def\<close>)
  then show ?thesis by (simp add: emit_server_def p)
qed

lemma server_ok_fail: "server_ok taken handed k p \<Longrightarrow> server_ok taken handed k (TcpServer_failWithErrno what e p)"
  by (cases p) (simp add: TcpServer_failWithErrno_def server_ok_emit)

lemma delete_socket_fields [simp]:
  "se_accepts (delete_socket a w) = se_accepts w" "se_given (delete_socket a w) = se_given w"
  "se_made (delete_socket a w) = se_made w" "se_posted (delete_socket a w) = se_posted w"
  "se_sockets (delete_socket a w) = (se_sockets w)(a := None)"
  by (auto simp: delete_socket_def fun_eq_iff split: option.splits prod.splits)

lemma delete_socket_closed: "mset (se_closed (delete_socket a w)) = mset (se_closed w) + socket_descriptors w a"
proof (cases "se_sockets w a")
  case (Some x)
  obtain s posted where x: "x = (s, posted)" by (cases x)
  obtain s' e where d: "TcpSocket_destroy a (s, socket_env posted w) = (s', e)" by fastforce
  then have "mset (io_closed s') = descriptors s" using closed_after_destroy [of a "(s, socket_env posted w)"] by simp
  then show ?thesis by (simp add: delete_socket_def socket_descriptors_def Some x d)
qed (simp add: delete_socket_def socket_descriptors_def)

text \<open>Closing the server closes every connection nobody has taken.\<close>

lemma delete_sockets:
  assumes "distinct as"
  shows "se_accepts (fold delete_socket as w) = se_accepts w \<and> se_given (fold delete_socket as w) = se_given w \<and>
    se_made (fold delete_socket as w) = se_made w \<and> se_posted (fold delete_socket as w) = se_posted w \<and>
    se_sockets (fold delete_socket as w) = (\<lambda>a. if a \<in> set as then None else se_sockets w a) \<and>
    mset (se_closed (fold delete_socket as w)) = mset (se_closed w) + (\<Sum>a \<leftarrow> as. socket_descriptors w a)"
  using assms
proof (induction as arbitrary: w)
  case (Cons a as)
  have "socket_descriptors (delete_socket a w) x = socket_descriptors w x" if "x \<in> set as" for x
    using Cons.prems that by (auto simp: socket_descriptors_def)
  then have "(\<Sum>x \<leftarrow> as. socket_descriptors (delete_socket a w) x) = (\<Sum>x \<leftarrow> as. socket_descriptors w x)"
    by (intro arg_cong [where f = sum_list] map_cong) auto
  then show ?case using Cons by (auto simp: fun_eq_iff delete_socket_closed)
qed simp

lemma server_ok_discard:
  assumes "server_ok taken handed k (v, w)"
  shows "server_ok taken handed k (forget_listener v', fold delete_socket (sv_pendingConnections v) w)"
proof -
  let ?ps = "sv_pendingConnections v"
  note d = delete_sockets [of ?ps w]
  have "distinct ?ps" "dom (se_sockets w) = set ?ps" using assms by (simp_all add: server_ok_def)
  then have "se_sockets (fold delete_socket ?ps w) = (\<lambda>_. None)" using d by (auto simp: fun_eq_iff domIff)
  moreover have "subseq taken (se_made w)"
    using assms subseq_order.trans [of taken "taken @ ?ps"] by (auto simp: server_ok_def)
  ultimately show ?thesis
    using assms d \<open>distinct ?ps\<close> by (auto simp: server_ok_def forget_listener_def answers_ok_def)
qed

lemma server_ok_close: "server_ok taken handed k p \<Longrightarrow> server_ok taken handed k (TcpServer_close n p)"
proof -
  assume ok: "server_ok taken handed k p"
  let ?q = "on_server_io (IOEvent_setDescriptor n (- 1)) (on_server_io (IOEvent_stop n) p)"
  obtain v w where q: "?q = (v, w)" by (cases ?q)
  have "server_ok taken handed k (v, w)"
    unfolding q [symmetric] by (intro server_ok_io ok) simp_all
  then show ?thesis using server_ok_discard by (simp add: TcpServer_close_def q)
qed

lemma server_ok_closed_fds:
  "server_ok taken handed k (v\<lparr>io_closed := cs\<rparr>, w) = server_ok taken handed k (v, w)"
  by (simp add: server_ok_def)

lemma server_ok_listen:
  assumes ok: "server_ok taken handed k p"
  shows "server_ok taken handed k (snd (TcpServer_listen n host resolved sockname p))"
proof -
  obtain v w where c: "TcpServer_close n p = (v, w)" by (cases "TcpServer_close n p")
  have ok0: "server_ok taken handed k (v, w)" using server_ok_close [OF ok, of n] c by simp
  have on: "server_ok taken handed k (v'\<lparr>sv_listening := True, sv_serverPort := port, sv_serverAddress := host\<rparr>, w')"
    if "on_server_io (IOEvent_start n) (on_server_io (IOEvent_setDescriptor n fd) (v\<lparr>io_closed := cs\<rparr>, w)) = (v', w')"
    for fd cs v' w' port
  proof -
    have "server_ok taken handed k (v', w')"
      unfolding that [symmetric] by (intro server_ok_io) (simp_all add: server_ok_closed_fds ok0)
    then show ?thesis by (rule server_ok_frame) simp_all
  qed
  show ?thesis
    using ok0 on
    by (auto simp: TcpServer_listen_def c Let_def server_ok_closed_fds intro!: server_ok_emit server_ok_fail
        split: sum.splits prod.splits)
qed

lemma new_socket_fields:
  assumes "0 \<le> fd"
  shows "se_accepts (new_socket a fd mode w) = se_accepts w" "se_given (new_socket a fd mode w) = se_given w"
    "se_closed (new_socket a fd mode w) = se_closed w" "se_made (new_socket a fd mode w) = se_made w @ [a]"
    "dom (se_sockets (new_socket a fd mode w)) = insert a (dom (se_sockets w))"
    "b \<noteq> a \<Longrightarrow> se_sockets (new_socket a fd mode w) b = se_sockets w b"
    "socket_descriptors (new_socket a fd mode w) b = (if b = a then {#fd#} else socket_descriptors w b)"
proof -
  obtain s e where d: "adoptConnectedDescriptor a fd mode (TcpSocket_init False, socket_env [] w) = (s, e)" by fastforce
  then have "descriptors s = {#fd#}" using descriptors_adopted [OF assms, of a mode False "socket_env [] w"] by simp
  then show "se_accepts (new_socket a fd mode w) = se_accepts w" "se_given (new_socket a fd mode w) = se_given w"
    "se_closed (new_socket a fd mode w) = se_closed w" "se_made (new_socket a fd mode w) = se_made w @ [a]"
    "dom (se_sockets (new_socket a fd mode w)) = insert a (dom (se_sockets w))"
    "b \<noteq> a \<Longrightarrow> se_sockets (new_socket a fd mode w) b = se_sockets w b"
    "socket_descriptors (new_socket a fd mode w) b = (if b = a then {#fd#} else socket_descriptors w b)"
    by (simp_all add: new_socket_def d socket_descriptors_def)
qed

lemma answers_ok_Cons:
  "answers_ok w (AcceptFails e # as) = answers_ok w as"
  "answers_ok w (Accepts fd mode a # as) \<longleftrightarrow>
     answers_ok w as \<and> a \<notin> set (new_addrs as) \<and> se_sockets w a = None \<and> 0 \<le> fd"
  by (auto simp: answers_ok_def new_addrs_def List.map_filter_simps)

lemma server_ok_queued:
  assumes ok: "server_ok taken handed k (v, w)" and answers: "se_accepts w = Accepts fd mode a # as"
  shows "server_ok taken handed k (v\<lparr>sv_pendingConnections := sv_pendingConnections v @ [a]\<rparr>,
    (new_socket a fd mode (w\<lparr>se_accepts := as, se_given := se_given w @ [fd]\<rparr>))\<lparr>se_posted := se_posted w @ [SigNewConnection]\<rparr>)"
    (is "server_ok _ _ _ (?v, ?n\<lparr>se_posted := _\<rparr>)")
proof -
  have fd: "0 \<le> fd" and fresh: "se_sockets w a = None" "a \<notin> set (new_addrs as)" and rest: "answers_ok w as"
    using ok answers by (auto simp: server_ok_def answers_ok_Cons)
  note n = new_socket_fields [OF fd, where a = a and mode = mode and w = "w\<lparr>se_accepts := as, se_given := se_given w @ [fd]\<rparr>"]
  have notin: "a \<notin> set (sv_pendingConnections v)" using ok fresh(1) by (auto simp: server_ok_def domIff)
  then have "socket_descriptors ?n x = socket_descriptors w x" if "x \<in> set (sv_pendingConnections v)" for x
    using n(7) [where b = x] that by (auto simp: socket_descriptors_def)
  then have sum: "(\<Sum>x \<leftarrow> sv_pendingConnections v. socket_descriptors ?n x) = (\<Sum>x \<leftarrow> sv_pendingConnections v. socket_descriptors w x)"
    by (intro arg_cong [where f = sum_list] map_cong) auto
  have here: "socket_descriptors ?n a = {#fd#}" using n(7) [where b = a] by simp
  have free: "se_sockets ?n x = None" if "x \<in> set (new_addrs as)" for x
    using that rest fresh(2) n(6) [where b = x] by (auto simp: answers_ok_def)
  then have "answers_ok (?n\<lparr>se_posted := se_posted w @ [SigNewConnection]\<rparr>) as"
    using rest by (simp add: answers_ok_def)
  moreover have "socket_descriptors (?n\<lparr>se_posted := ps\<rparr>) = socket_descriptors ?n" for ps
    by (simp add: socket_descriptors_def fun_eq_iff)
  moreover have "subseq (taken @ sv_pendingConnections v @ [a]) (se_made w @ [a])"
    using ok subseq_append [of "taken @ sv_pendingConnections v" "[a]" "se_made w"] by (simp add: server_ok_def)
  ultimately show ?thesis
    using ok notin sum here n(1-5) by (simp add: server_ok_def announced_def)
qed

lemma socket_descriptors_frame [simp]:
  "socket_descriptors (w\<lparr>se_accepts := x1\<rparr>) = socket_descriptors w" "socket_descriptors (w\<lparr>se_given := x2\<rparr>) = socket_descriptors w"
  "socket_descriptors (w\<lparr>se_closed := x2\<rparr>) = socket_descriptors w" "socket_descriptors (w\<lparr>se_posted := x3\<rparr>) = socket_descriptors w"
  by (rule ext, simp add: socket_descriptors_def)+

lemma answers_ok_frame [simp]:
  "answers_ok (w\<lparr>se_accepts := x1\<rparr>) as = answers_ok w as" "answers_ok (w\<lparr>se_given := x2\<rparr>) as = answers_ok w as"
  "answers_ok (w\<lparr>se_closed := x2\<rparr>) as = answers_ok w as" "answers_ok (w\<lparr>se_posted := x3\<rparr>) as = answers_ok w as"
  by (simp_all add: answers_ok_def)

lemma server_ok_loop: "server_ok taken handed k p \<Longrightarrow> server_ok taken handed k (accept_loop p)"
proof (induction p rule: accept_loop.induct)
  case (1 v w)
  show ?case
  proof (cases "se_accepts w")
    case Nil
    then show ?thesis using 1 by (subst accept_loop.simps) simp
  next
    case (Cons x as)
    show ?thesis
    proof (cases x)
      case (AcceptFails e)
      then have "server_ok taken handed k (v, w\<lparr>se_accepts := as\<rparr>)"
        using 1 Cons by (simp add: server_ok_def answers_ok_Cons)
      then show ?thesis using 1 Cons AcceptFails
        by (subst accept_loop.simps) (simp add: server_ok_fail Let_def)
    next
      case (Accepts fd mode a)
      let ?w = "w\<lparr>se_accepts := as, se_given := se_given w @ [fd]\<rparr>"
      have "server_ok taken handed k (v, ?w\<lparr>se_closed := se_closed w @ [fd]\<rparr>)"
        using 1 Cons Accepts by (simp add: server_ok_def answers_ok_Cons)
      then show ?thesis using 1 Cons Accepts server_ok_queued [of taken handed k v w fd mode a as]
        by (subst accept_loop.simps) (simp add: Let_def)
    qed
  qed
qed

lemma server_ok_events: "server_ok taken handed k p \<Longrightarrow> server_ok taken handed k (TcpServer_handleEvents n native p)"
proof -
  assume p: "server_ok taken handed k p"
  have "server_ok taken handed k (base_server_events native p)"
    using p by (cases p) (simp add: base_server_events_def server_ok_def socket_descriptors_def answers_ok_def)
  then show ?thesis
    by (simp add: TcpServer_handleEvents_def Let_def TcpServer_acceptPendingConnections_def server_ok_loop server_ok_close)
qed

lemma server_ok_hand_out:
  assumes ok: "server_ok taken handed k (v, w)" and nxt: "TcpServer_nextPendingConnection v = (Some a, v')"
  shows "server_ok (taken @ [a]) (handed + socket_descriptors w a) k (v', forget_socket a w)"
proof -
  obtain as where v: "sv_pendingConnections v = a # as" "sv_pendingConnections v' = as"
    using nxt by (auto simp: TcpServer_nextPendingConnection_def split: list.splits)
  have notin: "a \<notin> set as" using ok v by (simp add: server_ok_def)
  then have "socket_descriptors (forget_socket a w) x = socket_descriptors w x" if "x \<in> set as" for x
    using that by (auto simp: socket_descriptors_def forget_socket_def)
  then have sum: "(\<Sum>x \<leftarrow> as. socket_descriptors (forget_socket a w) x) = (\<Sum>x \<leftarrow> as. socket_descriptors w x)"
    by (intro arg_cong [where f = sum_list] map_cong) auto
  have "answers_ok (forget_socket a w) (se_accepts w)"
    using ok by (auto simp: server_ok_def answers_ok_def forget_socket_def)
  moreover have "dom (se_sockets (forget_socket a w)) = set as"
    using ok v notin by (auto simp: server_ok_def forget_socket_def)
  moreover have "se_accepts (forget_socket a w) = se_accepts w" "se_given (forget_socket a w) = se_given w"
    "se_closed (forget_socket a w) = se_closed w" "se_made (forget_socket a w) = se_made w"
    "se_posted (forget_socket a w) = se_posted w" by (simp_all add: forget_socket_def)
  ultimately show ?thesis using ok v sum by (simp add: server_ok_def)
qed

lemma server_ok_socket_event:
  assumes ok: "server_ok taken handed k (v, w)" and a: "se_sockets w a = Some (s, posted)"
    and ds: "descriptors (fst p) = descriptors s"
  shows "server_ok taken handed k (v, put_socket a p w)"
proof -
  have "socket_descriptors (put_socket a p w) = socket_descriptors w"
    using a ds by (auto simp: socket_descriptors_def put_socket_def fun_eq_iff)
  moreover have "dom (se_sockets (put_socket a p w)) = dom (se_sockets w)" using a by (auto simp: put_socket_def)
  moreover have "answers_ok (put_socket a p w) (se_accepts w)"
    using ok a by (auto simp: server_ok_def answers_ok_def put_socket_def)
  moreover have "se_accepts (put_socket a p w) = se_accepts w" "se_given (put_socket a p w) = se_given w"
    "se_closed (put_socket a p w) = se_closed w" "se_made (put_socket a p w) = se_made w"
    "se_posted (put_socket a p w) = se_posted w" by (simp_all add: put_socket_def)
  ultimately show ?thesis using ok by (simp add: server_ok_def)
qed

lemma server_reachable_ok:
  "server_reachable n r \<Longrightarrow> server_ok (sr_taken r) (sr_handed r) (announced (sr_delivered r)) (sr_server r)"
proof (induction rule: server_reachable.induct)
  case (new w)
  then show ?case
    by (simp add: server_ok_def TcpServer_init_def IOEvent.defs TcpServer.defs answers_ok_def new_addrs_def
        List.map_filter_simps announced_def)
next
  case (hand_out r v w a v')
  then show ?case using server_ok_hand_out by simp
next
  case (socket_event r v w a s posted native sockopt as bs p)
  have "descriptors (fst p) = descriptors s" unfolding socket_event(4) [symmetric] by (simp add: descriptors_events)
  then show ?case using socket_event server_ok_socket_event by simp
next
  case (signal r v w x xs)
  then show ?case
    by (auto simp: server_ok_def announced_def)
next
  case (kernel r v w as)
  then show ?case by (simp add: server_ok_def)
next
  case (others r l)
  obtain v w where "sr_server r = (v, w)" by (cases "sr_server r")
  then show ?case using others by (simp add: at_server_def at_env_def server_ok_frame)
next
  case (max_pending r m)
  obtain v w where "sr_server r = (v, w)" by (cases "sr_server r")
  then show ?case using max_pending by (simp add: at_server_def TcpServer_setMaxPendingConnections_def server_ok_frame)
qed (simp_all add: at_server_def server_ok_listen server_ok_close server_ok_events)

text \<open>
  C27. Whatever is called and whatever arrives, no connection gets lost in a server and none is there
  twice: the descriptors the kernel has given are those the server closed, those that went through the
  sockets that wait, and those that went through the sockets handed out. Sockets are handed out and
  wait in the order they were accepted, each is announced once, and the sockets that wait are exactly
  the objects the server still owns.
\<close>

theorem server_accounts_for_connections:
  assumes "server_reachable n r" "sr_server r = (v, w)"
  shows "mset (se_given w) = mset (se_closed w) + (\<Sum>a \<leftarrow> sv_pendingConnections v. socket_descriptors w a) + sr_handed r \<and>
    subseq (sr_taken r @ sv_pendingConnections v) (se_made w) \<and>
    announced (sr_delivered r) + announced (se_posted w) = length (se_made w) \<and>
    distinct (sv_pendingConnections v) \<and> dom (se_sockets w) = set (sv_pendingConnections v)"
  using server_reachable_ok [OF assms(1)] unfolding assms(2) by (simp add: server_ok_def)

text \<open>The queue never grows beyond the limit set.\<close>

lemma accept_loop_limit:
  "length (sv_pendingConnections (fst (accept_loop p))) \<le> max (length (sv_pendingConnections (fst p))) (sv_maxPendingConnections (fst p)) \<and>
   sv_maxPendingConnections (fst (accept_loop p)) = sv_maxPendingConnections (fst p)"
proof (induction p rule: accept_loop.induct)
  case (1 v w)
  then show ?case
    by (subst (1 2) accept_loop.simps)
      (auto simp: Let_def TcpServer_failWithErrno_def emit_server_def split: list.splits accept_answer.splits)
qed

text \<open>A server with a limit of one, two connections waiting in the kernel: the second is turned away.\<close>

definition demo_server_env :: "(char, unit) server_env" where
  "demo_server_env = \<lparr>se_loop = EventLoop_init, se_posted = [], se_accepts = [], se_sockets = (\<lambda>_. None), se_closed = [],
     se_given = [], se_made = [], se_baseSignals = [], se_strerror = (\<lambda>_. [])\<rparr>"

definition demo_listening :: "(char, unit) tcp_server" where
  "demo_listening = (case snd (TcpServer_listen 3 ''::'' (Inr [NoBind 6 98, ListensOn 7]) (Inr 80) (TcpServer_init, demo_server_env)) of
     (v, w) \<Rightarrow> (TcpServer_setMaxPendingConnections 0 v, w\<lparr>se_accepts := [Accepts 8 (0, 0) 21, AcceptFails EINTR, Accepts 9 (0, 0) 22]\<rparr>))"

definition demo_server_run :: "(char, unit) server_run" where
  "demo_server_run = \<lparr>sr_server = TcpServer_handleEvents 3 EPOLLIN demo_listening, sr_taken = [], sr_handed = {#}, sr_delivered = []\<rparr>"

lemma demo_server_reachable: "server_reachable 3 demo_server_run"
proof -
  define r0 :: "(char, unit) server_run" where
    "r0 = \<lparr>sr_server = (TcpServer_init, demo_server_env), sr_taken = [], sr_handed = {#}, sr_delivered = []\<rparr>"
  have "server_reachable 3 r0" unfolding r0_def by (rule server_reachable.new) (simp_all add: demo_server_env_def)
  from server_reachable.max_pending [OF server_reachable.listen [OF this, of "''::''" "Inr [NoBind 6 98, ListensOn 7]" "Inr 80"], of 0]
  obtain v w where vw: "snd (TcpServer_listen 3 ''::'' (Inr [NoBind 6 98, ListensOn 7]) (Inr 80) (TcpServer_init, demo_server_env)) = (v, w)"
    and 1: "server_reachable 3 (r0\<lparr>sr_server := (TcpServer_setMaxPendingConnections 0 v, w)\<rparr>)"
    by (cases "snd (TcpServer_listen 3 ''::'' (Inr [NoBind 6 98, ListensOn 7]) (Inr 80) (TcpServer_init, demo_server_env))")
      (simp add: at_server_def r0_def)
  have "sv_pendingConnections (TcpServer_setMaxPendingConnections 0 v) = [] \<and> se_sockets w = (\<lambda>_. None)"
    using vw
    by (auto simp: TcpServer_listen_def TcpServer_close_def on_server_io_def demo_server_env_def TcpServer_init_def IOEvent.defs
        TcpServer.defs IOEvent_stop_def IOEvent_setDescriptor_def IOEvent_start_def IOEvent_syncRegistration_def IOEvent_init_def
        forget_listener_def Let_def TcpServer_setMaxPendingConnections_def split: if_splits)
  then have "answers_ok w [Accepts 8 (0, 0) 21, AcceptFails EINTR, Accepts 9 (0, 0) 22]"
    by (simp add: answers_ok_def new_addrs_def List.map_filter_simps)
  from server_reachable.events [OF server_reachable.kernel [OF 1 _ this, of "TcpServer_setMaxPendingConnections 0 v"], of EPOLLIN]
  show ?thesis by (simp add: at_server_def demo_server_run_def demo_listening_def vw r0_def)
qed

theorem server_accounts_for_connections_witness:
  "mset [8, 9] = mset (se_closed (snd (sr_server demo_server_run))) + socket_descriptors (snd (sr_server demo_server_run)) 21 \<and>
   sv_pendingConnections (fst (sr_server demo_server_run)) = [21]"
proof -
  obtain v w where vw: "sr_server demo_server_run = (v, w)" by (cases "sr_server demo_server_run")
  have "sv_pendingConnections v = [21]" "se_given w = [8, 9]"
    using vw
    by (auto simp: demo_server_run_def demo_listening_def TcpServer_handleEvents_def base_server_events_def TcpServer_acceptPendingConnections_def
        accept_loop.simps TcpServer_listen_def TcpServer_close_def on_server_io_def demo_server_env_def TcpServer_init_def IOEvent.defs
        TcpServer.defs IOEvent_stop_def IOEvent_setDescriptor_def IOEvent_start_def IOEvent_syncRegistration_def IOEvent_init_def
        forget_listener_def Let_def TcpServer_setMaxPendingConnections_def new_socket_def split: if_splits prod.splits)
  then show ?thesis
    using server_accounts_for_connections [OF demo_server_reachable vw] vw by (simp add: demo_server_run_def)
qed

end
