(* ===== verification/WebSocketServers.thy ===== *)
theory WebSocketServers
  imports WebSockets TcpServers HttpServers
begin

text \<open>
  \<open>snf::WebSocketServer\<close> (\<open>WebSocket/src/SNFWebSocket/WebSocketServer.h\<close>, \<open>WebSocketServer.cpp\<close>) on
  top of the TCP server, the TCP sockets and the web socket, and the part of \<open>HttpServer\<close> that takes
  connections from a TCP server. A pending upgrade and a queued web socket are known by the address of
  their TCP socket. An operation on one of them runs on that socket; an operation on all of them is
  given by what it does to one socket.
\<close>

section \<open>State\<close>

record PendingUpgrade =
  pu_hasSocket :: bool
  pu_buffer :: string
  pu_connected :: bool

datatype wss_signal = WssNewConnection | WssErrorOccurred string

record WebSocketServer =
  wv_pendingUpgrades :: "(addr \<times> PendingUpgrade) list"
  wv_pendingConnections :: "(addr \<times> WebSocketImplNative) list"
  wv_emitted :: "wss_signal list"
  wv_deleteLater :: "addr list"

definition WebSocketServer_init :: WebSocketServer where
  "WebSocketServer_init = \<lparr>wv_pendingUpgrades = [], wv_pendingConnections = [], wv_emitted = [], wv_deleteLater = []\<rparr>"

definition wss_emit :: "wss_signal \<Rightarrow> WebSocketServer \<Rightarrow> WebSocketServer" where
  "wss_emit x v = v\<lparr>wv_emitted := wv_emitted v @ [x]\<rparr>"

definition the_upgrade :: "addr \<Rightarrow> WebSocketServer \<Rightarrow> PendingUpgrade option" where
  "the_upgrade n v = map_of (wv_pendingUpgrades v) n"

definition set_upgrade :: "addr \<Rightarrow> (PendingUpgrade \<Rightarrow> PendingUpgrade) \<Rightarrow> WebSocketServer \<Rightarrow> WebSocketServer" where
  "set_upgrade n f v = v\<lparr>wv_pendingUpgrades := map (\<lambda>(a, u). (a, if a = n then f u else u)) (wv_pendingUpgrades v)\<rparr>"


section \<open>Operations\<close>

text \<open>What \<open>handleTcpNewConnection\<close> does with one socket, and the whole slot.\<close>

definition WebSocketServer_accept :: "addr \<Rightarrow> WebSocketServer \<Rightarrow> WebSocketServer" where
  "WebSocketServer_accept n v = v\<lparr>wv_pendingUpgrades := wv_pendingUpgrades v @
     [(n, \<lparr>pu_hasSocket = True, pu_buffer = [], pu_connected = True\<rparr>)]\<rparr>"

definition WebSocketServer_handleTcpNewConnection :: "WebSocketServer \<Rightarrow> TcpServer \<Rightarrow> WebSocketServer \<times> TcpServer" where
  "WebSocketServer_handleTcpNewConnection = take_pending WebSocketServer_accept"

definition WebSocketServer_handleTcpServerError :: "string \<Rightarrow> WebSocketServer \<Rightarrow> WebSocketServer" where
  "WebSocketServer_handleTcpServerError msg = wss_emit (WssErrorOccurred msg)"

definition disconnectPendingSignals :: "addr \<Rightarrow> WebSocketServer \<Rightarrow> WebSocketServer" where
  "disconnectPendingSignals n = set_upgrade n (\<lambda>u. u\<lparr>pu_connected := False\<rparr>)"

definition removePending :: "addr \<Rightarrow> WebSocketServer \<Rightarrow> WebSocketServer" where
  "removePending n v = v\<lparr>wv_pendingUpgrades := filter (\<lambda>(a, u). a \<noteq> n) (wv_pendingUpgrades v)\<rparr>"

definition deletePendingSocketLater :: "addr \<Rightarrow> WebSocketServer \<times> (byte, 't) tcp \<Rightarrow> WebSocketServer \<times> (byte, 't) tcp" where
  "deletePendingSocketLater n = (\<lambda>(v, p).
     case the_upgrade n v of
       None \<Rightarrow> (v, p)
     | Some u \<Rightarrow>
         if \<not> pu_hasSocket u then (v, p)
         else ((set_upgrade n (\<lambda>u. u\<lparr>pu_hasSocket := False\<rparr>) v)\<lparr>wv_deleteLater := wv_deleteLater v @ [n]\<rparr>, TcpSocket_close n p))"

definition failPending :: "addr \<Rightarrow> string \<Rightarrow> WebSocketServer \<times> (byte, 't) tcp \<Rightarrow> WebSocketServer \<times> (byte, 't) tcp" where
  "failPending n msg = (\<lambda>(v, p).
     case deletePendingSocketLater n (disconnectPendingSignals n (wss_emit (WssErrorOccurred msg) v), p) of
       (v', p') \<Rightarrow> (removePending n v', p'))"

definition handlePendingDisconnected :: "addr \<Rightarrow> WebSocketServer \<times> (byte, 't) tcp \<Rightarrow> WebSocketServer \<times> (byte, 't) tcp" where
  "handlePendingDisconnected n = (\<lambda>(v, p).
     case deletePendingSocketLater n (disconnectPendingSignals n v, p) of (v', p') \<Rightarrow> (removePending n v', p'))"

definition queueConnection :: "addr \<Rightarrow> WebSocketImplNative \<Rightarrow> WebSocketServer \<Rightarrow> WebSocketServer" where
  "queueConnection n ws v = wss_emit WssNewConnection (v\<lparr>wv_pendingConnections := wv_pendingConnections v @ [(n, ws)]\<rparr>)"

text \<open>The masking keys of the web socket to be made are the argument \<open>masks\<close>.\<close>

definition handlePendingReadyRead :: "(nat \<Rightarrow> byte list) \<Rightarrow> addr \<Rightarrow> WebSocketServer \<times> (byte, 't) tcp \<Rightarrow> WebSocketServer \<times> (byte, 't) tcp" where
  "handlePendingReadyRead masks n = (\<lambda>(v, p).
     case the_upgrade n v of
       None \<Rightarrow> (v, p)
     | Some u \<Rightarrow>
         if \<not> pu_hasSocket u then (v, p)
         else case TcpSocket_readAll p of (data, p1) \<Rightarrow>
           let buffer = pu_buffer u @ toString (ba_bytes data);
               v1 = set_upgrade n (\<lambda>u. u\<lparr>pu_buffer := buffer\<rparr>) v
           in case find_sub (crlf @ crlf) buffer of
                None \<Rightarrow> (v1, p1)
              | Some headerEnd \<Rightarrow>
                  (case validateClientHandshakeRequest (take (headerEnd + 4) buffer) of
                     Inl errorMessage \<Rightarrow> failPending n errorMessage (v1, p1)
                   | Inr clientKey \<Rightarrow>
                       let v2 = disconnectPendingSignals n v1;
                           p2 = snd (TcpSocket_write n (ByteArray_new (toBytes (buildServerHandshakeResponse clientKey))) p1);
                           v3 = set_upgrade n (\<lambda>u. u\<lparr>pu_hasSocket := False\<rparr>) v2
                       in case beginServerConnection n (WebSocketImplNative_accepted masks, p2) of
                            (ws, p3) \<Rightarrow> (queueConnection n ws (removePending n v3), p3)))"

definition WebSocketServer_hasPendingConnections :: "WebSocketServer \<Rightarrow> bool" where
  "WebSocketServer_hasPendingConnections v \<longleftrightarrow> wv_pendingConnections v \<noteq> []"

definition WebSocketServer_nextPendingConnection :: "WebSocketServer \<Rightarrow> (addr \<times> WebSocketImplNative) option \<times> WebSocketServer" where
  "WebSocketServer_nextPendingConnection v =
     (case wv_pendingConnections v of
        [] \<Rightarrow> (None, v)
      | c # cs \<Rightarrow> (Some c, v\<lparr>wv_pendingConnections := cs\<rparr>))"

text \<open>\<open>close\<close>, for the socket \<open>n\<close>: a pending upgrade is closed and destroyed with its socket, a queued web
  socket is closed and destroyed.\<close>

definition WebSocketServer_close_socket :: "addr \<Rightarrow> WebSocketServer \<times> (byte, 't) tcp \<Rightarrow> (byte, 't) tcp" where
  "WebSocketServer_close_socket n = (\<lambda>(v, p).
     let p1 = (case the_upgrade n v of
                 None \<Rightarrow> p
               | Some u \<Rightarrow> if pu_hasSocket u then TcpSocket_destroy n (TcpSocket_close n p) else p)
     in case map_of (wv_pendingConnections v) n of
          None \<Rightarrow> p1
        | Some ws \<Rightarrow> TcpSocket_destroy n (snd (ws_destroy n (ws_close n (ws_close n (ws, p1))))))"

definition WebSocketServer_close :: "addr \<Rightarrow> WebSocketServer \<Rightarrow> (byte, 'u) tcp_server \<Rightarrow> WebSocketServer \<times> (byte, 'u) tcp_server" where
  "WebSocketServer_close m v s = (v\<lparr>wv_pendingUpgrades := [], wv_pendingConnections := []\<rparr>, TcpServer_close m s)"

text \<open>A signal posted for the socket \<open>n\<close>: to the slots of the pending upgrade while they are connected, to
  those of the queued web socket, or to whoever has taken it.\<close>

definition deliver_to_upgrade :: "(nat \<Rightarrow> byte list) \<Rightarrow> addr \<Rightarrow> tcp_signal \<Rightarrow> WebSocketServer \<times> (byte, 't) tcp \<Rightarrow> WebSocketServer \<times> (byte, 't) tcp" where
  "deliver_to_upgrade masks n x = (\<lambda>(v, p).
     case the_upgrade n v of
       Some u \<Rightarrow>
         if \<not> pu_connected u then (v, p)
         else (case x of SigReadyRead \<Rightarrow> handlePendingReadyRead masks n (v, p)
               | SigDisconnected \<Rightarrow> handlePendingDisconnected n (v, p)
               | SigErrorOccurred msg \<Rightarrow> failPending n msg (v, p)
               | _ \<Rightarrow> (v, p))
     | None \<Rightarrow>
         (case map_of (wv_pendingConnections v) n of
            None \<Rightarrow> (v, p)
          | Some ws \<Rightarrow>
              (case handle_tcp_signal n x (ws, p) of
                 (ws', p') \<Rightarrow> (v\<lparr>wv_pendingConnections := map (\<lambda>(a, w). (a, if a = n then ws' else w)) (wv_pendingConnections v)\<rparr>, p'))))"

text \<open>\<open>isListening\<close>, \<open>serverPort\<close> and \<open>listen\<close> forward to the TCP server.\<close>

definition WebSocketServer_listen :: "addr \<Rightarrow> string \<Rightarrow> string + listen_attempt list \<Rightarrow> int + 16 word
    \<Rightarrow> (byte, 'u) tcp_server \<Rightarrow> bool \<times> (byte, 'u) tcp_server" where
  "WebSocketServer_listen = TcpServer_listen"

text \<open>
  \<open>HttpServer::listen\<close> with its signals \<open>on_started\<close> (the port) and \<open>on_error\<close>, \<open>close\<close>, and the slots of
  the TCP server. Each call of \<open>listen\<close> connects both slots once more; \<open>k\<close> is the number of times they are connected.
\<close>

definition HttpServer_listen :: "addr \<Rightarrow> string \<Rightarrow> 16 word \<Rightarrow> string + listen_attempt list \<Rightarrow> int + 16 word
    \<Rightarrow> HttpServer \<times> nat \<times> (char, 't) tcp_server \<Rightarrow> bool \<times> 16 word option \<times> HttpServer \<times> nat \<times> (char, 't) tcp_server" where
  "HttpServer_listen m host port resolved sockname = (\<lambda>(h, k, s).
     case TcpServer_listen m host resolved sockname s of
       (True, s') \<Rightarrow> (True, Some (sv_serverPort (fst s')), h, k + 1, s')
     | (False, s') \<Rightarrow> (False, None, h\<lparr>hs_errors := hs_errors h @
         [''Failed to bind to '' @ host @ '':'' @ show_nat (unat port)]\<rparr>, k + 1, s'))"

definition HttpServer_close :: "addr \<Rightarrow> HttpServer \<times> (char, 't) tcp_server \<Rightarrow> HttpServer \<times> (char, 't) tcp_server" where
  "HttpServer_close m = (\<lambda>(h, s). (h, TcpServer_close m s))"

definition HttpServer_onNewConnection :: "HttpServer \<Rightarrow> TcpServer \<Rightarrow> HttpServer \<times> TcpServer" where
  "HttpServer_onNewConnection = take_pending HttpServer_accept"

definition HttpServer_on_server_signal :: "nat \<Rightarrow> server_signal \<Rightarrow> HttpServer \<times> TcpServer \<Rightarrow> HttpServer \<times> TcpServer" where
  "HttpServer_on_server_signal k x hv =
     (case x of
        SigNewConnection \<Rightarrow> ((\<lambda>(h, v). HttpServer_onNewConnection h v) ^^ k) hv
      | SigServerError msg \<Rightarrow> ((fst hv)\<lparr>hs_errors := hs_errors (fst hv) @ replicate k msg\<rparr>, snd hv))"

text \<open>Once is as good as many times for new connections; an error is reported once per connected slot.\<close>

lemma new_connections_taken_once:
  assumes "0 < k"
  shows "HttpServer_on_server_signal k SigNewConnection hv = HttpServer_onNewConnection (fst hv) (snd hv)"
    and "sv_pendingConnections (snd (HttpServer_on_server_signal k SigNewConnection hv)) = []"
proof -
  let ?f = "\<lambda>(h, v). HttpServer_onNewConnection h v"
  have f: "?f q = (fold HttpServer_accept (sv_pendingConnections (snd q)) (fst q), (snd q)\<lparr>sv_pendingConnections := []\<rparr>)" for q
    by (cases q) (simp add: HttpServer_onNewConnection_def take_pending_all)
  have "(?f ^^ Suc j) hv = ?f hv" for j
    by (induction j) (simp_all add: f)
  then show "HttpServer_on_server_signal k SigNewConnection hv = HttpServer_onNewConnection (fst hv) (snd hv)"
    using assms by (cases k) (simp_all add: HttpServer_on_server_signal_def case_prod_unfold del: funpow.simps)
  then show "sv_pendingConnections (snd (HttpServer_on_server_signal k SigNewConnection hv)) = []"
    using f [of hv] by (simp add: case_prod_unfold)
qed

lemma listening_again_repeats_errors:
  "k = fst (snd (snd (snd (HttpServer_listen m host port resolved sockname (h, Suc 0, s))))) \<Longrightarrow>
   hs_errors (fst (HttpServer_on_server_signal k (SigServerError msg) hv)) = hs_errors (fst hv) @ [msg, msg]"
  by (simp add: HttpServer_listen_def HttpServer_on_server_signal_def numeral_2_eq_2 split: prod.splits bool.splits)


section \<open>The end of a message head\<close>

text \<open>The blank line of rendered lines is at their end, and only there.\<close>

lemma blank_line_of_line:
  "lf \<notin> set l \<Longrightarrow> find_sub (crlf @ crlf) (l @ crlf @ rest) =
     (if prefix crlf rest then Some (length l) else map_option (\<lambda>k. length l + 2 + k) (find_sub (crlf @ crlf) rest))"
proof (induction l)
  case Nil
  show ?case by (cases "prefix crlf rest"; cases "find_sub (crlf @ crlf) rest") (auto simp: prefix_def)
next
  case (Cons c cs)
  have "\<not> prefix (crlf @ crlf) ((c # cs) @ crlf @ rest)"
    using Cons.prems by (cases cs) (auto simp: prefix_def)
  with Cons show ?case by (cases "find_sub (crlf @ crlf) rest") auto
qed

lemma render_lines_step: "render_lines (l # ls) = l @ crlf @ render_lines ls"
  by (simp add: render_lines_def)

lemma blank_line_of_rendered:
  "ls \<noteq> [] \<Longrightarrow> \<forall>l \<in> set ls. l \<noteq> [] \<and> lf \<notin> set l \<Longrightarrow>
   find_sub (crlf @ crlf) (render_lines ls) = Some (length (render_lines ls) - 4)"
proof (induction ls)
  case (Cons l ls)
  note cut = render_lines_step
  show ?case
  proof (cases ls)
    case Nil
    then show ?thesis using Cons.prems by (subst cut) (simp add: blank_line_of_line render_lines_def del: append.simps)
  next
    case (Cons l2 ls2)
    then have "\<not> prefix crlf (render_lines ls)"
      using Cons.prems by (cases l2 rule: remdups_adj.cases) (auto simp: render_lines_def prefix_def)
    moreover have "4 \<le> length (render_lines ls)" using Cons by (simp add: render_lines_def)
    ultimately show ?thesis
      using Cons.prems Cons.IH Cons by (subst cut) (simp add: blank_line_of_line cut del: append.simps)
  qed
qed simp

lemma find_sub_incomplete:
  assumes "find_sub p t = Some (length t - length p)" "prefix b t" "b \<noteq> t" "length p \<le> length t"
  shows "find_sub p b = None"
proof (cases "find_sub p b")
  case (Some k)
  obtain c where t: "t = b @ c" "c \<noteq> []" using assms(2,3) by (auto simp: prefix_def)
  from find_sub_append [OF Some, of c] have "k = length t - length p" using assms(1) t by simp
  moreover have "k + length p \<le> length b" using find_sub_Some [OF Some] by simp
  ultimately have False using t assms(4) by (cases c) auto
  then show ?thesis ..
qed simp

lemma header_line_nonempty [simp]: "header_line kv \<noteq> []"
  by (cases kv) (simp add: header_line_def)

lemma blank_line_of_messages:
  assumes "plain_host host" "\<forall>c \<in> set path. \<not> is_space c" "bytes \<noteq> []"
  shows "find_sub (crlf @ crlf) (buildClientHandshakeRequest host port path (createClientKey bytes))
      = Some (length (buildClientHandshakeRequest host port path (createClientKey bytes)) - 4)"
    and "find_sub (crlf @ crlf) (buildServerHandshakeResponse key) = Some (length (buildServerHandshakeResponse key) - 4)"
proof -
  have lf: "lf \<notin> set (header_line kv)" if "plain_header kv" for kv
    using that by (auto simp: plain_header_def header_line_def)
  have "lf \<notin> set (request_path path)"
    using word_like_request_path [OF assms(2)] by (auto simp: word_like_def is_space_def)
  then show "find_sub (crlf @ crlf) (buildClientHandshakeRequest host port path (createClientKey bytes))
      = Some (length (buildClientHandshakeRequest host port path (createClientKey bytes)) - 4)"
    unfolding request_lines using client_headers_plain [OF assms(1,3)] lf
    by (intro blank_line_of_rendered) auto
  show "find_sub (crlf @ crlf) (buildServerHandshakeResponse key) = Some (length (buildServerHandshakeResponse key) - 4)"
    unfolding response_lines using server_headers_plain lf by (intro blank_line_of_rendered) auto
qed


section \<open>The handshake from end to end\<close>

text \<open>Reads one after the other: each on a TCP socket in whatever state, with the bytes that have arrived.\<close>

definition read_bytes :: "(byte, 't) tcp \<Rightarrow> byte list" where
  "read_bytes p = m_readBuffer (fst p)"

definition server_reads :: "(nat \<Rightarrow> byte list) \<Rightarrow> addr \<Rightarrow> (byte, 't) tcp list \<Rightarrow> WebSocketServer \<Rightarrow> WebSocketServer" where
  "server_reads masks n ps v = fold (\<lambda>p v. fst (handlePendingReadyRead masks n (v, p))) ps v"

definition client_reads :: "addr \<Rightarrow> (byte, 't) tcp list \<Rightarrow> WebSocketImplNative \<Rightarrow> WebSocketImplNative" where
  "client_reads n ps ws = fold (\<lambda>p ws. fst (handleTcpReadyRead n (ws, p))) ps ws"

lemma toString_append [simp]: "toString (a @ b) = toString a @ toString b"
  by (simp add: toString_def)

lemma toString_eq_Nil [simp]: "toString bs = [] \<longleftrightarrow> bs = []"
  by (simp add: toString_def)

lemma readAll_bytes: "ba_bytes (fst (TcpSocket_readAll p)) = read_bytes p"
  by (cases p) (simp add: TcpSocket_readAll_def ByteArray_new_def read_bytes_def)

lemma set_upgrade_twice: "set_upgrade n g (set_upgrade n f v) = set_upgrade n (\<lambda>u. g (f u)) v"
  by (cases v) (simp add: set_upgrade_def comp_def case_prod_beta)

lemma the_upgrade_set: "the_upgrade n (set_upgrade n f v) = map_option f (the_upgrade n v)"
proof -
  have "map_of (map (\<lambda>(a, u). (a, if a = n then f u else u)) us) n = map_option f (map_of us n)" for us
    by (induction us) auto
  then show ?thesis by (simp add: the_upgrade_def set_upgrade_def)
qed

lemma server_reads_incomplete:
  "the_upgrade n v = Some u \<Longrightarrow> pu_hasSocket u \<Longrightarrow>
   find_sub (crlf @ crlf) t = Some (length t - 4) \<Longrightarrow> 4 \<le> length t \<Longrightarrow>
   prefix (pu_buffer u @ toString (concat (map read_bytes ps))) t \<Longrightarrow>
   pu_buffer u @ toString (concat (map read_bytes ps)) \<noteq> t \<Longrightarrow>
   server_reads masks n ps v = set_upgrade n (\<lambda>w. w\<lparr>pu_buffer := if ps = [] then pu_buffer w
     else pu_buffer u @ toString (concat (map read_bytes ps))\<rparr>) v"
proof (induction ps arbitrary: v u)
  case Nil
  have "set_upgrade n (\<lambda>w. w) v = v"
    by (cases v) (simp add: set_upgrade_def case_prod_beta map_idI)
  then show ?case by (simp add: server_reads_def)
next
  case (Cons p ps)
  let ?b = "pu_buffer u @ toString (read_bytes p)"
  have b: "prefix ?b t"
    using Cons.prems(5) by (auto simp: prefix_def)
  moreover have "?b \<noteq> t"
    using Cons.prems(5,6) by (auto simp: prefix_def)
  ultimately have none: "find_sub (crlf @ crlf) ?b = None"
    using Cons.prems(3,4) by (intro find_sub_incomplete [of _ t]) simp_all
  let ?v = "set_upgrade n (\<lambda>w. w\<lparr>pu_buffer := ?b\<rparr>) v"
  have step: "fst (handlePendingReadyRead masks n (v, p)) = ?v"
    using Cons.prems(1,2) none readAll_bytes [of p]
    by (cases "TcpSocket_readAll p") (simp add: handlePendingReadyRead_def Let_def)
  have buf: "pu_buffer (u\<lparr>pu_buffer := ?b\<rparr>) = ?b" by simp
  have u': "the_upgrade n ?v = Some (u\<lparr>pu_buffer := ?b\<rparr>)" using Cons.prems(1) by (simp add: the_upgrade_set)
  have "server_reads masks n ps ?v = set_upgrade n (\<lambda>w. w\<lparr>pu_buffer := if ps = [] then pu_buffer w
     else ?b @ toString (concat (map read_bytes ps))\<rparr>) ?v"
    using Cons.IH [OF u'] Cons.prems by (simp only: buf) simp
  then show ?case
    using step by (cases "ps = []") (simp_all add: server_reads_def set_upgrade_twice)
qed

lemma client_reads_incomplete:
  "ws_hasSocket ws \<Longrightarrow> \<not> ws_handshakeComplete ws \<Longrightarrow>
   find_sub (crlf @ crlf) t = Some (length t - 4) \<Longrightarrow> 4 \<le> length t \<Longrightarrow>
   prefix (ws_handshakeBuffer ws @ toString (concat (map read_bytes ps))) t \<Longrightarrow>
   ws_handshakeBuffer ws @ toString (concat (map read_bytes ps)) \<noteq> t \<Longrightarrow>
   client_reads n ps ws = ws\<lparr>ws_handshakeBuffer := ws_handshakeBuffer ws @ toString (concat (map read_bytes ps))\<rparr>"
proof (induction ps arbitrary: ws)
  case Nil
  then show ?case by (simp add: client_reads_def)
next
  case (Cons p ps)
  let ?b = "ws_handshakeBuffer ws @ toString (read_bytes p)"
  have b: "prefix ?b t" "?b \<noteq> t"
    using Cons.prems(5,6) by (auto simp: prefix_def)
  then have none: "find_sub (crlf @ crlf) ?b = None"
    using Cons.prems(3,4) by (intro find_sub_incomplete [of _ t]) simp_all
  have step: "fst (handleTcpReadyRead n (ws, p)) = ws\<lparr>ws_handshakeBuffer := ?b\<rparr>"
  proof (cases "read_bytes p = []")
    case True
    then show ?thesis using Cons.prems(1,2) readAll_bytes [of p]
      by (cases "TcpSocket_readAll p") (simp add: handleTcpReadyRead_def ByteArray_size_def)
  next
    case False
    then show ?thesis using Cons.prems(1,2) readAll_bytes [of p] none
      by (cases "TcpSocket_readAll p") (simp add: handleTcpReadyRead_def ByteArray_size_def processHandshakeBytes_def Let_def)
  qed
  have "client_reads n ps (ws\<lparr>ws_handshakeBuffer := ?b\<rparr>)
      = ws\<lparr>ws_handshakeBuffer := ?b @ toString (concat (map read_bytes ps))\<rparr>"
    using Cons.IH [of "ws\<lparr>ws_handshakeBuffer := ?b\<rparr>"] Cons.prems by simp
  then show ?case using step by (simp add: client_reads_def)
qed

text \<open>What reads that do not complete the request leave alone.\<close>

lemma set_upgrade_other [simp]:
  "wv_pendingConnections (set_upgrade n f v) = wv_pendingConnections v" "wv_emitted (set_upgrade n f v) = wv_emitted v"
  by (simp_all add: set_upgrade_def)

lemma removePending_other [simp]:
  "wv_pendingConnections (removePending n v) = wv_pendingConnections v" "wv_emitted (removePending n v) = wv_emitted v"
  "the_upgrade n (removePending n v) = None"
  by (auto simp: removePending_def the_upgrade_def map_of_eq_None_iff)

lemma the_upgrade_queue [simp]: "the_upgrade n (queueConnection m ws v) = the_upgrade n v"
  by (simp add: the_upgrade_def queueConnection_def wss_emit_def)

text \<open>The read that completes the request, and the one that completes the answer.\<close>

lemma last_read_of_request:
  assumes u: "the_upgrade n v = Some u" "pu_hasSocket u"
    and full: "pu_buffer u @ toString (read_bytes p) = t" "find_sub (crlf @ crlf) t = Some (length t - 4)" "4 \<le> length t"
      "validateClientHandshakeRequest t = Inr key"
    and run: "handlePendingReadyRead masks n (v, p) = (v1, p1)"
  shows "p1 = snd (TcpSocket_write n (ByteArray_new (toBytes (buildServerHandshakeResponse key))) (snd (TcpSocket_readAll p)))"
    and "the_upgrade n v1 = None" "wv_emitted v1 = wv_emitted v @ [WssNewConnection]"
    and "\<exists>s. wv_pendingConnections v1 = wv_pendingConnections v @ [(n, s)] \<and> ws_state s = WsOpen \<and> ws_handshakeComplete s \<and> \<not> ws_clientMode s"
proof -
  obtain data p0 where r: "TcpSocket_readAll p = (data, p0)" by (rule prod.exhaust)
  then have t: "pu_buffer u @ toString (ba_bytes data) = t" using readAll_bytes [of p] full(1) by simp
  let ?p1 = "snd (TcpSocket_write n (ByteArray_new (toBytes (buildServerHandshakeResponse key))) p0)"
  obtain s where s: "beginServerConnection n (WebSocketImplNative_accepted masks, ?p1) = (s, ?p1)"
    and open_s: "ws_state s = WsOpen" "ws_handshakeComplete s" "\<not> ws_clientMode s"
    by (simp add: beginServerConnection_def WebSocketImplNative_accepted_def setState_def)
  define v' where "v' = set_upgrade n (pu_hasSocket_update (\<lambda>_. False)) (set_upgrade n (pu_connected_update (\<lambda>_. False))
      (set_upgrade n (pu_buffer_update (\<lambda>_. t)) v))"
  have "v1 = queueConnection n s (removePending n v') \<and> p1 = ?p1"
    using run u full(2-4) by (simp add: handlePendingReadyRead_def r Let_def t s disconnectPendingSignals_def v'_def)
  then have v': "v1 = queueConnection n s (removePending n v')" "wv_emitted v' = wv_emitted v"
      "wv_pendingConnections v' = wv_pendingConnections v" "p1 = ?p1" by (simp_all add: v'_def)
  show "p1 = snd (TcpSocket_write n (ByteArray_new (toBytes (buildServerHandshakeResponse key))) (snd (TcpSocket_readAll p)))"
    using v'(4) r by simp
  show "the_upgrade n v1 = None" using v'(1) by simp
  show "wv_emitted v1 = wv_emitted v @ [WssNewConnection]" using v'(1,2) by (simp add: queueConnection_def wss_emit_def)
  show "\<exists>s. wv_pendingConnections v1 = wv_pendingConnections v @ [(n, s)] \<and> ws_state s = WsOpen \<and> ws_handshakeComplete s \<and> \<not> ws_clientMode s"
    using v'(1,3) open_s by (simp add: queueConnection_def wss_emit_def)
qed

lemma last_read_of_answer:
  assumes "ws_hasSocket ws" "\<not> ws_handshakeComplete ws" "read_bytes p \<noteq> []"
    and full: "ws_handshakeBuffer ws @ toString (read_bytes p) = t" "find_sub (crlf @ crlf) t = Some (length t - 4)" "4 \<le> length t"
      "validateServerHandshakeResponse t (ws_clientKey ws) = Inr ()"
  shows "fst (handleTcpReadyRead n (ws, p)) = ws_emit WsConnected (setState WsOpen (ws\<lparr>ws_handshakeBuffer := [], ws_handshakeComplete := True\<rparr>))"
proof -
  obtain data p0 where r: "TcpSocket_readAll p = (data, p0)" by (rule prod.exhaust)
  then have d: "ba_bytes data = read_bytes p" using readAll_bytes [of p] by simp
  show ?thesis
    using assms by (simp add: handleTcpReadyRead_def r d ByteArray_size_def processHandshakeBytes_def Let_def)
qed

text \<open>
  C28. The opening handshake completes however TCP cuts it up. For every plain host name, path without
  white space and sixteen random bytes, a server that accepted the connection and reads the request of
  the client in any pieces writes its answer on that socket, hands the socket over to one open web socket
  at the end of its queue, drops the upgrade and emits \<open>newConnection\<close> once; and the client, reading that answer in
  any pieces, is open, has emitted \<open>connected\<close> once and nothing else, and keeps no byte of the answer back.
\<close>
theorem websocket_handshake_completes:
  fixes p q :: "(byte, 't) tcp" and host path :: string and bytes :: "byte list" and port :: "16 word"
  defines "request \<equiv> buildClientHandshakeRequest host port path (createClientKey bytes)"
    and "response \<equiv> buildServerHandshakeResponse (createClientKey bytes)"
  assumes "plain_host host" "\<forall>c \<in> set path. \<not> is_space c" "length bytes = 16"
    and server: "the_upgrade n v = Some \<lparr>pu_hasSocket = True, pu_buffer = [], pu_connected = True\<rparr>"
    and client: "ws_hasSocket ws" "\<not> ws_handshakeComplete ws" "ws_handshakeBuffer ws = []" "ws_clientKey ws = createClientKey bytes"
    and sent: "concat (map read_bytes (ps @ [p])) = toBytes request" "read_bytes p \<noteq> []"
      "concat (map read_bytes (qs @ [q])) = toBytes response" "read_bytes q \<noteq> []"
    and run: "handlePendingReadyRead masks n (server_reads masks n ps v, p) = (v1, p1)"
  shows "p1 = snd (TcpSocket_write n (ByteArray_new (toBytes response)) (snd (TcpSocket_readAll p)))
    \<and> the_upgrade n v1 = None \<and> wv_emitted v1 = wv_emitted v @ [WssNewConnection]
    \<and> (\<exists>s. wv_pendingConnections v1 = wv_pendingConnections v @ [(n, s)] \<and> ws_state s = WsOpen \<and> ws_handshakeComplete s \<and> \<not> ws_clientMode s)
    \<and> client_reads m (qs @ [q]) ws = ws_emit WsConnected (setState WsOpen (ws\<lparr>ws_handshakeBuffer := [], ws_handshakeComplete := True\<rparr>))"
proof -
  let ?a = "toString (concat (map read_bytes ps))" and ?c = "toString (concat (map read_bytes qs))"
  have "bytes \<noteq> []" using assms(5) by auto
  then have blank: "find_sub (crlf @ crlf) request = Some (length request - 4)"
    "find_sub (crlf @ crlf) response = Some (length response - 4)"
    unfolding request_def response_def by (rule blank_line_of_messages [OF assms(3,4)])+
  have len: "4 \<le> length request" "4 \<le> length response"
    using find_sub_Some [OF blank(1)] find_sub_Some [OF blank(2)] by simp_all
  have cut: "?a @ toString (read_bytes p) = request" "?c @ toString (read_bytes q) = response"
    using arg_cong [OF sent(1), of toString] arg_cong [OF sent(3), of toString] by simp_all
  have valid: "validateClientHandshakeRequest request = Inr (createClientKey bytes)"
    "validateServerHandshakeResponse response (ws_clientKey ws) = Inr ()"
    using client_request_accepted [OF assms(3-5)] client(4)
    by (simp_all add: request_def response_def server_answer_accepted_iff)
  define u where "u = \<lparr>pu_hasSocket = True, pu_buffer = [], pu_connected = True\<rparr>"
  have reads: "server_reads masks n ps v = set_upgrade n (\<lambda>w. w\<lparr>pu_buffer := if ps = [] then pu_buffer w else ?a\<rparr>) v"
    using server_reads_incomplete [of n v u request ps masks] server blank(1) len(1) cut(1) sent(2)
    by (cases "ps = []") (auto simp: u_def prefix_def)
  have "client_reads m qs ws = ws\<lparr>ws_handshakeBuffer := ?c\<rparr>"
    using client_reads_incomplete [of ws response qs m] client blank(2) len(2) cut(2) sent(4) by (auto simp: prefix_def)
  then have "client_reads m (qs @ [q]) ws = fst (handleTcpReadyRead m (ws\<lparr>ws_handshakeBuffer := ?c\<rparr>, q))"
    by (simp add: client_reads_def)
  also have "\<dots> = ws_emit WsConnected (setState WsOpen (ws\<lparr>ws_handshakeBuffer := [], ws_handshakeComplete := True\<rparr>))"
    using last_read_of_answer [of "ws\<lparr>ws_handshakeBuffer := ?c\<rparr>" q response m] client cut(2) blank(2) len(2) sent(4) valid(2) by simp
  finally have done_c: "client_reads m (qs @ [q]) ws = ws_emit WsConnected (setState WsOpen (ws\<lparr>ws_handshakeBuffer := [], ws_handshakeComplete := True\<rparr>))" .
  have "the_upgrade n (server_reads masks n ps v) = Some (u\<lparr>pu_buffer := ?a\<rparr>)"
    by (simp add: reads the_upgrade_set server u_def toString_def)
  from last_read_of_request [OF this, of p request "createClientKey bytes" masks v1 p1]
  show ?thesis using cut(1) blank(1) len(1) valid(1) run done_c by (simp add: reads u_def response_def toString_def)
qed

text \<open>A socket in which \<open>bytes\<close> have arrived, the upgrade of socket 3, and a client that has sent its request.\<close>

definition arrived :: "byte list \<Rightarrow> (byte, unit) tcp" where
  "arrived bytes = (fst demo_tcp\<lparr>m_readBuffer := bytes\<rparr>, snd demo_tcp)"

definition demo_wss :: WebSocketServer where
  "demo_wss = WebSocketServer_accept 3 WebSocketServer_init"

definition demo_key :: string where
  "demo_key = createClientKey (replicate 16 7)"

definition demo_client :: WebSocketImplNative where
  "demo_client = (WebSocketImplNative_init (\<lambda>_. [1, 2, 3, 4]))\<lparr>ws_hasSocket := True, ws_state := WsConnecting, ws_clientKey := demo_key\<rparr>"

lemma handshake_messages_long:
  "20 < length (toBytes (buildClientHandshakeRequest host port path key))" "9 < length (toBytes (buildServerHandshakeResponse key))"
  by (simp_all add: toBytes_def request_lines response_lines render_lines_def client_headers_def header_line_def)

theorem websocket_handshake_completes_witness:
  "client_reads 5 [arrived (take 9 (toBytes (buildServerHandshakeResponse demo_key))), arrived (drop 9 (toBytes (buildServerHandshakeResponse demo_key)))] demo_client
     = ws_emit WsConnected (setState WsOpen (demo_client\<lparr>ws_handshakeBuffer := [], ws_handshakeComplete := True\<rparr>))
   \<and> wv_emitted (fst (handlePendingReadyRead (\<lambda>_. [1, 2, 3, 4]) 3 (server_reads (\<lambda>_. [1, 2, 3, 4]) 3
         [arrived (take 20 (toBytes (buildClientHandshakeRequest ''::1'' 8080 ''/chat'' demo_key)))] demo_wss,
         arrived (drop 20 (toBytes (buildClientHandshakeRequest ''::1'' 8080 ''/chat'' demo_key)))))) = [WssNewConnection]"
proof -
  let ?r = "toBytes (buildClientHandshakeRequest ''::1'' 8080 ''/chat'' (createClientKey (replicate 16 7)))"
    and ?a = "toBytes (buildServerHandshakeResponse (createClientKey (replicate 16 7)))"
  have plain: "plain_host ''::1''" "\<forall>c \<in> set ''/chat''. \<not> is_space c" "length (replicate 16 (7 :: byte)) = 16"
    by (simp_all add: plain_host_def trim_char_def is_space_def)
  have server: "the_upgrade 3 demo_wss = Some \<lparr>pu_hasSocket = True, pu_buffer = [], pu_connected = True\<rparr>" "wv_emitted demo_wss = []"
    by (simp_all add: demo_wss_def WebSocketServer_accept_def WebSocketServer_init_def the_upgrade_def)
  have client: "ws_hasSocket demo_client" "\<not> ws_handshakeComplete demo_client" "ws_handshakeBuffer demo_client = []"
      "ws_clientKey demo_client = createClientKey (replicate 16 7)"
    by (simp_all add: demo_client_def WebSocketImplNative_init_def demo_key_def)
  have pieces: "concat (map read_bytes ([arrived (take k bs)] @ [arrived (drop k bs)])) = bs"
      "read_bytes (arrived (drop k bs)) = drop k bs" for k bs
    by (simp_all add: read_bytes_def arrived_def)
  have long: "drop 20 ?r \<noteq> []" "drop 9 ?a \<noteq> []"
    by (simp_all only: drop_eq_Nil not_le handshake_messages_long)
  obtain v1 p1 where run: "handlePendingReadyRead (\<lambda>_. [1, 2, 3, 4]) 3 (server_reads (\<lambda>_. [1, 2, 3, 4]) 3
      [arrived (take 20 ?r)] demo_wss, arrived (drop 20 ?r)) = (v1, p1)" by (rule prod.exhaust)
  have nonempty: "read_bytes (arrived (drop 20 ?r)) \<noteq> []" "read_bytes (arrived (drop 9 ?a)) \<noteq> []"
    using long unfolding pieces(2) .
  have "client_reads 5 ([arrived (take 9 ?a)] @ [arrived (drop 9 ?a)]) demo_client
      = ws_emit WsConnected (setState WsOpen (demo_client\<lparr>ws_handshakeBuffer := [], ws_handshakeComplete := True\<rparr>))
    \<and> wv_emitted v1 = wv_emitted demo_wss @ [WssNewConnection]"
    using websocket_handshake_completes [where ps = "[arrived (take 20 ?r)]" and qs = "[arrived (take 9 ?a)]" and m = 5,
        OF plain server(1) client pieces(1) nonempty(1) pieces(1) nonempty(2) run] by blast
  then show ?thesis using run server(2) unfolding demo_key_def by (simp only: fst_conv append.simps)
qed

end
