(* ===== verification/UdpSockets.thy ===== *)
theory UdpSockets
  imports TcpSockets
begin

text \<open>
  \<open>snf::UdpSocket\<close> (\<open>Network/src/SNFNetwork/UdpSocket.h\<close>, \<open>UdpSocket.cpp\<close>) and
  \<open>snf::NetworkDatagram\<close> (\<open>NetworkDatagram.h\<close>). Members run inside the owner, as for the TCP socket; the
  calls from outside that wait for the owner are steps of two threads at the end. The answers of
  \<open>recvfrom\<close> are part of the environment, together with the datagrams that arrived; the results of other system
  calls are arguments.
\<close>

section \<open>State\<close>

record NetworkDatagram =
  dg_data :: "byte ByteArray"
  dg_senderHost :: string
  dg_senderPort :: "16 word"

definition NetworkDatagram_empty :: NetworkDatagram where
  "NetworkDatagram_empty = \<lparr>dg_data = ByteArray_new [], dg_senderHost = [], dg_senderPort = 0\<rparr>"

datatype UdpSocketState = Unbound | Bound | UdpFailed

record UdpSocket = IOEvent +
  us_blocking :: bool
  us_reuseAddress :: bool
  us_state :: UdpSocketState
  us_boundPort :: "16 word"
  us_pendingDatagrams :: "NetworkDatagram list"

datatype udp_signal = UdpReadyRead | UdpBytesWritten nat | UdpErrorOccurred string

text \<open>A datagram that waits in the kernel, with its sender, or an error number.\<close>

datatype recvfrom_answer = Arrives "byte list" string "16 word" | RecvfromFails int

record 't udp_env =
  ue_loop :: "'t io_loop"
  ue_posted :: "udp_signal list"
  ue_recvs :: "recvfrom_answer list"
  ue_arrived :: "(byte list \<times> string \<times> 16 word) list"
  ue_baseSignals :: "IOEventFlag list"
  ue_strerror :: "int \<Rightarrow> string"

type_synonym 't udp = "UdpSocket \<times> 't udp_env"

abbreviation ECONNABORTED :: int where "ECONNABORTED \<equiv> 103"

definition on_udp_io :: "(UdpSocket \<times> 't io_loop \<Rightarrow> UdpSocket \<times> 't io_loop) \<Rightarrow> 't udp \<Rightarrow> 't udp" where
  "on_udp_io f = (\<lambda>(s, w). case f (s, ue_loop w) of (s', l) \<Rightarrow> (s', w\<lparr>ue_loop := l\<rparr>))"

definition emit_udp :: "udp_signal \<Rightarrow> 't udp \<Rightarrow> 't udp" where
  "emit_udp x = (\<lambda>(s, w). (s, w\<lparr>ue_posted := ue_posted w @ [x]\<rparr>))"

definition UdpSocket_init :: "bool \<Rightarrow> UdpSocket" where
  "UdpSocket_init blocking = IOEvent.extend (IOEvent_init\<lparr>io_interest := flags_or [FlagRead, FlagError]\<rparr>)
     (UdpSocket.fields blocking False Unbound 0 [])"


section \<open>Operations\<close>

definition UdpSocket_transitionToError :: "UdpSocket \<Rightarrow> UdpSocket" where
  "UdpSocket_transitionToError s = s\<lparr>us_state := UdpFailed\<rparr>"

definition UdpSocket_failWithErrno :: "string \<Rightarrow> int \<Rightarrow> 't udp \<Rightarrow> 't udp" where
  "UdpSocket_failWithErrno what code = (\<lambda>(s, w).
     emit_udp (UdpErrorOccurred (what @ '': '' @ ue_strerror w code)) (UdpSocket_transitionToError s, w))"

definition UdpSocket_transitionToUnbound :: "addr \<Rightarrow> 't udp \<Rightarrow> 't udp" where
  "UdpSocket_transitionToUnbound n p =
     (case on_udp_io (IOEvent_setDescriptor n (- 1)) (on_udp_io (IOEvent_stop n) p) of
        (s, w) \<Rightarrow> (s\<lparr>us_state := Unbound, us_boundPort := 0, us_pendingDatagrams := []\<rparr>, w))"

definition UdpSocket_destroy :: "addr \<Rightarrow> 't udp \<Rightarrow> 't udp" where
  "UdpSocket_destroy n p = on_udp_io (IOEvent_destroy n) (UdpSocket_transitionToUnbound n p)"

definition UdpSocket_setBlocking :: "bool \<Rightarrow> int \<times> int \<Rightarrow> 't udp \<Rightarrow> 't udp" where
  "UdpSocket_setBlocking blocking mode = (\<lambda>(s, w).
     let p = (s\<lparr>us_blocking := blocking\<rparr>, w)
     in if 0 \<le> io_fd s \<and> fst mode < 0 then UdpSocket_failWithErrno ''Failed to set socket mode'' (snd mode) p else p)"

definition UdpSocket_setReuseAddress :: "bool \<Rightarrow> UdpSocket \<Rightarrow> UdpSocket" where
  "UdpSocket_setReuseAddress reuse s = s\<lparr>us_reuseAddress := reuse\<rparr>"

definition udpInterest :: "UdpSocket \<Rightarrow> u32" where
  "udpInterest s = (if us_state s = Bound then flag_bit FlagError OR flag_bit FlagRead else flag_bit FlagError)"

definition UdpSocket_updateInterestForState :: "addr \<Rightarrow> 't udp \<Rightarrow> 't udp" where
  "UdpSocket_updateInterestForState n p = on_udp_io (IOEvent_setInterest n (udpInterest (fst p))) p"

definition UdpSocket_applyBoundState :: "addr \<Rightarrow> 't udp \<Rightarrow> 't udp" where
  "UdpSocket_applyBoundState n = (\<lambda>(s, w).
     on_udp_io (IOEvent_start n) (UdpSocket_updateInterestForState n (s\<lparr>us_state := Bound\<rparr>, w)))"

text \<open>What the system calls for one address of \<open>bind\<close> return if they are made: \<open>socket\<close> a descriptor or an error
  number, the others a code and \<open>errno\<close>, \<open>getsockname\<close> the port if it succeeds.\<close>

record bind_attempt =
  bc_socket :: "int + int"
  bc_mode :: "int \<times> int"
  bc_reuse :: "int \<times> int"
  bc_bind :: "int \<times> int"
  bc_sockname :: "16 word option"

definition close_udp_fd :: "int \<Rightarrow> 't udp \<Rightarrow> 't udp" where
  "close_udp_fd fd = (\<lambda>(s, w). (s\<lparr>io_closed := io_closed s @ [fd]\<rparr>, w))"

fun bind_candidates :: "addr \<Rightarrow> int \<Rightarrow> bind_attempt list \<Rightarrow> 't udp \<Rightarrow> bool \<times> 't udp" where
  "bind_candidates n lastError [] p = (False, UdpSocket_failWithErrno ''bind() failed'' lastError p)"
| "bind_candidates n lastError (c # cs) p =
     (case bc_socket c of
        Inl e \<Rightarrow> bind_candidates n e cs p
      | Inr fd \<Rightarrow>
          if fst (bc_mode c) < 0 then bind_candidates n (snd (bc_mode c)) cs (close_udp_fd fd p)
          else if us_reuseAddress (fst p) \<and> fst (bc_reuse c) < 0 then bind_candidates n (snd (bc_reuse c)) cs (close_udp_fd fd p)
          else let p1 = on_udp_io (IOEvent_setDescriptor n fd) p
               in if fst (bc_bind c) = 0
                  then let p2 = (case bc_sockname c of
                                   None \<Rightarrow> p1 | Some port \<Rightarrow> ((fst p1)\<lparr>us_boundPort := port\<rparr>, snd p1))
                       in (True, UdpSocket_applyBoundState n p2)
                  else bind_candidates n (snd (bc_bind c)) cs (on_udp_io (IOEvent_setDescriptor n (- 1)) p1))"

definition UdpSocket_bind :: "addr \<Rightarrow> string + bind_attempt list \<Rightarrow> 't udp \<Rightarrow> bool \<times> 't udp" where
  "UdpSocket_bind n resolved p =
     (let p0 = UdpSocket_transitionToUnbound n p
      in case resolved of
           Inl err \<Rightarrow> (False, UdpSocket_failWithErrno ''Failed to resolve bind address'' EHOSTUNREACH p0)
         | Inr cs \<Rightarrow> bind_candidates n EHOSTUNREACH cs p0)"

text \<open>\<open>sendto\<close>: the returned code and \<open>errno\<close>, one for each address of the destination.\<close>

definition UdpSocket_sendDatagramToAddress :: "int \<times> int \<Rightarrow> 't udp \<Rightarrow> bool \<times> 't udp" where
  "UdpSocket_sendDatagramToAddress sent p =
     (if io_fd (fst p) < 0 then (False, p)
      else if 0 < fst sent then (True, emit_udp (UdpBytesWritten (nat (fst sent))) p) else (False, p))"

fun send_candidates :: "int \<Rightarrow> (int \<times> int) list \<Rightarrow> 't udp \<Rightarrow> bool \<times> int \<times> 't udp" where
  "send_candidates errno [] p = (False, errno, p)"
| "send_candidates errno (c # cs) p =
     (case UdpSocket_sendDatagramToAddress c p of
        (True, p1) \<Rightarrow> (True, errno, p1)
      | (False, p1) \<Rightarrow> send_candidates (if io_fd (fst p) < 0 then errno else snd c) cs p1)"

definition UdpSocket_sendDatagram :: "byte list \<Rightarrow> int \<Rightarrow> string + (int \<times> int) list \<Rightarrow> 't udp \<Rightarrow> nat \<times> 't udp" where
  "UdpSocket_sendDatagram data errno resolved p =
     (if data = [] then (0, p)
      else if us_state (fst p) \<noteq> Bound then (0, p)
      else case resolved of
             Inl err \<Rightarrow> (0, UdpSocket_failWithErrno ''Failed to resolve destination address'' EHOSTUNREACH p)
           | Inr cs \<Rightarrow>
               (case send_candidates errno cs p of
                  (True, e, p1) \<Rightarrow> (length data, p1)
                | (False, e, p1) \<Rightarrow> (0, UdpSocket_failWithErrno ''sendto() failed on all candidates'' e p1)))"

definition UdpSocket_hasPendingDatagram :: "UdpSocket \<Rightarrow> bool" where
  "UdpSocket_hasPendingDatagram s \<longleftrightarrow> us_pendingDatagrams s \<noteq> []"

definition UdpSocket_pendingDatagram :: "UdpSocket \<Rightarrow> NetworkDatagram \<times> UdpSocket" where
  "UdpSocket_pendingDatagram s =
     (case us_pendingDatagrams s of
        [] \<Rightarrow> (NetworkDatagram_empty, s)
      | d # ds \<Rightarrow> (d, s\<lparr>us_pendingDatagrams := ds\<rparr>))"

text \<open>\<open>recvfrom\<close> cuts a datagram to the size of the buffer.\<close>

definition udp_buffer_size :: nat where "udp_buffer_size = 4096"

function udp_read_loop :: "bool \<Rightarrow> 't udp \<Rightarrow> 't udp" where
  "udp_read_loop appended (s, w) =
     (let finish = (\<lambda>p. if appended then emit_udp UdpReadyRead p else p)
      in case ue_recvs w of [] \<Rightarrow> finish (s, w)
         | Arrives bs host port # as \<Rightarrow>
             let w1 = w\<lparr>ue_recvs := as, ue_arrived := ue_arrived w @ [(bs, host, port)]\<rparr>;
                 got = take udp_buffer_size bs
             in if got \<noteq> []
                then udp_read_loop True (s\<lparr>us_pendingDatagrams := us_pendingDatagrams s @
                       [\<lparr>dg_data = ByteArray_new got, dg_senderHost = host, dg_senderPort = port\<rparr>]\<rparr>, w1)
                else finish (s, w1)
         | RecvfromFails e # as \<Rightarrow>
             let p = (s, w\<lparr>ue_recvs := as\<rparr>)
             in if e = EAGAIN then finish p
                else if e = EINTR then udp_read_loop appended p
                else finish (UdpSocket_failWithErrno ''recvfrom() failed'' e p))"
  by pat_completeness auto
termination by (relation "measure (\<lambda>(appended, s, w). length (ue_recvs w))") auto

declare udp_read_loop.simps [simp del]

definition UdpSocket_handleReadable :: "'t udp \<Rightarrow> 't udp" where
  "UdpSocket_handleReadable p = (if io_fd (fst p) < 0 then p else udp_read_loop False p)"

definition UdpSocket_handleWritable :: "addr \<Rightarrow> 't udp \<Rightarrow> 't udp" where
  "UdpSocket_handleWritable = UdpSocket_updateInterestForState"

text \<open>The signals of the base class come first.\<close>

definition base_udp_events :: "u32 \<Rightarrow> 't udp \<Rightarrow> 't udp" where
  "base_udp_events native = (\<lambda>(s, w). (s, w\<lparr>ue_baseSignals := ue_baseSignals w @ IOEvent_handleEvents native\<rparr>))"

definition UdpSocket_handleEvents :: "addr \<Rightarrow> u32 \<Rightarrow> 't udp \<Rightarrow> 't udp" where
  "UdpSocket_handleEvents n native p =
     (let p0 = base_udp_events native p
      in if native AND (EPOLLERR OR EPOLLHUP) \<noteq> 0
         then case UdpSocket_failWithErrno ''Socket error condition'' ECONNABORTED p0 of (s, w) \<Rightarrow> (UdpSocket_transitionToError s, w)
         else let p1 = (if native AND EPOLLIN \<noteq> 0 \<and> us_state (fst p0) = Bound then UdpSocket_handleReadable p0 else p0)
              in if native AND EPOLLOUT \<noteq> 0 \<and> us_state (fst p1) = Bound then UdpSocket_handleWritable n p1 else p1)"

text \<open>Joining or leaving a group: the first address of the group and of the interface with their family, and the
  result of \<open>setsockopt\<close>, which is called only for two addresses of one family.\<close>

datatype address_family = AF_INET | AF_INET6 | AF_other

definition UdpSocket_membership :: "(string + address_family list) \<Rightarrow> (string + address_family list) \<Rightarrow> int \<Rightarrow> UdpSocket \<Rightarrow> bool" where
  "UdpSocket_membership groupAddress interfaceAddress rc s =
     (if io_fd s < 0 then False
      else case (groupAddress, interfaceAddress) of
        (Inr (g # gs), Inr (i # is)) \<Rightarrow> g = i \<and> (g = AF_INET \<or> g = AF_INET6) \<and> 0 \<le> rc
      | _ \<Rightarrow> False)"


section \<open>Datagrams arrive whole and in order\<close>

text \<open>What a datagram in the kernel becomes; an empty one is dropped.\<close>

definition datagram_of :: "byte list \<times> string \<times> 16 word \<Rightarrow> NetworkDatagram" where
  "datagram_of = (\<lambda>(bs, host, port). \<lparr>dg_data = ByteArray_new (take udp_buffer_size bs), dg_senderHost = host, dg_senderPort = port\<rparr>)"

definition datagrams :: "(byte list \<times> string \<times> 16 word) list \<Rightarrow> NetworkDatagram list" where
  "datagrams xs = map datagram_of (filter (\<lambda>x. fst x \<noteq> []) xs)"

text \<open>The life of a socket, with the datagrams taken since the last call of \<open>bind\<close>.\<close>

record 't udp_run =
  ur_udp :: "'t udp"
  ur_taken :: "NetworkDatagram list"

definition udp_env_set :: "('t udp_env \<Rightarrow> 't udp_env) \<Rightarrow> 't udp \<Rightarrow> 't udp" where
  "udp_env_set f = (\<lambda>(s, w). (s, f w))"

definition bind_fresh :: "'t io_loop \<Rightarrow> bind_attempt \<Rightarrow> bool" where
  "bind_fresh l c = (case bc_socket c of Inl e \<Rightarrow> True | Inr fd \<Rightarrow> 0 \<le> fd \<and> unwatched fd l)"

inductive udp_reachable :: "addr \<Rightarrow> 't udp_run \<Rightarrow> bool" for n where
  new: "table_ok (ue_loop w) \<Longrightarrow> no_watch_of n (- 1) (ue_loop w) \<Longrightarrow> ue_arrived w = [] \<Longrightarrow>
    udp_reachable n \<lparr>ur_udp = (UdpSocket_init blocking, w), ur_taken = []\<rparr>"
| bind: "udp_reachable n r \<Longrightarrow> (\<And>cs. resolved = Inr cs \<Longrightarrow> \<forall>c \<in> set cs. bind_fresh (ue_loop (snd (ur_udp r))) c) \<Longrightarrow>
    udp_reachable n \<lparr>ur_udp = snd (UdpSocket_bind n resolved (udp_env_set (\<lambda>w. w\<lparr>ue_arrived := []\<rparr>) (ur_udp r))), ur_taken = []\<rparr>"
| send: "udp_reachable n r \<Longrightarrow> udp_reachable n (r\<lparr>ur_udp := snd (UdpSocket_sendDatagram data errno dest (ur_udp r))\<rparr>)"
| take: "udp_reachable n r \<Longrightarrow> ur_udp r = (s, w) \<Longrightarrow> UdpSocket_hasPendingDatagram s \<Longrightarrow> UdpSocket_pendingDatagram s = (d, s') \<Longrightarrow>
    udp_reachable n (r\<lparr>ur_udp := (s', w), ur_taken := ur_taken r @ [d]\<rparr>)"
| events: "udp_reachable n r \<Longrightarrow> udp_reachable n (r\<lparr>ur_udp := UdpSocket_handleEvents n native (ur_udp r)\<rparr>)"
| blocking: "udp_reachable n r \<Longrightarrow> udp_reachable n (r\<lparr>ur_udp := UdpSocket_setBlocking b mode (ur_udp r)\<rparr>)"
| reuse: "udp_reachable n r \<Longrightarrow> ur_udp r = (s, w) \<Longrightarrow> udp_reachable n (r\<lparr>ur_udp := (UdpSocket_setReuseAddress b s, w)\<rparr>)"
| signal: "udp_reachable n r \<Longrightarrow> udp_reachable n (r\<lparr>ur_udp := udp_env_set (\<lambda>w. w\<lparr>ue_posted := xs\<rparr>) (ur_udp r)\<rparr>)"
| kernel: "udp_reachable n r \<Longrightarrow> udp_reachable n (r\<lparr>ur_udp := udp_env_set (\<lambda>w. w\<lparr>ue_recvs := as\<rparr>) (ur_udp r)\<rparr>)"
| others: "udp_reachable n r \<Longrightarrow> by_others n (io_fd (fst (ur_udp r))) (ue_loop (snd (ur_udp r))) k \<Longrightarrow>
    udp_reachable n (r\<lparr>ur_udp := udp_env_set (\<lambda>w. w\<lparr>ue_loop := k\<rparr>) (ur_udp r)\<rparr>)"

definition udp_ok :: "addr \<Rightarrow> NetworkDatagram list \<Rightarrow> 't udp \<Rightarrow> bool" where
  "udp_ok n tak = (\<lambda>(s, w). in_sync n (s, ue_loop w) \<and> tak @ us_pendingDatagrams s = datagrams (ue_arrived w) \<and>
     (us_state s = Bound \<longrightarrow> 0 \<le> io_fd s \<and> io_active s \<and> io_interest s = flag_bit FlagError OR flag_bit FlagRead))"

lemma udp_in_sync_frame [simp]:
  "in_sync n (s\<lparr>us_state := x\<rparr>, l) = in_sync n (s, l)"
  "in_sync n (s\<lparr>us_blocking := b\<rparr>, l) = in_sync n (s, l)"
  "in_sync n (s\<lparr>us_reuseAddress := b\<rparr>, l) = in_sync n (s, l)"
  "in_sync n (s\<lparr>us_boundPort := port\<rparr>, l) = in_sync n (s, l)"
  "in_sync n (s\<lparr>us_pendingDatagrams := ds\<rparr>, l) = in_sync n (s, l)"
  "in_sync n (s\<lparr>io_closed := fds\<rparr>, l) = in_sync n (s, l)"
  by (simp_all add: in_sync_def own_watch_def)

lemma udp_io_frame [simp]:
  "us_state (fst (IOEvent_stop n p)) = us_state (fst p)" "us_pendingDatagrams (fst (IOEvent_stop n p)) = us_pendingDatagrams (fst p)"
  "us_state (fst (IOEvent_start n p)) = us_state (fst p)" "us_pendingDatagrams (fst (IOEvent_start n p)) = us_pendingDatagrams (fst p)"
  "us_state (fst (IOEvent_setInterest n flags p)) = us_state (fst p)"
  "us_pendingDatagrams (fst (IOEvent_setInterest n flags p)) = us_pendingDatagrams (fst p)"
  "us_state (fst (IOEvent_setDescriptor n fd p)) = us_state (fst p)"
  "us_pendingDatagrams (fst (IOEvent_setDescriptor n fd p)) = us_pendingDatagrams (fst p)"
  by (cases p; simp add: IOEvent_stop_def IOEvent_start_def IOEvent_setInterest_def IOEvent_setDescriptor_def
      IOEvent_syncRegistration_def Let_def)+

lemma on_udp_io_eq: "on_udp_io f p = (fst (f (fst p, ue_loop (snd p))), (snd p)\<lparr>ue_loop := snd (f (fst p, ue_loop (snd p)))\<rparr>)"
  by (cases p) (simp add: on_udp_io_def split: prod.split)

lemma udp_ok_iff:
  "udp_ok n tak p \<longleftrightarrow> in_sync n (fst p, ue_loop (snd p)) \<and> tak @ us_pendingDatagrams (fst p) = datagrams (ue_arrived (snd p)) \<and>
     (us_state (fst p) = Bound \<longrightarrow> 0 \<le> io_fd (fst p) \<and> io_active (fst p) \<and> io_interest (fst p) = flag_bit FlagError OR flag_bit FlagRead)"
  by (cases p) (simp add: udp_ok_def)

lemma udp_ok_emit [simp]: "udp_ok n tak (emit_udp x p) = udp_ok n tak p"
  by (cases p) (simp add: udp_ok_def emit_udp_def)

lemma udp_ok_fail: "udp_ok n tak p \<Longrightarrow> udp_ok n tak (UdpSocket_failWithErrno what e p)"
  by (cases p) (simp add: UdpSocket_failWithErrno_def UdpSocket_transitionToError_def udp_ok_def emit_udp_def)

lemma udp_ok_update:
  assumes "udp_ok n tak p"
  shows "udp_ok n tak (UdpSocket_updateInterestForState n p)"
proof -
  have "in_sync n (IOEvent_setInterest n (udpInterest (fst p)) (fst p, ue_loop (snd p)))"
    using assms by (intro in_sync_setInterest) (simp add: udp_ok_iff)
  then show ?thesis
    using assms by (simp add: UdpSocket_updateInterestForState_def on_udp_io_eq udp_ok_iff io_ops_io udpInterest_def)
qed

text \<open>Before it is bound, a socket is not watched; so a new descriptor leaves the loop alone.\<close>

definition udp_idle :: "addr \<Rightarrow> 't io_loop \<Rightarrow> 't udp \<Rightarrow> bool" where
  "udp_idle n l p \<longleftrightarrow> in_sync n (fst p, l) \<and> ue_loop (snd p) = l \<and> \<not> io_active (fst p) \<and> us_state (fst p) = Unbound \<and>
     us_pendingDatagrams (fst p) = [] \<and> ue_arrived (snd p) = []"

lemma udp_idle_ok: "udp_idle n l p \<Longrightarrow> udp_ok n [] p"
  by (simp add: udp_idle_def udp_ok_iff datagrams_def)

lemma setDescriptor_inactive: "\<not> io_active s \<Longrightarrow> snd (IOEvent_setDescriptor n fd (s, l)) = l"
  by (simp add: IOEvent_setDescriptor_def Let_def)

lemma udp_idle_descriptor:
  assumes "udp_idle n l p" "unwatched fd l"
  shows "udp_idle n l (on_udp_io (IOEvent_setDescriptor n fd) p)"
proof -
  have "in_sync n (IOEvent_setDescriptor n fd (fst p, l))"
    using assms by (intro in_sync_setDescriptor) (simp_all add: udp_idle_def)
  moreover have "snd (IOEvent_setDescriptor n fd (fst p, l)) = l"
    using assms(1) by (intro setDescriptor_inactive) (simp add: udp_idle_def)
  ultimately have "in_sync n (fst (IOEvent_setDescriptor n fd (fst p, l)), l)"
    by (metis prod.collapse)
  then show ?thesis
    using assms(1) \<open>snd (IOEvent_setDescriptor n fd (fst p, l)) = l\<close>
    by (simp add: udp_idle_def on_udp_io_eq io_ops_io)
qed

lemma udp_idle_closed: "udp_idle n l p \<Longrightarrow> udp_idle n l (close_udp_fd fd p)"
  by (cases p) (simp add: udp_idle_def close_udp_fd_def)

lemma udp_idle_nothing_at_minus_one: "udp_idle n l p \<Longrightarrow> unwatched (- 1) l"
  by (simp add: udp_idle_def in_sync_def table_ok_def unwatched_def)

lemma udp_bound_ok:
  assumes "udp_idle n l p" "0 \<le> io_fd (fst p)"
  shows "udp_ok n [] (UdpSocket_applyBoundState n p)"
proof (cases p)
  case (Pair s w)
  let ?s = "s\<lparr>us_state := Bound\<rparr>" and ?i = "flag_bit FlagError OR flag_bit FlagRead"
  have "in_sync n (IOEvent_setInterest n ?i (?s, l))"
    using assms(1) by (intro in_sync_setInterest) (simp add: Pair udp_idle_def)
  then obtain s' l' where sl: "IOEvent_setInterest n ?i (?s, l) = (s', l')" "in_sync n (s', l')" by (metis surj_pair)
  have "in_sync n (IOEvent_start n (s', l'))" using sl(2) by (rule in_sync_start)
  moreover have "us_state s' = Bound" "us_pendingDatagrams s' = us_pendingDatagrams s" "io_interest s' = ?i" "io_fd s' = io_fd s"
    using sl(1) udp_io_frame(5,6) [of n ?i "(?s, l)"] io_ops_io(6,8) [of n ?i "(?s, l)"] by simp_all
  ultimately show ?thesis
    using assms
    by (simp add: Pair UdpSocket_applyBoundState_def UdpSocket_updateInterestForState_def on_udp_io_eq udpInterest_def sl(1) [simplified]
        udp_ok_iff io_ops_io udp_idle_def datagrams_def)
qed

lemma udp_bind_candidates_ok:
  "udp_idle n l p \<Longrightarrow> \<forall>c \<in> set cs. bind_fresh l c \<Longrightarrow> udp_ok n [] (snd (bind_candidates n e cs p))"
proof (induction cs arbitrary: e p)
  case Nil
  then show ?case by (simp add: udp_ok_fail udp_idle_ok)
next
  case (Cons c cs)
  show ?case
  proof (cases "bc_socket c")
    case (Inl e)
    then show ?thesis using Cons by simp
  next
    case (Inr fd)
    let ?p1 = "on_udp_io (IOEvent_setDescriptor n fd) p"
    have fresh: "0 \<le> fd" "unwatched fd l" using Cons.prems(2) Inr by (simp_all add: bind_fresh_def)
    have p1: "udp_idle n l ?p1" using Cons.prems(1) fresh(2) by (rule udp_idle_descriptor)
    have p2: "udp_idle n l (on_udp_io (IOEvent_setDescriptor n (- 1)) ?p1)"
      by (rule udp_idle_descriptor [OF p1 udp_idle_nothing_at_minus_one [OF p1]])
    have fd: "io_fd (fst ?p1) = fd" by (simp add: on_udp_io_eq io_ops_io)
    have "udp_idle n l ((fst ?p1)\<lparr>us_boundPort := port\<rparr>, snd ?p1)" for port
      using p1 by (simp add: udp_idle_def)
    then have "udp_ok n [] (UdpSocket_applyBoundState n (case bc_sockname c of None \<Rightarrow> ?p1 | Some port \<Rightarrow> ((fst ?p1)\<lparr>us_boundPort := port\<rparr>, snd ?p1)))"
      using p1 fd fresh(1) by (intro udp_bound_ok [of n l]) (simp_all split: option.split)
    then show ?thesis
      using Inr Cons.prems Cons.IH p2 by (simp add: udp_idle_closed Let_def)
  qed
qed

lemma udp_unbound_idle:
  assumes "in_sync n (fst p, ue_loop (snd p))" "ue_arrived (snd p) = []"
  obtains l where "udp_idle n l (UdpSocket_transitionToUnbound n p)" "\<And>fd. unwatched fd (ue_loop (snd p)) \<Longrightarrow> unwatched fd l"
proof -
  obtain s l where sl: "IOEvent_stop n (fst p, ue_loop (snd p)) = (s, l)" by (rule prod.exhaust)
  have sync: "in_sync n (s, l)" and t: "table_ok (ue_loop (snd p))"
    using in_sync_stop [OF assms(1)] sl assms(1) by (simp_all add: in_sync_def)
  have idle: "\<not> io_active s" using io_ops_io(2) [of n "(fst p, ue_loop (snd p))"] sl by simp
  have "unwatched (- 1) l" using sync by (simp add: in_sync_def table_ok_def unwatched_def)
  then have "in_sync n (IOEvent_setDescriptor n (- 1) (s, l))" using sync by (intro in_sync_setDescriptor) simp_all
  then have "in_sync n (fst (IOEvent_setDescriptor n (- 1) (s, l)), l)"
    using setDescriptor_inactive [OF idle, of n "- 1" l] by (metis prod.collapse)
  then have "udp_idle n l (UdpSocket_transitionToUnbound n p)"
    using assms(2) idle setDescriptor_inactive [OF idle, of n "- 1" l]
    by (simp add: UdpSocket_transitionToUnbound_def on_udp_io_eq sl udp_idle_def io_ops_io)
  moreover have "unwatched fd (ue_loop (snd p)) \<Longrightarrow> unwatched fd l" for fd
    using sl t by (auto simp: IOEvent_stop_def unwatched_def watches_ops split: if_splits)
  ultimately show ?thesis using that by blast
qed

lemma udp_bind_ok:
  assumes "in_sync n (fst p, ue_loop (snd p))" "ue_arrived (snd p) = []" "\<And>cs. resolved = Inr cs \<Longrightarrow> \<forall>c \<in> set cs. bind_fresh (ue_loop (snd p)) c"
  shows "udp_ok n [] (snd (UdpSocket_bind n resolved p))"
proof -
  from udp_unbound_idle [OF assms(1,2)] obtain l where l: "udp_idle n l (UdpSocket_transitionToUnbound n p)"
    "\<And>fd. unwatched fd (ue_loop (snd p)) \<Longrightarrow> unwatched fd l" by blast
  have "\<forall>c \<in> set cs. bind_fresh l c" if "resolved = Inr cs" for cs
    using assms(3) [OF that] l(2) by (auto simp: bind_fresh_def split: sum.splits)
  then show ?thesis
    using l(1) by (cases resolved) (simp_all add: UdpSocket_bind_def udp_bind_candidates_ok udp_ok_fail udp_idle_ok)
qed

lemma udp_ok_send_candidates: "udp_ok n tak p \<Longrightarrow> udp_ok n tak (snd (snd (send_candidates e cs p)))"
  by (induction cs arbitrary: e p) (auto simp: UdpSocket_sendDatagramToAddress_def split: prod.split bool.split)

lemma udp_ok_send: "udp_ok n tak p \<Longrightarrow> udp_ok n tak (snd (UdpSocket_sendDatagram data e dest p))"
proof (cases dest)
  case (Inr cs)
  assume p: "udp_ok n tak p"
  obtain b e' p' where c: "send_candidates e cs p = (b, e', p')" by (metis surj_pair)
  then have "udp_ok n tak p'" using udp_ok_send_candidates [OF p, of e cs] by simp
  then show ?thesis using p by (cases b) (simp_all add: UdpSocket_sendDatagram_def Inr c udp_ok_fail)
qed (simp add: UdpSocket_sendDatagram_def udp_ok_fail)

lemma datagrams_append: "datagrams (xs @ [(bs, host, port)]) =
    datagrams xs @ (if take udp_buffer_size bs = [] then [] else [datagram_of (bs, host, port)])"
  by (simp add: datagrams_def udp_buffer_size_def)

lemma udp_ok_read: "udp_ok n tak (s, w) \<Longrightarrow> udp_ok n tak (udp_read_loop appended (s, w))"
proof (induction appended "(s, w)" arbitrary: s w rule: udp_read_loop.induct)
  case (1 appended s w)
  show ?case
  proof (cases "ue_recvs w")
    case Nil
    then show ?thesis using "1.prems" by (simp add: udp_read_loop.simps)
  next
    case (Cons a as)
    show ?thesis
    proof (cases a)
      case (Arrives bs host port)
      let ?w1 = "w\<lparr>ue_recvs := as, ue_arrived := ue_arrived w @ [(bs, host, port)]\<rparr>" and ?got = "take udp_buffer_size bs"
      have "?got = [] \<Longrightarrow> udp_ok n tak (s, ?w1)"
        using "1.prems" by (simp add: udp_ok_def datagrams_append)
      moreover have "?got \<noteq> [] \<Longrightarrow> udp_ok n tak (udp_read_loop True (s\<lparr>us_pendingDatagrams := us_pendingDatagrams s @
          [\<lparr>dg_data = ByteArray_new ?got, dg_senderHost = host, dg_senderPort = port\<rparr>]\<rparr>, ?w1))"
        using "1.prems" by (intro "1.hyps"(1) [OF refl Cons Arrives refl refl]) (simp_all add: udp_ok_def datagrams_append datagram_of_def)
      ultimately show ?thesis
        using Cons Arrives by (cases "?got = []") (simp_all add: udp_read_loop.simps [of appended s w] Let_def del: take_eq_Nil take_eq_Nil2)
    next
      case (RecvfromFails e)
      have "udp_ok n tak (s, w\<lparr>ue_recvs := as\<rparr>)" using "1.prems" by (simp add: udp_ok_def)
      then show ?thesis
        using "1.hyps"(2) [OF refl Cons RecvfromFails refl] Cons RecvfromFails by (simp add: udp_read_loop.simps [of appended s w] Let_def udp_ok_fail)
    qed
  qed
qed

lemma udp_ok_events: "udp_ok n tak p \<Longrightarrow> udp_ok n tak (UdpSocket_handleEvents n native p)"
proof -
  assume "udp_ok n tak p"
  then have p: "udp_ok n tak (base_udp_events native p)" by (cases p) (simp add: base_udp_events_def udp_ok_def)
  let ?p = "base_udp_events native p"
  have "udp_ok n tak (UdpSocket_handleReadable ?p)"
    using p by (cases ?p) (simp add: UdpSocket_handleReadable_def udp_ok_read)
  moreover obtain s w where f: "UdpSocket_failWithErrno ''Socket error condition'' ECONNABORTED ?p = (s, w)" by (rule prod.exhaust)
  moreover have "udp_ok n tak (UdpSocket_transitionToError s, w)"
    using udp_ok_fail [OF p, of "''Socket error condition''" ECONNABORTED] unfolding f by (simp add: udp_ok_def UdpSocket_transitionToError_def)
  ultimately show ?thesis
    using p by (simp add: UdpSocket_handleEvents_def UdpSocket_handleWritable_def udp_ok_update Let_def)
qed

lemma udp_reachable_ok: "udp_reachable n r \<Longrightarrow> udp_ok n (ur_taken r) (ur_udp r)"
proof (induction rule: udp_reachable.induct)
  case (new w blocking)
  then show ?case
    by (simp add: udp_ok_def UdpSocket_init_def IOEvent_init_def IOEvent.defs UdpSocket.defs in_sync_def own_watch_def watch_view_def
        table_ok_def datagrams_def)
next
  case (bind r resolved)
  obtain s w where r: "ur_udp r = (s, w)" by (rule prod.exhaust)
  have "udp_ok n [] (snd (UdpSocket_bind n resolved (udp_env_set (\<lambda>w. w\<lparr>ue_arrived := []\<rparr>) (ur_udp r))))"
    using bind by (intro udp_bind_ok) (simp_all add: r udp_env_set_def udp_ok_def)
  then show ?case by simp
next
  case (take r s w d s')
  then show ?case
    by (auto simp: udp_ok_def UdpSocket_pendingDatagram_def UdpSocket_hasPendingDatagram_def split: list.splits)
next
  case (blocking r b mode)
  obtain s w where r: "ur_udp r = (s, w)" by (rule prod.exhaust)
  have "udp_ok n (ur_taken r) (s\<lparr>us_blocking := b\<rparr>, w)" using blocking r by (simp add: udp_ok_def)
  then show ?case by (simp add: r UdpSocket_setBlocking_def Let_def udp_ok_fail)
next
  case (reuse r s w b)
  then show ?case by (simp add: UdpSocket_setReuseAddress_def udp_ok_def)
next
  case (others r k)
  then show ?case by (cases "ur_udp r") (simp add: udp_env_set_def udp_ok_def in_sync_def by_others_def)
qed (simp_all add: udp_ok_send udp_ok_events, (auto simp: udp_env_set_def udp_ok_def split: prod.split)+)

text \<open>
  C32. Whatever is called and whatever arrives: since the last call of \<open>bind\<close>, the datagrams handed out followed
  by those that wait are exactly the non-empty datagrams that arrived, in their order, each once, with its sender and
  its payload up to the size of the buffer; and as long as the socket is bound, its loop watches its
  descriptor for input with the callback of its current registration.
\<close>
theorem datagrams_in_order:
  assumes "udp_reachable n r" "ur_udp r = (s, w)"
  shows "ur_taken r @ us_pendingDatagrams s = datagrams (ue_arrived w) \<and>
    (us_state s = Bound \<longrightarrow> watch_view (smap_get (el_ioWatches (ue_loop w)) (io_fd s)) =
       Some (EPOLLIN OR EPOLLERR OR EPOLLHUP, Some (n, io_fd s, io_generation s)))"
  using udp_reachable_ok [OF assms(1)]
  by (simp add: assms(2) udp_ok_def in_sync_def own_watch_def watches_def makeDispatchCallback_def interestToNative_def hasAny_def)

text \<open>A socket that has failed ignores what arrives.\<close>

lemma failed_socket_events:
  "us_state (fst p) = UdpFailed \<Longrightarrow> us_state (fst (UdpSocket_handleEvents n native p)) = UdpFailed \<and>
   us_pendingDatagrams (fst (UdpSocket_handleEvents n native p)) = us_pendingDatagrams (fst p) \<and>
   ue_loop (snd (UdpSocket_handleEvents n native p)) = ue_loop (snd p)"
  by (cases p) (simp add: UdpSocket_handleEvents_def UdpSocket_failWithErrno_def UdpSocket_transitionToError_def emit_udp_def
      base_udp_events_def Let_def)

lemma failed_socket_many_events:
  "us_state (fst p) = UdpFailed \<Longrightarrow> us_state (fst (fold (UdpSocket_handleEvents n) natives p)) = UdpFailed \<and>
   us_pendingDatagrams (fst (fold (UdpSocket_handleEvents n) natives p)) = us_pendingDatagrams (fst p) \<and>
   ue_loop (snd (fold (UdpSocket_handleEvents n) natives p)) = ue_loop (snd p)"
  by (induction natives arbitrary: p) (simp_all add: failed_socket_events)

lemma send_candidates_fail:
  "\<forall>c \<in> set cs. fst c \<le> 0 \<Longrightarrow> \<exists>e. send_candidates errno cs p = (False, e, p)"
  by (induction cs arbitrary: errno) (auto simp: UdpSocket_sendDatagramToAddress_def)

text \<open>
  C33. One datagram that cannot be sent at once ends the socket. When \<open>sendto\<close> fails for every address of the
  destination, for instance because the send buffer is full (\<open>EAGAIN\<close>), the bound socket is in the error state:
  whatever the kernel reports afterwards, no datagram is received any more, while the loop goes on watching
  the descriptor for input.
\<close>
theorem failed_send_stops_receiving:
  assumes "udp_reachable n r" "us_state (fst (ur_udp r)) = Bound" "data \<noteq> []" "\<forall>c \<in> set cs. fst c \<le> 0"
    "UdpSocket_sendDatagram data errno (Inr cs) (ur_udp r) = (k, q)" "fold (UdpSocket_handleEvents n) natives q = (s, w)"
  shows "k = 0 \<and> us_state s = UdpFailed \<and> us_pendingDatagrams s = us_pendingDatagrams (fst (ur_udp r)) \<and>
    watch_view (smap_get (el_ioWatches (ue_loop w)) (io_fd (fst (ur_udp r)))) =
      Some (EPOLLIN OR EPOLLERR OR EPOLLHUP, Some (n, io_fd (fst (ur_udp r)), io_generation (fst (ur_udp r))))"
proof -
  obtain e where e: "send_candidates errno cs (ur_udp r) = (False, e, ur_udp r)" using send_candidates_fail [OF assms(4)] by blast
  then have q: "k = 0" "us_state (fst q) = UdpFailed" "us_pendingDatagrams (fst q) = us_pendingDatagrams (fst (ur_udp r))"
    "ue_loop (snd q) = ue_loop (snd (ur_udp r))"
    using assms(2,3,5) by (auto simp: UdpSocket_sendDatagram_def UdpSocket_failWithErrno_def UdpSocket_transitionToError_def emit_udp_def
        split: prod.splits)
  obtain s0 w0 where r: "ur_udp r = (s0, w0)" by (rule prod.exhaust)
  have "watch_view (smap_get (el_ioWatches (ue_loop w0)) (io_fd s0)) = Some (EPOLLIN OR EPOLLERR OR EPOLLHUP, Some (n, io_fd s0, io_generation s0))"
    using udp_reachable_ok [OF assms(1)] assms(2)
    by (simp add: r udp_ok_def in_sync_def own_watch_def watches_def makeDispatchCallback_def interestToNative_def hasAny_def)
  then show ?thesis using q failed_socket_many_events [OF q(2), of n natives] assms(6) by (simp add: r)
qed

text \<open>A socket bound to descriptor 7 with two datagrams in the kernel, the first with payload.\<close>

definition demo_udp_env :: "unit udp_env" where
  "demo_udp_env = \<lparr>ue_loop = EventLoop_init, ue_posted = [], ue_recvs = [], ue_arrived = [], ue_baseSignals = [], ue_strerror = (\<lambda>_. [])\<rparr>"

definition demo_bound :: "unit udp_run" where
  "demo_bound = \<lparr>ur_udp = snd (UdpSocket_bind 3
     (Inr [\<lparr>bc_socket = Inr 7, bc_mode = (0, 0), bc_reuse = (- 1, 22), bc_bind = (0, 0), bc_sockname = Some 5000\<rparr>])
     (udp_env_set (\<lambda>w. w\<lparr>ue_arrived := []\<rparr>) (UdpSocket_init False, demo_udp_env))), ur_taken = []\<rparr>"

definition demo_arrived :: "unit udp_run" where
  "demo_arrived = demo_bound\<lparr>ur_udp := UdpSocket_handleEvents 3 EPOLLIN
     (udp_env_set (\<lambda>w. w\<lparr>ue_recvs := [Arrives [1, 2] ''::1'' 9, Arrives [] ''::1'' 9]\<rparr>) (ur_udp demo_bound))\<rparr>"

lemma demo_bound_reachable: "udp_reachable 3 demo_bound"
proof -
  have "udp_reachable 3 \<lparr>ur_udp = (UdpSocket_init False, demo_udp_env), ur_taken = []\<rparr>"
    by (rule udp_reachable.new) (simp_all add: demo_udp_env_def table_ok_def no_watch_of_def watches_def EventLoop_init_def)
  from udp_reachable.bind [OF this, of "Inr [\<lparr>bc_socket = Inr 7, bc_mode = (0, 0), bc_reuse = (- 1, 22), bc_bind = (0, 0), bc_sockname = Some 5000\<rparr>]"]
  show ?thesis
    by (simp add: demo_bound_def bind_fresh_def unwatched_def watches_def demo_udp_env_def EventLoop_init_def)
qed

lemma demo_arrived_reachable: "udp_reachable 3 demo_arrived"
  using udp_reachable.events [OF udp_reachable.kernel [OF demo_bound_reachable]] by (simp add: demo_arrived_def)

lemmas demo_udp_defs = demo_bound_def UdpSocket_bind_def UdpSocket_transitionToUnbound_def on_udp_io_eq UdpSocket_init_def
  UdpSocket_applyBoundState_def UdpSocket_updateInterestForState_def udpInterest_def IOEvent_stop_def IOEvent_start_def
  IOEvent_setInterest_def IOEvent_setDescriptor_def IOEvent_syncRegistration_def IOEvent_init_def IOEvent.defs UdpSocket.defs
  udp_env_set_def demo_udp_env_def Let_def EventLoop_init_def EventLoop_hasIOWatch_def

lemma demo_bound_state: "us_state (fst (ur_udp demo_bound)) = Bound" "io_fd (fst (ur_udp demo_bound)) = 7"
    "us_pendingDatagrams (fst (ur_udp demo_bound)) = []" "ue_arrived (snd (ur_udp demo_bound)) = []"
  by (simp_all add: demo_udp_defs)

lemma demo_arrived_state: "ue_arrived (snd (ur_udp demo_arrived)) = [([1, 2], ''::1'', 9), ([], ''::1'', 9)]"
    "ur_taken demo_arrived = []"
proof -
  obtain s w where r: "ur_udp demo_bound = (s, w)" by (rule prod.exhaust)
  show "ue_arrived (snd (ur_udp demo_arrived)) = [([1, 2], ''::1'', 9), ([], ''::1'', 9)]"
    using demo_bound_state
    by (simp add: demo_arrived_def r udp_env_set_def UdpSocket_handleEvents_def base_udp_events_def UdpSocket_handleReadable_def udp_read_loop.simps
        udp_buffer_size_def Let_def emit_udp_def)
  show "ur_taken demo_arrived = []" by (simp add: demo_arrived_def demo_bound_def)
qed

theorem datagrams_in_order_witness:
  "us_pendingDatagrams (fst (ur_udp demo_arrived)) = [\<lparr>dg_data = ByteArray_new [1, 2], dg_senderHost = ''::1'', dg_senderPort = 9\<rparr>]"
proof -
  obtain s w where r: "ur_udp demo_arrived = (s, w)" by (rule prod.exhaust)
  have "ue_arrived w = [([1, 2], ''::1'', 9), ([], ''::1'', 9)]" using demo_arrived_state(1) r by simp
  then show ?thesis
    using datagrams_in_order [OF demo_arrived_reachable r] demo_arrived_state(2)
    by (simp add: r datagrams_def datagram_of_def udp_buffer_size_def)
qed

theorem failed_send_stops_receiving_witness:
  "us_state (fst (UdpSocket_handleEvents 3 EPOLLIN (snd (UdpSocket_sendDatagram [5] 0 (Inr [(- 1, EAGAIN)]) (ur_udp demo_bound))))) = UdpFailed"
proof -
  obtain k q where q: "UdpSocket_sendDatagram [5] 0 (Inr [(- 1, EAGAIN)]) (ur_udp demo_bound) = (k, q)" by (rule prod.exhaust)
  obtain s w where s: "fold (UdpSocket_handleEvents 3) [EPOLLIN] q = (s, w)" by (rule prod.exhaust)
  have "us_state s = UdpFailed"
    using failed_send_stops_receiving [OF demo_bound_reachable demo_bound_state(1) _ _ q s] by simp
  then show ?thesis using s by (simp add: q)
qed


section \<open>Calls from outside that wait for the owner\<close>

text \<open>
  \<open>invokeOnOwnerThreadAndWait\<close>: the shared state of one call, where the caller and the owner are, and the
  results of the function as often as it ran. Each step is one region under the lock, or the run of the function.
\<close>

datatype caller_phase = WaitsForStart | WaitsForResult | Returned bool
datatype owner_phase = TaskQueued | TaskRuns | TaskRan bool | TaskOver

record owner_call =
  oc_started :: bool
  oc_done :: bool
  oc_abandoned :: bool
  oc_result :: bool
  oc_caller :: caller_phase
  oc_owner :: owner_phase
  oc_runs :: "bool list"

definition owner_call_init :: owner_call where
  "owner_call_init = \<lparr>oc_started = False, oc_done = False, oc_abandoned = False, oc_result = False,
     oc_caller = WaitsForStart, oc_owner = TaskQueued, oc_runs = []\<rparr>"

text \<open>The first wait ends: by the time, or because the predicate holds.\<close>

definition caller_first_wait :: "bool \<Rightarrow> owner_call \<Rightarrow> owner_call" where
  "caller_first_wait fallback c =
     (if oc_started c \<or> oc_done c then c\<lparr>oc_caller := WaitsForResult\<rparr>
      else c\<lparr>oc_abandoned := True, oc_caller := Returned fallback\<rparr>)"

definition caller_second_wait :: "owner_call \<Rightarrow> owner_call" where
  "caller_second_wait c = c\<lparr>oc_caller := Returned (oc_result c)\<rparr>"

definition owner_begins :: "owner_call \<Rightarrow> owner_call" where
  "owner_begins c = (if oc_abandoned c then c\<lparr>oc_owner := TaskOver\<rparr> else c\<lparr>oc_started := True, oc_owner := TaskRuns\<rparr>)"

definition owner_runs :: "bool \<Rightarrow> owner_call \<Rightarrow> owner_call" where
  "owner_runs b c = c\<lparr>oc_owner := TaskRan b, oc_runs := oc_runs c @ [b]\<rparr>"

definition owner_ends :: "bool \<Rightarrow> owner_call \<Rightarrow> owner_call" where
  "owner_ends b c = c\<lparr>oc_result := b, oc_done := True, oc_owner := TaskOver\<rparr>"

inductive owner_call_step :: "bool \<Rightarrow> owner_call \<Rightarrow> owner_call \<Rightarrow> bool" for fallback where
  first_wait: "oc_caller c = WaitsForStart \<Longrightarrow> owner_call_step fallback c (caller_first_wait fallback c)"
| second_wait: "oc_caller c = WaitsForResult \<Longrightarrow> oc_done c \<Longrightarrow> owner_call_step fallback c (caller_second_wait c)"
| begins: "oc_owner c = TaskQueued \<Longrightarrow> owner_call_step fallback c (owner_begins c)"
| runs: "oc_owner c = TaskRuns \<Longrightarrow> owner_call_step fallback c (owner_runs b c)"
| ends: "oc_owner c = TaskRan b \<Longrightarrow> owner_call_step fallback c (owner_ends b c)"

abbreviation owner_call_steps :: "bool \<Rightarrow> owner_call \<Rightarrow> owner_call \<Rightarrow> bool" where
  "owner_call_steps fallback \<equiv> (owner_call_step fallback)\<^sup>*\<^sup>*"

definition owner_call_ok :: "bool \<Rightarrow> owner_call \<Rightarrow> bool" where
  "owner_call_ok fallback c \<longleftrightarrow>
     (case oc_owner c of
        TaskQueued \<Rightarrow> oc_runs c = [] \<and> \<not> oc_started c \<and> \<not> oc_done c
      | TaskRuns \<Rightarrow> oc_runs c = [] \<and> oc_started c \<and> \<not> oc_done c \<and> \<not> oc_abandoned c
      | TaskRan b \<Rightarrow> oc_runs c = [b] \<and> oc_started c \<and> \<not> oc_done c \<and> \<not> oc_abandoned c
      | TaskOver \<Rightarrow> if oc_abandoned c then oc_runs c = [] else oc_started c \<and> oc_done c \<and> oc_runs c = [oc_result c]) \<and>
     (case oc_caller c of
        WaitsForStart \<Rightarrow> \<not> oc_abandoned c
      | WaitsForResult \<Rightarrow> \<not> oc_abandoned c \<and> oc_started c
      | Returned v \<Rightarrow> if oc_abandoned c then v = fallback \<and> oc_runs c = [] else oc_done c \<and> v = oc_result c \<and> oc_runs c = [v])"

lemma owner_call_ok_step: "owner_call_step fallback c c' \<Longrightarrow> owner_call_ok fallback c \<Longrightarrow> owner_call_ok fallback c'"
  by (induction rule: owner_call_step.induct)
    (auto simp: owner_call_ok_def caller_first_wait_def caller_second_wait_def owner_begins_def owner_runs_def owner_ends_def
      split: owner_phase.splits caller_phase.splits if_splits)

lemma owner_call_ok_steps: "owner_call_steps fallback c c' \<Longrightarrow> owner_call_ok fallback c \<Longrightarrow> owner_call_ok fallback c'"
  by (induction rule: rtranclp_induct) (auto intro: owner_call_ok_step)

lemma owner_call_returned: "owner_call_steps fallback c c' \<Longrightarrow> oc_caller c = Returned v \<Longrightarrow> oc_caller c' = Returned v"
  by (induction rule: rtranclp_induct)
    (auto elim!: owner_call_step.cases simp: owner_begins_def owner_runs_def owner_ends_def)

text \<open>
  C34. A call from outside reports what happened. However the caller's time-out, its waits and the owner's steps
  interleave: once the call has returned, either the function ran exactly once and the call returned its result, or
  the call returned the fallback and the function has not run and never will, also when the owner comes to the
  posted task later.
\<close>
theorem owner_call_reports_what_happened:
  assumes "owner_call_steps fallback owner_call_init c" "oc_caller c = Returned v" "owner_call_steps fallback c later"
  shows "oc_caller later = Returned v \<and> oc_runs later = oc_runs c \<and> (oc_runs c = [v] \<or> oc_runs c = [] \<and> v = fallback)"
proof -
  have init: "owner_call_ok fallback owner_call_init" by (simp add: owner_call_ok_def owner_call_init_def)
  have c: "owner_call_ok fallback c" using assms(1) init by (rule owner_call_ok_steps)
  have l: "owner_call_ok fallback later" using assms(3) c by (rule owner_call_ok_steps)
  have r: "oc_caller later = Returned v" using assms(3,2) by (rule owner_call_returned)
  have "oc_abandoned later = oc_abandoned c"
    using assms(3,2) c
  proof (induction rule: rtranclp_induct)
    case (step y z)
    have "oc_caller y = Returned v" using step.hyps(1) step.prems(1) by (rule owner_call_returned)
    then show ?case using step by (auto elim!: owner_call_step.cases simp: owner_begins_def owner_runs_def owner_ends_def)
  qed simp
  then show ?thesis using c l r assms(2) by (auto simp: owner_call_ok_def split: if_splits)
qed

text \<open>The time-out wins: the owner comes to the task when the caller has returned.\<close>

definition demo_abandoned :: owner_call where
  "demo_abandoned = caller_first_wait False owner_call_init"

theorem owner_call_reports_what_happened_witness:
  "oc_caller demo_abandoned = Returned False \<and> oc_owner (owner_begins demo_abandoned) = TaskOver \<and> oc_runs (owner_begins demo_abandoned) = []"
proof -
  have "owner_call_steps False owner_call_init demo_abandoned"
    unfolding demo_abandoned_def by (intro r_into_rtranclp owner_call_step.first_wait) (simp add: owner_call_init_def)
  moreover have r: "oc_caller demo_abandoned = Returned False" "oc_owner demo_abandoned = TaskQueued" "oc_abandoned demo_abandoned"
      "oc_runs demo_abandoned = []"
    by (simp_all add: demo_abandoned_def caller_first_wait_def owner_call_init_def)
  moreover have "owner_call_steps False demo_abandoned (owner_begins demo_abandoned)"
    using r(2) by (intro r_into_rtranclp owner_call_step.begins)
  ultimately have "oc_runs (owner_begins demo_abandoned) = oc_runs demo_abandoned"
    using owner_call_reports_what_happened by blast
  then show ?thesis using r by (simp add: owner_begins_def)
qed

end
