(* ===== verification/Spec2Isabelle.thy ===== *)
theory Spec2Isabelle
  imports Timers Strands ThreadPools IoServices HttpMessages WebSocketFrames WebSocketHandshake IniFiles TraceBuffers NodeTicks Signals HttpServers WebSockets TaskSequences CommandLines WebSocketServers UdpSockets
begin

text \<open>
  A verification library of SimplyNodeFramework, a C++ framework of nodes that live in trees, belong to
  executors and talk through signals.

  \<^bold>\<open>The program.\<close> A \<open>Node\<close> (\<open>lib/Core\<close>) has a parent, children and an owner: an \<open>EventLoop\<close>, which
  is one thread, or a \<open>Strand\<close>, which is a queue of tasks that any worker of a \<open>TaskPool\<close> may drain,
  one at a time. Both are an \<open>Executor\<close>: they take posted tasks, deferred deletions, timers and watches
  of descriptors. A \<open>Timer\<close> arms itself at its owner, a strand passing it on to the \<open>TimerService\<close>;
  descriptors of strands are watched by the \<open>IoService\<close>. A \<open>Signal\<close> calls its slots at once or posts
  the call to the owner of the receiver. On top of nodes and descriptors stand \<open>IOEvent\<close>,
  \<open>TcpSocket\<close>, \<open>TcpServer\<close> and \<open>UdpSocket\<close> (\<open>lib/Network\<close>), the \<open>HttpServer\<close> with its request parser
  (\<open>lib/HttpServer\<close>) and the web socket with its server, handshake and frame codec (\<open>lib/WebSocket\<close>).

  \<^bold>\<open>The theories.\<close>
  \<^item> \<open>Prelude\<close>: strings, streams and words as the C++ library has them; collections of facts.
    \<open>StdMap\<close>: the locale \<open>ordered_map\<close> and its interpretation on sorted association lists.
  \<^item> \<open>Executors\<close>: the locale \<open>timer_host\<close>, what a timer relies on. \<open>EventLoop\<close> models
    \<open>EventLoop.cpp\<close> with its queues, the pass of pending work, \<open>run\<close> and its wait;
    \<open>TimerService\<close> the deadlines of strands; both interpret the locale. \<open>Timers\<close> models
    \<open>Timer.cpp\<close>, proves its guarantees once in the locale and takes them at both interpretations.
  \<^item> \<open>Strands\<close>: \<open>Strand.cpp\<close> and \<open>TaskPool.cpp\<close>, the locked regions as functions and the
    threads as a step relation. \<open>ThreadPools\<close>: \<open>ThreadPool.cpp\<close> and the selection of a worker.
    \<open>IoServices\<close>: \<open>IoService.cpp\<close>. \<open>TaskSequences\<close>: \<open>AsyncTaskSequence.cpp\<close>, a graph of tasks
    on a pool.
  \<^item> \<open>NodeHosts\<close>, \<open>NodeTree\<close>, \<open>NodeTreeSafety\<close>, \<open>NodeTreeOps\<close>, \<open>NodeLifecycle\<close>,
    \<open>NodeProperties\<close>, \<open>NodeTicks\<close>: \<open>Node.cpp\<close>, \<open>NodePtr.h\<close>, \<open>NodeRegistry.cpp\<close> and the table of alive
    nodes of \<open>Application.cpp\<close> on an explicit store of nodes and lifetime blocks, in which an access
    to freed memory, an exception and exhausted fuel are outcomes of their own.
  \<^item> \<open>Signals\<close>: \<open>Connection.h\<close>, emission slot by slot and task by task.
  \<^item> \<open>IoEvents\<close>, \<open>TcpSockets\<close>: \<open>IOEvent.cpp\<close> and \<open>TcpSocket.cpp\<close>. The answers of
    \<open>send\<close> and \<open>recv\<close> are finite lists in the environment; a list that is used up answers that
    the call would block. \<open>TcpServers\<close>: \<open>TcpServer.cpp\<close> with the TCP sockets it makes, on a list of
    answers of \<open>accept4\<close>. \<open>UdpSockets\<close>: \<open>UdpSocket.cpp\<close>, and its calls from outside that wait for the owner.
  \<^item> \<open>HttpMessages\<close>: \<open>HttpRequestParser.cpp\<close>, \<open>HttpRequest.cpp\<close>, \<open>HttpResponse.cpp\<close>.
    \<open>HttpServers\<close>: \<open>HttpServer.cpp\<close> on the TCP socket.
  \<^item> \<open>WebSocketFrames\<close>, \<open>Digests\<close>, \<open>WebSocketHandshake\<close>, \<open>WebSockets\<close>: the frame codec, base64
    and SHA-1, the handshake messages, and the web socket on the TCP socket. \<open>WebSocketServers\<close>:
    \<open>WebSocketServer.cpp\<close>, and the part of \<open>HttpServer.cpp\<close> that listens and takes connections, on the TCP server.
  \<^item> \<open>IniFiles\<close>: \<open>IniParser.cpp\<close>. \<open>CommandLines\<close>: \<open>CommandLineParser.cpp\<close> and
    \<open>CommandLineOption.cpp\<close>. \<open>TraceBuffers\<close>: the ring buffer of the profiler.

  \<^bold>\<open>What the lemmas show.\<close>
  \<^item> Timers and executors: a timer fires exactly as often and as late as it was armed for, on an event loop and on a
    strand alike; tasks of a strand run in the order of posting, never two at once, and none is forgotten; a
    registration of a descriptor has at most one callback under way. A sequence of tasks runs each task once,
    after its dependencies, and finishes; its check accepts exactly the graphs without a cycle.
  \<^item> Nodes: no history of the operations of \<open>node_step\<close> touches freed memory, deletion frees exactly the subtree, a
    pointer knows whether its node still exists, migration keeps families together, a tick without pending deletions
    updates every node once, children first.
    Signals: a call that an emission owes is made at most once, inside its owner.
  \<^item> Sockets: the watch of a descriptor follows its node; a connection is two byte streams; a server neither loses nor
    repeats a descriptor; datagrams are handed out once and in order, cut to the buffer size; a call that waits for the owner reports what happened.
  \<^item> Protocols: requests, frames, handshakes and messages are read back as they were written, however the bytes
    are cut; limits are kept; a response is sent completely before the connection is closed; a
    static file lies inside its directory.
  \<^item> Text and buffers: the configuration parser is a map that survives saving and loading, options are read back
    as they were given, no entry of the trace buffer is lost.
  \<^item> Some theorems show what the code does wrong: a chunk size lost between two feeds, a tick whose loop over
    the pending children is invalidated by the first one it deletes, a socket that no longer receives after one
    datagram could not be sent.

  \<^bold>\<open>Their scope.\<close>
  \<^item> The steps of the node tree are its operations as a careful client calls them: addresses passed in are allocated,
    nobody becomes a child of its own descendant, and \<open>addChild\<close> is called with a root (for a child of another node it
    leaves a stale entry, \<open>adopting_a_child_leaves_a_stale_entry\<close>). The \<open>Application\<close> exists. A constructor that throws is
    covered. Executors are created but not destroyed. \<open>Node::run\<close> is not a step: the deletions, clearings and updates it is made of are
    (\<open>tick_steps\<close>), and its own loops are the subject of \<open>NodeTicks\<close>.
  \<^item> Intervals and deadlines of timers are unbounded integers, so an interval whose nanoseconds exceed 64 bits is not
    covered; in the steps of \<open>Timers\<close> a timer is neither destroyed nor migrated.
  \<^item> Callbacks of the \<open>IoService\<close> return; an exception thrown by one is not modelled.
  \<^item> The round trips of requests and the guarantee of the HTTP server speak of the requests of \<open>sendable\<close>: no query, no
    chunks, a \<open>Content-Length\<close> that is exact or absent without a body.

  An operation keeps the name of its function with the class in front, a field that of its member with
  a prefix for the class. A \<open>size_t\<close> that counts elements is a natural number, one that can wrap a
  64-bit word.

  \<^bold>\<open>Concurrency.\<close> A region under a lock is one function; threads are steps of an inductive relation
  over these functions, so that invariants by rule induction hold for every interleaving. Signals of
  objects are lists of what was emitted, in order.

  \<^bold>\<open>Bounds and fuel.\<close> Recursion over the node tree takes fuel; the number of nodes is enough, and the
  safety theorem shows that the outcome for exhausted fuel does not occur. Counters that wrap (timer
  generations, registrations) are compared for histories of less than \<open>2 ^ 64\<close> steps. Loops over the
  kernel end with the list of its answers.

  \<^bold>\<open>Not modelled.\<close>
  \<^item> The kernel and the threads themselves: \<open>EpollPoller.cpp\<close>, thread objects and condition variables (a
    waiting thread is a step that needs the condition), \<open>ThreadStorage.h\<close>, the singleton and the shutdown of
    \<open>Application.cpp\<close>, the activity clocks of loops and pools.
  \<^item> Files, child processes and output: \<open>File.cpp\<close>, \<open>TempFile.cpp\<close>, \<open>Process.cpp\<close>,
    \<open>TimeLapse.cpp\<close>, the loggers. They are system calls with little state of their own.
  \<^item> \<open>HostAddress.cpp\<close>: resolving a host is an argument of the sockets. \<open>LocalSocket.cpp\<close> and
    \<open>LocalServer.cpp\<close> repeat the design of the TCP classes over socket files.
  \<^item> Bindings to libraries that are not part of the repository: the databases, \<open>lib/Json\<close> (nlohmann json),
    \<open>lib/Snmp\<close> (net-snmp), \<open>lib/Widgets\<close> (ImGui), and the browser back end of the web socket.
  \<^item> The rest of the profiler: allocation hooks and the reading of \<open>/proc\<close>. \<open>PooledNode.cpp\<close>, whose
    one operation combines operations of the strand and of the node that are modelled; \<open>Variant.h\<close> and
    the table models; the examples.
\<close>

end
